(* ===== verification/Prelude.thy ===== *)
theory Prelude
  imports Main "HOL-Library.Word"
begin

text \<open>
  Shared vocabulary of the development: the machine integers of the Rust source as words, the
  arithmetic of the Rust standard library on them (checked, saturating and wrapping operations),
  results as sums, slices, and byte encodings with their round trips. The
  \<open>named_theorems\<close> collections gather the facts that the component theories pass to
  \<open>simp\<close> and \<open>auto\<close>.
\<close>

unbundle bit_operations_syntax

named_theorems rust_arith \<open>definitions of the checked and saturating operations\<close>
named_theorems le_simps \<open>length and round-trip facts of the little-endian encodings\<close>
named_theorems result_simps \<open>elimination of results and their sequencing\<close>

section \<open>Types\<close>

type_synonym u8 = "8 word"
type_synonym u16 = "16 word"
type_synonym u32 = "32 word"
type_synonym u64 = "64 word"
type_synonym u128 = "128 word"
type_synonym bytes = "u8 list"

text \<open>A Rust \<open>Result\<close> is a sum, the error on the left.\<close>

abbreviation Err :: "'e \<Rightarrow> 'e + 'a" where
  "Err \<equiv> Inl"

abbreviation Ok :: "'a \<Rightarrow> 'e + 'a" where
  "Ok \<equiv> Inr"

definition and_then :: "'e + 'a \<Rightarrow> ('a \<Rightarrow> 'e + 'b) \<Rightarrow> 'e + 'b" where
  "and_then r f = (case r of Inl e \<Rightarrow> Inl e | Inr a \<Rightarrow> f a)"

definition map_err :: "('e \<Rightarrow> 'f) \<Rightarrow> 'e + 'a \<Rightarrow> 'f + 'a" where
  "map_err f r = (case r of Inl e \<Rightarrow> Inl (f e) | Inr a \<Rightarrow> Inr a)"

definition ok_or :: "'e \<Rightarrow> 'a option \<Rightarrow> 'e + 'a" where
  "ok_or e x = (case x of None \<Rightarrow> Inl e | Some a \<Rightarrow> Inr a)"

definition is_ok :: "'e + 'a \<Rightarrow> bool" where
  "is_ok r = (case r of Inl _ \<Rightarrow> False | Inr _ \<Rightarrow> True)"

lemma and_then_simps [simp]:
  "and_then (Inl e) f = Inl e" "and_then (Inr a) f = f a"
  by (simp_all add: and_then_def)

lemma map_err_simps [simp]:
  "map_err g (Inl e) = Inl (g e)" "map_err g (Inr a) = Inr a"
  by (simp_all add: map_err_def)

lemma ok_or_simps [simp]:
  "ok_or e None = Inl e" "ok_or e (Some a) = Inr a"
  by (simp_all add: ok_or_def)

lemma is_ok_simps [simp]: "is_ok (Inr a)" "\<not> is_ok (Inl e)"
  by (simp_all add: is_ok_def)

lemma and_then_eq_Inr [result_simps]:
  "and_then r f = Inr b \<longleftrightarrow> (\<exists>a. r = Inr a \<and> f a = Inr b)"
  by (cases r) auto

lemma and_then_eq_Inl [result_simps]:
  "and_then r f = Inl e \<longleftrightarrow> r = Inl e \<or> (\<exists>a. r = Inr a \<and> f a = Inl e)"
  by (cases r) auto

lemma map_err_eq_Inr [result_simps]: "map_err g r = Inr a \<longleftrightarrow> r = Inr a"
  by (cases r) auto

lemma ok_or_eq_Inr [result_simps]: "ok_or e x = Inr a \<longleftrightarrow> x = Some a"
  by (cases x) auto

lemma ok_or_eq_Inl [result_simps]: "ok_or e x = Inl e' \<longleftrightarrow> x = None \<and> e' = e"
  by (cases x) auto

lemma is_ok_iff: "is_ok r \<longleftrightarrow> (\<exists>a. r = Inr a)"
  by (cases r) auto

section \<open>Machine arithmetic\<close>

definition checked_add :: "'a::len word \<Rightarrow> 'a word \<Rightarrow> 'a word option" where
  [rust_arith]: "checked_add a b = (if unat a + unat b < 2 ^ LENGTH('a) then Some (a + b) else None)"

definition checked_sub :: "'a::len word \<Rightarrow> 'a word \<Rightarrow> 'a word option" where
  [rust_arith]: "checked_sub a b = (if b \<le> a then Some (a - b) else None)"

definition checked_mul :: "'a::len word \<Rightarrow> 'a word \<Rightarrow> 'a word option" where
  [rust_arith]: "checked_mul a b = (if unat a * unat b < 2 ^ LENGTH('a) then Some (a * b) else None)"

definition saturating_sub :: "'a::len word \<Rightarrow> 'a word \<Rightarrow> 'a word" where
  [rust_arith]: "saturating_sub a b = (if b \<le> a then a - b else 0)"

definition saturating_add :: "'a::len word \<Rightarrow> 'a word \<Rightarrow> 'a word" where
  [rust_arith]: "saturating_add a b = (if unat a + unat b < 2 ^ LENGTH('a) then a + b else - 1)"

definition is_power_of_two :: "'a::len word \<Rightarrow> bool" where
  "is_power_of_two x = list_ex (\<lambda>k. x = push_bit k 1) [0..<LENGTH('a)]"

definition is_multiple_of :: "'a::len word \<Rightarrow> 'a word \<Rightarrow> bool" where
  "is_multiple_of x m = (if m = 0 then x = 0 else x mod m = 0)"

definition usize_max_wasm32 :: nat where
  "usize_max_wasm32 = 2 ^ 32 - 1"

lemma unat_add_no_wrap:
  fixes a b :: "'a::len word"
  assumes "unat a + unat b < 2 ^ LENGTH('a)"
  shows "unat (a + b) = unat a + unat b"
  using assms by (simp add: unat_word_ariths)

lemma unat_mult_no_wrap:
  fixes a b :: "'a::len word"
  assumes "unat a * unat b < 2 ^ LENGTH('a)"
  shows "unat (a * b) = unat a * unat b"
  using assms by (simp add: unat_word_ariths)

lemma checked_add_Some:
  fixes a b :: "'a::len word"
  shows "checked_add a b = Some c \<longleftrightarrow> unat a + unat b < 2 ^ LENGTH('a) \<and> c = a + b"
  by (auto simp: checked_add_def)

lemma checked_add_unat:
  fixes a b :: "'a::len word"
  shows "checked_add a b = Some c \<Longrightarrow> unat c = unat a + unat b"
  by (auto simp: checked_add_Some unat_add_no_wrap)

lemma checked_add_None:
  fixes a b :: "'a::len word"
  shows "checked_add a b = None \<longleftrightarrow> 2 ^ LENGTH('a) \<le> unat a + unat b"
  by (auto simp: checked_add_def)

lemma checked_mul_unat:
  fixes a b :: "'a::len word"
  shows "checked_mul a b = Some c \<Longrightarrow> unat c = unat a * unat b"
  by (auto simp: checked_mul_def unat_mult_no_wrap split: if_splits)

lemma unat_saturating_sub [simp]:
  fixes a b :: "'a::len word"
  shows "unat (saturating_sub a b) = unat a - unat b"
  by (auto simp: saturating_sub_def unat_sub word_le_nat_alt)

lemma unat_sub_le:
  fixes a b :: "'a::len word"
  shows "b \<le> a \<Longrightarrow> unat (a - b) = unat a - unat b"
  by (rule unat_sub)

lemma unat_lt_pow [simp]:
  fixes a :: "'a::len word"
  shows "unat a < 2 ^ LENGTH('a)"
  by (rule unsigned_less)

lemma unat_of_nat_eq:
  "n < 2 ^ LENGTH('a) \<Longrightarrow> unat (word_of_nat n :: 'a::len word) = n"
  by (simp add: unat_of_nat take_bit_nat_eq_self)

lemma is_multiple_of_unat:
  fixes x m :: "'a::len word"
  assumes "m \<noteq> 0"
  shows "is_multiple_of x m \<longleftrightarrow> unat m dvd unat x"
proof -
  have "x mod m = 0 \<longleftrightarrow> unat (x mod m) = 0"
    by (simp add: unat_eq_zero)
  then show ?thesis
    using assms by (simp add: is_multiple_of_def unat_mod_distrib dvd_eq_mod_eq_0)
qed

lemma is_power_of_two_pos: "is_power_of_two x \<Longrightarrow> x \<noteq> 0"
  by (auto simp: is_power_of_two_def list_ex_iff)

lemma is_power_of_two_iff:
  fixes x :: "'a::len word"
  shows "is_power_of_two x \<longleftrightarrow> (\<exists>k<LENGTH('a). x = 2 ^ k)"
  by (auto simp: is_power_of_two_def list_ex_iff push_bit_eq_mult)

section \<open>Slices\<close>

text \<open>Rust's \<open>slice.get(a..b)\<close>: \<open>None\<close> outside the slice.\<close>

definition slice :: "'a list \<Rightarrow> nat \<Rightarrow> nat \<Rightarrow> 'a list option" where
  "slice xs a b = (if a \<le> b \<and> b \<le> length xs then Some (take (b - a) (drop a xs)) else None)"

text \<open>\<open>xs[a..a + ys.len()].copy_from_slice(ys)\<close>, where the range is inside \<open>xs\<close>.\<close>

definition splice :: "'a list \<Rightarrow> nat \<Rightarrow> 'a list \<Rightarrow> 'a list" where
  "splice xs a ys = take a xs @ ys @ drop (a + length ys) xs"

lemma slice_Some:
  "slice xs a b = Some ys \<longleftrightarrow> a \<le> b \<and> b \<le> length xs \<and> ys = take (b - a) (drop a xs)"
  by (auto simp: slice_def)

lemma length_slice: "slice xs a b = Some ys \<Longrightarrow> length ys = b - a"
  by (auto simp: slice_Some)

lemma length_splice [simp]:
  "a + length ys \<le> length xs \<Longrightarrow> length (splice xs a ys) = length xs"
  by (simp add: splice_def)

lemma nth_splice:
  assumes "a + length ys \<le> length xs" and "i < length xs"
  shows "splice xs a ys ! i = (if a \<le> i \<and> i < a + length ys then ys ! (i - a) else xs ! i)"
  using assms by (auto simp: splice_def nth_append min_def)

lemma slice_splice_same:
  "a + length ys \<le> length xs \<Longrightarrow> slice (splice xs a ys) a (a + length ys) = Some ys"
  by (simp add: slice_def splice_def)

text \<open>The pieces \<open>slice::chunks\<close> iterates over.\<close>

function chunks :: "nat \<Rightarrow> 'a list \<Rightarrow> 'a list list" where
  "chunks n xs = (if xs = [] \<or> n = 0 then [] else take n xs # chunks n (drop n xs))"
  by pat_completeness auto
termination by (relation "measure (length \<circ> snd)") auto

declare chunks.simps [simp del]

lemma chunks_take: "0 < n \<Longrightarrow> xs \<noteq> [] \<Longrightarrow> chunks n xs = take n xs # chunks n (drop n xs)"
  by (simp add: chunks.simps [of n xs])

lemma chunks_Nil [simp]: "chunks n [] = []"
  by (simp add: chunks.simps)

lemma chunks_length: "c \<in> set (chunks n xs) \<Longrightarrow> length c \<le> n"
  by (induction n xs rule: chunks.induct) (subst (asm) chunks.simps, auto split: if_splits)

lemma length_chunks: "0 < n \<Longrightarrow> length (chunks n xs) = (length xs + n - 1) div n"
proof (induction n xs rule: chunks.induct)
  case (1 n xs)
  show ?case
  proof (cases "xs = []")
    case True
    then show ?thesis using 1 by simp
  next
    case False
    then have "length (chunks n xs) = Suc ((length xs - n + n - 1) div n)" using 1 by (simp add: chunks_take)
    also have "\<dots> = (length xs + n - 1) div n"
    proof (cases "n \<le> length xs")
      case True
      then have "length xs + n - 1 = (length xs - n + n - 1) + n" using "1.prems" by simp
      then show ?thesis using "1.prems" by (simp only: div_add_self2 [of n "length xs - n + n - 1"])
    next
      case F: False
      have "0 < length xs" using False by simp
      then have "length xs + n - 1 = length xs - 1 + n" by linarith
      then have "(length xs + n - 1) div n = Suc ((length xs - 1) div n)"
        using "1.prems" by (simp only: div_add_self2)
      then show ?thesis using F "1.prems" by simp
    qed
    finally show ?thesis .
  qed
qed

lemma chunks_concat: "0 < n \<Longrightarrow> list_all (\<lambda>c. length c = n) cs \<Longrightarrow> chunks n (concat cs) = cs"
  by (induction cs) (auto simp: chunks_take)

lemma nth_chunks: "0 < n \<Longrightarrow> i < length (chunks n xs) \<Longrightarrow> chunks n xs ! i = take n (drop (i * n) xs)"
proof (induction i arbitrary: xs)
  case 0
  then show ?case by (cases "xs = []") (auto simp: chunks_take)
next
  case (Suc i)
  then show ?case by (cases "xs = []") (auto simp: chunks_take add.commute)
qed

lemma chunks_short: "0 < n \<Longrightarrow> xs \<noteq> [] \<Longrightarrow> length xs \<le> n \<Longrightarrow> chunks n xs = [xs]"
  by (simp add: chunks_take)

lemma chunks_append: "0 < n \<Longrightarrow> length xs mod n = 0 \<Longrightarrow> chunks n (xs @ ys) = chunks n xs @ chunks n ys"
proof (induction n xs rule: chunks.induct)
  case (1 n xs)
  show ?case
  proof (cases "xs = []")
    case False
    with "1.prems" have "n \<le> length xs" by (metis length_greater_0_conv mod_less neq0_conv not_le)
    moreover from this "1.prems" have "length (drop n xs) mod n = 0" by (simp add: mod_if)
    ultimately show ?thesis using 1 False by (simp add: chunks_take)
  qed simp
qed

lemma concat_chunks: "0 < n \<Longrightarrow> concat (chunks n xs) = xs"
proof (induction n xs rule: chunks.induct)
  case (1 n xs)
  then show ?case by (cases "xs = []") (simp_all add: chunks_take)
qed

lemma take_chunks: "0 < n \<Longrightarrow> take k (chunks n xs) = chunks n (take (k * n) xs)"
proof (induction k arbitrary: xs)
  case (Suc k)
  show ?case
  proof (cases "xs = []")
    case False
    then have "take (Suc k * n) xs \<noteq> []" using Suc.prems by simp
    then have "chunks n (take (Suc k * n) xs) = take n xs # chunks n (take (k * n) (drop n xs))"
      using Suc.prems by (simp add: chunks_take drop_take)
    with Suc False show ?thesis by (simp add: chunks_take)
  qed simp
qed simp

section \<open>Little-endian encodings\<close>

fun le_bytes :: "nat \<Rightarrow> nat \<Rightarrow> bytes" where
  "le_bytes 0 n = []"
| "le_bytes (Suc k) n = word_of_nat (n mod 256) # le_bytes k (n div 256)"

fun of_le :: "bytes \<Rightarrow> nat" where
  "of_le [] = 0"
| "of_le (b # bs) = unat b + 256 * of_le bs"

lemma length_le_bytes [simp, le_simps]: "length (le_bytes k n) = k"
  by (induction k arbitrary: n) auto

lemma of_le_bound [le_simps]: "of_le bs < 256 ^ length bs"
proof (induction bs)
  case Nil
  then show ?case by simp
next
  case (Cons b bs)
  have "unat b < 256"
    using unat_lt_pow [of b] by simp
  with Cons show ?case by simp
qed

lemma of_le_le_bytes [simp, le_simps]: "of_le (le_bytes k n) = n mod 256 ^ k"
proof (induction k arbitrary: n)
  case 0
  then show ?case by simp
next
  case (Suc k)
  have "unat (word_of_nat (n mod 256) :: u8) = n mod 256"
    by (simp add: unat_of_nat_eq)
  with Suc show ?case
    by (simp add: mod_mult2_eq mult.commute)
qed

lemma le_bytes_of_le [simp, le_simps]: "le_bytes (length bs) (of_le bs) = bs"
proof (induction bs)
  case Nil
  then show ?case by simp
next
  case (Cons b bs)
  have "unat b < 256"
    using unat_lt_pow [of b] by simp
  with Cons show ?case by simp
qed

definition to_le_u16 :: "u16 \<Rightarrow> bytes" where
  "to_le_u16 x = le_bytes 2 (unat x)"

definition to_le_u32 :: "u32 \<Rightarrow> bytes" where
  "to_le_u32 x = le_bytes 4 (unat x)"

definition to_le_u64 :: "u64 \<Rightarrow> bytes" where
  "to_le_u64 x = le_bytes 8 (unat x)"

definition from_le_u16 :: "bytes \<Rightarrow> u16" where
  "from_le_u16 bs = word_of_nat (of_le bs)"

definition from_le_u32 :: "bytes \<Rightarrow> u32" where
  "from_le_u32 bs = word_of_nat (of_le bs)"

definition from_le_u64 :: "bytes \<Rightarrow> u64" where
  "from_le_u64 bs = word_of_nat (of_le bs)"

lemma length_to_le [simp, le_simps]:
  "length (to_le_u16 a) = 2" "length (to_le_u32 b) = 4" "length (to_le_u64 c) = 8"
  by (simp_all add: to_le_u16_def to_le_u32_def to_le_u64_def)

lemma from_to_le_u16 [simp, le_simps]: "from_le_u16 (to_le_u16 x) = x"
  using unat_lt_pow [of x] by (simp add: from_le_u16_def to_le_u16_def)

lemma from_to_le_u32 [simp, le_simps]: "from_le_u32 (to_le_u32 x) = x"
  using unat_lt_pow [of x] by (simp add: from_le_u32_def to_le_u32_def)

lemma from_to_le_u64 [simp, le_simps]: "from_le_u64 (to_le_u64 x) = x"
  using unat_lt_pow [of x] by (simp add: from_le_u64_def to_le_u64_def)

lemma to_from_le_u16: "length bs = 2 \<Longrightarrow> to_le_u16 (from_le_u16 bs) = bs"
  using of_le_bound [of bs] le_bytes_of_le [of bs]
  by (simp add: from_le_u16_def to_le_u16_def unat_of_nat_eq)

lemma to_from_le_u32: "length bs = 4 \<Longrightarrow> to_le_u32 (from_le_u32 bs) = bs"
  using of_le_bound [of bs] le_bytes_of_le [of bs]
  by (simp add: from_le_u32_def to_le_u32_def unat_of_nat_eq)

lemma to_from_le_u64: "length bs = 8 \<Longrightarrow> to_le_u64 (from_le_u64 bs) = bs"
  using of_le_bound [of bs] le_bytes_of_le [of bs]
  by (simp add: from_le_u64_def to_le_u64_def unat_of_nat_eq)

section \<open>Big-endian encodings\<close>

definition be_bytes :: "nat \<Rightarrow> nat \<Rightarrow> bytes" where
  "be_bytes k n = rev (le_bytes k n)"

definition of_be :: "bytes \<Rightarrow> nat" where
  "of_be bs = of_le (rev bs)"

lemma length_be_bytes [simp, le_simps]: "length (be_bytes k n) = k"
  by (simp add: be_bytes_def)

lemma of_be_bound [le_simps]: "of_be bs < 256 ^ length bs"
  using of_le_bound [of "rev bs"] by (simp add: of_be_def)

lemma of_be_be_bytes [simp, le_simps]: "of_be (be_bytes k n) = n mod 256 ^ k"
  by (simp add: of_be_def be_bytes_def)

lemma be_bytes_of_be [simp, le_simps]: "be_bytes (length bs) (of_be bs) = bs"
  using le_bytes_of_le [of "rev bs"] by (simp add: of_be_def be_bytes_def)

section \<open>Lists\<close>

definition list_position :: "('a \<Rightarrow> bool) \<Rightarrow> 'a list \<Rightarrow> nat option" where
  "list_position P xs =
     (let i = length (takeWhile (\<lambda>x. \<not> P x) xs) in if i < length xs then Some i else None)"

lemma list_position_Some:
  assumes "list_position P xs = Some i"
  shows "i < length xs" and "P (xs ! i)" and "\<And>j. j < i \<Longrightarrow> \<not> P (xs ! j)"
proof -
  let ?k = "length (takeWhile (\<lambda>x. \<not> P x) xs)"
  from assms have i: "i = ?k" and lt: "?k < length xs"
    by (auto simp: list_position_def Let_def split: if_splits)
  show "i < length xs" using i lt by simp
  show "P (xs ! i)" using i lt nth_length_takeWhile [OF lt] by simp
  show "\<not> P (xs ! j)" if "j < i" for j
    using that i takeWhile_nth [of j "\<lambda>x. \<not> P x" xs] nth_mem [of j "takeWhile (\<lambda>x. \<not> P x) xs"]
    by (metis set_takeWhileD)
qed

lemma list_position_None: "list_position P xs = None \<longleftrightarrow> (\<forall>x \<in> set xs. \<not> P x)"
proof -
  have "length (takeWhile (\<lambda>x. \<not> P x) xs) < length xs
      \<longleftrightarrow> takeWhile (\<lambda>x. \<not> P x) xs \<noteq> xs"
    by (metis length_takeWhile_le less_irrefl nat_less_le takeWhile_eq_take take_all_iff)
  then show ?thesis
    by (auto simp: list_position_def Let_def takeWhile_eq_all_conv split: if_splits)
qed

lemma list_position_simps:
  "list_position P [] = None"
  "list_position P (x # xs) = (if P x then Some 0 else map_option Suc (list_position P xs))"
  by (simp_all add: list_position_def Let_def)

lemma sum_list_filter_le:
  fixes f :: "'a \<Rightarrow> nat"
  shows "sum_list (map f (filter P xs)) \<le> sum_list (map f xs)"
  by (induction xs) auto

lemma sum_list_const_le:
  fixes f :: "'a \<Rightarrow> nat"
  assumes "\<And>x. x \<in> set xs \<Longrightarrow> f x \<le> b"
  shows "sum_list (map f xs) \<le> length xs * b"
  using assms
proof (induction xs)
  case Nil
  then show ?case by simp
next
  case (Cons x xs)
  then have "f x \<le> b" and "sum_list (map f xs) \<le> length xs * b"
    by simp_all
  then show ?case by simp
qed

lemma unat_ucast_up [simp]:
  fixes x :: "'a::len word"
  assumes "LENGTH('a) \<le> LENGTH('b::len)"
  shows "unat (ucast x :: 'b word) = unat x"
proof -
  have "unat x < 2 ^ LENGTH('b)"
    using unat_lt_pow [of x] assms by (meson less_le_trans one_le_numeral power_increasing)
  then show ?thesis
    by (simp add: unsigned_ucast_eq take_bit_nat_eq_self)
qed

lemma u64_half_masks:
  "(0xffffffff :: u64) = mask 32" "(0xffffffff00000000 :: u64) = NOT (mask 32)"
  by (simp_all add: mask_eq_exp_minus_1 not_eq_complement)

end
