(* ===== verification/Limits.thy ===== *)
theory Limits
  imports Prelude
begin

text \<open>
  The shared resource limits and the guest RAM layout of \<open>crates/terra-limits/src/lib.rs\<close>.
\<close>

definition X86_MAX_DEVICES :: nat where "X86_MAX_DEVICES = 37"
definition ARM_MAX_DEVICES :: nat where "ARM_MAX_DEVICES = 16"
definition MAX_DEVICES :: nat where
  "MAX_DEVICES = (if X86_MAX_DEVICES > ARM_MAX_DEVICES then X86_MAX_DEVICES else ARM_MAX_DEVICES)"
definition X86_IOAPIC_PINS :: nat where "X86_IOAPIC_PINS = 24"
definition X86_RAM_BASE :: u64 where "X86_RAM_BASE = 0"
definition X86_MMIO_BASE :: u64 where "X86_MMIO_BASE = 0xd0000000"
definition X86_MMIO_STRIDE :: u64 where "X86_MMIO_STRIDE = 0x1000"
definition X86_RAM_LOW_END :: u64 where "X86_RAM_LOW_END = X86_MMIO_BASE"
definition X86_KVM_IDENTITY_MAP_ADDR :: u64 where "X86_KVM_IDENTITY_MAP_ADDR = 0xfffbc000"
definition X86_HIGH_RAM_BASE :: u64 where "X86_HIGH_RAM_BASE = 0x100000000"
definition RAM_PAGE_SIZE :: u64 where "RAM_PAGE_SIZE = 4096"
definition ARM_RAM_BASE :: u64 where "ARM_RAM_BASE = 0x40000000"
definition MAX_SINGLE_GUEST_COPY_BYTES :: u64 where "MAX_SINGLE_GUEST_COPY_BYTES = 16 * 1024"
definition MAX_COMPONENT_HOSTCALL_BYTES :: nat where "MAX_COMPONENT_HOSTCALL_BYTES = 64 * 1024"
definition MAX_BATCH_GUEST_COPY_BYTES :: u64 where
  "MAX_BATCH_GUEST_COPY_BYTES = word_of_nat MAX_COMPONENT_HOSTCALL_BYTES"
definition MAX_BATCH_GUEST_COPY_RANGES :: nat where "MAX_BATCH_GUEST_COPY_RANGES = 32"
definition MAX_GUEST_DISCARD_BYTES :: u64 where "MAX_GUEST_DISCARD_BYTES = 1024 * 1024"
definition MAX_RECLAIM_REPORT_RANGES :: nat where "MAX_RECLAIM_REPORT_RANGES = 32"
definition MAX_RECLAIM_REPORT_BYTES :: u64 where "MAX_RECLAIM_REPORT_BYTES = 128 * 1024 * 1024"

record ram_region =
  region_base :: u64
  region_size :: u64

datatype ram_layout = One ram_region | Two ram_region ram_region

fun regions :: "ram_layout \<Rightarrow> ram_region list" where
  "regions (One r) = [r]"
| "regions (Two r s) = [r, s]"

definition x86_ram_layout :: "u64 \<Rightarrow> ram_layout option" where
  "x86_ram_layout sz =
     (if sz = 0 \<or> \<not> is_multiple_of sz RAM_PAGE_SIZE then None
      else let low_capacity = X86_RAM_LOW_END - X86_RAM_BASE;
               low_size = (if sz < low_capacity then sz else low_capacity);
               high_size = sz - low_size
           in if high_size = 0 then Some (One \<lparr>region_base = X86_RAM_BASE, region_size = low_size\<rparr>)
              else if checked_add X86_HIGH_RAM_BASE high_size = None then None
              else Some (Two \<lparr>region_base = X86_RAM_BASE, region_size = low_size\<rparr>
                             \<lparr>region_base = X86_HIGH_RAM_BASE, region_size = high_size\<rparr>))"

definition arm_ram_layout :: "u64 \<Rightarrow> ram_layout option" where
  "arm_ram_layout sz =
     (if sz = 0 \<or> \<not> is_multiple_of sz RAM_PAGE_SIZE then None
      else if checked_add ARM_RAM_BASE sz = None then None
      else Some (One \<lparr>region_base = ARM_RAM_BASE, region_size = sz\<rparr>))"

lemma unat_limits [simp]:
  "unat MAX_SINGLE_GUEST_COPY_BYTES = 16384"
  "unat MAX_BATCH_GUEST_COPY_BYTES = 65536"
  "unat MAX_GUEST_DISCARD_BYTES = 1048576"
  "unat MAX_RECLAIM_REPORT_BYTES = 134217728"
  by (simp_all add: MAX_SINGLE_GUEST_COPY_BYTES_def MAX_BATCH_GUEST_COPY_BYTES_def
      MAX_COMPONENT_HOSTCALL_BYTES_def MAX_GUEST_DISCARD_BYTES_def MAX_RECLAIM_REPORT_BYTES_def)

lemma x86_ram_layout_spec:
  assumes "x86_ram_layout sz = Some l"
  shows "sum_list (map (\<lambda>r. unat (region_size r)) (regions l)) = unat sz
    \<and> list_all (\<lambda>r. region_size r \<noteq> 0 \<and> 4096 dvd unat (region_base r) \<and> 4096 dvd unat (region_size r)
        \<and> unat (region_base r) + unat (region_size r) < 2 ^ 64
        \<and> (unat (region_base r) + unat (region_size r) \<le> 0xd0000000
           \<or> 0x100000000 \<le> unat (region_base r))) (regions l)"
proof -
  have dv: "sz \<noteq> 0" "4096 dvd unat sz"
    using assms by (auto simp: x86_ram_layout_def is_multiple_of_unat RAM_PAGE_SIZE_def split: if_splits)
  show ?thesis
  proof (cases "sz \<le> X86_RAM_LOW_END")
    case True
    then have "l = One \<lparr>region_base = 0, region_size = sz\<rparr>"
      using assms by (auto simp: x86_ram_layout_def Let_def X86_RAM_BASE_def split: if_splits)
    with True dv show ?thesis
      by (simp add: word_le_nat_alt X86_RAM_LOW_END_def X86_MMIO_BASE_def)
  next
    case False
    then have "l = Two \<lparr>region_base = 0, region_size = X86_RAM_LOW_END\<rparr>
        \<lparr>region_base = X86_HIGH_RAM_BASE, region_size = sz - X86_RAM_LOW_END\<rparr>"
      and "checked_add X86_HIGH_RAM_BASE (sz - X86_RAM_LOW_END) \<noteq> None"
      using assms by (auto simp: x86_ram_layout_def Let_def X86_RAM_BASE_def split: if_splits)
    moreover have "unat (sz - X86_RAM_LOW_END) = unat sz - 0xd0000000" "0xd0000000 < unat sz"
      using False by (auto simp: unat_sub word_le_nat_alt X86_RAM_LOW_END_def X86_MMIO_BASE_def)
    moreover have "(4096::nat) dvd 0xd0000000" by simp
    ultimately show ?thesis
      using dv False by (auto simp: checked_add_None X86_HIGH_RAM_BASE_def
          X86_RAM_LOW_END_def X86_MMIO_BASE_def)
  qed
qed

end
