(* ===== verification/Guest_Memory.thy ===== *)
theory Guest_Memory
  imports Prelude Limits
begin

text \<open>
  Guest RAM as the devices see it: the native mappings of
  \<open>crates/terra-hypervisor/src/memory.rs\<close> over a backing (\<open>memory/windows.rs\<close> is
  modelled; on Unix the backing is the external \<open>vm_memory\<close> crate, which is why the backing
  is a parameter with a contract, the locale \<open>ram_backing\<close>), and the bounded access of
  \<open>crates/terra-runtime/src/memory.rs\<close> that every host import of
  \<open>component/context.rs\<close> goes through.
\<close>

section \<open>Native mappings (terra-hypervisor)\<close>

record memory_range =
  mr_addr :: u64
  mr_len :: u64

datatype platform_memory_error = Platform_OutOfRange | Platform_Unmapped

text \<open>The operations that \<open>GuestMemory\<close> uses of its backing.\<close>

record 'b backing_ops =
  bk_new :: "(u64 \<times> nat) list \<Rightarrow> 'b option"
  bk_ranges :: "'b \<Rightarrow> memory_range list"
  bk_contains :: "'b \<Rightarrow> u64 \<Rightarrow> u64 \<Rightarrow> bool"
  bk_read_append :: "'b \<Rightarrow> u64 \<Rightarrow> nat \<Rightarrow> bytes \<Rightarrow> platform_memory_error + bytes"
  bk_write :: "'b \<Rightarrow> u64 \<Rightarrow> bytes \<Rightarrow> platform_memory_error + 'b"

record 'b guest_memory =
  gm_backing :: 'b
  gm_limit :: u64

definition range_end :: "u64 \<Rightarrow> nat \<Rightarrow> u64 option" where
  "range_end base sz = (if sz < 2 ^ 64 then checked_add base (word_of_nat sz) else None)"

fun windows2 :: "'a list \<Rightarrow> ('a \<times> 'a) list" where
  "windows2 (x # y # zs) = (x, y) # windows2 (y # zs)"
| "windows2 _ = []"

definition from_ranges :: "'b backing_ops \<Rightarrow> (u64 \<times> nat) list \<Rightarrow> 'b guest_memory option" where
  "from_ranges ops unsorted =
     (let ranges = sort_key fst unsorted in
      if ranges = []
         \<or> list_ex (\<lambda>(base, sz). sz = 0 \<or> range_end base sz = None) ranges
         \<or> list_ex (\<lambda>(r, s). case range_end (fst r) (snd r) of None \<Rightarrow> True | Some e \<Rightarrow> e > fst s)
             (windows2 ranges)
      then None
      else (case bk_new ops ranges of
          None \<Rightarrow> None
        | Some b \<Rightarrow> (case range_end (fst (last ranges)) (snd (last ranges)) of
              None \<Rightarrow> None
            | Some limit \<Rightarrow> Some \<lparr>gm_backing = b, gm_limit = limit\<rparr>)))"

definition from_layout :: "'b backing_ops \<Rightarrow> ram_layout \<Rightarrow> 'b guest_memory option" where
  "from_layout ops layout =
     from_ranges ops (map (\<lambda>r. (region_base r, unat (region_size r))) (regions layout))"

definition guest_base :: "'b backing_ops \<Rightarrow> 'b guest_memory \<Rightarrow> u64" where
  "guest_base ops m = (case bk_ranges ops (gm_backing m) of [] \<Rightarrow> 0 | r # _ \<Rightarrow> mr_addr r)"

definition mapped_bytes :: "'b backing_ops \<Rightarrow> 'b guest_memory \<Rightarrow> u64" where
  "mapped_bytes ops m = sum_list (map mr_len (bk_ranges ops (gm_backing m)))"

definition contains_range :: "'b backing_ops \<Rightarrow> 'b guest_memory \<Rightarrow> u64 \<Rightarrow> u64 \<Rightarrow> bool" where
  "contains_range ops m addr len =
     ((case checked_add addr len of None \<Rightarrow> False | Some e \<Rightarrow> e \<le> gm_limit m)
      \<and> bk_contains ops (gm_backing m) addr len)"

definition range_error ::
  "'b backing_ops \<Rightarrow> 'b guest_memory \<Rightarrow> u64 \<Rightarrow> u64 \<Rightarrow> platform_memory_error" where
  "range_error ops m addr len =
     (if addr < guest_base ops m
         \<or> (case checked_add addr len of None \<Rightarrow> True | Some e \<Rightarrow> e > gm_limit m)
      then Platform_OutOfRange else Platform_Unmapped)"

definition validate_range ::
  "'b backing_ops \<Rightarrow> 'b guest_memory \<Rightarrow> u64 \<Rightarrow> u64 \<Rightarrow> platform_memory_error + unit" where
  "validate_range ops m addr len =
     (if contains_range ops m addr len then Ok () else Err (range_error ops m addr len))"

text \<open>A \<open>usize\<close> length as a \<open>u64\<close> (\<open>u64::try_from\<close>).\<close>

definition u64_of_len :: "nat \<Rightarrow> u64 option" where
  "u64_of_len n = (if n < 2 ^ 64 then Some (word_of_nat n) else None)"

definition gm_read_append ::
  "'b backing_ops \<Rightarrow> 'b guest_memory \<Rightarrow> u64 \<Rightarrow> nat \<Rightarrow> bytes \<Rightarrow> platform_memory_error + bytes" where
  "gm_read_append ops m addr len acc =
     and_then (ok_or Platform_OutOfRange (u64_of_len len)) (\<lambda>n.
     and_then (validate_range ops m addr n) (\<lambda>_.
     bk_read_append ops (gm_backing m) addr len acc))"

definition gm_read ::
  "'b backing_ops \<Rightarrow> 'b guest_memory \<Rightarrow> u64 \<Rightarrow> nat \<Rightarrow> platform_memory_error + bytes" where
  "gm_read ops m addr len =
     and_then (ok_or Platform_OutOfRange (u64_of_len len)) (\<lambda>n.
     and_then (validate_range ops m addr n) (\<lambda>_.
     bk_read_append ops (gm_backing m) addr len []))"

definition gm_write ::
  "'b backing_ops \<Rightarrow> 'b guest_memory \<Rightarrow> u64 \<Rightarrow> bytes
   \<Rightarrow> platform_memory_error + 'b guest_memory" where
  "gm_write ops m addr data =
     and_then (ok_or Platform_OutOfRange (u64_of_len (length data))) (\<lambda>n.
     and_then (validate_range ops m addr n) (\<lambda>_.
     and_then (bk_write ops (gm_backing m) addr data) (\<lambda>b.
     Ok (m\<lparr>gm_backing := b\<rparr>))))"

definition full_host_pages :: "u64 \<Rightarrow> u64 \<Rightarrow> u64 \<Rightarrow> (u64 \<times> u64) option" where
  "full_host_pages address len page =
     (if page = 0 then None
      else Option.bind (checked_add address len) (\<lambda>e.
           Option.bind (checked_sub page 1) (\<lambda>p.
           Option.bind (checked_add address p) (\<lambda>a.
             let start = a div page * page; stop = e div page * page in
             if stop > start then Some (start, stop - start) else None))))"

section \<open>The Windows backing\<close>

text \<open>
  An allocation is its guest base and its bytes. \<open>VirtualAlloc\<close> is the parameter
  \<open>valloc\<close>: whether an allocation of that size succeeds; committed pages start zeroed.
\<close>

record allocation =
  al_guest_base :: u64
  al_mem :: bytes

definition al_limit :: "allocation \<Rightarrow> u64" where
  "al_limit a = al_guest_base a + word_of_nat (length (al_mem a))"

definition allocation_index :: "allocation list \<Rightarrow> u64 \<Rightarrow> u64 \<Rightarrow> nat option" where
  "allocation_index b addr len =
     Option.bind (checked_add addr len) (\<lambda>e.
       list_position (\<lambda>a. al_guest_base a \<le> addr \<and> e \<le> al_limit a) b)"

definition resolve ::
  "allocation list \<Rightarrow> u64 \<Rightarrow> u64 \<Rightarrow> platform_memory_error + (nat \<times> nat)" where
  "resolve b addr len =
     and_then (ok_or Platform_Unmapped (allocation_index b addr len)) (\<lambda>i.
     Ok (i, unat (addr - al_guest_base (b ! i))))"

definition win_new :: "(nat \<Rightarrow> bool) \<Rightarrow> (u64 \<times> nat) list \<Rightarrow> allocation list option" where
  "win_new valloc ranges =
     (if list_all (\<lambda>(_, size). valloc size) ranges
      then Some (map (\<lambda>(base, size). \<lparr>al_guest_base = base, al_mem = replicate size 0\<rparr>) ranges)
      else None)"

definition win_ranges :: "allocation list \<Rightarrow> memory_range list" where
  "win_ranges b = map (\<lambda>a. \<lparr>mr_addr = al_guest_base a, mr_len = word_of_nat (length (al_mem a))\<rparr>) b"

definition win_contains :: "allocation list \<Rightarrow> u64 \<Rightarrow> u64 \<Rightarrow> bool" where
  "win_contains b addr len = (allocation_index b addr len \<noteq> None)"

definition win_read_append ::
  "allocation list \<Rightarrow> u64 \<Rightarrow> nat \<Rightarrow> bytes \<Rightarrow> platform_memory_error + bytes" where
  "win_read_append b addr len acc =
     and_then (resolve b addr (word_of_nat len)) (\<lambda>(i, offset).
     Ok (acc @ map (\<lambda>k. al_mem (b ! i) ! (offset + k)) [0..<len]))"

definition win_write ::
  "allocation list \<Rightarrow> u64 \<Rightarrow> bytes \<Rightarrow> platform_memory_error + allocation list" where
  "win_write b addr data =
     and_then (resolve b addr (word_of_nat (length data))) (\<lambda>(i, offset).
     Ok (b[i := (b ! i)\<lparr>al_mem := splice (al_mem (b ! i)) offset data\<rparr>]))"

definition win_backing :: "(nat \<Rightarrow> bool) \<Rightarrow> allocation list backing_ops" where
  "win_backing valloc =
     \<lparr>bk_new = win_new valloc, bk_ranges = win_ranges, bk_contains = win_contains,
      bk_read_append = win_read_append, bk_write = win_write\<rparr>"

section \<open>Bounded access (terra-runtime)\<close>

datatype memory_error = OutOfRange | TooLarge | Unmapped

fun map_memory_error :: "platform_memory_error \<Rightarrow> memory_error" where
  "map_memory_error Platform_OutOfRange = OutOfRange"
| "map_memory_error Platform_Unmapped = Unmapped"

definition copy_len :: "u64 \<Rightarrow> memory_error + nat" where
  "copy_len len = (if len > MAX_SINGLE_GUEST_COPY_BYTES then Err TooLarge else Ok (unat len))"

definition bounded_read ::
  "'b backing_ops \<Rightarrow> 'b guest_memory \<Rightarrow> u64 \<Rightarrow> u64 \<Rightarrow> memory_error + bytes" where
  "bounded_read ops m offset len =
     and_then (copy_len len) (\<lambda>n. map_err map_memory_error (gm_read ops m offset n))"

fun read_ranges_check ::
  "'b backing_ops \<Rightarrow> 'b guest_memory \<Rightarrow> memory_range list \<Rightarrow> u64 \<Rightarrow> memory_error + u64" where
  "read_ranges_check ops m [] tot = Ok tot"
| "read_ranges_check ops m (r # rs) tot =
     and_then (copy_len (mr_len r)) (\<lambda>_.
     and_then (ok_or TooLarge (checked_add tot (mr_len r))) (\<lambda>tot'.
     if tot' > MAX_BATCH_GUEST_COPY_BYTES then Err TooLarge
     else and_then (map_err map_memory_error (validate_range ops m (mr_addr r) (mr_len r))) (\<lambda>_.
     read_ranges_check ops m rs tot')))"

fun read_ranges_copy ::
  "'b backing_ops \<Rightarrow> 'b guest_memory \<Rightarrow> memory_range list \<Rightarrow> bytes \<Rightarrow> memory_error + bytes" where
  "read_ranges_copy ops m [] acc = Ok acc"
| "read_ranges_copy ops m (r # rs) acc =
     and_then (copy_len (mr_len r)) (\<lambda>n.
     and_then (map_err map_memory_error (gm_read_append ops m (mr_addr r) n acc)) (\<lambda>acc'.
     read_ranges_copy ops m rs acc'))"

definition bounded_read_ranges ::
  "'b backing_ops \<Rightarrow> 'b guest_memory \<Rightarrow> memory_range list \<Rightarrow> memory_error + bytes" where
  "bounded_read_ranges ops m ranges =
     (if length ranges > MAX_BATCH_GUEST_COPY_RANGES then Err TooLarge
      else and_then (read_ranges_check ops m ranges 0) (\<lambda>_. read_ranges_copy ops m ranges []))"

text \<open>
  A write returns the memory it leaves behind beside its result: an error after a partial
  write would show here.
\<close>

definition bounded_write ::
  "'b backing_ops \<Rightarrow> 'b guest_memory \<Rightarrow> u64 \<Rightarrow> bytes
   \<Rightarrow> (memory_error + unit) \<times> 'b guest_memory" where
  "bounded_write ops m offset data =
     (case and_then (ok_or TooLarge (u64_of_len (length data))) copy_len of
        Inl e \<Rightarrow> (Err e, m)
      | Inr _ \<Rightarrow> (case gm_write ops m offset data of
            Inl e \<Rightarrow> (Err (map_memory_error e), m)
          | Inr m' \<Rightarrow> (Ok (), m')))"

fun write_ranges_check ::
  "'b backing_ops \<Rightarrow> 'b guest_memory \<Rightarrow> (u64 \<times> bytes) list \<Rightarrow> u64 \<Rightarrow> memory_error + u64" where
  "write_ranges_check ops m [] tot = Ok tot"
| "write_ranges_check ops m ((offset, data) # rs) tot =
     and_then (ok_or TooLarge (u64_of_len (length data))) (\<lambda>len.
     and_then (copy_len len) (\<lambda>_.
     and_then (ok_or TooLarge (checked_add tot len)) (\<lambda>tot'.
     if tot' > MAX_BATCH_GUEST_COPY_BYTES then Err TooLarge
     else and_then (map_err map_memory_error (validate_range ops m offset len)) (\<lambda>_.
     write_ranges_check ops m rs tot'))))"

fun write_ranges_copy ::
  "'b backing_ops \<Rightarrow> 'b guest_memory \<Rightarrow> (u64 \<times> bytes) list
   \<Rightarrow> (memory_error + unit) \<times> 'b guest_memory" where
  "write_ranges_copy ops m [] = (Ok (), m)"
| "write_ranges_copy ops m ((offset, data) # rs) =
     (case bounded_write ops m offset data of
        (Inl e, m') \<Rightarrow> (Err e, m')
      | (Inr _, m') \<Rightarrow> write_ranges_copy ops m' rs)"

definition bounded_write_ranges ::
  "'b backing_ops \<Rightarrow> 'b guest_memory \<Rightarrow> (u64 \<times> bytes) list
   \<Rightarrow> (memory_error + unit) \<times> 'b guest_memory" where
  "bounded_write_ranges ops m ranges =
     (if length ranges > MAX_BATCH_GUEST_COPY_RANGES then (Err TooLarge, m)
      else (case write_ranges_check ops m ranges 0 of
          Inl e \<Rightarrow> (Err e, m)
        | Inr _ \<Rightarrow> write_ranges_copy ops m ranges))"

datatype reclaim_error = Reclaim_Invalid | Reclaim_Unsupported | Reclaim_TooLarge | Reclaim_Io

definition PAGE_BYTES :: u64 where
  "PAGE_BYTES = 4096"

fun validate_reclaim_ranges ::
  "'b backing_ops \<Rightarrow> 'b guest_memory \<Rightarrow> memory_range list \<Rightarrow> u64 \<Rightarrow> reclaim_error + unit" where
  "validate_reclaim_ranges ops m [] tot = Ok ()"
| "validate_reclaim_ranges ops m (r # rs) tot =
     (if mr_len r = 0 \<or> mr_addr r mod PAGE_BYTES \<noteq> 0 \<or> mr_len r mod PAGE_BYTES \<noteq> 0
      then Err Reclaim_Invalid
      else and_then (ok_or Reclaim_TooLarge (checked_add tot (mr_len r))) (\<lambda>tot'.
        if tot' > MAX_RECLAIM_REPORT_BYTES then Err Reclaim_TooLarge
        else if \<not> contains_range ops m (mr_addr r) (mr_len r) then Err Reclaim_Invalid
        else validate_reclaim_ranges ops m rs tot'))"

definition validate_ranges ::
  "'b backing_ops \<Rightarrow> 'b guest_memory \<Rightarrow> memory_range list \<Rightarrow> reclaim_error + unit" where
  "validate_ranges ops m ranges =
     (if length ranges > MAX_RECLAIM_REPORT_RANGES then Err Reclaim_TooLarge
      else validate_reclaim_ranges ops m ranges 0)"

section \<open>The contract of a backing\<close>

text \<open>
  \<open>view_bytes v a n\<close> are the \<open>n\<close> bytes from address \<open>a\<close> of a byte map, and
  \<open>view_write v a d\<close> is the byte map after \<open>d\<close> is stored at \<open>a\<close>.
\<close>

type_synonym byte_view = "u64 \<Rightarrow> u8 option"

definition view_bytes :: "byte_view \<Rightarrow> u64 \<Rightarrow> nat \<Rightarrow> bytes" where
  "view_bytes v a n = map (\<lambda>i. the (v (a + word_of_nat i))) [0..<n]"

definition view_write :: "byte_view \<Rightarrow> u64 \<Rightarrow> bytes \<Rightarrow> byte_view" where
  "view_write v a d = (\<lambda>x. if unat (x - a) < length d then Some (d ! unat (x - a)) else v x)"

lemma length_view_bytes [simp]: "length (view_bytes v a n) = n"
  by (simp add: view_bytes_def)

lemma nth_view_bytes [simp]: "i < n \<Longrightarrow> view_bytes v a n ! i = the (v (a + word_of_nat i))"
  by (simp add: view_bytes_def)

lemma view_bytes_write_same:
  assumes "length d < 2 ^ 64"
  shows "view_bytes (view_write v a d) a (length d) = d"
  using assms by (intro nth_equalityI) (auto simp: view_write_def unat_of_nat_eq)

lemma view_bytes_write_other:
  assumes "unat a + length d \<le> unat b \<or> unat b + n \<le> unat a"
    and "unat a + length d \<le> 2 ^ 64" and "unat b + n \<le> 2 ^ 64"
  shows "view_bytes (view_write v a d) b n = view_bytes v b n"
proof -
  have "\<not> unat (b + word_of_nat i - a) < length d" if "i < n" for i
  proof -
    have "unat (b + word_of_nat i) = unat b + i"
      using that assms(3) by (simp add: unat_word_ariths unat_of_nat_eq)
    moreover from this have "unat (b + word_of_nat i - a) =
        (if unat a \<le> unat b + i then unat b + i - unat a else 2 ^ 64 + (unat b + i) - unat a)"
      by (auto simp: unat_sub_if_size word_size word_le_nat_alt)
    ultimately show ?thesis
      using assms that by (auto split: if_splits)
  qed
  then show ?thesis
    by (intro nth_equalityI) (auto simp: view_write_def)
qed

lemma read_ranges_check_iff:
  "unat t \<le> 65536 \<Longrightarrow> is_ok (read_ranges_check ops m rs t) \<longleftrightarrow>
    (\<forall>r \<in> set rs. unat (mr_len r) \<le> 16384 \<and> contains_range ops m (mr_addr r) (mr_len r))
    \<and> unat t + sum_list (map (\<lambda>r. unat (mr_len r)) rs) \<le> 65536"
proof (induction rs arbitrary: t)
  case Nil
  then show ?case by simp
next
  case (Cons r rs)
  let ?s = "sum_list (map (\<lambda>r. unat (mr_len r)) rs)"
  have len: "copy_len (mr_len r) = (if unat (mr_len r) \<le> 16384 then Ok (unat (mr_len r)) else Err TooLarge)"
    by (simp add: copy_len_def word_less_nat_alt not_less)
  show ?case
  proof (cases "unat (mr_len r) \<le> 16384")
    case True
    with Cons.prems have add: "checked_add t (mr_len r) = Some (t + mr_len r)"
        "unat (t + mr_len r) = unat t + unat (mr_len r)"
      by (simp_all add: checked_add_Some unat_add_no_wrap)
    with Cons.IH [of "t + mr_len r"] True show ?thesis
      by (auto simp: len validate_range_def word_less_nat_alt)
  next
    case False
    then show ?thesis by (auto simp: len)
  qed
qed

lemma write_ranges_check_iff:
  "unat t \<le> 65536 \<Longrightarrow> is_ok (write_ranges_check ops m rs t) \<longleftrightarrow>
    (\<forall>r \<in> set rs. length (snd r) \<le> 16384 \<and> contains_range ops m (fst r) (word_of_nat (length (snd r))))
    \<and> unat t + sum_list (map (length \<circ> snd) rs) \<le> 65536"
proof (induction rs arbitrary: t)
  case Nil
  then show ?case by simp
next
  case (Cons r rs)
  obtain a d where r: "r = (a, d)" by fastforce
  show ?case
  proof (cases "length d \<le> 16384")
    case True
    then have ul: "unat (word_of_nat (length d) :: u64) = length d"
      by (simp add: unat_of_nat_eq)
    with Cons.prems True have add: "checked_add t (word_of_nat (length d)) = Some (t + word_of_nat (length d))"
        "unat (t + word_of_nat (length d)) = unat t + length d"
      by (simp_all add: checked_add_Some unat_add_no_wrap)
    with Cons.IH [of "t + word_of_nat (length d)"] True ul show ?thesis
      by (auto simp: r u64_of_len_def copy_len_def validate_range_def word_less_nat_alt)
  next
    case False
    then have "\<not> is_ok (and_then (ok_or TooLarge (u64_of_len (length d))) copy_len)"
      by (auto simp: u64_of_len_def copy_len_def word_less_nat_alt unat_of_nat_eq)
    then have "\<not> is_ok (write_ranges_check ops m (r # rs) t)"
      by (auto simp: r is_ok_iff result_simps)
    with False r show ?thesis by auto
  qed
qed

locale ram_backing =
  fixes ops :: "'b backing_ops"
    and wf :: "'b \<Rightarrow> bool"
    and view :: "'b \<Rightarrow> byte_view"
  assumes read_law: "wf b \<Longrightarrow> n < 2 ^ 64 \<Longrightarrow> bk_contains ops b a (word_of_nat n) \<Longrightarrow>
      bk_read_append ops b a n acc = Inr (acc @ view_bytes (view b) a n)
      \<and> (\<forall>i<n. view b (a + word_of_nat i) \<noteq> None)"
    and write_law: "wf b \<Longrightarrow> length d < 2 ^ 64 \<Longrightarrow> bk_contains ops b a (word_of_nat (length d)) \<Longrightarrow>
      \<exists>b'. bk_write ops b a d = Inr b' \<and> wf b' \<and> view b' = view_write (view b) a d
        \<and> bk_contains ops b' = bk_contains ops b \<and> bk_ranges ops b' = bk_ranges ops b"
begin

abbreviation "gview m \<equiv> view (gm_backing m)"

lemma contains_no_overflow:
  "contains_range ops m a n \<Longrightarrow> unat a + unat n < 2 ^ 64 \<and> unat a + unat n \<le> unat (gm_limit m)"
  by (auto simp: contains_range_def checked_add_def unat_add_no_wrap word_le_nat_alt
      split: option.splits if_splits)

lemma bounded_read_eq:
  assumes "wf (gm_backing m)"
  shows "bounded_read ops m a n =
    (if n > MAX_SINGLE_GUEST_COPY_BYTES then Err TooLarge
     else if contains_range ops m a n then Ok (view_bytes (gview m) a (unat n))
     else Err (map_memory_error (range_error ops m a n)))"
proof -
  have "bk_contains ops (gm_backing m) a (word_of_nat (unat n))" if "contains_range ops m a n"
    using that by (simp add: contains_range_def)
  then show ?thesis
    using read_law [OF assms, of "unat n" a "[]"] unat_lt_pow [of n]
    by (auto simp: bounded_read_def copy_len_def gm_read_def u64_of_len_def validate_range_def)
qed

lemma gm_write_eq:
  assumes "wf (gm_backing m)" and "length d < 2 ^ 64"
    and "contains_range ops m a (word_of_nat (length d))"
  shows "\<exists>b'. gm_write ops m a d = Inr (m\<lparr>gm_backing := b'\<rparr>) \<and> wf b'
    \<and> view b' = view_write (gview m) a d
    \<and> contains_range ops (m\<lparr>gm_backing := b'\<rparr>) = contains_range ops m
    \<and> guest_base ops (m\<lparr>gm_backing := b'\<rparr>) = guest_base ops m"
proof -
  have "bk_contains ops (gm_backing m) a (word_of_nat (length d))"
    using assms(3) by (simp add: contains_range_def)
  then obtain b' where b': "bk_write ops (gm_backing m) a d = Inr b'" "wf b'"
      "view b' = view_write (gview m) a d"
      "bk_contains ops b' = bk_contains ops (gm_backing m)"
      "bk_ranges ops b' = bk_ranges ops (gm_backing m)"
    using write_law [OF assms(1,2)] by blast
  then show ?thesis
    using assms by (intro exI [of _ b'])
      (simp add: gm_write_def u64_of_len_def validate_range_def contains_range_def
        guest_base_def fun_eq_iff split: option.split)
qed

lemma bounded_write_cases:
  assumes "wf (gm_backing m)"
  shows "(\<exists>e. bounded_write ops m a d = (Err e, m))
    \<or> (\<exists>b'. bounded_write ops m a d = (Ok (), m\<lparr>gm_backing := b'\<rparr>) \<and> wf b'
        \<and> length d \<le> 16384 \<and> contains_range ops m a (word_of_nat (length d))
        \<and> view b' = view_write (gview m) a d
        \<and> contains_range ops (m\<lparr>gm_backing := b'\<rparr>) = contains_range ops m
        \<and> guest_base ops (m\<lparr>gm_backing := b'\<rparr>) = guest_base ops m)"
proof (cases "length d \<le> 16384 \<and> contains_range ops m a (word_of_nat (length d))")
  case True
  then have lt: "length d < 2 ^ 64" by simp
  from gm_write_eq [OF assms lt] True obtain b' where
    b': "gm_write ops m a d = Inr (m\<lparr>gm_backing := b'\<rparr>)" "wf b'"
      "view b' = view_write (gview m) a d"
      "contains_range ops (m\<lparr>gm_backing := b'\<rparr>) = contains_range ops m"
      "guest_base ops (m\<lparr>gm_backing := b'\<rparr>) = guest_base ops m"
    by blast
  have "\<not> MAX_SINGLE_GUEST_COPY_BYTES < word_of_nat (length d)"
    using True by (simp add: word_less_nat_alt unat_of_nat_eq)
  with True lt b' show ?thesis
    by (auto simp: bounded_write_def u64_of_len_def copy_len_def)
next
  case False
  have "\<exists>e. bounded_write ops m a d = (Err e, m)"
  proof (cases "length d < 2 ^ 64")
    case lt: True
    have "MAX_SINGLE_GUEST_COPY_BYTES < word_of_nat (length d) \<longleftrightarrow> 16384 < length d"
      using lt by (simp add: word_less_nat_alt unat_of_nat_eq)
    with False lt show ?thesis
      by (auto simp: bounded_write_def u64_of_len_def copy_len_def gm_write_def
          validate_range_def)
  next
    case False
    then show ?thesis by (simp add: bounded_write_def u64_of_len_def)
  qed
  then show ?thesis by blast
qed

lemma read_ranges_copy_eq:
  assumes "wf (gm_backing m)"
  shows "(\<And>r. r \<in> set rs \<Longrightarrow> mr_len r \<le> MAX_SINGLE_GUEST_COPY_BYTES
        \<and> contains_range ops m (mr_addr r) (mr_len r)) \<Longrightarrow>
    read_ranges_copy ops m rs acc =
      Ok (acc @ concat (map (\<lambda>r. view_bytes (gview m) (mr_addr r) (unat (mr_len r))) rs))"
proof (induction rs arbitrary: acc)
  case Nil
  then show ?case by simp
next
  case (Cons r rs)
  then have r: "mr_len r \<le> MAX_SINGLE_GUEST_COPY_BYTES" "contains_range ops m (mr_addr r) (mr_len r)"
    by auto
  then have "bk_contains ops (gm_backing m) (mr_addr r) (word_of_nat (unat (mr_len r)))"
    by (simp add: contains_range_def)
  then have "gm_read_append ops m (mr_addr r) (unat (mr_len r)) acc
      = Ok (acc @ view_bytes (gview m) (mr_addr r) (unat (mr_len r)))"
    using r read_law [OF assms] unat_lt_pow [of "mr_len r"]
    by (simp add: gm_read_append_def u64_of_len_def validate_range_def)
  with Cons r show ?case
    by (simp add: copy_len_def not_less)
qed

lemma bounded_write_ok:
  assumes "wf (gm_backing m)" and "length d \<le> 16384"
    and "contains_range ops m a (word_of_nat (length d))"
  shows "\<exists>b'. bounded_write ops m a d = (Ok (), m\<lparr>gm_backing := b'\<rparr>) \<and> wf b'
        \<and> view b' = view_write (gview m) a d
        \<and> contains_range ops (m\<lparr>gm_backing := b'\<rparr>) = contains_range ops m
        \<and> guest_base ops (m\<lparr>gm_backing := b'\<rparr>) = guest_base ops m"
proof -
  have lt: "length d < 2 ^ 64" using assms(2) by simp
  have "\<not> MAX_SINGLE_GUEST_COPY_BYTES < word_of_nat (length d)"
    using assms(2) by (simp add: word_less_nat_alt unat_of_nat_eq)
  with gm_write_eq [OF assms(1) lt assms(3)] lt show ?thesis
    by (auto simp: bounded_write_def u64_of_len_def copy_len_def)
qed

lemma write_ranges_copy_ok:
  "wf (gm_backing m) \<Longrightarrow>
   (\<And>a d. (a, d) \<in> set rs \<Longrightarrow> length d \<le> 16384 \<and> contains_range ops m a (word_of_nat (length d))) \<Longrightarrow>
   \<exists>b'. write_ranges_copy ops m rs = (Ok (), m\<lparr>gm_backing := b'\<rparr>) \<and> wf b'
     \<and> view b' = fold (\<lambda>(a, d) v. view_write v a d) rs (gview m)
     \<and> contains_range ops (m\<lparr>gm_backing := b'\<rparr>) = contains_range ops m"
proof (induction rs arbitrary: m)
  case Nil
  then show ?case by (intro exI [of _ "gm_backing m"]) simp
next
  case (Cons r rs)
  obtain a d where r: "r = (a, d)" by fastforce
  with Cons.prems obtain b1 where
    b1: "bounded_write ops m a d = (Ok (), m\<lparr>gm_backing := b1\<rparr>)" "wf b1"
      "view b1 = view_write (gview m) a d"
      "contains_range ops (m\<lparr>gm_backing := b1\<rparr>) = contains_range ops m"
    using bounded_write_ok [of m d a] by auto
  with Cons.prems Cons.IH [of "m\<lparr>gm_backing := b1\<rparr>"] r show ?case
    by (auto simp: fun_eq_iff)
qed

lemma bounded_read_ranges_iff:
  assumes "wf (gm_backing m)"
  shows "bounded_read_ranges ops m rs = Ok bs \<longleftrightarrow>
     length rs \<le> 32
     \<and> (\<forall>r \<in> set rs. unat (mr_len r) \<le> 16384 \<and> contains_range ops m (mr_addr r) (mr_len r))
     \<and> sum_list (map (\<lambda>r. unat (mr_len r)) rs) \<le> 65536
     \<and> bs = concat (map (\<lambda>r. view_bytes (gview m) (mr_addr r) (unat (mr_len r))) rs)"
    (is "_ \<longleftrightarrow> _ \<and> ?valid \<and> ?total \<and> _")
proof -
  have chk: "is_ok (read_ranges_check ops m rs 0) \<longleftrightarrow> ?valid \<and> ?total"
    using read_ranges_check_iff [of 0 ops m rs] by simp
  have "read_ranges_copy ops m rs [] =
      Ok (concat (map (\<lambda>r. view_bytes (gview m) (mr_addr r) (unat (mr_len r))) rs))" if ?valid
    using read_ranges_copy_eq [OF assms, of rs "[]"] that by (simp add: word_le_nat_alt)
  with chk show ?thesis
    by (cases "read_ranges_check ops m rs 0")
      (auto simp: bounded_read_ranges_def MAX_BATCH_GUEST_COPY_RANGES_def)
qed

lemma bounded_write_ranges_spec:
  assumes "wf (gm_backing m)" and "bounded_write_ranges ops m rs = (r, m')"
  shows "(is_ok r \<longleftrightarrow> length rs \<le> 32
     \<and> (\<forall>r \<in> set rs. length (snd r) \<le> 16384 \<and> contains_range ops m (fst r) (word_of_nat (length (snd r))))
     \<and> sum_list (map (length \<circ> snd) rs) \<le> 65536)
   \<and> wf (gm_backing m') \<and> contains_range ops m' = contains_range ops m
   \<and> gview m' = (if is_ok r then fold (\<lambda>(a, d) v. view_write v a d) rs (gview m) else gview m)
   \<and> (\<not> is_ok r \<longrightarrow> m' = m)"
proof (cases "length rs \<le> 32 \<and> is_ok (write_ranges_check ops m rs 0)")
  case True
  then have valid: "\<forall>r \<in> set rs. length (snd r) \<le> 16384
        \<and> contains_range ops m (fst r) (word_of_nat (length (snd r)))"
      "sum_list (map (length \<circ> snd) rs) \<le> 65536"
    using write_ranges_check_iff [of 0 ops m rs] by auto
  then obtain b' where b': "write_ranges_copy ops m rs = (Ok (), m\<lparr>gm_backing := b'\<rparr>)" "wf b'"
      "view b' = fold (\<lambda>(a, d) v. view_write v a d) rs (gview m)"
      "contains_range ops (m\<lparr>gm_backing := b'\<rparr>) = contains_range ops m"
    using write_ranges_copy_ok [OF assms(1), of rs] by fastforce
  with True assms(2) valid show ?thesis
    by (cases "write_ranges_check ops m rs 0")
      (auto simp: bounded_write_ranges_def MAX_BATCH_GUEST_COPY_RANGES_def)
next
  case False
  then have "\<not> is_ok r \<and> m' = m"
    using assms(2) by (cases "write_ranges_check ops m rs 0")
      (auto simp: bounded_write_ranges_def MAX_BATCH_GUEST_COPY_RANGES_def split: if_splits)
  with False assms(1) write_ranges_check_iff [of 0 ops m rs] show ?thesis by auto
qed

end

section \<open>The Windows backing meets the contract\<close>

definition alloc_wf :: "allocation list \<Rightarrow> bool" where
  "alloc_wf b \<longleftrightarrow> (\<forall>a \<in> set b. unat (al_guest_base a) + length (al_mem a) < 2 ^ 64)
     \<and> sorted_wrt (\<lambda>x y. al_limit x \<le> al_guest_base y) b"

definition alloc_at :: "allocation list \<Rightarrow> u64 \<Rightarrow> nat option" where
  "alloc_at b x = list_position (\<lambda>a. al_guest_base a \<le> x \<and> x < al_limit a) b"

definition alloc_view :: "allocation list \<Rightarrow> byte_view" where
  "alloc_view b x =
     map_option (\<lambda>i. al_mem (b ! i) ! unat (x - al_guest_base (b ! i))) (alloc_at b x)"

lemma unat_al_limit:
  assumes "alloc_wf b" and "a \<in> set b"
  shows "unat (al_limit a) = unat (al_guest_base a) + length (al_mem a)"
proof -
  from assms have "unat (al_guest_base a) + length (al_mem a) < 2 ^ 64"
    by (simp add: alloc_wf_def)
  moreover from this have "length (al_mem a) < 2 ^ LENGTH(64)" by simp
  ultimately show ?thesis
    by (simp add: al_limit_def unat_add_no_wrap unat_of_nat_eq)
qed

lemma alloc_at_unique:
  assumes wf: "alloc_wf b" and i: "i < length b"
    and x: "al_guest_base (b ! i) \<le> x" "x < al_limit (b ! i)"
  shows "alloc_at b x = Some i"
proof -
  let ?P = "\<lambda>a. al_guest_base a \<le> x \<and> x < al_limit a"
  have "list_position ?P b \<noteq> None"
    using i x by (auto simp: list_position_None)
  then obtain j where j: "list_position ?P b = Some j" by blast
  note pos = list_position_Some [OF j]
  have "\<not> i < j" using pos(3) x by blast
  moreover have "\<not> j < i"
  proof
    assume "j < i"
    with wf i have "al_limit (b ! j) \<le> al_guest_base (b ! i)"
      by (auto simp: alloc_wf_def sorted_wrt_iff_nth_less)
    also have "\<dots> \<le> x" by (rule x)
    finally show False using pos(2) by (auto dest: leD)
  qed
  ultimately show ?thesis using j by (simp add: alloc_at_def)
qed

lemma allocation_index_bounds:
  assumes wf: "alloc_wf b" and i: "allocation_index b a (word_of_nat n) = Some i" and n: "n < 2 ^ 64"
  shows "i < length b" and "unat a + n < 2 ^ 64"
    and "unat (al_guest_base (b ! i)) \<le> unat a"
    and "unat a + n \<le> unat (al_guest_base (b ! i)) + length (al_mem (b ! i))"
proof -
  from n have un: "unat (word_of_nat n :: u64) = n" by (simp add: unat_of_nat_eq)
  from i obtain e where e: "checked_add a (word_of_nat n) = Some e"
      and pos: "list_position (\<lambda>x. al_guest_base x \<le> a \<and> e \<le> al_limit x) b = Some i"
    by (auto simp: allocation_index_def bind_eq_Some_conv)
  note p = list_position_Some [OF pos]
  show il: "i < length b" by (rule p)
  show "unat a + n < 2 ^ 64" using e un by (simp add: checked_add_Some)
  show "unat (al_guest_base (b ! i)) \<le> unat a" using p(2) by (simp add: word_le_nat_alt)
  show "unat a + n \<le> unat (al_guest_base (b ! i)) + length (al_mem (b ! i))"
    using checked_add_unat [OF e] un p(2) unat_al_limit [OF wf nth_mem [OF il]]
    by (simp add: word_le_nat_alt)
qed

lemma alloc_at_range:
  assumes wf: "alloc_wf b" and i: "allocation_index b a (word_of_nat n) = Some i"
    and n: "n < 2 ^ 64" and k: "unat (x - a) < n"
  shows "alloc_at b x = Some i"
    and "unat (x - al_guest_base (b ! i)) = unat a - unat (al_guest_base (b ! i)) + unat (x - a)"
proof -
  note bnd = allocation_index_bounds [OF wf i n]
  have "unat (a + (x - a)) = unat a + unat (x - a)"
    using bnd(2) k by (intro unat_add_no_wrap) simp
  then have ux: "unat x = unat a + unat (x - a)" by simp
  have "unat (al_limit (b ! i)) = unat (al_guest_base (b ! i)) + length (al_mem (b ! i))"
    by (rule unat_al_limit [OF wf nth_mem [OF bnd(1)]])
  with ux k bnd have rng: "al_guest_base (b ! i) \<le> x" "x < al_limit (b ! i)"
    by (simp_all add: word_le_nat_alt word_less_nat_alt)
  from alloc_at_unique [OF wf bnd(1) this] show "alloc_at b x = Some i" .
  show "unat (x - al_guest_base (b ! i)) = unat a - unat (al_guest_base (b ! i)) + unat (x - a)"
    using rng ux bnd(3) by (simp add: unat_sub)
qed

lemma win_read_law:
  assumes wf: "alloc_wf b" and n: "n < 2 ^ 64" and c: "win_contains b a (word_of_nat n)"
  shows "win_read_append b a n acc = Inr (acc @ view_bytes (alloc_view b) a n)
      \<and> (\<forall>i<n. alloc_view b (a + word_of_nat i) \<noteq> None)"
proof -
  from c obtain i where i: "allocation_index b a (word_of_nat n) = Some i"
    by (auto simp: win_contains_def)
  note bnd = allocation_index_bounds [OF wf i n]
  have off: "unat (a - al_guest_base (b ! i)) = unat a - unat (al_guest_base (b ! i))"
    using bnd(3) by (simp add: unat_sub word_le_nat_alt)
  have at: "alloc_view b (a + word_of_nat k)
      = Some (al_mem (b ! i) ! (unat (a - al_guest_base (b ! i)) + k))" if "k < n" for k
  proof -
    have "unat (a + word_of_nat k - a) = k" using that n by (simp add: unat_of_nat_eq)
    with alloc_at_range [OF wf i n, of "a + word_of_nat k"] that off show ?thesis
      by (simp add: alloc_view_def)
  qed
  then show ?thesis
    using i by (auto simp: win_read_append_def resolve_def view_bytes_def)
qed

text \<open>A write keeps the shape of every allocation: its base and its length.\<close>

definition same_shape :: "allocation list \<Rightarrow> allocation list \<Rightarrow> bool" where
  "same_shape = list_all2 (\<lambda>x y. al_guest_base x = al_guest_base y
      \<and> length (al_mem x) = length (al_mem y))"

lemma list_position_all2:
  "list_all2 R xs ys \<Longrightarrow> (\<And>x y. R x y \<Longrightarrow> P x = Q y) \<Longrightarrow> list_position P xs = list_position Q ys"
  by (induction rule: list_all2_induct) (simp_all add: list_position_simps)

lemma same_shape_facts:
  assumes "same_shape b b'"
  shows "alloc_at b' = alloc_at b" and "allocation_index b' = allocation_index b"
    and "win_ranges b' = win_ranges b" and "alloc_wf b' = alloc_wf b"
proof -
  let ?R = "\<lambda>x y. al_guest_base x = al_guest_base y \<and> length (al_mem x) = length (al_mem y)"
  have all2: "list_all2 ?R b b'" using assms by (simp add: same_shape_def)
  show "alloc_at b' = alloc_at b"
    unfolding alloc_at_def
    by (intro ext sym [OF list_position_all2 [OF all2]]) (simp add: al_limit_def)
  show "allocation_index b' = allocation_index b"
    unfolding allocation_index_def
    by (intro ext arg_cong [of _ _ "Option.bind _"] sym [OF list_position_all2 [OF all2]])
      (simp add: al_limit_def)
  show "win_ranges b' = win_ranges b"
    using all2 unfolding win_ranges_def by (induction rule: list_all2_induct) auto
  have "length b' = length b" and "?R (b ! i) (b' ! i)" if "i < length b" for i
    using all2 that by (auto simp: list_all2_conv_all_nth)
  then show "alloc_wf b' = alloc_wf b"
    using list_all2_lengthD [OF all2]
    by (simp add: alloc_wf_def al_limit_def sorted_wrt_iff_nth_less all_set_conv_all_nth)
qed

lemma win_write_view:
  assumes wf: "alloc_wf b" and n: "length d < 2 ^ 64"
    and i: "allocation_index b a (word_of_nat (length d)) = Some i"
    and b': "b' = b[i := (b ! i)\<lparr>al_mem := splice (al_mem (b ! i)) (unat (a - al_guest_base (b ! i))) d\<rparr>]"
    and at: "alloc_at b' = alloc_at b"
  shows "alloc_view b' x = view_write (alloc_view b) a d x"
proof -
  note bnd = allocation_index_bounds [OF wf i n]
  note rng = alloc_at_range [OF wf i n]
  have off: "unat (a - al_guest_base (b ! i)) = unat a - unat (al_guest_base (b ! i))"
    using bnd(3) by (simp add: unat_sub word_le_nat_alt)
  have fit: "unat a - unat (al_guest_base (b ! i)) + length d \<le> length (al_mem (b ! i))"
    using bnd(3,4) by simp
  show ?thesis
  proof (cases "unat (x - a) < length d")
    case True
    with rng [of x] bnd(1) off fit show ?thesis
      unfolding alloc_view_def view_write_def at
      by (simp add: b' nth_splice)
  next
    case False
    have "splice (al_mem (b ! i)) (unat a - unat (al_guest_base (b ! i))) d
          ! unat (x - al_guest_base (b ! i)) = al_mem (b ! i) ! unat (x - al_guest_base (b ! i))"
      if xi: "alloc_at b x = Some i"
    proof -
      have "al_guest_base (b ! i) \<le> x" "x < al_limit (b ! i)"
        using list_position_Some(2) [OF xi [unfolded alloc_at_def]] by simp_all
      then have ux: "unat (x - al_guest_base (b ! i)) = unat x - unat (al_guest_base (b ! i))"
          "unat x < unat (al_guest_base (b ! i)) + length (al_mem (b ! i))"
          "unat (al_guest_base (b ! i)) \<le> unat x"
        using unat_al_limit [OF wf nth_mem [OF bnd(1)]]
        by (simp_all add: unat_sub word_less_nat_alt word_le_nat_alt)
      have "unat (x - a) = unat x - unat a" if "unat a \<le> unat x"
        using that by (simp add: unat_sub word_le_nat_alt)
      with ux False bnd(3) show ?thesis by (auto simp: nth_splice [OF fit])
    qed
    with False bnd(1) off show ?thesis
      unfolding alloc_view_def view_write_def at
      by (cases "alloc_at b x") (auto simp: b' nth_list_update)
  qed
qed

lemma win_write_law:
  assumes wf: "alloc_wf b" and n: "length d < 2 ^ 64"
    and c: "win_contains b a (word_of_nat (length d))"
  shows "\<exists>b'. win_write b a d = Inr b' \<and> alloc_wf b' \<and> alloc_view b' = view_write (alloc_view b) a d
        \<and> win_contains b' = win_contains b \<and> win_ranges b' = win_ranges b"
proof -
  from c obtain i where i: "allocation_index b a (word_of_nat (length d)) = Some i"
    by (auto simp: win_contains_def)
  note bnd = allocation_index_bounds [OF wf i n]
  define b' where "b' = b[i := (b ! i)\<lparr>al_mem := splice (al_mem (b ! i)) (unat (a - al_guest_base (b ! i))) d\<rparr>]"
  have "unat (a - al_guest_base (b ! i)) + length d \<le> length (al_mem (b ! i))"
    using bnd(3,4) by (simp add: unat_sub word_le_nat_alt)
  with bnd(1) have "same_shape b b'"
    by (auto simp: same_shape_def b'_def list_all2_conv_all_nth nth_list_update)
  note shape = same_shape_facts [OF this]
  have "alloc_view b' = view_write (alloc_view b) a d"
    by (intro ext win_write_view [OF wf n i b'_def shape(1)])
  moreover have "win_write b a d = Inr b'"
    using i by (simp add: win_write_def resolve_def b'_def)
  ultimately show ?thesis
    using shape wf by (auto simp: win_contains_def fun_eq_iff)
qed

interpretation win: ram_backing "win_backing valloc" alloc_wf alloc_view for valloc
  by unfold_locales (simp_all add: win_backing_def win_read_law win_write_law)

section \<open>Construction and properties\<close>

lemma range_end_Some:
  "range_end base n = Some e \<longleftrightarrow> unat base + n < 2 ^ 64 \<and> e = base + word_of_nat n"
proof -
  have "unat (word_of_nat n :: u64) = n" if "n < 2 ^ 64"
    using that by (simp add: unat_of_nat_eq)
  then show ?thesis
    by (auto simp: range_end_def checked_add_Some)
qed

lemma windows2_sorted:
  assumes "\<forall>r \<in> set rs. unat (fst r) + snd r < 2 ^ 64"
    and "\<forall>(r, s) \<in> set (windows2 rs). unat (fst r) + snd r \<le> unat (fst s)"
  shows "sorted_wrt (\<lambda>r s. unat (fst r :: u64) + snd r \<le> unat (fst s)) rs"
  using assms
proof (induction rs rule: windows2.induct)
  case (1 x y zs)
  then have IH: "sorted_wrt (\<lambda>r s. unat (fst r) + snd r \<le> unat (fst s)) (y # zs)"
      and xy: "unat (fst x) + snd x \<le> unat (fst y)"
    by simp_all
  then show ?case by fastforce
qed simp_all

lemma from_ranges_sorted:
  assumes "from_ranges ops rs = Some m"
  shows "bk_new ops (sort_key fst rs) = Some (gm_backing m)"
    and "\<forall>r \<in> set rs. snd r > 0 \<and> unat (fst r) + snd r < 2 ^ 64"
    and "sorted_wrt (\<lambda>r s. unat (fst r) + snd r \<le> unat (fst s)) (sort_key fst rs)"
proof -
  let ?s = "sort_key fst rs"
  from assms have ok: "\<not> list_ex (\<lambda>(base, sz). sz = 0 \<or> range_end base sz = None) ?s"
      and win: "\<not> list_ex (\<lambda>(r, s). case range_end (fst r) (snd r) of None \<Rightarrow> True | Some e \<Rightarrow> e > fst s)
             (windows2 ?s)"
      and "bk_new ops ?s = Some (gm_backing m)"
    by (auto simp: from_ranges_def Let_def split: if_splits option.splits)
  then show "bk_new ops ?s = Some (gm_backing m)" by simp
  from ok have fit: "\<forall>r \<in> set ?s. snd r > 0 \<and> unat (fst r) + snd r < 2 ^ 64"
    by (fastforce simp: list_ex_iff range_end_Some)
  then show "\<forall>r \<in> set rs. snd r > 0 \<and> unat (fst r) + snd r < 2 ^ 64" by simp
  have "unat (fst r) + snd r \<le> unat (fst s)" if "(r, s) \<in> set (windows2 ?s)" for r s
  proof -
    from that win obtain e where "range_end (fst r) (snd r) = Some e" "e \<le> fst s"
      by (fastforce simp: list_ex_iff not_less split: option.splits)
    moreover from this have "unat (word_of_nat (snd r) :: u64) = snd r"
      by (intro unat_of_nat_eq) (simp add: range_end_Some)
    ultimately show ?thesis
      by (simp add: range_end_Some word_le_nat_alt unat_add_no_wrap)
  qed
  with fit show "sorted_wrt (\<lambda>r s. unat (fst r) + snd r \<le> unat (fst s)) ?s"
    by (intro windows2_sorted) auto
qed

lemma from_ranges_win:
  assumes "from_ranges (win_backing valloc) rs = Some m"
  shows "alloc_wf (gm_backing m)"
    and "gm_backing m = map (\<lambda>(base, sz). \<lparr>al_guest_base = base, al_mem = replicate sz 0\<rparr>)
      (sort_key fst rs)"
proof -
  note facts = from_ranges_sorted [OF assms]
  let ?f = "\<lambda>(base, sz). \<lparr>al_guest_base = base, al_mem = replicate sz 0\<rparr>"
  show eq: "gm_backing m = map ?f (sort_key fst rs)"
    using facts(1) by (simp add: win_backing_def win_new_def split: if_splits)
  have lim: "unat (al_limit (?f r)) = unat (fst r) + snd r" if "r \<in> set rs" for r
  proof -
    from facts(2) that have "unat (fst r) + snd r < 2 ^ 64" by blast
    moreover from this have "unat (word_of_nat (snd r) :: u64) = snd r"
      by (intro unat_of_nat_eq) simp
    ultimately show ?thesis
      by (simp add: al_limit_def case_prod_beta unat_add_no_wrap)
  qed
  have "sorted_wrt (\<lambda>x y. al_limit (?f x) \<le> al_guest_base (?f y)) (sort_key fst rs)"
    by (rule sorted_wrt_mono_rel [OF _ facts(3)])
      (use lim in \<open>simp add: word_le_nat_alt case_prod_beta\<close>)
  then show "alloc_wf (gm_backing m)"
    using facts(2) by (auto simp: alloc_wf_def eq sorted_wrt_map)
qed

lemma alloc_view_domain:
  assumes "alloc_wf b"
  shows "alloc_view b x = None \<longleftrightarrow>
    (\<forall>a \<in> set b. \<not> (unat (al_guest_base a) \<le> unat x \<and> unat x < unat (al_guest_base a) + length (al_mem a)))"
  using unat_al_limit [OF assms]
  by (simp add: alloc_view_def alloc_at_def list_position_None word_le_nat_alt word_less_nat_alt)

lemma alloc_view_Some:
  assumes "alloc_wf b" and "alloc_view b x = Some v"
  shows "\<exists>a \<in> set b. v \<in> set (al_mem a)"
proof -
  from assms(2) obtain i where i: "alloc_at b x = Some i"
      and v: "v = al_mem (b ! i) ! unat (x - al_guest_base (b ! i))"
    by (auto simp: alloc_view_def)
  note p = list_position_Some [OF i [unfolded alloc_at_def]]
  have "unat (x - al_guest_base (b ! i)) < length (al_mem (b ! i))"
    using p(2) unat_al_limit [OF assms(1) nth_mem [OF p(1)]]
    by (auto simp: unat_sub word_le_nat_alt word_less_nat_alt)
  then show ?thesis using p(1) v by (auto intro!: bexI [of _ "b ! i"])
qed

text \<open>\<open>GuestMemory::from_ranges\<close> yields well-formed disjoint mappings whatever the order of
  the ranges: a guest address reads as zero if it lies in one of the ranges and is unmapped
  otherwise.\<close>

lemma from_ranges_zeroed:
  assumes "from_ranges (win_backing valloc) rs = Some m"
  shows "alloc_wf (gm_backing m)
    \<and> alloc_view (gm_backing m) x =
       (if \<exists>r \<in> set rs. unat (fst r) \<le> unat x \<and> unat x < unat (fst r) + snd r then Some 0 else None)"
proof -
  note win = from_ranges_win [OF assms]
  have dom: "alloc_view (gm_backing m) x = None \<longleftrightarrow>
      \<not> (\<exists>r \<in> set rs. unat (fst r) \<le> unat x \<and> unat x < unat (fst r) + snd r)"
    unfolding alloc_view_domain [OF win(1)] by (fastforce simp: win(2))
  have "v = 0" if "alloc_view (gm_backing m) x = Some v" for v
    using alloc_view_Some [OF win(1) that] by (auto simp: win(2))
  with dom win(1) show ?thesis
    by (cases "alloc_view (gm_backing m) x") auto
qed

lemma unat_page_floor:
  fixes a p :: u64
  shows "unat (a div p * p) = unat a div unat p * unat p"
proof -
  have "unat a div unat p * unat p < 2 ^ LENGTH(64)"
    by (rule le_less_trans [OF _ unat_lt_pow [of a]]) simp
  then show ?thesis by (simp add: unat_mult_no_wrap unat_div)
qed

lemma nat_page_ceiling:
  fixes a p :: nat
  assumes "0 < p"
  shows "a \<le> (a + (p - 1)) div p * p"
proof -
  have "a + (p - 1) = (a + (p - 1)) div p * p + (a + (p - 1)) mod p" by simp
  moreover have "(a + (p - 1)) mod p \<le> p - 1" using assms by (simp add: less_Suc_eq_le [symmetric])
  ultimately show ?thesis by linarith
qed

lemma full_host_pages_inside:
  assumes "full_host_pages address len page = Some (start, n)"
  shows "unat page dvd unat start \<and> unat page dvd unat n \<and> n \<noteq> 0
    \<and> unat address \<le> unat start \<and> unat start + unat n \<le> unat address + unat len"
proof -
  from assms obtain e a where page: "page \<noteq> 0" and e: "checked_add address len = Some e"
      and a: "checked_add address (page - 1) = Some a"
      and start: "start = a div page * page" and lt: "start < e div page * page"
      and n: "n = e div page * page - start"
    by (auto simp: full_host_pages_def bind_eq_Some_conv checked_sub_def Let_def split: if_splits)
  from page have pos: "0 < unat page" by (simp add: unat_gt_0)
  have "unat (page - 1) = unat page - 1"
    using pos by (simp add: unat_sub word_le_nat_alt)
  then have ua: "unat start = (unat address + (unat page - 1)) div unat page * unat page"
    using checked_add_unat [OF a] by (simp add: start unat_page_floor)
  have un: "unat n = (unat address + unat len) div unat page * unat page - unat start"
    using checked_add_unat [OF e] lt by (simp add: n unat_sub unat_page_floor)
  have ul: "unat start < (unat address + unat len) div unat page * unat page"
    using lt checked_add_unat [OF e] by (simp add: word_less_nat_alt unat_page_floor)
  have dv: "unat page dvd unat start" by (simp add: ua)
  then have "unat page dvd unat n" by (simp add: un)
  moreover have "unat start + unat n \<le> unat address + unat len"
    using un ul div_times_less_eq_dividend [of "unat address + unat len" "unat page"] by linarith
  moreover have "unat address \<le> unat start"
    using nat_page_ceiling [OF pos] by (simp add: ua)
  moreover have "n \<noteq> 0" using un ul by auto
  ultimately show ?thesis using dv by blast
qed
text \<open>\<open>BoundedMemory::read_ranges\<close> returns exactly when there are at most 32 ranges, each of at
  most 16 KiB and mapped, of at most 64 KiB together, and then it returns the concatenation of the
  bytes of guest memory at those ranges, in order.\<close>

lemma bounded_read_ranges_exact:
  assumes "alloc_wf (gm_backing m)"
  shows "bounded_read_ranges (win_backing valloc) m rs = Ok bs \<longleftrightarrow>
     length rs \<le> 32
     \<and> (\<forall>r \<in> set rs. unat (mr_len r) \<le> 16384
          \<and> contains_range (win_backing valloc) m (mr_addr r) (mr_len r))
     \<and> sum_list (map (\<lambda>r. unat (mr_len r)) rs) \<le> 65536
     \<and> bs = concat (map (\<lambda>r. view_bytes (alloc_view (gm_backing m)) (mr_addr r) (unat (mr_len r))) rs)"
  by (rule win.bounded_read_ranges_iff [OF assms])

definition sample_memory :: "allocation list guest_memory" where
  "sample_memory = \<lparr>gm_backing = [\<lparr>al_guest_base = 16, al_mem = [1, 2, 3, 4]\<rparr>], gm_limit = 20\<rparr>"

lemmas sample_memory_simps = sample_memory_def alloc_wf_def contains_range_def win_backing_def
  win_contains_def allocation_index_def list_position_simps al_limit_def checked_add_def
  view_bytes_def alloc_view_def alloc_at_def view_write_def

text \<open>C2: \<open>BoundedMemory::write_ranges\<close> is all or nothing. It succeeds exactly when every range is
  within the limits and mapped, and guest memory then is the old one with the ranges stored in
  order; on any error guest memory is unchanged. The mappings stay well-formed either way.\<close>

theorem bounded_write_ranges_all_or_nothing:
  assumes "alloc_wf (gm_backing m)"
    and "bounded_write_ranges (win_backing valloc) m rs = (r, m')"
  shows "(is_ok r \<longleftrightarrow> length rs \<le> 32
     \<and> (\<forall>w \<in> set rs. length (snd w) \<le> 16384
          \<and> contains_range (win_backing valloc) m (fst w) (word_of_nat (length (snd w))))
     \<and> sum_list (map (length \<circ> snd) rs) \<le> 65536)
   \<and> alloc_wf (gm_backing m')
   \<and> alloc_view (gm_backing m') =
       (if is_ok r then fold (\<lambda>(a, d) v. view_write v a d) rs (alloc_view (gm_backing m))
        else alloc_view (gm_backing m))
   \<and> (\<not> is_ok r \<longrightarrow> m' = m)"
  using win.bounded_write_ranges_spec [OF assms] by blast

theorem bounded_write_ranges_all_or_nothing_witness:
  "\<exists>r m'. bounded_write_ranges (win_backing (\<lambda>_. True)) sample_memory [(17, [9]), (30, [1])] = (r, m')
     \<and> \<not> is_ok r \<and> m' = sample_memory"
proof -
  obtain r m' where w: "bounded_write_ranges (win_backing (\<lambda>_. True)) sample_memory
      [(17, [9]), (30, [1])] = (r, m')"
    by fastforce
  have "alloc_wf (gm_backing sample_memory)" by (simp add: sample_memory_simps)
  from bounded_write_ranges_all_or_nothing [OF this w] w show ?thesis
    by (auto simp: sample_memory_simps)
qed

end
