(* ===== verification/Guest_Discard.thy ===== *)
theory Guest_Discard
  imports Guest_Memory
begin

text \<open>
  Returning guest pages to the host: \<open>GuestRam::discard\<close> of \<open>crates/terra-runtime/src/memory.rs\<close>
  over \<open>GuestMemory::discard\<close> of \<open>crates/terra-hypervisor/src/memory.rs\<close> (the path outside macOS,
  which alone remaps the range in its hypervisor around the discard).
\<close>

section \<open>Discarding guest pages\<close>

datatype discard_error = Discard_Invalid | Discard_Unsupported | Discard_Io

fun map_discard_error :: "discard_error \<Rightarrow> reclaim_error" where
  "map_discard_error Discard_Invalid = Reclaim_Invalid"
| "map_discard_error Discard_Unsupported = Reclaim_Unsupported"
| "map_discard_error Discard_Io = Reclaim_Io"

text \<open>
  Host addresses and the page primitive belong to the platform: \<open>haddr b a n\<close> is the host address of
  a guest range inside one region, \<open>page\<close> the host page size, and \<open>prim h n\<close> tells whether the
  platform's discard of \<open>n\<close> bytes at host address \<open>h\<close> succeeds. The result carries the calls made.
\<close>

definition discard_host_range ::
  "'b backing_ops \<Rightarrow> ('b \<Rightarrow> u64 \<Rightarrow> u64 \<Rightarrow> u64 option) \<Rightarrow> u64 \<Rightarrow> 'b guest_memory \<Rightarrow> memory_range
   \<Rightarrow> discard_error + (u64 \<times> u64 \<times> u64)" where
  "discard_host_range ops haddr page m r =
     (if mr_len r = 0 \<or> \<not> contains_range ops m (mr_addr r) (mr_len r) then Err Discard_Invalid
      else and_then (ok_or Discard_Invalid (haddr (gm_backing m) (mr_addr r) (mr_len r))) (\<lambda>address.
        and_then (ok_or Discard_Invalid (full_host_pages address (mr_len r) page)) (\<lambda>(start, n).
        Ok (mr_addr r + (start - address), start, n))))"

fun collect_results :: "('a \<Rightarrow> 'e + 'c) \<Rightarrow> 'a list \<Rightarrow> 'e + 'c list" where
  "collect_results f [] = Ok []"
| "collect_results f (x # xs) = and_then (f x) (\<lambda>y. and_then (collect_results f xs) (\<lambda>ys. Ok (y # ys)))"

fun discard_pages ::
  "(u64 \<Rightarrow> u64 \<Rightarrow> bool) \<Rightarrow> (u64 \<times> u64 \<times> u64) list \<Rightarrow> (discard_error + unit) \<times> (u64 \<times> u64) list" where
  "discard_pages prim [] = (Ok (), [])"
| "discard_pages prim ((g, h, n) # rs) =
     (if prim h n then (case discard_pages prim rs of (r, calls) \<Rightarrow> (r, (h, n) # calls))
      else (Err Discard_Io, [(h, n)]))"

definition gm_discard ::
  "'b backing_ops \<Rightarrow> ('b \<Rightarrow> u64 \<Rightarrow> u64 \<Rightarrow> u64 option) \<Rightarrow> u64 \<Rightarrow> (u64 \<Rightarrow> u64 \<Rightarrow> bool) \<Rightarrow> 'b guest_memory
   \<Rightarrow> memory_range list \<Rightarrow> (discard_error + unit) \<times> (u64 \<times> u64) list" where
  "gm_discard ops haddr page prim m ranges =
     (case collect_results (discard_host_range ops haddr page m) ranges of
        Inl e \<Rightarrow> (Err e, [])
      | Inr rs \<Rightarrow> discard_pages prim rs)"

definition ram_discard ::
  "'b backing_ops \<Rightarrow> ('b \<Rightarrow> u64 \<Rightarrow> u64 \<Rightarrow> u64 option) \<Rightarrow> u64 \<Rightarrow> (u64 \<Rightarrow> u64 \<Rightarrow> bool) \<Rightarrow> 'b guest_memory
   \<Rightarrow> memory_range list \<Rightarrow> (reclaim_error + unit) \<times> (u64 \<times> u64) list" where
  "ram_discard ops haddr page prim m ranges =
     (case validate_ranges ops m ranges of
        Inl e \<Rightarrow> (Err e, [])
      | Inr _ \<Rightarrow> (case gm_discard ops haddr page prim m ranges of
            (r, calls) \<Rightarrow> (map_err map_discard_error r, calls)))"

lemma collect_results_Inr:
  "collect_results f xs = Inr ys \<longleftrightarrow> list_all2 (\<lambda>x y. f x = Inr y) xs ys"
  by (induction xs arbitrary: ys) (auto simp: result_simps list_all2_Cons1)

lemma discard_pages_calls:
  "set (snd (discard_pages prim rs)) \<subseteq> snd ` set rs
   \<and> sum_list (map (unat \<circ> snd) (snd (discard_pages prim rs))) \<le> sum_list (map (unat \<circ> snd \<circ> snd) rs)"
proof (induction prim rs rule: discard_pages.induct)
  case (2 prim g h n rs)
  then show ?case
    by (cases "discard_pages prim rs") (auto simp: subset_insertI2)
qed simp

lemma discard_host_range_inside:
  assumes "discard_host_range ops haddr page m r = Inr (g, h, n)"
  shows "\<exists>a. haddr (gm_backing m) (mr_addr r) (mr_len r) = Some a
    \<and> unat page dvd unat h \<and> unat page dvd unat n
    \<and> unat a \<le> unat h \<and> unat h + unat n \<le> unat a + unat (mr_len r)"
proof -
  from assms obtain a where "haddr (gm_backing m) (mr_addr r) (mr_len r) = Some a"
      "full_host_pages a (mr_len r) page = Some (h, n)"
    by (auto simp: discard_host_range_def result_simps split: if_splits)
  with full_host_pages_inside [of a "mr_len r" page h n] show ?thesis by blast
qed

lemma validate_reclaim_ranges_total:
  "unat tot \<le> 134217728 \<Longrightarrow> validate_reclaim_ranges ops m rs tot = Inr u \<Longrightarrow>
   unat tot + sum_list (map (unat \<circ> mr_len) rs) \<le> 134217728
   \<and> (\<forall>r \<in> set rs. contains_range ops m (mr_addr r) (mr_len r))"
proof (induction rs arbitrary: tot)
  case Nil
  then show ?case by simp
next
  case (Cons r rs)
  then obtain t' where t': "checked_add tot (mr_len r) = Some t'" "unat t' \<le> 134217728"
      "validate_reclaim_ranges ops m rs t' = Inr u" "contains_range ops m (mr_addr r) (mr_len r)"
    by (auto simp: result_simps word_less_nat_alt not_less split: if_splits)
  with Cons.IH [OF t'(2,3)] checked_add_unat [OF t'(1)] show ?case by simp
qed

text \<open>C24: A discard reaches the platform only for host pages inside the host image of a requested and
  mapped guest range. The pages are whole host pages, they add up to at most 128 MiB, and a batch
  with an invalid range discards nothing.\<close>

theorem ram_discard_confined:
  assumes "ram_discard ops haddr page prim m rs = (r, calls)"
  shows "(\<forall>(h, n) \<in> set calls. \<exists>q \<in> set rs. \<exists>a. contains_range ops m (mr_addr q) (mr_len q)
       \<and> haddr (gm_backing m) (mr_addr q) (mr_len q) = Some a
       \<and> unat page dvd unat h \<and> unat page dvd unat n
       \<and> unat a \<le> unat h \<and> unat h + unat n \<le> unat a + unat (mr_len q))
    \<and> sum_list (map (unat \<circ> snd) calls) \<le> 134217728
    \<and> (\<not> is_ok (validate_ranges ops m rs) \<longrightarrow> calls = [] \<and> \<not> is_ok r)"
proof (cases "validate_ranges ops m rs")
  case (Inl e)
  with assms show ?thesis by (auto simp: ram_discard_def)
next
  case (Inr u)
  then have val: "sum_list (map (unat \<circ> mr_len) rs) \<le> 134217728"
      "\<forall>q \<in> set rs. contains_range ops m (mr_addr q) (mr_len q)"
    using validate_reclaim_ranges_total [of 0 ops m rs u]
    by (auto simp: validate_ranges_def split: if_splits)
  show ?thesis
  proof (cases "collect_results (discard_host_range ops haddr page m) rs")
    case (Inl e)
    with assms Inr show ?thesis by (auto simp: ram_discard_def gm_discard_def)
  next
    case col: (Inr ys)
    then have all2: "list_all2 (\<lambda>x y. discard_host_range ops haddr page m x = Inr y) rs ys"
      by (simp add: collect_results_Inr)
    have calls: "calls = snd (discard_pages prim ys)"
      using assms Inr col by (auto simp: ram_discard_def gm_discard_def split: prod.splits)
    have "sum_list (map (unat \<circ> snd \<circ> snd) ys) \<le> sum_list (map (unat \<circ> mr_len) rs)"
      using all2 by (induction rule: list_all2_induct) (auto dest!: discard_host_range_inside)
    with discard_pages_calls [of prim ys] val calls
    have tot: "sum_list (map (unat \<circ> snd) calls) \<le> 134217728" by simp
    have src: "\<exists>q \<in> set rs. \<exists>g. discard_host_range ops haddr page m q = Inr (g, h, n)"
      if "(h, n) \<in> set calls" for h n
    proof -
      from that discard_pages_calls [of prim ys] calls have "(h, n) \<in> snd ` set ys" by blast
      then obtain g where "(g, h, n) \<in> set ys" by auto
      then obtain i where "i < length ys" "ys ! i = (g, h, n)" by (auto simp: in_set_conv_nth)
      with list_all2_nthD2 [OF all2, of i] list_all2_lengthD [OF all2] show ?thesis
        by (intro bexI [of _ "rs ! i"]) auto
    qed
    have "\<exists>q \<in> set rs. \<exists>a. contains_range ops m (mr_addr q) (mr_len q)
       \<and> haddr (gm_backing m) (mr_addr q) (mr_len q) = Some a
       \<and> unat page dvd unat h \<and> unat page dvd unat n
       \<and> unat a \<le> unat h \<and> unat h + unat n \<le> unat a + unat (mr_len q)"
      if "(h, n) \<in> set calls" for h n
      using src [OF that] val(2) discard_host_range_inside by blast
    with tot Inr show ?thesis by auto
  qed
qed

theorem ram_discard_confined_witness:
  "\<exists>m r calls. ram_discard (win_backing (\<lambda>_. True)) (\<lambda>_ a _. Some (a + 0x10000)) 4096 (\<lambda>_ _. True) m
      [\<lparr>mr_addr = 4096, mr_len = 4096\<rparr>] = (r, calls) \<and> is_ok r \<and> calls = [(0x11000, 4096)]
      \<and> sum_list (map (unat \<circ> snd) calls) \<le> 134217728"
proof -
  obtain mem :: bytes where mem: "length mem = 8192" using Ex_list_of_length by blast
  let ?m = "\<lparr>gm_backing = [\<lparr>al_guest_base = 0, al_mem = mem\<rparr>], gm_limit = 8192\<rparr>"
  have d: "ram_discard (win_backing (\<lambda>_. True)) (\<lambda>_ a _. Some (a + 0x10000)) 4096 (\<lambda>_ _. True) ?m
      [\<lparr>mr_addr = 4096, mr_len = 4096\<rparr>] = (Ok (), [(0x11000, 4096)])"
    by (simp add: ram_discard_def validate_ranges_def MAX_RECLAIM_REPORT_RANGES_def PAGE_BYTES_def
        checked_add_def MAX_RECLAIM_REPORT_BYTES_def contains_range_def win_backing_def win_contains_def
        allocation_index_def list_position_simps al_limit_def gm_discard_def discard_host_range_def
        full_host_pages_def checked_sub_def mem)
  show ?thesis
    using ram_discard_confined [OF d]
    by (intro exI [of _ ?m] exI [of _ "Ok ()"] exI [of _ "[(0x11000, 4096)]"]) (simp add: d)
qed

end
