(* ===== verification/Vsock_Packet.thy ===== *)
theory Vsock_Packet
  imports Prelude
begin

text \<open>
  The virtio-vsock packet header of \<open>components/vsock-device/src/packet.rs\<close> and the fixed ports and
  budgets of \<open>crates/terra-protocol/src/vsock.rs\<close>.
\<close>

section \<open>Header\<close>

definition VSOCK_HEADER_BYTES :: nat where "VSOCK_HEADER_BYTES = 44"

record vsock_header =
  vh_src_cid :: u64
  vh_dst_cid :: u64
  vh_src_port :: u32
  vh_dst_port :: u32
  vh_len :: u32
  vh_type :: u16
  vh_op :: u16
  vh_flags :: u32
  vh_buf_alloc :: u32
  vh_fwd_cnt :: u32

text \<open>The \<open>n\<close> bytes at an offset (\<open>le\<close>).\<close>

definition le_field :: "nat \<Rightarrow> bytes \<Rightarrow> nat \<Rightarrow> bytes" where
  "le_field n bs offset = take n (drop offset bs)"

definition header_parse :: "bytes \<Rightarrow> (vsock_header \<times> bytes) option" where
  "header_parse bs =
     (if length bs < VSOCK_HEADER_BYTES then None
      else Some (
        \<lparr>vh_src_cid = from_le_u64 (le_field 8 bs 0),
         vh_dst_cid = from_le_u64 (le_field 8 bs 8),
         vh_src_port = from_le_u32 (le_field 4 bs 16),
         vh_dst_port = from_le_u32 (le_field 4 bs 20),
         vh_len = from_le_u32 (le_field 4 bs 24),
         vh_type = from_le_u16 (le_field 2 bs 28),
         vh_op = from_le_u16 (le_field 2 bs 30),
         vh_flags = from_le_u32 (le_field 4 bs 32),
         vh_buf_alloc = from_le_u32 (le_field 4 bs 36),
         vh_fwd_cnt = from_le_u32 (le_field 4 bs 40)\<rparr>,
        drop VSOCK_HEADER_BYTES bs))"

definition header_encode :: "vsock_header \<Rightarrow> bytes" where
  "header_encode h =
     to_le_u64 (vh_src_cid h) @ to_le_u64 (vh_dst_cid h)
     @ to_le_u32 (vh_src_port h) @ to_le_u32 (vh_dst_port h) @ to_le_u32 (vh_len h)
     @ to_le_u16 (vh_type h) @ to_le_u16 (vh_op h) @ to_le_u32 (vh_flags h)
     @ to_le_u32 (vh_buf_alloc h) @ to_le_u32 (vh_fwd_cnt h)"

section \<open>Ports and budgets\<close>

definition HOST_CID :: u32 where "HOST_CID = 2"
definition GUEST_CID :: u32 where "GUEST_CID = 3"
definition AGENT_PORT :: u32 where "AGENT_PORT = 6000"
definition CONTROL_PORT :: u32 where "CONTROL_PORT = 6001"
definition TCP_PORT :: u32 where "TCP_PORT = 6002"
definition UDP_PORT :: u32 where "UDP_PORT = 6003"
definition PUBLICATION_PORT :: u32 where "PUBLICATION_PORT = 6004"
definition PUBLICATION_HOST_PORTS :: "u32 \<times> u32" where "PUBLICATION_HOST_PORTS = (0x100000, 0x200000)"
definition MAX_NETWORK_SOCKETS :: nat where "MAX_NETWORK_SOCKETS = 1024"
definition MAX_PACKET_DATA_BYTES :: u32 where "MAX_PACKET_DATA_BYTES = 64 * 1024"
definition AGENT_UPSTREAM_BYTES :: u32 where "AGENT_UPSTREAM_BYTES = 64 * 1024"
definition AGENT_REPLY_BYTES :: u32 where "AGENT_REPLY_BYTES = 256 * 1024"
definition CONTROL_UPSTREAM_BYTES :: u32 where "CONTROL_UPSTREAM_BYTES = 32 * 1024"
definition CONTROL_REPLY_BYTES :: u32 where "CONTROL_REPLY_BYTES = 128 * 1024"
definition FLOW_UPSTREAM_BYTES :: u32 where "FLOW_UPSTREAM_BYTES = 64 * 1024"
definition FLOW_REPLY_BYTES :: u32 where "FLOW_REPLY_BYTES = 80 * 1024"

definition MAX_FLOW_UPSTREAM_BYTES :: nat where
  "MAX_FLOW_UPSTREAM_BYTES = MAX_NETWORK_SOCKETS * unat FLOW_UPSTREAM_BYTES"

definition MAX_FLOW_REPLY_BYTES :: nat where
  "MAX_FLOW_REPLY_BYTES = MAX_NETWORK_SOCKETS * unat FLOW_REPLY_BYTES"

definition MAX_QUEUED_REPLY_BYTES :: nat where
  "MAX_QUEUED_REPLY_BYTES = unat AGENT_REPLY_BYTES + unat CONTROL_REPLY_BYTES + MAX_FLOW_REPLY_BYTES"

definition publication_host_port :: "u32 \<Rightarrow> bool" where
  "publication_host_port p \<longleftrightarrow> fst PUBLICATION_HOST_PORTS \<le> p \<and> p < snd PUBLICATION_HOST_PORTS"

definition is_flow_guest_port :: "u32 \<Rightarrow> bool" where
  "is_flow_guest_port port \<longleftrightarrow>
     port \<noteq> 0 \<and> port \<noteq> AGENT_PORT \<and> port \<noteq> CONTROL_PORT \<and> port \<noteq> PUBLICATION_PORT"

lemmas port_defs = AGENT_PORT_def CONTROL_PORT_def TCP_PORT_def UDP_PORT_def PUBLICATION_PORT_def

lemmas budget_defs = AGENT_UPSTREAM_BYTES_def AGENT_REPLY_BYTES_def CONTROL_UPSTREAM_BYTES_def
  CONTROL_REPLY_BYTES_def FLOW_UPSTREAM_BYTES_def FLOW_REPLY_BYTES_def MAX_PACKET_DATA_BYTES_def

section \<open>Round trips\<close>

lemma length_header_encode [simp]: "length (header_encode h) = 44"
  by (simp add: header_encode_def)

lemma header_parse_encode: "header_parse (header_encode h @ rest) = Some (h, rest)"
  by (simp add: header_parse_def header_encode_def le_field_def VSOCK_HEADER_BYTES_def)

lemma header_encode_parse:
  assumes "header_parse bs = Some (h, rest)"
  shows "header_encode h @ rest = bs"
proof -
  from assms have len: "44 \<le> length bs" and rest: "rest = drop 44 bs"
    by (auto simp: header_parse_def VSOCK_HEADER_BYTES_def split: if_splits)
  have cat: "take n (drop i bs) @ drop (n + i) bs = drop i bs" for n i
    by (metis append_take_drop_id drop_drop)
  show ?thesis
    using assms len cat [of 8 0] cat [of 8 8] cat [of 4 16] cat [of 4 20] cat [of 4 24] cat [of 2 28]
      cat [of 2 30] cat [of 4 32] cat [of 4 36] cat [of 4 40]
    by (auto simp: header_parse_def header_encode_def le_field_def VSOCK_HEADER_BYTES_def
        to_from_le_u16 to_from_le_u32 to_from_le_u64 split: if_splits)
qed

text \<open>The header codec is a bijection on packets: parsing an encoded header followed by any
  payload gives the header and the payload back, and re-encoding whatever was parsed from the wire
  gives exactly the bytes received.\<close>

lemma header_round_trip:
  "header_parse (header_encode h @ rest) = Some (h, rest)
   \<and> (case header_parse bs of None \<Rightarrow> length bs < 44 | Some (h', rest') \<Rightarrow> header_encode h' @ rest' = bs)"
proof (cases "header_parse bs")
  case None
  then have "length bs < 44"
    by (auto simp: header_parse_def VSOCK_HEADER_BYTES_def split: if_splits)
  with None show ?thesis by (simp add: header_parse_encode)
next
  case (Some p)
  then show ?thesis
    using header_encode_parse [of bs] by (cases p) (simp add: header_parse_encode)
qed

end
