(* ===== verification/Vsock_Stream.thy ===== *)
theory Vsock_Stream
  imports Vsock_Packet
begin

unbundle bit_operations_syntax

text \<open>
  One vsock stream: \<open>Connection\<close> and \<open>StreamConnection\<close> of
  \<open>components/vsock-device/src/switch.rs\<close>. The packets come from the guest, so their headers are
  arbitrary; the counters are the wrapping 32-bit counters of the virtio-vsock protocol.
\<close>

section \<open>State\<close>

definition MAX_QUEUED_REPLIES :: nat where "MAX_QUEUED_REPLIES = 128"
definition MAX_REJECTED_RESETS :: nat where "MAX_REJECTED_RESETS = 32"
definition RESERVED_CONTROL_REPLY_SLOTS :: nat where "RESERVED_CONTROL_REPLY_SLOTS = 8"
definition TYPE_STREAM :: u16 where "TYPE_STREAM = 1"
definition OP_REQUEST :: u16 where "OP_REQUEST = 1"
definition OP_RESPONSE :: u16 where "OP_RESPONSE = 2"
definition OP_RST :: u16 where "OP_RST = 3"
definition OP_SHUTDOWN :: u16 where "OP_SHUTDOWN = 4"
definition OP_RW :: u16 where "OP_RW = 5"
definition OP_CREDIT_UPDATE :: u16 where "OP_CREDIT_UPDATE = 6"
definition OP_CREDIT_REQUEST :: u16 where "OP_CREDIT_REQUEST = 7"
definition FLAG_SHUTDOWN_RCV :: u32 where "FLAG_SHUTDOWN_RCV = 1"
definition FLAG_SHUTDOWN_SEND :: u32 where "FLAG_SHUTDOWN_SEND = 2"

lemmas op_defs = OP_REQUEST_def OP_RESPONSE_def OP_RST_def OP_SHUTDOWN_def OP_RW_def
  OP_CREDIT_UPDATE_def OP_CREDIT_REQUEST_def

record connection =
  c_peer_buf_alloc :: u32
  c_peer_fwd_cnt :: u32
  c_rx_received :: u32
  c_rx_fwd_cnt :: u32
  c_rx_credit_update_fwd_cnt :: u32
  c_is_receive_credit_requested :: bool
  c_tx_fwd_cnt :: u32
  c_is_credit_requested :: bool
  c_tx_shutdown :: bool
  c_peer_receive_closed :: bool
  c_rx_shutdown :: bool

definition connection_new :: "u32 \<Rightarrow> connection" where
  "connection_new peer_buf_alloc =
     \<lparr>c_peer_buf_alloc = peer_buf_alloc, c_peer_fwd_cnt = 0, c_rx_received = 0, c_rx_fwd_cnt = 0,
      c_rx_credit_update_fwd_cnt = 0, c_is_receive_credit_requested = False, c_tx_fwd_cnt = 0,
      c_is_credit_requested = False, c_tx_shutdown = False, c_peer_receive_closed = False,
      c_rx_shutdown = False\<rparr>"

definition queued_bytes :: "connection \<Rightarrow> u32" where
  "queued_bytes c = c_rx_received c - c_rx_fwd_cnt c"

definition unacked_bytes :: "u32 \<Rightarrow> u32 \<Rightarrow> u32" where
  "unacked_bytes sent acknowledged = sent - acknowledged"

definition ack_ahead :: "u32 \<Rightarrow> u32 \<Rightarrow> bool" where
  "ack_ahead acknowledged sent \<longleftrightarrow> acknowledged \<noteq> sent \<and> acknowledged - sent < 0x80000000"

record reply =
  r_connection_number :: u64
  r_header :: vsock_header
  r_payload :: bytes

datatype vsock_error = Backpressure | Busy | UnknownConnection

record stream_connection =
  s_connection :: "connection option"
  s_is_connecting :: bool
  s_guest_port :: u32
  s_host_port :: u32
  s_rx_alloc :: u32
  s_max_tx_bytes :: nat
  s_upstream :: bytes
  s_replies :: "reply list"
  s_reply_bytes :: nat

section \<open>Operations\<close>

definition stream_new :: "u32 \<Rightarrow> u32 \<Rightarrow> u32 \<Rightarrow> nat \<Rightarrow> stream_connection" where
  "stream_new guest_port host_port rx_alloc max_tx_bytes =
     \<lparr>s_connection = None, s_is_connecting = False, s_guest_port = guest_port,
      s_host_port = host_port, s_rx_alloc = rx_alloc, s_max_tx_bytes = max_tx_bytes,
      s_upstream = [], s_replies = [], s_reply_bytes = 0\<rparr>"

definition can_queue_reply :: "stream_connection \<Rightarrow> nat \<Rightarrow> bool" where
  "can_queue_reply s payload_len \<longleftrightarrow>
     length (s_replies s) < MAX_QUEUED_REPLIES \<and> s_reply_bytes s + payload_len \<le> s_max_tx_bytes s"

definition note_credit_update :: "u32 \<Rightarrow> stream_connection \<Rightarrow> stream_connection" where
  "note_credit_update fwd_cnt s =
     s\<lparr>s_connection := map_option (\<lambda>c. c\<lparr>c_rx_credit_update_fwd_cnt := fwd_cnt\<rparr>) (s_connection s)\<rparr>"

definition queue_reply :: "reply \<Rightarrow> stream_connection \<Rightarrow> bool \<times> stream_connection" where
  "queue_reply r s =
     (if \<not> can_queue_reply s (length (r_payload r)) then (False, s)
      else let s1 = s\<lparr>s_reply_bytes := s_reply_bytes s + length (r_payload r),
                      s_replies := s_replies s @ [r]\<rparr> in
        (True, if vh_op (r_header r) = OP_CREDIT_UPDATE
               then note_credit_update (vh_fwd_cnt (r_header r)) s1 else s1))"

definition host_header :: "u32 \<Rightarrow> u32 \<Rightarrow> vsock_header" where
  "host_header host_port guest_port =
     \<lparr>vh_src_cid = ucast HOST_CID, vh_dst_cid = ucast GUEST_CID, vh_src_port = host_port,
      vh_dst_port = guest_port, vh_len = 0, vh_type = TYPE_STREAM, vh_op = 0, vh_flags = 0,
      vh_buf_alloc = 0, vh_fwd_cnt = 0\<rparr>"

definition rst :: "u32 \<Rightarrow> u32 \<Rightarrow> stream_connection \<Rightarrow> bool \<times> stream_connection" where
  "rst guest_port host_port s =
     queue_reply \<lparr>r_connection_number = 0,
       r_header = (host_header host_port guest_port)\<lparr>vh_op := OP_RST\<rparr>, r_payload = []\<rparr> s"

definition respond :: "connection \<Rightarrow> u16 \<Rightarrow> u32 \<Rightarrow> stream_connection \<Rightarrow> bool \<times> stream_connection" where
  "respond c op flags s =
     (if op = OP_CREDIT_UPDATE \<and> s_replies s \<noteq> []
         \<and> vh_op (r_header (last (s_replies s))) = OP_CREDIT_UPDATE
      then let r = last (s_replies s);
               r' = r\<lparr>r_header := (r_header r)\<lparr>vh_fwd_cnt := c_rx_fwd_cnt c\<rparr>\<rparr> in
        (True, note_credit_update (c_rx_fwd_cnt c) (s\<lparr>s_replies := butlast (s_replies s) @ [r']\<rparr>))
      else queue_reply \<lparr>r_connection_number = 0,
        r_header = (host_header (s_host_port s) (s_guest_port s))\<lparr>vh_op := op, vh_flags := flags,
            vh_buf_alloc := s_rx_alloc s, vh_fwd_cnt := c_rx_fwd_cnt c\<rparr>,
        r_payload = []\<rparr> s)"

definition drop_connection :: "stream_connection \<Rightarrow> stream_connection" where
  "drop_connection s = s\<lparr>s_connection := None, s_is_connecting := False, s_upstream := []\<rparr>"

definition max_tx_u32 :: "stream_connection \<Rightarrow> u32" where
  "max_tx_u32 s = (if s_max_tx_bytes s < 2 ^ 32 then word_of_nat (s_max_tx_bytes s) else 0xffffffff)"

text \<open>The part of \<open>note_peer_credit\<close> that accepts the peer's numbers.\<close>

definition accept_peer_credit ::
  "vsock_header \<Rightarrow> connection \<Rightarrow> stream_connection \<Rightarrow> bool \<times> stream_connection" where
  "accept_peer_credit h c s =
     (let acknowledged = vh_fwd_cnt h;
          unacked = unacked_bytes (c_tx_fwd_cnt c) acknowledged;
          prior_available = saturating_sub (c_peer_buf_alloc c)
            (unacked_bytes (c_tx_fwd_cnt c) (c_peer_fwd_cnt c));
          available = saturating_sub (vh_buf_alloc h) unacked;
          flush_receive_credit = (vh_buf_alloc h < c_peer_buf_alloc c
            \<and> c_rx_fwd_cnt c \<noteq> c_rx_credit_update_fwd_cnt c);
          c1 = c\<lparr>c_peer_buf_alloc := vh_buf_alloc h, c_peer_fwd_cnt := acknowledged,
                 c_is_credit_requested :=
                   (if available > prior_available then False else c_is_credit_requested c)\<rparr>;
          s1 = s\<lparr>s_connection := Some c1\<rparr>
      in if flush_receive_credit then
           (case respond c1 OP_CREDIT_UPDATE 0 s1 of
              (True, s2) \<Rightarrow> (True, s2)
            | (False, s2) \<Rightarrow> (False, drop_connection s2))
         else (True, s1))"

definition note_peer_credit :: "vsock_header \<Rightarrow> stream_connection \<Rightarrow> bool \<times> stream_connection" where
  "note_peer_credit h s =
     (case s_connection s of
        None \<Rightarrow> (False, s)
      | Some c \<Rightarrow>
          if ack_ahead (vh_fwd_cnt h) (c_tx_fwd_cnt c)
          then (False, drop_connection (snd (rst (s_guest_port s) (s_host_port s) s)))
          else if vh_fwd_cnt h \<noteq> c_peer_fwd_cnt c \<and> \<not> ack_ahead (vh_fwd_cnt h) (c_peer_fwd_cnt c)
          then (True, s)
          else if unacked_bytes (c_tx_fwd_cnt c) (vh_fwd_cnt h) > max_tx_u32 s then (True, s)
          else accept_peer_credit h c s)"

definition reject_packet :: "vsock_header \<Rightarrow> stream_connection \<Rightarrow> stream_connection" where
  "reject_packet h s =
     (let s1 = (if vh_op h \<noteq> OP_RST then snd (rst (vh_src_port h) (vh_dst_port h) s) else s) in
      if s_connection s1 \<noteq> None \<or> s_is_connecting s1 then drop_connection s1 else s1)"

definition on_request :: "vsock_header \<Rightarrow> stream_connection \<Rightarrow> stream_connection" where
  "on_request h s =
     (if vh_fwd_cnt h \<noteq> 0 \<or> s_connection s \<noteq> None \<or> s_is_connecting s then reject_packet h s
      else let c = connection_new (vh_buf_alloc h) in
        case respond c OP_RESPONSE 0 s of
          (True, s1) \<Rightarrow> s1\<lparr>s_connection := Some c\<rparr>
        | (False, s1) \<Rightarrow> s1)"

definition on_response :: "vsock_header \<Rightarrow> stream_connection \<Rightarrow> stream_connection" where
  "on_response h s =
     (if \<not> s_is_connecting s \<or> vh_fwd_cnt h \<noteq> 0
      then (reject_packet h s)\<lparr>s_is_connecting := False\<rparr>
      else s\<lparr>s_is_connecting := False, s_connection := Some (connection_new (vh_buf_alloc h))\<rparr>)"

definition stream_request :: "stream_connection \<Rightarrow> bool \<times> stream_connection" where
  "stream_request s =
     (if s_connection s \<noteq> None \<or> s_is_connecting s then (False, s)
      else case queue_reply \<lparr>r_connection_number = 0,
             r_header = (host_header (s_host_port s) (s_guest_port s))\<lparr>vh_op := OP_REQUEST,
                vh_buf_alloc := s_rx_alloc s\<rparr>, r_payload = []\<rparr> s of
          (True, s1) \<Rightarrow> (True, s1\<lparr>s_is_connecting := True\<rparr>)
        | (False, s1) \<Rightarrow> (False, s1))"

definition on_rst :: "stream_connection \<Rightarrow> stream_connection" where
  "on_rst s = (if s_connection s \<noteq> None \<or> s_is_connecting s then drop_connection s else s)"

definition on_shutdown :: "u32 \<Rightarrow> stream_connection \<Rightarrow> stream_connection" where
  "on_shutdown flags s =
     (case s_connection s of
        None \<Rightarrow> s
      | Some c \<Rightarrow>
          let (c1, s1) = (if flags AND FLAG_SHUTDOWN_RCV \<noteq> 0
                then (c\<lparr>c_tx_shutdown := True, c_peer_receive_closed := True\<rparr>,
                      s\<lparr>s_replies := filter (\<lambda>r. vh_op (r_header r) \<noteq> OP_RW) (s_replies s),
                        s_reply_bytes := 0\<rparr>)
                else (c, s));
              c2 = (if flags AND FLAG_SHUTDOWN_SEND \<noteq> 0 then c1\<lparr>c_rx_shutdown := True\<rparr> else c1)
          in s1\<lparr>s_connection := Some c2\<rparr>)"

definition on_data :: "vsock_header \<Rightarrow> bytes \<Rightarrow> stream_connection \<Rightarrow> stream_connection" where
  "on_data h data s =
     (case s_connection s of
        None \<Rightarrow> s
      | Some c \<Rightarrow>
          if unat (queued_bytes c) + unat (vh_len h) > unat (s_rx_alloc s)
             \<or> length (s_upstream s) + length data > unat (s_rx_alloc s)
          then drop_connection (snd (rst (vh_src_port h) (vh_dst_port h) s))
          else s\<lparr>s_connection := Some (c\<lparr>c_rx_received := c_rx_received c + vh_len h\<rparr>),
                 s_upstream := s_upstream s @ data\<rparr>)"

definition on_credit_request :: "stream_connection \<Rightarrow> stream_connection" where
  "on_credit_request s =
     (case s_connection s of
        None \<Rightarrow> s
      | Some c \<Rightarrow>
          let c1 = c\<lparr>c_is_receive_credit_requested := (queued_bytes c \<noteq> 0)\<rparr>;
              s1 = s\<lparr>s_connection := Some c1\<rparr>
          in case respond c1 OP_CREDIT_UPDATE 0 s1 of
               (True, s2) \<Rightarrow> s2
             | (False, s2) \<Rightarrow> drop_connection s2)"

definition on_connected :: "vsock_header \<Rightarrow> bytes \<Rightarrow> stream_connection \<Rightarrow> stream_connection" where
  "on_connected h data s =
     (case s_connection s of
        None \<Rightarrow> snd (rst (vh_src_port h) (vh_dst_port h) s)
      | Some c \<Rightarrow>
          if vh_op h = OP_RW \<and> c_rx_shutdown c then reject_packet h s
          else case note_peer_credit h s of
              (False, s1) \<Rightarrow> s1
            | (True, s1) \<Rightarrow>
                if vh_op h = OP_SHUTDOWN then on_shutdown (vh_flags h) s1
                else if vh_op h = OP_RW then on_data h data s1
                else if vh_op h = OP_CREDIT_REQUEST then on_credit_request s1
                else s1)"

text \<open>The packets that \<open>rx\<close> turns away whatever the state of the stream.\<close>

definition malformed_packet :: "vsock_header \<Rightarrow> bytes \<Rightarrow> bool" where
  "malformed_packet h data \<longleftrightarrow>
     vh_type h \<noteq> TYPE_STREAM \<or> vh_src_cid h \<noteq> ucast GUEST_CID \<or> vh_dst_cid h \<noteq> ucast HOST_CID
     \<or> (vh_op h = OP_RW) \<noteq> (vh_len h > 0) \<or> vh_len h > MAX_PACKET_DATA_BYTES
     \<or> length data \<noteq> unat (vh_len h)
     \<or> (vh_op h = OP_SHUTDOWN
         \<and> (vh_flags h = 0 \<or> vh_flags h AND NOT (FLAG_SHUTDOWN_RCV OR FLAG_SHUTDOWN_SEND) \<noteq> 0))
     \<or> (vh_op h \<noteq> OP_SHUTDOWN \<and> vh_flags h \<noteq> 0)"

definition stream_rx :: "vsock_header \<Rightarrow> bytes \<Rightarrow> stream_connection \<Rightarrow> stream_connection" where
  "stream_rx h data s =
     (if malformed_packet h data then reject_packet h s
      else if s_is_connecting s \<and> \<not> (vh_op h = OP_RESPONSE \<or> vh_op h = OP_RST) then reject_packet h s
      else if vh_op h = OP_REQUEST then on_request h s
      else if vh_op h = OP_RESPONSE then on_response h s
      else if vh_op h = OP_RST then on_rst s
      else if vh_op h = OP_SHUTDOWN \<or> vh_op h = OP_RW \<or> vh_op h = OP_CREDIT_UPDATE
          \<or> vh_op h = OP_CREDIT_REQUEST then on_connected h data s
      else reject_packet h s)"

definition stream_request_credit :: "stream_connection \<Rightarrow> bool \<times> stream_connection" where
  "stream_request_credit s =
     (case s_connection s of
        None \<Rightarrow> (False, s)
      | Some c \<Rightarrow>
          if c_is_credit_requested c then (False, s)
          else case queue_reply \<lparr>r_connection_number = 0,
                 r_header = (host_header (s_host_port s) (s_guest_port s))\<lparr>vh_op := OP_CREDIT_REQUEST,
                    vh_buf_alloc := s_rx_alloc s, vh_fwd_cnt := c_rx_fwd_cnt c\<rparr>,
                 r_payload = []\<rparr> s of
              (False, s1) \<Rightarrow> (False, s1)
            | (True, s1) \<Rightarrow> (case s_connection s1 of
                  None \<Rightarrow> (False, s1)
                | Some c1 \<Rightarrow> (True, s1\<lparr>s_connection := Some (c1\<lparr>c_is_credit_requested := True\<rparr>)\<rparr>)))"

definition stream_available_send_credit :: "stream_connection \<Rightarrow> nat" where
  "stream_available_send_credit s =
     (case s_connection s of
        None \<Rightarrow> 0
      | Some c \<Rightarrow>
          if c_tx_shutdown c then 0
          else let unacknowledged = unat (unacked_bytes (c_tx_fwd_cnt c) (c_peer_fwd_cnt c)) in
            min (unat (c_peer_buf_alloc c) - unacknowledged) (s_max_tx_bytes s - unacknowledged))"

definition stream_send_capacity :: "stream_connection \<Rightarrow> nat" where
  "stream_send_capacity s =
     (if length (s_replies s) \<ge> MAX_QUEUED_REPLIES - RESERVED_CONTROL_REPLY_SLOTS then 0
      else min (min (stream_available_send_credit s) (unat MAX_PACKET_DATA_BYTES))
             (s_max_tx_bytes s - s_reply_bytes s))"

definition stream_deliver ::
  "bytes \<Rightarrow> stream_connection \<Rightarrow> (vsock_error + unit) \<times> stream_connection" where
  "stream_deliver data s =
     (case s_connection s of
        None \<Rightarrow> (Err UnknownConnection, s)
      | Some c \<Rightarrow>
          if c_tx_shutdown c then (Err UnknownConnection, s)
          else if data = [] then (Ok (), s)
          else if length data \<ge> 2 ^ 32 then (Err Backpressure, s)
          else if length data > stream_send_capacity s then
            (Err Backpressure,
             if length data \<le> s_max_tx_bytes s \<and> length data > stream_available_send_credit s
             then snd (stream_request_credit s) else s)
          else let len = word_of_nat (length data);
                   s1 = s\<lparr>s_connection := Some (c\<lparr>c_tx_fwd_cnt := c_tx_fwd_cnt c + len\<rparr>)\<rparr>
            in case queue_reply \<lparr>r_connection_number = 0,
                 r_header = (host_header (s_host_port s) (s_guest_port s))\<lparr>vh_len := len, vh_op := OP_RW,
                    vh_buf_alloc := s_rx_alloc s, vh_fwd_cnt := c_rx_fwd_cnt c\<rparr>,
                 r_payload = data\<rparr> s1 of
                (True, s2) \<Rightarrow> (Ok (), s2)
              | (False, s2) \<Rightarrow> (Err Backpressure, s2\<lparr>s_connection := Some c\<rparr>))"

definition stream_shutdown :: "stream_connection \<Rightarrow> (vsock_error + unit) \<times> stream_connection" where
  "stream_shutdown s =
     (case s_connection s of
        None \<Rightarrow> (Err UnknownConnection, s)
      | Some c \<Rightarrow>
          if c_tx_shutdown c then (Ok (), s)
          else if \<not> can_queue_reply s 0 then (Err Backpressure, s)
          else let snapshot = c\<lparr>c_tx_shutdown := True\<rparr>;
                   s1 = s\<lparr>s_connection := Some snapshot\<rparr>
            in case respond snapshot OP_SHUTDOWN FLAG_SHUTDOWN_SEND s1 of
                 (True, s2) \<Rightarrow> (Ok (), s2)
               | (False, s2) \<Rightarrow> (Err Backpressure, drop_connection s2))"

definition stream_guest_send_closed :: "stream_connection \<Rightarrow> bool" where
  "stream_guest_send_closed s = (case s_connection s of None \<Rightarrow> False | Some c \<Rightarrow> c_rx_shutdown c)"

definition count_u32 :: "nat \<Rightarrow> u32" where
  "count_u32 count = (if count < 2 ^ 32 then word_of_nat count else 0xffffffff)"

definition advance_receive_credit :: "nat \<Rightarrow> stream_connection \<Rightarrow> stream_connection" where
  "advance_receive_credit count s =
     (case s_connection s of
        None \<Rightarrow> s
      | Some c \<Rightarrow>
          let snapshot = c\<lparr>c_rx_fwd_cnt := c_rx_fwd_cnt c + count_u32 count\<rparr>;
              c1 = (if queued_bytes snapshot = 0
                    then snapshot\<lparr>c_is_receive_credit_requested := False\<rparr> else snapshot);
              s1 = s\<lparr>s_connection := Some c1\<rparr>
          in if s_host_port s \<noteq> AGENT_PORT
                \<and> \<not> c_is_receive_credit_requested snapshot
                \<and> c_rx_fwd_cnt snapshot - c_rx_credit_update_fwd_cnt snapshot
                    < min (s_rx_alloc s) (c_peer_buf_alloc snapshot) div 2
                \<and> (s_replies s = [] \<or> vh_op (r_header (last (s_replies s))) \<noteq> OP_CREDIT_UPDATE)
             then s1
             else case respond snapshot OP_CREDIT_UPDATE 0 s1 of
                    (True, s2) \<Rightarrow> s2
                  | (False, s2) \<Rightarrow> drop_connection s2)"

definition stream_take_reply :: "nat \<Rightarrow> stream_connection \<Rightarrow> reply option \<times> stream_connection" where
  "stream_take_reply max_bytes s =
     (case s_replies s of
        [] \<Rightarrow> (None, s)
      | r # rs \<Rightarrow>
          if length (r_payload r) > max_bytes then (None, s)
          else (Some r, s\<lparr>s_replies := rs, s_reply_bytes := s_reply_bytes s - length (r_payload r)\<rparr>))"

definition stream_consume_upstream :: "nat \<Rightarrow> stream_connection \<Rightarrow> stream_connection" where
  "stream_consume_upstream max_bytes s =
     (let count = min max_bytes (length (s_upstream s)) in
      if count \<noteq> 0 then advance_receive_credit count (s\<lparr>s_upstream := drop count (s_upstream s)\<rparr>) else s)"

section \<open>The invariant of a stream\<close>

lemma op_distinct [simp]:
  "OP_REQUEST \<noteq> OP_RESPONSE" "OP_REQUEST \<noteq> OP_RST" "OP_REQUEST \<noteq> OP_SHUTDOWN"
  "OP_REQUEST \<noteq> OP_RW" "OP_REQUEST \<noteq> OP_CREDIT_UPDATE" "OP_REQUEST \<noteq> OP_CREDIT_REQUEST"
  "OP_RESPONSE \<noteq> OP_REQUEST" "OP_RESPONSE \<noteq> OP_RST" "OP_RESPONSE \<noteq> OP_SHUTDOWN"
  "OP_RESPONSE \<noteq> OP_RW" "OP_RESPONSE \<noteq> OP_CREDIT_UPDATE" "OP_RESPONSE \<noteq> OP_CREDIT_REQUEST"
  "OP_RST \<noteq> OP_REQUEST" "OP_RST \<noteq> OP_RESPONSE" "OP_RST \<noteq> OP_SHUTDOWN"
  "OP_RST \<noteq> OP_RW" "OP_RST \<noteq> OP_CREDIT_UPDATE" "OP_RST \<noteq> OP_CREDIT_REQUEST"
  "OP_SHUTDOWN \<noteq> OP_REQUEST" "OP_SHUTDOWN \<noteq> OP_RESPONSE" "OP_SHUTDOWN \<noteq> OP_RST"
  "OP_SHUTDOWN \<noteq> OP_RW" "OP_SHUTDOWN \<noteq> OP_CREDIT_UPDATE" "OP_SHUTDOWN \<noteq> OP_CREDIT_REQUEST"
  "OP_RW \<noteq> OP_REQUEST" "OP_RW \<noteq> OP_RESPONSE" "OP_RW \<noteq> OP_RST"
  "OP_RW \<noteq> OP_SHUTDOWN" "OP_RW \<noteq> OP_CREDIT_UPDATE" "OP_RW \<noteq> OP_CREDIT_REQUEST"
  "OP_CREDIT_UPDATE \<noteq> OP_REQUEST" "OP_CREDIT_UPDATE \<noteq> OP_RESPONSE" "OP_CREDIT_UPDATE \<noteq> OP_RST"
  "OP_CREDIT_UPDATE \<noteq> OP_SHUTDOWN" "OP_CREDIT_UPDATE \<noteq> OP_RW" "OP_CREDIT_UPDATE \<noteq> OP_CREDIT_REQUEST"
  "OP_CREDIT_REQUEST \<noteq> OP_REQUEST" "OP_CREDIT_REQUEST \<noteq> OP_RESPONSE" "OP_CREDIT_REQUEST \<noteq> OP_RST"
  "OP_CREDIT_REQUEST \<noteq> OP_SHUTDOWN" "OP_CREDIT_REQUEST \<noteq> OP_RW" "OP_CREDIT_REQUEST \<noteq> OP_CREDIT_UPDATE"
  by (simp_all add: op_defs)

definition reply_for :: "u32 \<Rightarrow> u32 \<Rightarrow> reply \<Rightarrow> bool" where
  "reply_for guest_port host_port r \<longleftrightarrow>
     vh_src_cid (r_header r) = ucast HOST_CID \<and> vh_dst_cid (r_header r) = ucast GUEST_CID
     \<and> vh_type (r_header r) = TYPE_STREAM
     \<and> vh_src_port (r_header r) = host_port \<and> vh_dst_port (r_header r) = guest_port
     \<and> unat (vh_len (r_header r)) = length (r_payload r)
     \<and> (r_payload r \<noteq> [] \<longrightarrow> vh_op (r_header r) = OP_RW)"

abbreviation payload_bytes :: "reply list \<Rightarrow> nat" where
  "payload_bytes rs \<equiv> sum_list (map (length \<circ> r_payload) rs)"

definition replies_ok :: "stream_connection \<Rightarrow> bool" where
  "replies_ok s \<longleftrightarrow>
     s_reply_bytes s = payload_bytes (s_replies s) \<and> s_reply_bytes s \<le> s_max_tx_bytes s
     \<and> length (s_replies s) \<le> MAX_QUEUED_REPLIES
     \<and> list_all (reply_for (s_guest_port s) (s_host_port s)) (s_replies s)"

definition connection_ok :: "stream_connection \<Rightarrow> connection \<Rightarrow> bool" where
  "connection_ok s c \<longleftrightarrow>
     unat (queued_bytes c) = length (s_upstream s)
     \<and> unat (unacked_bytes (c_tx_fwd_cnt c) (c_peer_fwd_cnt c)) \<le> s_max_tx_bytes s"

text \<open>The invariant but for the receive credit still to be announced, and with it.\<close>

definition core_inv :: "stream_connection \<Rightarrow> bool" where
  "core_inv s \<longleftrightarrow>
     replies_ok s \<and> length (s_upstream s) \<le> unat (s_rx_alloc s) \<and> s_max_tx_bytes s < 2 ^ 32
     \<and> (case s_connection s of
          None \<Rightarrow> s_upstream s = []
        | Some c \<Rightarrow> \<not> s_is_connecting s \<and> connection_ok s c)"

definition credit_ok :: "stream_connection \<Rightarrow> bool" where
  "credit_ok s \<longleftrightarrow> (case s_connection s of
       None \<Rightarrow> True
     | Some c \<Rightarrow> c_rx_fwd_cnt c - c_rx_credit_update_fwd_cnt c \<le> s_rx_alloc s)"

definition stream_inv :: "stream_connection \<Rightarrow> bool" where
  "stream_inv s \<longleftrightarrow> core_inv s \<and> credit_ok s"

definition quiet :: "stream_connection \<Rightarrow> bool" where
  "quiet s \<longleftrightarrow> list_all (\<lambda>r. r_payload r = []) (s_replies s)"

definition same_stream :: "stream_connection \<Rightarrow> stream_connection \<Rightarrow> bool" where
  "same_stream s s' \<longleftrightarrow> s_guest_port s' = s_guest_port s \<and> s_host_port s' = s_host_port s
     \<and> s_rx_alloc s' = s_rx_alloc s \<and> s_max_tx_bytes s' = s_max_tx_bytes s"

text \<open>What an operation that sends no data keeps.\<close>

definition keeps :: "stream_connection \<Rightarrow> stream_connection \<Rightarrow> bool" where
  "keeps s s' \<longleftrightarrow> stream_inv s' \<and> same_stream s s' \<and> (quiet s \<longrightarrow> quiet s')"

lemma keeps_refl: "stream_inv s \<Longrightarrow> keeps s s"
  by (simp add: keeps_def same_stream_def)

lemma keeps_trans: "keeps s t \<Longrightarrow> keeps t u \<Longrightarrow> keeps s u"
  by (auto simp: keeps_def same_stream_def)

lemma credit_ok_cong:
  "s_connection s' = s_connection s \<Longrightarrow> s_rx_alloc s' = s_rx_alloc s \<Longrightarrow> credit_ok s' = credit_ok s"
  by (simp add: credit_ok_def split: option.split)

definition empty_reply_for :: "u32 \<Rightarrow> u32 \<Rightarrow> reply \<Rightarrow> bool" where
  "empty_reply_for gp hp r \<longleftrightarrow> reply_for gp hp r \<and> r_payload r = []"

lemma host_header_reply:
  "empty_reply_for gp hp \<lparr>r_connection_number = n, r_header = (host_header hp gp)\<lparr>vh_op := op, vh_flags := fl,
      vh_buf_alloc := a, vh_fwd_cnt := f\<rparr>, r_payload = []\<rparr>"
  "empty_reply_for gp hp \<lparr>r_connection_number = n, r_header = (host_header hp gp)\<lparr>vh_op := op\<rparr>, r_payload = []\<rparr>"
  "empty_reply_for gp hp \<lparr>r_connection_number = n, r_header = (host_header hp gp)\<lparr>vh_op := op,
      vh_buf_alloc := a\<rparr>, r_payload = []\<rparr>"
  "empty_reply_for gp hp \<lparr>r_connection_number = n, r_header = (host_header hp gp)\<lparr>vh_op := op,
      vh_buf_alloc := a, vh_fwd_cnt := f\<rparr>, r_payload = []\<rparr>"
  by (simp_all add: empty_reply_for_def reply_for_def host_header_def)

lemma note_credit_update_fields [simp]:
  "s_replies (note_credit_update f s) = s_replies s" "s_reply_bytes (note_credit_update f s) = s_reply_bytes s"
  "s_upstream (note_credit_update f s) = s_upstream s" "s_rx_alloc (note_credit_update f s) = s_rx_alloc s"
  "s_max_tx_bytes (note_credit_update f s) = s_max_tx_bytes s"
  "s_guest_port (note_credit_update f s) = s_guest_port s" "s_host_port (note_credit_update f s) = s_host_port s"
  "s_is_connecting (note_credit_update f s) = s_is_connecting s"
  "s_connection (note_credit_update f s)
     = map_option (\<lambda>c. c\<lparr>c_rx_credit_update_fwd_cnt := f\<rparr>) (s_connection s)"
  by (simp_all add: note_credit_update_def)

lemma note_credit_update_core: "core_inv (note_credit_update f s) = core_inv s"
  by (auto simp: core_inv_def replies_ok_def connection_ok_def queued_bytes_def split: option.splits)

lemma push_reply_core:
  assumes "core_inv s" and "can_queue_reply s (length (r_payload r))"
    and "reply_for (s_guest_port s) (s_host_port s) r"
  shows "core_inv (s\<lparr>s_reply_bytes := s_reply_bytes s + length (r_payload r), s_replies := s_replies s @ [r]\<rparr>)"
  using assms by (auto simp: core_inv_def replies_ok_def can_queue_reply_def connection_ok_def split: option.splits)

lemma queue_reply_core:
  assumes "core_inv s" and "reply_for (s_guest_port s) (s_host_port s) r" and "queue_reply r s = (b, s')"
  shows "core_inv s' \<and> same_stream s s' \<and> s_is_connecting s' = s_is_connecting s \<and> s_upstream s' = s_upstream s
    \<and> s_connection s' = (if b \<and> vh_op (r_header r) = OP_CREDIT_UPDATE
        then map_option (\<lambda>c. c\<lparr>c_rx_credit_update_fwd_cnt := vh_fwd_cnt (r_header r)\<rparr>) (s_connection s)
        else s_connection s)
    \<and> s_replies s' = (if b then s_replies s @ [r] else s_replies s)
    \<and> b = can_queue_reply s (length (r_payload r))"
  using assms push_reply_core [OF assms(1) _ assms(2)]
  by (auto simp: queue_reply_def Let_def note_credit_update_core same_stream_def split: if_splits)

lemma rst_inv:
  assumes "stream_inv s" and "gp = s_guest_port s" and "hp = s_host_port s"
  shows "keeps s (snd (rst gp hp s)) \<and> s_connection (snd (rst gp hp s)) = s_connection s
    \<and> s_is_connecting (snd (rst gp hp s)) = s_is_connecting s"
proof -
  let ?r = "\<lparr>r_connection_number = 0, r_header = (host_header hp gp)\<lparr>vh_op := OP_RST\<rparr>, r_payload = []\<rparr>"
  obtain b s' where q: "queue_reply ?r s = (b, s')" by fastforce
  have ok: "empty_reply_for gp hp ?r" by (rule host_header_reply)
  have "core_inv s" using assms(1) by (simp add: stream_inv_def)
  note core = queue_reply_core [OF this _ q]
  have "snd (rst gp hp s) = s'" by (simp add: rst_def q)
  with core ok assms show ?thesis
    by (auto simp: keeps_def stream_inv_def same_stream_def quiet_def empty_reply_for_def
        credit_ok_cong [of s' s])
qed

lemma drop_connection_keeps:
  "core_inv s \<Longrightarrow> keeps s (drop_connection s)"
  by (auto simp: keeps_def drop_connection_def stream_inv_def core_inv_def credit_ok_def replies_ok_def
      same_stream_def quiet_def)

lemma respond_core:
  assumes inv: "core_inv s" and op: "op \<noteq> OP_RW" and res: "respond c op fl s = (b, s')"
  shows "core_inv s' \<and> same_stream s s' \<and> (quiet s \<longrightarrow> quiet s')
    \<and> s_is_connecting s' = s_is_connecting s \<and> s_upstream s' = s_upstream s
    \<and> s_connection s' = (if b \<and> op = OP_CREDIT_UPDATE
        then map_option (\<lambda>c'. c'\<lparr>c_rx_credit_update_fwd_cnt := c_rx_fwd_cnt c\<rparr>) (s_connection s)
        else s_connection s)"
proof (cases "op = OP_CREDIT_UPDATE \<and> s_replies s \<noteq> []
    \<and> vh_op (r_header (last (s_replies s))) = OP_CREDIT_UPDATE")
  case True
  then obtain rs r where rs: "s_replies s = rs @ [r]" "vh_op (r_header r) = OP_CREDIT_UPDATE"
    by (metis append_butlast_last_id)
  let ?r' = "r\<lparr>r_header := (r_header r)\<lparr>vh_fwd_cnt := c_rx_fwd_cnt c\<rparr>\<rparr>"
  have s': "b" "s' = note_credit_update (c_rx_fwd_cnt c) (s\<lparr>s_replies := rs @ [?r']\<rparr>)"
    using res True rs by (auto simp: respond_def)
  have "core_inv (s\<lparr>s_replies := rs @ [?r']\<rparr>)"
    using inv rs(1) by (auto simp: core_inv_def replies_ok_def reply_for_def connection_ok_def split: option.splits)
  with s' True rs show ?thesis
    by (auto simp: note_credit_update_core same_stream_def quiet_def)
next
  case False
  let ?r = "\<lparr>r_connection_number = 0, r_header = (host_header (s_host_port s) (s_guest_port s))\<lparr>vh_op := op,
      vh_flags := fl, vh_buf_alloc := s_rx_alloc s, vh_fwd_cnt := c_rx_fwd_cnt c\<rparr>, r_payload = []\<rparr>"
  have ok: "empty_reply_for (s_guest_port s) (s_host_port s) ?r" by (rule host_header_reply)
  have "queue_reply ?r s = (b, s')" using res False by (auto simp: respond_def)
  from queue_reply_core [OF inv _ this] ok show ?thesis
    by (auto simp: empty_reply_for_def quiet_def)
qed

lemma credit_after_update:
  assumes "s_connection s' = map_option (\<lambda>c'. c'\<lparr>c_rx_credit_update_fwd_cnt := f\<rparr>) (s_connection s)"
    and "\<And>c'. s_connection s = Some c' \<Longrightarrow> c_rx_fwd_cnt c' = f"
  shows "credit_ok s'"
  using assms by (auto simp: credit_ok_def split: option.splits)

text \<open>Announcing the receive credit repairs the invariant, or the connection is dropped.\<close>

lemma announce_keeps:
  assumes inv: "core_inv s" and f: "\<And>c'. s_connection s = Some c' \<Longrightarrow> c_rx_fwd_cnt c' = c_rx_fwd_cnt c"
    and res: "respond c OP_CREDIT_UPDATE fl s = (b, s')"
  shows "b \<Longrightarrow> keeps s s'" and "keeps s (drop_connection s')"
proof -
  note core = respond_core [OF inv _ res]
  show "keeps s s'" if b
    using core credit_after_update [OF _ f, of s'] that
    by (auto simp: keeps_def stream_inv_def)
  show "keeps s (drop_connection s')"
    using core drop_connection_keeps [of s'] by (auto simp: keeps_def same_stream_def)
qed

lemma announce_case_keeps:
  assumes "core_inv s" and "\<And>c'. s_connection s = Some c' \<Longrightarrow> c_rx_fwd_cnt c' = c_rx_fwd_cnt c"
  shows "keeps s (case respond c OP_CREDIT_UPDATE fl s of (True, s2) \<Rightarrow> s2 | (False, s2) \<Rightarrow> drop_connection s2)"
  using announce_keeps [OF assms, of fl] by (auto split: prod.splits bool.splits)

section \<open>Every operation keeps it\<close>

lemma keeps_drop: "keeps s t \<Longrightarrow> keeps s (drop_connection t)"
  by (rule keeps_trans, assumption, rule drop_connection_keeps) (simp add: keeps_def stream_inv_def)

lemma rst_drop_keeps:
  "stream_inv s \<Longrightarrow> gp = s_guest_port s \<Longrightarrow> hp = s_host_port s \<Longrightarrow>
    keeps s (drop_connection (snd (rst gp hp s)))"
  by (simp add: keeps_drop rst_inv)

lemma reject_packet_keeps:
  assumes "stream_inv s" and "vh_src_port h = s_guest_port s" and "vh_dst_port h = s_host_port s"
  shows "keeps s (reject_packet h s)"
proof -
  let ?s1 = "if vh_op h \<noteq> OP_RST then snd (rst (vh_src_port h) (vh_dst_port h) s) else s"
  have k: "keeps s ?s1" using rst_inv [OF assms] keeps_refl [OF assms(1)] by simp
  then have "keeps s (drop_connection ?s1)" by (rule keeps_drop)
  with k show ?thesis by (simp add: reject_packet_def Let_def)
qed

lemma reject_packet_drops:
  "s_connection (reject_packet h s) = None"
  by (auto simp: reject_packet_def Let_def drop_connection_def)

lemma keeps_connection: "keeps (s\<lparr>s_connection := x\<rparr>) s' = keeps s s'"
  by (simp add: keeps_def same_stream_def quiet_def)

lemma keeps_upstream: "keeps (s\<lparr>s_upstream := x\<rparr>) s' = keeps s s'"
  by (simp add: keeps_def same_stream_def quiet_def)

lemma core_inv_connection:
  "core_inv s \<Longrightarrow> \<not> s_is_connecting s \<Longrightarrow> connection_ok s c \<Longrightarrow> core_inv (s\<lparr>s_connection := Some c\<rparr>)"
  by (simp add: core_inv_def replies_ok_def connection_ok_def)

lemma stream_inv_connection:
  assumes "stream_inv s" and "s_connection s = Some c"
  shows "core_inv s" "\<not> s_is_connecting s" "connection_ok s c"
    "c_rx_fwd_cnt c - c_rx_credit_update_fwd_cnt c \<le> s_rx_alloc s"
  using assms by (auto simp: stream_inv_def core_inv_def credit_ok_def)

lemma stream_inv_no_connection:
  "stream_inv s \<Longrightarrow> s_connection s = None \<Longrightarrow> s_upstream s = []"
  by (simp add: stream_inv_def core_inv_def)

lemma accept_peer_credit_keeps:
  assumes inv: "stream_inv s" and c: "s_connection s = Some c"
    and le: "\<not> unacked_bytes (c_tx_fwd_cnt c) (vh_fwd_cnt h) > max_tx_u32 s"
    and res: "accept_peer_credit h c s = (b, s')"
  shows "keeps s s'"
proof -
  note ci = stream_inv_connection [OF inv c]
  define c1 where "c1 = c\<lparr>c_peer_buf_alloc := vh_buf_alloc h, c_peer_fwd_cnt := vh_fwd_cnt h,
      c_is_credit_requested := (if saturating_sub (vh_buf_alloc h) (unacked_bytes (c_tx_fwd_cnt c) (vh_fwd_cnt h))
          > saturating_sub (c_peer_buf_alloc c) (unacked_bytes (c_tx_fwd_cnt c) (c_peer_fwd_cnt c))
        then False else c_is_credit_requested c)\<rparr>"
  have "unat (max_tx_u32 s) = s_max_tx_bytes s"
    using ci(1) by (simp add: max_tx_u32_def core_inv_def unat_of_nat_eq)
  with le have "connection_ok s c1"
    using ci(3) by (simp add: c1_def connection_ok_def queued_bytes_def word_less_nat_alt)
  then have core: "core_inv (s\<lparr>s_connection := Some c1\<rparr>)"
    using ci(1,2) by (intro core_inv_connection)
  then have inv1: "keeps s (s\<lparr>s_connection := Some c1\<rparr>)"
    using ci(4) by (simp add: keeps_def stream_inv_def credit_ok_def c1_def same_stream_def quiet_def)
  have "keeps s (case respond c1 OP_CREDIT_UPDATE 0 (s\<lparr>s_connection := Some c1\<rparr>) of
      (True, s2) \<Rightarrow> s2 | (False, s2) \<Rightarrow> drop_connection s2)"
    using announce_case_keeps [OF core, of c1 0] by (simp add: keeps_connection)
  with inv1 res show ?thesis
    unfolding accept_peer_credit_def Let_def c1_def [symmetric]
    by (auto split: if_splits prod.splits bool.splits)
qed

lemma note_peer_credit_keeps:
  assumes "stream_inv s" and "note_peer_credit h s = (b, s')"
  shows "keeps s s'"
proof (cases "s_connection s")
  case None
  with assms show ?thesis by (simp add: note_peer_credit_def keeps_refl)
next
  case (Some c)
  have "keeps s (drop_connection (snd (rst (s_guest_port s) (s_host_port s) s)))"
    using assms(1) by (simp add: rst_drop_keeps)
  with assms Some accept_peer_credit_keeps [OF assms(1) Some, of h b s'] show ?thesis
    by (auto simp: note_peer_credit_def keeps_refl split: if_splits)
qed

lemma on_shutdown_keeps:
  assumes "stream_inv s"
  shows "keeps s (on_shutdown fl s)"
proof (cases "s_connection s")
  case None
  with assms show ?thesis by (simp add: on_shutdown_def keeps_refl)
next
  case (Some c)
  note ci = stream_inv_connection [OF assms Some]
  define rs where "rs = filter (\<lambda>r. vh_op (r_header r) \<noteq> OP_RW) (s_replies s)"
  have empty: "\<forall>r \<in> set rs. r_payload r = []"
    using ci(1) by (auto simp: rs_def core_inv_def replies_ok_def list_all_iff reply_for_def)
  then have "payload_bytes rs = 0" by (induction rs) auto
  moreover have "length rs \<le> length (s_replies s)" by (simp add: rs_def)
  moreover have "set rs \<subseteq> set (s_replies s)" by (auto simp: rs_def)
  ultimately have core: "core_inv (s\<lparr>s_replies := rs, s_reply_bytes := 0\<rparr>)"
    using ci(1) by (auto simp: core_inv_def replies_ok_def connection_ok_def list_all_iff subset_iff
        split: option.splits)
  show ?thesis
    using ci(1-4) core empty Some
    by (auto simp: on_shutdown_def Let_def keeps_def stream_inv_def credit_ok_def same_stream_def quiet_def
        list_all_iff rs_def [symmetric] core_inv_def connection_ok_def queued_bytes_def replies_ok_def)
qed

lemma on_data_keeps:
  assumes inv: "stream_inv s" and ports: "vh_src_port h = s_guest_port s" "vh_dst_port h = s_host_port s"
    and len: "length data = unat (vh_len h)"
  shows "keeps s (on_data h data s)"
proof (cases "s_connection s")
  case None
  with inv show ?thesis by (simp add: on_data_def keeps_refl)
next
  case (Some c)
  note ci = stream_inv_connection [OF inv Some]
  have drop: "keeps s (drop_connection (snd (rst (vh_src_port h) (vh_dst_port h) s)))"
    by (rule rst_drop_keeps [OF inv ports])
  show ?thesis
  proof (cases "unat (queued_bytes c) + unat (vh_len h) > unat (s_rx_alloc s)
      \<or> length (s_upstream s) + length data > unat (s_rx_alloc s)")
    case True
    with drop Some show ?thesis by (auto simp: on_data_def)
  next
    case False
    let ?c = "c\<lparr>c_rx_received := c_rx_received c + vh_len h\<rparr>"
    have "unat (queued_bytes c + vh_len h) = unat (queued_bytes c) + unat (vh_len h)"
      using False unat_lt_pow [of "s_rx_alloc s"] by (intro unat_add_no_wrap) simp
    moreover have "queued_bytes ?c = queued_bytes c + vh_len h"
      by (simp add: queued_bytes_def)
    ultimately have "connection_ok (s\<lparr>s_upstream := s_upstream s @ data\<rparr>) ?c"
      using ci(3) len by (simp add: connection_ok_def)
    with False Some ci show ?thesis
      by (auto simp: on_data_def keeps_def stream_inv_def core_inv_def replies_ok_def credit_ok_def
          connection_ok_def same_stream_def quiet_def)
  qed
qed

lemma on_credit_request_keeps:
  assumes "stream_inv s"
  shows "keeps s (on_credit_request s)"
proof (cases "s_connection s")
  case None
  with assms show ?thesis by (simp add: on_credit_request_def keeps_refl)
next
  case (Some c)
  note ci = stream_inv_connection [OF assms Some]
  let ?c = "c\<lparr>c_is_receive_credit_requested := (queued_bytes c \<noteq> 0)\<rparr>"
  have "core_inv (s\<lparr>s_connection := Some ?c\<rparr>)"
    using ci by (intro core_inv_connection) (auto simp: connection_ok_def queued_bytes_def)
  from announce_case_keeps [OF this, of ?c 0] Some show ?thesis
    by (simp add: on_credit_request_def Let_def keeps_connection)
qed

lemma on_connected_keeps:
  assumes inv: "stream_inv s" and ports: "vh_src_port h = s_guest_port s" "vh_dst_port h = s_host_port s"
    and len: "length data = unat (vh_len h)"
  shows "keeps s (on_connected h data s)"
proof (cases "s_connection s")
  case None
  with rst_inv [OF assms(1-3)] show ?thesis by (simp add: on_connected_def)
next
  case (Some c)
  obtain b s1 where n: "note_peer_credit h s = (b, s1)" by fastforce
  have k: "keeps s s1" by (rule note_peer_credit_keeps [OF inv n])
  then have inv1: "stream_inv s1" and p1: "vh_src_port h = s_guest_port s1" "vh_dst_port h = s_host_port s1"
    using ports by (auto simp: keeps_def same_stream_def)
  note rest = on_shutdown_keeps [OF inv1] on_data_keeps [OF inv1 p1 len] on_credit_request_keeps [OF inv1]
  show ?thesis
    using Some n k rest [THEN keeps_trans [OF k]] reject_packet_keeps [OF assms(1-3)]
    by (auto simp: on_connected_def split: bool.split)
qed

lemma on_request_keeps:
  assumes inv: "stream_inv s" and ports: "vh_src_port h = s_guest_port s" "vh_dst_port h = s_host_port s"
  shows "keeps s (on_request h s)"
proof (cases "vh_fwd_cnt h \<noteq> 0 \<or> s_connection s \<noteq> None \<or> s_is_connecting s")
  case True
  with reject_packet_keeps [OF assms] show ?thesis by (auto simp: on_request_def)
next
  case False
  let ?c = "connection_new (vh_buf_alloc h)"
  obtain b s1 where r: "respond ?c OP_RESPONSE 0 s = (b, s1)" by fastforce
  have core: "core_inv s" using inv by (simp add: stream_inv_def)
  note spec = respond_core [OF core _ r]
  have "s_upstream s1 = []" using spec False stream_inv_no_connection [OF inv] by simp
  then have "connection_ok s1 ?c"
    by (simp add: connection_ok_def connection_new_def queued_bytes_def unacked_bytes_def)
  then have "core_inv (s1\<lparr>s_connection := Some ?c\<rparr>)"
    using spec False by (intro core_inv_connection) auto
  with spec False r inv show ?thesis
    by (auto simp: on_request_def keeps_def stream_inv_def credit_ok_def connection_new_def same_stream_def
        quiet_def split: bool.split)
qed

lemma on_response_keeps:
  assumes inv: "stream_inv s" and ports: "vh_src_port h = s_guest_port s" "vh_dst_port h = s_host_port s"
  shows "keeps s (on_response h s)"
proof (cases "\<not> s_is_connecting s \<or> vh_fwd_cnt h \<noteq> 0")
  case True
  with reject_packet_keeps [OF assms] reject_packet_drops [of h s] show ?thesis
    by (auto simp: on_response_def keeps_def stream_inv_def core_inv_def replies_ok_def credit_ok_def
        same_stream_def quiet_def)
next
  case False
  then have none: "s_connection s = None"
    using inv by (auto simp: stream_inv_def core_inv_def split: option.splits)
  with False inv stream_inv_no_connection [OF inv none] show ?thesis
    by (auto simp: on_response_def keeps_def stream_inv_def core_inv_def replies_ok_def credit_ok_def
        same_stream_def quiet_def connection_ok_def connection_new_def queued_bytes_def unacked_bytes_def)
qed

lemma stream_rx_keeps:
  assumes "stream_inv s" and "vh_src_port h = s_guest_port s" and "vh_dst_port h = s_host_port s"
  shows "keeps s (stream_rx h data s)"
proof -
  have "keeps s (on_rst s)"
    using assms(1) drop_connection_keeps by (auto simp: on_rst_def keeps_refl stream_inv_def)
  moreover have "length data = unat (vh_len h)" if "\<not> malformed_packet h data"
    using that by (simp add: malformed_packet_def)
  ultimately show ?thesis
    using reject_packet_keeps [OF assms] on_request_keeps [OF assms] on_response_keeps [OF assms]
      on_connected_keeps [OF assms, of data]
    by (auto simp: stream_rx_def)
qed

end
