(* ===== verification/Vsock_Credit.thy ===== *)
theory Vsock_Credit
  imports Vsock_Stream
begin

text \<open>
  The rest of the invariant of a vsock stream and what it gives: the operations the host calls keep it,
  bytes arrive in order, and the credit of both directions is respected.
\<close>

section \<open>The operations of the host keep the invariant\<close>

lemma stream_request_keeps:
  assumes inv: "stream_inv s" and res: "stream_request s = (b, s')"
  shows "keeps s s' \<and> b = (s_connection s = None \<and> \<not> s_is_connecting s \<and> can_queue_reply s 0)
    \<and> s_is_connecting s' = (s_is_connecting s \<or> b) \<and> s_connection s' = s_connection s"
proof (cases "s_connection s \<noteq> None \<or> s_is_connecting s")
  case True
  with assms show ?thesis by (auto simp: stream_request_def keeps_refl)
next
  case False
  let ?r = "\<lparr>r_connection_number = 0, r_header = (host_header (s_host_port s) (s_guest_port s))\<lparr>vh_op := OP_REQUEST,
      vh_buf_alloc := s_rx_alloc s\<rparr>, r_payload = []\<rparr>"
  have ok: "empty_reply_for (s_guest_port s) (s_host_port s) ?r" by (rule host_header_reply)
  obtain b1 s1 where q: "queue_reply ?r s = (b1, s1)" by fastforce
  have "core_inv s" using inv by (simp add: stream_inv_def)
  note core = queue_reply_core [OF this _ q]
  have "s' = (if b1 then s1\<lparr>s_is_connecting := True\<rparr> else s1)" "b = b1"
    using res False q by (auto simp: stream_request_def split: bool.splits)
  with core ok False show ?thesis
    by (auto simp: keeps_def stream_inv_def core_inv_def replies_ok_def credit_ok_def same_stream_def
        quiet_def empty_reply_for_def)
qed

lemma stream_request_credit_keeps:
  assumes inv: "stream_inv s" and res: "stream_request_credit s = (b, s')"
  shows "keeps s s' \<and> (s_connection s' = None \<longleftrightarrow> s_connection s = None) \<and> s_upstream s' = s_upstream s
    \<and> s_is_connecting s' = s_is_connecting s"
proof (cases "s_connection s")
  case None
  with assms show ?thesis by (auto simp: stream_request_credit_def keeps_refl)
next
  case (Some c)
  note ci = stream_inv_connection [OF inv Some]
  let ?r = "\<lparr>r_connection_number = 0, r_header = (host_header (s_host_port s) (s_guest_port s))\<lparr>vh_op := OP_CREDIT_REQUEST,
      vh_buf_alloc := s_rx_alloc s, vh_fwd_cnt := c_rx_fwd_cnt c\<rparr>, r_payload = []\<rparr>"
  have ok: "empty_reply_for (s_guest_port s) (s_host_port s) ?r" by (rule host_header_reply)
  obtain b1 s1 where q: "queue_reply ?r s = (b1, s1)" by fastforce
  note core = queue_reply_core [OF ci(1) _ q]
  have s': "s' = (if c_is_credit_requested c then s else if b1
      then s1\<lparr>s_connection := Some (c\<lparr>c_is_credit_requested := True\<rparr>)\<rparr> else s1)"
    using res Some q core ok
    by (auto simp: stream_request_credit_def empty_reply_for_def split: bool.splits if_splits)
  have "connection_ok s1 (c\<lparr>c_is_credit_requested := True\<rparr>)"
    using ci core ok by (auto simp: connection_ok_def queued_bytes_def same_stream_def empty_reply_for_def)
  then have "core_inv (s1\<lparr>s_connection := Some (c\<lparr>c_is_credit_requested := True\<rparr>)\<rparr>)"
    using core ok ci by (intro core_inv_connection) (auto simp: empty_reply_for_def)
  with s' core ok Some ci inv show ?thesis
    by (auto simp: keeps_def stream_inv_def credit_ok_def same_stream_def quiet_def empty_reply_for_def)
qed

lemma respond_success:
  "can_queue_reply s 0 \<Longrightarrow> fst (respond c op fl s)"
  by (simp add: respond_def queue_reply_def Let_def)

lemma stream_shutdown_keeps:
  assumes inv: "stream_inv s" and res: "stream_shutdown s = (r, s')"
  shows "keeps s s' \<and> (s_connection s' = None \<longleftrightarrow> s_connection s = None) \<and> s_upstream s' = s_upstream s
    \<and> s_is_connecting s' = s_is_connecting s"
proof (cases "s_connection s")
  case None
  with assms show ?thesis by (auto simp: stream_shutdown_def keeps_refl)
next
  case (Some c)
  note ci = stream_inv_connection [OF inv Some]
  let ?c = "c\<lparr>c_tx_shutdown := True\<rparr>" and ?s1 = "s\<lparr>s_connection := Some (c\<lparr>c_tx_shutdown := True\<rparr>)\<rparr>"
  obtain b s2 where q: "respond ?c OP_SHUTDOWN FLAG_SHUTDOWN_SEND ?s1 = (b, s2)" by fastforce
  have "core_inv ?s1" using ci by (intro core_inv_connection) (auto simp: connection_ok_def queued_bytes_def)
  note core = respond_core [OF this _ q]
  have "b" if "can_queue_reply s 0"
    using respond_success [of ?s1 ?c OP_SHUTDOWN FLAG_SHUTDOWN_SEND] that q by (simp add: can_queue_reply_def)
  then have "s' = s \<or> s' = s2"
    using res Some q by (auto simp: stream_shutdown_def Let_def split: if_splits bool.splits)
  with core ci inv Some show ?thesis
    by (auto simp: keeps_refl keeps_def stream_inv_def credit_ok_def same_stream_def quiet_def)
qed

lemma stream_take_reply_keeps:
  assumes inv: "stream_inv s" and res: "stream_take_reply n s = (r, s')"
  shows "keeps s s' \<and> s_connection s' = s_connection s \<and> s_upstream s' = s_upstream s
    \<and> s_is_connecting s' = s_is_connecting s
    \<and> (case r of None \<Rightarrow> s' = s \<and> (s_replies s = [] \<or> length (r_payload (hd (s_replies s))) > n)
       | Some x \<Rightarrow> s_replies s = x # s_replies s' \<and> length (r_payload x) \<le> n)"
proof (cases "s_replies s")
  case Nil
  with assms show ?thesis by (auto simp: stream_take_reply_def keeps_refl)
next
  case (Cons x xs)
  with assms show ?thesis
    by (auto simp: stream_take_reply_def keeps_refl keeps_def stream_inv_def core_inv_def replies_ok_def
        connection_ok_def credit_ok_def same_stream_def quiet_def split: option.splits if_splits)
qed

text \<open>Consuming moves bytes from the queue to the forwarded counter.\<close>

lemma queued_after_forward:
  assumes "connection_ok s c" and "count \<le> length (s_upstream s)" and "length (s_upstream s) < 2 ^ 32"
  shows "unat (queued_bytes (c\<lparr>c_rx_fwd_cnt := c_rx_fwd_cnt c + count_u32 count\<rparr>)) = length (s_upstream s) - count"
proof -
  have count: "unat (count_u32 count) = count"
    using assms by (simp add: count_u32_def unat_of_nat_eq)
  have "queued_bytes (c\<lparr>c_rx_fwd_cnt := c_rx_fwd_cnt c + count_u32 count\<rparr>) = queued_bytes c - count_u32 count"
    by (simp add: queued_bytes_def)
  moreover have "count_u32 count \<le> queued_bytes c"
    using assms count by (simp add: connection_ok_def word_le_nat_alt)
  ultimately show ?thesis
    using assms(1) count by (simp add: connection_ok_def unat_sub)
qed

lemma stream_consume_upstream_keeps:
  assumes inv: "stream_inv s"
  shows "keeps s (stream_consume_upstream n s)"
proof (cases "min n (length (s_upstream s)) = 0 \<or> s_connection s = None")
  case True
  then have "min n (length (s_upstream s)) = 0" using stream_inv_no_connection [OF inv] by auto
  with inv show ?thesis by (simp add: stream_consume_upstream_def keeps_refl)
next
  case False
  then obtain c where c: "s_connection s = Some c" by auto
  note ci = stream_inv_connection [OF inv c]
  define k where "k = min n (length (s_upstream s))"
  define d where "d = c\<lparr>c_rx_fwd_cnt := c_rx_fwd_cnt c + count_u32 k\<rparr>"
  define c1 where "c1 = (if queued_bytes d = 0 then d\<lparr>c_is_receive_credit_requested := False\<rparr> else d)"
  define s1 where "s1 = s\<lparr>s_upstream := drop k (s_upstream s), s_connection := Some c1\<rparr>"
  have k: "k \<le> length (s_upstream s)" "k \<noteq> 0" using False by (auto simp: k_def)
  have lt: "length (s_upstream s) < 2 ^ 32"
    using ci(1) unat_lt_pow [of "s_rx_alloc s"] by (simp add: core_inv_def)
  have q: "unat (queued_bytes d) = length (s_upstream s) - k"
    unfolding d_def by (rule queued_after_forward [OF ci(3) k(1) lt])
  have fwd: "c_rx_fwd_cnt c1 = c_rx_fwd_cnt d" "queued_bytes c1 = queued_bytes d"
    by (simp_all add: c1_def queued_bytes_def)
  have core: "core_inv s1"
    using ci q fwd by (auto simp: s1_def c1_def core_inv_def replies_ok_def connection_ok_def d_def)
  have same: "keeps s1 t = keeps s t" for t
    by (simp add: keeps_def same_stream_def quiet_def s1_def)
  have small: "keeps s s1"
    if "c_rx_fwd_cnt d - c_rx_credit_update_fwd_cnt d < min (s_rx_alloc s) (c_peer_buf_alloc d) div 2"
  proof -
    have "unat (min (s_rx_alloc s) (c_peer_buf_alloc d) div 2) \<le> unat (min (s_rx_alloc s) (c_peer_buf_alloc d))"
      by (simp add: unat_div)
    moreover have "unat (min (s_rx_alloc s) (c_peer_buf_alloc d)) \<le> unat (s_rx_alloc s)"
      using min.cobounded1 [of "s_rx_alloc s" "c_peer_buf_alloc d"] by (simp only: word_le_nat_alt)
    moreover have "unat (c_rx_fwd_cnt d - c_rx_credit_update_fwd_cnt d)
        < unat (min (s_rx_alloc s) (c_peer_buf_alloc d) div 2)"
      using that by (simp only: word_less_nat_alt)
    ultimately have "c_rx_fwd_cnt d - c_rx_credit_update_fwd_cnt d \<le> s_rx_alloc s"
      by (simp only: word_le_nat_alt)
    moreover have "c_rx_credit_update_fwd_cnt c1 = c_rx_credit_update_fwd_cnt d" by (simp add: c1_def)
    ultimately show ?thesis
      using core fwd by (simp add: keeps_def stream_inv_def credit_ok_def same_stream_def quiet_def s1_def)
  qed
  have announce: "keeps s (case respond d OP_CREDIT_UPDATE 0 s1 of (True, s2) \<Rightarrow> s2 | (False, s2) \<Rightarrow> drop_connection s2)"
  proof -
    have "\<And>c'. s_connection s1 = Some c' \<Longrightarrow> c_rx_fwd_cnt c' = c_rx_fwd_cnt d" using fwd by (simp add: s1_def)
    from announce_case_keeps [OF core this] show ?thesis by (simp only: same)
  qed
  have "stream_consume_upstream n s = advance_receive_credit k (s\<lparr>s_upstream := drop k (s_upstream s)\<rparr>)"
    using k(2) by (simp add: stream_consume_upstream_def Let_def k_def)
  also have "keeps s \<dots>"
    using small announce c
    by (simp add: advance_receive_credit_def Let_def d_def [symmetric] c1_def [symmetric] s1_def [symmetric])
  finally show ?thesis .
qed

lemma respond_upstream:
  "respond d op fl t = (b, t') \<Longrightarrow>
    s_upstream t' = s_upstream t \<and> (s_connection t' = None \<longleftrightarrow> s_connection t = None)"
  by (auto simp: respond_def queue_reply_def Let_def split: if_splits)

lemma announce_upstream:
  assumes "s' = (case respond d op fl t of (True, t2) \<Rightarrow> t2 | (False, t2) \<Rightarrow> drop_connection t2)"
  shows "s_connection s' = None \<and> s_upstream s' = [] \<or>
    s_upstream s' = s_upstream t \<and> (s_connection s' = None \<longleftrightarrow> s_connection t = None)"
proof -
  obtain b t' where r: "respond d op fl t = (b, t')" by fastforce
  with respond_upstream [OF r] assms show ?thesis by (cases b) (auto simp: drop_connection_def)
qed

lemma advance_upstream:
  "s_connection (advance_receive_credit k t) = None \<or> s_upstream (advance_receive_credit k t) = s_upstream t"
proof (cases "s_connection t")
  case None
  then show ?thesis by (simp add: advance_receive_credit_def)
next
  case (Some c)
  define d where "d = c\<lparr>c_rx_fwd_cnt := c_rx_fwd_cnt c + count_u32 k\<rparr>"
  define t1 where "t1 = t\<lparr>s_connection := Some (if queued_bytes d = 0
      then d\<lparr>c_is_receive_credit_requested := False\<rparr> else d)\<rparr>"
  have "advance_receive_credit k t = t1 \<or> advance_receive_credit k t =
      (case respond d OP_CREDIT_UPDATE 0 t1 of (True, s2) \<Rightarrow> s2 | (False, s2) \<Rightarrow> drop_connection s2)"
    by (simp add: advance_receive_credit_def Some Let_def d_def [symmetric] t1_def [symmetric])
  moreover have "s_upstream t1 = s_upstream t" by (simp add: t1_def)
  ultimately show ?thesis using announce_upstream [of "advance_receive_credit k t" d OP_CREDIT_UPDATE 0 t1] by auto
qed

lemma consume_upstream_prefix:
  assumes "s_connection (stream_consume_upstream n s) \<noteq> None"
  shows "s_upstream (stream_consume_upstream n s) = drop n (s_upstream s)"
proof (cases "min n (length (s_upstream s)) = 0")
  case True
  then have "drop n (s_upstream s) = s_upstream s" by (auto simp: min_def split: if_splits)
  with True show ?thesis by (simp add: stream_consume_upstream_def)
next
  case False
  let ?k = "min n (length (s_upstream s))"
  have eq: "drop ?k (s_upstream s) = drop n (s_upstream s)" by (simp add: min_def)
  have "stream_consume_upstream n s = advance_receive_credit ?k (s\<lparr>s_upstream := drop ?k (s_upstream s)\<rparr>)"
    using False by (simp add: stream_consume_upstream_def Let_def)
  with assms advance_upstream [of ?k "s\<lparr>s_upstream := drop ?k (s_upstream s)\<rparr>"] eq show ?thesis by auto
qed

lemma send_capacity_fits:
  assumes "length data \<le> stream_send_capacity s" and "data \<noteq> []"
  shows "can_queue_reply s (length data)" "length data \<le> stream_available_send_credit s"
    "length data \<le> unat MAX_PACKET_DATA_BYTES"
  using assms
  by (cases data; auto simp: stream_send_capacity_def can_queue_reply_def MAX_QUEUED_REPLIES_def
      RESERVED_CONTROL_REPLY_SLOTS_def split: if_splits)+

lemma unacked_after_send:
  assumes "connection_ok s c" and "s_connection s = Some c" and "s_max_tx_bytes s < 2 ^ 32"
    and "n \<le> stream_available_send_credit s" and "0 < n"
  shows "unat (unacked_bytes (c_tx_fwd_cnt c + word_of_nat n) (c_peer_fwd_cnt c))
    = unat (unacked_bytes (c_tx_fwd_cnt c) (c_peer_fwd_cnt c)) + n"
    "unat (unacked_bytes (c_tx_fwd_cnt c) (c_peer_fwd_cnt c)) + n \<le> min (unat (c_peer_buf_alloc c)) (s_max_tx_bytes s)"
proof -
  show bound: "unat (unacked_bytes (c_tx_fwd_cnt c) (c_peer_fwd_cnt c)) + n
      \<le> min (unat (c_peer_buf_alloc c)) (s_max_tx_bytes s)"
    using assms by (auto simp: stream_available_send_credit_def Let_def split: if_splits)
  have n: "unat (word_of_nat n :: u32) = n" using bound assms(3) by (simp add: unat_of_nat_eq)
  have eq: "unacked_bytes (c_tx_fwd_cnt c + word_of_nat n) (c_peer_fwd_cnt c)
      = unacked_bytes (c_tx_fwd_cnt c) (c_peer_fwd_cnt c) + word_of_nat n"
    by (simp add: unacked_bytes_def)
  show "unat (unacked_bytes (c_tx_fwd_cnt c + word_of_nat n) (c_peer_fwd_cnt c))
      = unat (unacked_bytes (c_tx_fwd_cnt c) (c_peer_fwd_cnt c)) + n"
    unfolding eq using bound assms(3) n unat_add_no_wrap [of "unacked_bytes (c_tx_fwd_cnt c) (c_peer_fwd_cnt c)" "word_of_nat n"]
    by simp
qed

definition data_reply :: "connection \<Rightarrow> bytes \<Rightarrow> stream_connection \<Rightarrow> reply" where
  "data_reply c data s = \<lparr>r_connection_number = 0,
     r_header = (host_header (s_host_port s) (s_guest_port s))\<lparr>vh_len := word_of_nat (length data), vh_op := OP_RW,
        vh_buf_alloc := s_rx_alloc s, vh_fwd_cnt := c_rx_fwd_cnt c\<rparr>, r_payload = data\<rparr>"

definition sent_connection :: "nat \<Rightarrow> connection \<Rightarrow> connection" where
  "sent_connection n c = c\<lparr>c_tx_fwd_cnt := c_tx_fwd_cnt c + word_of_nat n\<rparr>"

lemma stream_deliver_accepts:
  assumes c: "s_connection s = Some c" and open_stream: "\<not> c_tx_shutdown c" and data: "data \<noteq> []"
    and fits: "length data \<le> stream_send_capacity s"
  shows "stream_deliver data s = (Ok (), s\<lparr>s_connection := Some (sent_connection (length data) c),
      s_reply_bytes := s_reply_bytes s + length data, s_replies := s_replies s @ [data_reply c data s]\<rparr>)"
proof -
  have "length data < 2 ^ 32"
    using send_capacity_fits(3) [OF fits data] unat_lt_pow [of MAX_PACKET_DATA_BYTES] by simp
  with assms send_capacity_fits(1) [OF fits data] show ?thesis
    by (simp add: stream_deliver_def Let_def queue_reply_def can_queue_reply_def data_reply_def sent_connection_def)
qed

lemma stream_deliver_result:
  assumes "stream_deliver data s = (r, s')"
  shows "s' = s \<or> s' = snd (stream_request_credit s) \<or>
    (\<exists>c. s_connection s = Some c \<and> \<not> c_tx_shutdown c \<and> data \<noteq> [] \<and> length data \<le> stream_send_capacity s)"
  using assms by (auto simp: stream_deliver_def Let_def split: option.splits if_splits)

lemma stream_deliver_keeps:
  assumes inv: "stream_inv s" and res: "stream_deliver data s = (r, s')"
  shows "stream_inv s' \<and> same_stream s s' \<and> (s_connection s' = None \<longleftrightarrow> s_connection s = None)
    \<and> s_is_connecting s' = s_is_connecting s \<and> s_upstream s' = s_upstream s \<and> (s_connection s = None \<longrightarrow> s' = s)"
  using stream_deliver_result [OF res]
proof (elim disjE exE conjE)
  assume "s' = s"
  with inv show ?thesis by (simp add: same_stream_def)
next
  assume s': "s' = snd (stream_request_credit s)"
  then obtain b where b: "stream_request_credit s = (b, s')" by (metis prod.collapse)
  have "s' = s" if "s_connection s = None" using b that by (simp add: stream_request_credit_def)
  with stream_request_credit_keeps [OF inv b] show ?thesis by (auto simp: keeps_def)
next
  fix c assume c: "s_connection s = Some c" and open_stream: "\<not> c_tx_shutdown c" and data: "data \<noteq> []"
    and fits: "length data \<le> stream_send_capacity s"
  note ci = stream_inv_connection [OF inv c] and cap = send_capacity_fits [OF fits data]
  have len: "unat (word_of_nat (length data) :: u32) = length data"
    using cap(3) unat_lt_pow [of MAX_PACKET_DATA_BYTES] by (simp add: unat_of_nat_eq)
  have tx: "s_max_tx_bytes s < 2 ^ 32" using ci(1) by (simp add: core_inv_def)
  note sent = unacked_after_send [OF ci(3) c tx cap(2)]
  have "connection_ok s (sent_connection (length data) c)"
    using ci(3) sent data by (simp add: connection_ok_def queued_bytes_def sent_connection_def)
  then have "core_inv (s\<lparr>s_connection := Some (sent_connection (length data) c)\<rparr>)"
    using ci by (intro core_inv_connection)
  moreover have "reply_for (s_guest_port s) (s_host_port s) (data_reply c data s)"
    using len by (simp add: reply_for_def data_reply_def host_header_def)
  moreover have "r_payload (data_reply c data s) = data" by (simp add: data_reply_def)
  ultimately have "core_inv s'"
    using push_reply_core [of "s\<lparr>s_connection := Some (sent_connection (length data) c)\<rparr>" "data_reply c data s"]
      cap(1) res stream_deliver_accepts [OF c open_stream data fits]
    by (auto simp: can_queue_reply_def)
  with res c ci(4) stream_deliver_accepts [OF c open_stream data fits] show ?thesis
    by (auto simp: stream_inv_def credit_ok_def same_stream_def sent_connection_def)
qed


section \<open>Reachable streams\<close>

text \<open>Every way the switch drives one of its streams, from a fresh one; packets reach it by their ports.\<close>

inductive stream_reach :: "u32 \<Rightarrow> u32 \<Rightarrow> u32 \<Rightarrow> nat \<Rightarrow> stream_connection \<Rightarrow> bool" for gp hp alloc tx where
  sr_new: "stream_reach gp hp alloc tx (stream_new gp hp alloc tx)"
| sr_rx: "stream_reach gp hp alloc tx s \<Longrightarrow> vh_src_port h = gp \<Longrightarrow> vh_dst_port h = hp \<Longrightarrow>
    stream_reach gp hp alloc tx (stream_rx h data s)"
| sr_request: "stream_reach gp hp alloc tx s \<Longrightarrow> stream_reach gp hp alloc tx (snd (stream_request s))"
| sr_credit: "stream_reach gp hp alloc tx s \<Longrightarrow> stream_reach gp hp alloc tx (snd (stream_request_credit s))"
| sr_deliver: "stream_reach gp hp alloc tx s \<Longrightarrow> stream_reach gp hp alloc tx (snd (stream_deliver data s))"
| sr_shutdown: "stream_reach gp hp alloc tx s \<Longrightarrow> stream_reach gp hp alloc tx (snd (stream_shutdown s))"
| sr_consume: "stream_reach gp hp alloc tx s \<Longrightarrow> stream_reach gp hp alloc tx (stream_consume_upstream n s)"
| sr_take: "stream_reach gp hp alloc tx s \<Longrightarrow> stream_reach gp hp alloc tx (snd (stream_take_reply n s))"

lemma stream_new_inv: "tx < 2 ^ 32 \<Longrightarrow> stream_inv (stream_new gp hp alloc tx)"
  by (simp add: stream_new_def stream_inv_def core_inv_def replies_ok_def credit_ok_def)

lemma stream_reach_inv:
  assumes "stream_reach gp hp alloc tx s" and "tx < 2 ^ 32"
  shows "stream_inv s \<and> same_stream (stream_new gp hp alloc tx) s"
  using assms
proof (induction rule: stream_reach.induct)
  case sr_new
  then show ?case by (simp add: stream_new_inv same_stream_def)
next
  case (sr_rx s h data)
  then show ?case using stream_rx_keeps [of s h data] by (auto simp: keeps_def same_stream_def stream_new_def)
next
  case (sr_request s)
  then show ?case using stream_request_keeps [of s, OF _ surjective_pairing]
    by (auto simp: keeps_def same_stream_def)
next
  case (sr_credit s)
  then show ?case using stream_request_credit_keeps [of s, OF _ surjective_pairing]
    by (auto simp: keeps_def same_stream_def)
next
  case (sr_deliver s data)
  then show ?case using stream_deliver_keeps [of s, OF _ surjective_pairing, of data]
    by (auto simp: same_stream_def)
next
  case (sr_shutdown s)
  then show ?case using stream_shutdown_keeps [of s, OF _ surjective_pairing]
    by (auto simp: keeps_def same_stream_def)
next
  case (sr_consume s n)
  then show ?case using stream_consume_upstream_keeps [of s n] by (auto simp: keeps_def same_stream_def)
next
  case (sr_take s n)
  then show ?case using stream_take_reply_keeps [of s, OF _ surjective_pairing, of n]
    by (auto simp: keeps_def same_stream_def)
qed

section \<open>What arrives upstream\<close>

lemma accept_peer_credit_upstream:
  assumes res: "accept_peer_credit h c s = (b, s')"
  shows "s_upstream s' = (if b then s_upstream s else []) \<and> (s_connection s' \<noteq> None) = b"
proof -
  define c1 where "c1 = c\<lparr>c_peer_buf_alloc := vh_buf_alloc h, c_peer_fwd_cnt := vh_fwd_cnt h,
      c_is_credit_requested := (if saturating_sub (vh_buf_alloc h) (unacked_bytes (c_tx_fwd_cnt c) (vh_fwd_cnt h))
          > saturating_sub (c_peer_buf_alloc c) (unacked_bytes (c_tx_fwd_cnt c) (c_peer_fwd_cnt c))
        then False else c_is_credit_requested c)\<rparr>"
  obtain d s2 where r: "respond c1 OP_CREDIT_UPDATE 0 (s\<lparr>s_connection := Some c1\<rparr>) = (d, s2)" by fastforce
  have "s_upstream s2 = s_upstream s \<and> s_connection s2 \<noteq> None" using respond_upstream [OF r] by simp
  with res r show ?thesis
    unfolding accept_peer_credit_def Let_def c1_def [symmetric]
    by (cases d) (auto simp: drop_connection_def split: if_splits)
qed

lemma note_peer_credit_upstream:
  assumes "s_connection s \<noteq> None" and "note_peer_credit h s = (b, s')"
  shows "s_upstream s' = (if b then s_upstream s else []) \<and> (s_connection s' \<noteq> None) = b"
proof -
  obtain c where c: "s_connection s = Some c" using assms by auto
  show ?thesis
    using assms c accept_peer_credit_upstream [of h c s b s']
    by (auto simp: note_peer_credit_def drop_connection_def split: if_splits)
qed

lemma on_connected_upstream:
  assumes c: "s_connection s \<noteq> None" and c': "s_connection (on_connected h data s) \<noteq> None"
  shows "s_upstream (on_connected h data s) = s_upstream s @ (if vh_op h = OP_RW then data else [])"
proof -
  obtain c where c: "s_connection s = Some c" using assms by auto
  obtain b s1 where n: "note_peer_credit h s = (b, s1)" by fastforce
  have n': "s_upstream s1 = (if b then s_upstream s else []) \<and> (s_connection s1 \<noteq> None) = b"
    using note_peer_credit_upstream [OF _ n] c by simp
  have sd: "s_upstream (on_shutdown fl s1) = s_upstream s1" for fl
    by (auto simp: on_shutdown_def Let_def split: option.splits if_splits)
  have dt: "s_upstream (on_data h data s1) = s_upstream s1 @ data" if "s_connection (on_data h data s1) \<noteq> None"
    using that by (auto simp: on_data_def drop_connection_def split: option.splits if_splits)
  have cr: "s_upstream (on_credit_request s1) = s_upstream s1" if "s_connection (on_credit_request s1) \<noteq> None"
  proof (cases "s_connection s1")
    case None
    then show ?thesis by (simp add: on_credit_request_def)
  next
    case (Some d)
    let ?d = "d\<lparr>c_is_receive_credit_requested := (queued_bytes d \<noteq> 0)\<rparr>"
    have "on_credit_request s1 = (case respond ?d OP_CREDIT_UPDATE 0 (s1\<lparr>s_connection := Some ?d\<rparr>) of
        (True, t2) \<Rightarrow> t2 | (False, t2) \<Rightarrow> drop_connection t2)"
      by (simp add: on_credit_request_def Some Let_def)
    from announce_upstream [OF this] that show ?thesis by auto
  qed
  have eq: "on_connected h data s = (if vh_op h = OP_RW \<and> c_rx_shutdown c then reject_packet h s
      else if \<not> b then s1
      else if vh_op h = OP_SHUTDOWN then on_shutdown (vh_flags h) s1
      else if vh_op h = OP_RW then on_data h data s1
      else if vh_op h = OP_CREDIT_REQUEST then on_credit_request s1 else s1)"
    by (simp add: on_connected_def c n split: bool.split)
  have b: b and nrej: "\<not> (vh_op h = OP_RW \<and> c_rx_shutdown c)"
    using c' n' reject_packet_drops [of h s] unfolding eq by presburger+
  have up: "s_upstream s1 = s_upstream s" using n' b by simp
  consider "vh_op h = OP_SHUTDOWN" | "vh_op h = OP_RW" | "vh_op h = OP_CREDIT_REQUEST"
    | "vh_op h \<noteq> OP_SHUTDOWN" "vh_op h \<noteq> OP_RW" "vh_op h \<noteq> OP_CREDIT_REQUEST" by blast
  then show ?thesis
  proof cases
    case 1
    then show ?thesis using b up sd by (simp add: eq)
  next
    case 2
    then show ?thesis using b nrej up dt c' by (simp add: eq)
  next
    case 3
    then show ?thesis using b up cr c' by (simp add: eq)
  next
    case 4
    then show ?thesis using b up by (simp add: eq)
  qed
qed

lemma stream_rx_cases:
  assumes "\<And>t. t = reject_packet h s \<Longrightarrow> P t" and "vh_op h = OP_REQUEST \<Longrightarrow> P (on_request h s)"
    and "vh_op h = OP_RESPONSE \<Longrightarrow> P (on_response h s)" and "vh_op h = OP_RST \<Longrightarrow> P (on_rst s)"
    and "\<not> malformed_packet h data \<Longrightarrow> P (on_connected h data s)"
  shows "P (stream_rx h data s)"
  using assms by (simp add: stream_rx_def)

lemma on_request_upstream:
  "s_connection (on_request h s) \<noteq> None \<Longrightarrow> s_connection s = None \<and> s_upstream (on_request h s) = s_upstream s"
proof -
  obtain b s1 where r: "respond (connection_new (vh_buf_alloc h)) OP_RESPONSE 0 s = (b, s1)" by fastforce
  assume "s_connection (on_request h s) \<noteq> None"
  then show ?thesis
    using r respond_upstream [OF r] reject_packet_drops [of h s]
    by (cases b) (auto simp: on_request_def Let_def split: if_splits)
qed

lemma on_response_upstream:
  "s_connection (on_response h s) \<noteq> None \<Longrightarrow> s_is_connecting s \<and> s_upstream (on_response h s) = s_upstream s"
  using reject_packet_drops [of h s] by (auto simp: on_response_def split: if_splits)

lemma stream_rx_upstream:
  assumes inv: "stream_inv s" and live: "s_connection (stream_rx h data s) \<noteq> None"
  shows "s_upstream (stream_rx h data s) =
    (if s_connection s \<noteq> None \<and> vh_op h = OP_RW then s_upstream s @ data else s_upstream s)"
proof -
  have "s_connection (stream_rx h data s) \<noteq> None \<longrightarrow> ?thesis"
  proof (rule stream_rx_cases [of h s "\<lambda>t. s_connection t \<noteq> None \<longrightarrow> s_upstream t =
      (if s_connection s \<noteq> None \<and> vh_op h = OP_RW then s_upstream s @ data else s_upstream s)"])
    show "s_connection t \<noteq> None \<longrightarrow> s_upstream t =
      (if s_connection s \<noteq> None \<and> vh_op h = OP_RW then s_upstream s @ data else s_upstream s)"
      if "t = reject_packet h s" for t using that reject_packet_drops [of h s] by simp
  next
    assume "vh_op h = OP_REQUEST"
    then show "s_connection (on_request h s) \<noteq> None \<longrightarrow> s_upstream (on_request h s) =
      (if s_connection s \<noteq> None \<and> vh_op h = OP_RW then s_upstream s @ data else s_upstream s)"
      using on_request_upstream [of h s] by simp
  next
    assume "vh_op h = OP_RESPONSE"
    then show "s_connection (on_response h s) \<noteq> None \<longrightarrow> s_upstream (on_response h s) =
      (if s_connection s \<noteq> None \<and> vh_op h = OP_RW then s_upstream s @ data else s_upstream s)"
      using on_response_upstream [of h s] by simp
  next
    assume "vh_op h = OP_RST"
    then show "s_connection (on_rst s) \<noteq> None \<longrightarrow> s_upstream (on_rst s) =
      (if s_connection s \<noteq> None \<and> vh_op h = OP_RW then s_upstream s @ data else s_upstream s)"
      by (simp add: on_rst_def drop_connection_def)
  next
    have "s_connection (on_connected h data s) = None" if "s_connection s = None"
      using that by (simp add: on_connected_def rst_def queue_reply_def Let_def)
    then show "s_connection (on_connected h data s) \<noteq> None \<longrightarrow> s_upstream (on_connected h data s) =
      (if s_connection s \<noteq> None \<and> vh_op h = OP_RW then s_upstream s @ data else s_upstream s)"
      using on_connected_upstream [of s h data] by (cases "s_connection s = None") simp_all
  qed
  with live show ?thesis by blast
qed

section \<open>The credit that packets announce\<close>

text \<open>
  What a call adds to the queue: besides resets, only packets that announce the receive buffer and the
  forward count \<open>f\<close>.
\<close>

definition announces :: "u32 \<Rightarrow> u32 \<Rightarrow> reply \<Rightarrow> bool" where
  "announces alloc f p \<longleftrightarrow> vh_op (r_header p) = OP_RST \<or> vh_buf_alloc (r_header p) = alloc \<and> vh_fwd_cnt (r_header p) = f"

definition fwd_is :: "u32 \<Rightarrow> stream_connection \<Rightarrow> bool" where
  "fwd_is f s \<longleftrightarrow> (\<forall>c. s_connection s = Some c \<longrightarrow> c_rx_fwd_cnt c = f)"

definition stamped :: "u32 \<Rightarrow> stream_connection \<Rightarrow> stream_connection \<Rightarrow> bool" where
  "stamped f s s' \<longleftrightarrow> s_rx_alloc s' = s_rx_alloc s
     \<and> set (s_replies s') \<subseteq> set (s_replies s) \<union> {p. announces (s_rx_alloc s) f p} \<and> (fwd_is f s \<longrightarrow> fwd_is f s')"

definition alloc_ok :: "stream_connection \<Rightarrow> bool" where
  "alloc_ok s \<longleftrightarrow> set (s_replies s) \<subseteq> {p. vh_op (r_header p) = OP_RST \<or> vh_buf_alloc (r_header p) = s_rx_alloc s}"

lemma stamped_refl [simp]: "stamped f s s"
  by (simp add: stamped_def)

lemma stamped_trans:
  assumes "stamped f s t" and "stamped f t u"
  shows "stamped f s u"
proof -
  have "set (s_replies u) \<subseteq> set (s_replies t) \<union> {p. announces (s_rx_alloc s) f p}"
    and "set (s_replies t) \<subseteq> set (s_replies s) \<union> {p. announces (s_rx_alloc s) f p}"
    using assms by (simp_all add: stamped_def)
  then have "set (s_replies u) \<subseteq> set (s_replies s) \<union> {p. announces (s_rx_alloc s) f p}" by blast
  with assms show ?thesis by (simp add: stamped_def)
qed

lemma stamped_alloc:
  assumes "stamped f s s'" and "alloc_ok s"
  shows "alloc_ok s'"
proof -
  let ?A = "{p. vh_op (r_header p) = OP_RST \<or> vh_buf_alloc (r_header p) = s_rx_alloc s}"
  have "{p. announces (s_rx_alloc s) f p} \<subseteq> ?A" by (rule Collect_mono) (auto simp: announces_def)
  moreover have "set (s_replies s') \<subseteq> set (s_replies s) \<union> {p. announces (s_rx_alloc s) f p}"
    using assms(1) by (simp add: stamped_def)
  moreover have "set (s_replies s) \<subseteq> ?A" using assms(2) by (simp add: alloc_ok_def)
  ultimately have "set (s_replies s') \<subseteq> ?A" by blast
  with assms(1) show ?thesis by (simp add: alloc_ok_def stamped_def)
qed

lemma stamped_connection:
  "(\<And>c. d = Some c \<Longrightarrow> c_rx_fwd_cnt c = f) \<Longrightarrow> stamped f s (s\<lparr>s_connection := d\<rparr>)"
  by (simp add: stamped_def fwd_is_def)

lemma stamped_drop: "stamped f s (drop_connection s)"
  by (simp add: stamped_def fwd_is_def drop_connection_def)

lemma stamped_queue: "announces (s_rx_alloc s) f p \<Longrightarrow> stamped f s (snd (queue_reply p s))"
  by (auto simp: stamped_def fwd_is_def queue_reply_def Let_def)

lemma stamped_rst: "stamped f s (snd (rst gp hp s))"
  unfolding rst_def by (rule stamped_queue) (simp add: announces_def)

lemma stamped_respond:
  assumes "alloc_ok s" and "c_rx_fwd_cnt c = f"
  shows "stamped f s (snd (respond c op fl s))"
proof (cases "op = OP_CREDIT_UPDATE \<and> s_replies s \<noteq> [] \<and> vh_op (r_header (last (s_replies s))) = OP_CREDIT_UPDATE")
  case True
  then have "last (s_replies s) \<in> set (s_replies s)" by simp
  then have "vh_op (r_header (last (s_replies s))) = OP_RST \<or> vh_buf_alloc (r_header (last (s_replies s))) = s_rx_alloc s"
    using assms(1) by (auto simp: alloc_ok_def dest: subsetD)
  with True have "vh_buf_alloc (r_header (last (s_replies s))) = s_rx_alloc s" by simp
  with True assms(2) show ?thesis
    by (auto simp: respond_def stamped_def fwd_is_def announces_def Let_def dest: in_set_butlastD)
next
  case False
  then have "respond c op fl s = queue_reply \<lparr>r_connection_number = 0,
        r_header = (host_header (s_host_port s) (s_guest_port s))\<lparr>vh_op := op, vh_flags := fl,
            vh_buf_alloc := s_rx_alloc s, vh_fwd_cnt := c_rx_fwd_cnt c\<rparr>, r_payload = []\<rparr> s"
    by (auto simp: respond_def)
  with assms(2) show ?thesis by (simp add: stamped_queue announces_def)
qed

lemma stamped_respond_or_drop:
  assumes "alloc_ok s" and "c_rx_fwd_cnt c = f"
    and "t = (case respond c op fl s of (True, s2) \<Rightarrow> s2 | (False, s2) \<Rightarrow> drop_connection s2)"
  shows "stamped f s t"
proof -
  obtain b s2 where r: "respond c op fl s = (b, s2)" by fastforce
  have "stamped f s s2" using stamped_respond [OF assms(1,2), of op fl] r by simp
  then show ?thesis using assms(3) r by (cases b) (auto intro: stamped_trans stamped_drop)
qed

lemma stamped_reject: "stamped f s (reject_packet h s)"
  unfolding reject_packet_def Let_def
  by (auto intro: stamped_drop stamped_rst stamped_trans [OF stamped_rst])

lemma stamped_note_peer_credit:
  assumes ok: "alloc_ok s" and c: "s_connection s = Some c" and f: "c_rx_fwd_cnt c = f"
  shows "stamped f s (snd (note_peer_credit h s))"
proof -
  have "stamped f s (snd (accept_peer_credit h c s))"
  proof -
    define c1 where "c1 = c\<lparr>c_peer_buf_alloc := vh_buf_alloc h, c_peer_fwd_cnt := vh_fwd_cnt h,
        c_is_credit_requested := (if saturating_sub (vh_buf_alloc h) (unacked_bytes (c_tx_fwd_cnt c) (vh_fwd_cnt h))
            > saturating_sub (c_peer_buf_alloc c) (unacked_bytes (c_tx_fwd_cnt c) (c_peer_fwd_cnt c))
          then False else c_is_credit_requested c)\<rparr>"
    have f1: "c_rx_fwd_cnt c1 = f" using f by (simp add: c1_def)
    have s1: "stamped f s (s\<lparr>s_connection := Some c1\<rparr>)" by (rule stamped_connection) (simp add: f1)
    obtain b s2 where r: "respond c1 OP_CREDIT_UPDATE 0 (s\<lparr>s_connection := Some c1\<rparr>) = (b, s2)" by fastforce
    have "stamped f (s\<lparr>s_connection := Some c1\<rparr>) s2"
      using stamped_respond [of "s\<lparr>s_connection := Some c1\<rparr>" c1 f OP_CREDIT_UPDATE 0] r f1 stamped_alloc [OF s1 ok] by simp
    from stamped_trans [OF s1 this] have s2: "stamped f s s2" .
    have "snd (accept_peer_credit h c s) \<in> {s2, drop_connection s2, s\<lparr>s_connection := Some c1\<rparr>}"
      unfolding accept_peer_credit_def Let_def c1_def [symmetric] r by (cases b) auto
    then show ?thesis using s1 s2 stamped_trans [OF s2 stamped_drop] by auto
  qed
  then show ?thesis using c by (auto simp: note_peer_credit_def intro: stamped_trans [OF stamped_rst stamped_drop])
qed

lemma stamped_on_shutdown: "stamped f s (on_shutdown fl s)"
  by (auto simp: stamped_def fwd_is_def on_shutdown_def Let_def split: option.splits)

lemma stamped_on_data: "stamped f s (on_data h data s)"
proof (cases "s_connection s")
  case (Some c)
  have "stamped f s (drop_connection (snd (rst (vh_src_port h) (vh_dst_port h) s)))"
    by (rule stamped_trans [OF stamped_rst stamped_drop])
  with Some show ?thesis by (simp add: on_data_def stamped_def fwd_is_def)
qed (simp add: on_data_def)

lemma stamped_on_credit_request:
  assumes ok: "alloc_ok s" and f: "fwd_is f s"
  shows "stamped f s (on_credit_request s)"
proof (cases "s_connection s")
  case (Some c)
  let ?c = "c\<lparr>c_is_receive_credit_requested := (queued_bytes c \<noteq> 0)\<rparr>"
  have s1: "stamped f s (s\<lparr>s_connection := Some ?c\<rparr>)"
    by (rule stamped_connection) (use f Some in \<open>auto simp: fwd_is_def\<close>)
  have "stamped f (s\<lparr>s_connection := Some ?c\<rparr>) (on_credit_request s)"
  proof (rule stamped_respond_or_drop)
    show "alloc_ok (s\<lparr>s_connection := Some ?c\<rparr>)" by (rule stamped_alloc [OF s1 ok])
    show "c_rx_fwd_cnt ?c = f" using f Some by (simp add: fwd_is_def)
    show "on_credit_request s = (case respond ?c OP_CREDIT_UPDATE 0 (s\<lparr>s_connection := Some ?c\<rparr>) of
        (True, s2) \<Rightarrow> s2 | (False, s2) \<Rightarrow> drop_connection s2)"
      by (simp add: on_credit_request_def Some Let_def)
  qed
  from stamped_trans [OF s1 this] show ?thesis .
qed (simp add: on_credit_request_def)

lemma stamped_fwd: "stamped f s t \<Longrightarrow> fwd_is f s \<Longrightarrow> fwd_is f t"
  by (simp add: stamped_def)

lemma stamped_on_connected:
  assumes ok: "alloc_ok s" and c: "s_connection s = Some c" and f: "c_rx_fwd_cnt c = f"
  shows "stamped f s (on_connected h data s)"
proof -
  obtain b s1 where n: "note_peer_credit h s = (b, s1)" by fastforce
  have s1: "stamped f s s1" using stamped_note_peer_credit [OF assms, of h] n by simp
  have "fwd_is f s1" by (rule stamped_fwd [OF s1]) (use c f in \<open>simp add: fwd_is_def\<close>)
  note rest = stamped_on_shutdown [of f s1 "vh_flags h"] stamped_on_data [of f s1 h data]
    stamped_on_credit_request [OF stamped_alloc [OF s1 ok] this]
  show ?thesis
    using s1 rest [THEN stamped_trans [OF s1]] stamped_reject [of f s h]
    by (simp add: on_connected_def c n split: bool.split)
qed

text \<open>Every call of a stream stamps what it sends with the forward count it leaves behind.\<close>

definition stamps :: "stream_connection \<Rightarrow> stream_connection \<Rightarrow> bool" where
  "stamps s s' \<longleftrightarrow> (\<exists>f. stamped f s s' \<and> fwd_is f s')"

lemma stampsI: "stamped f s s' \<Longrightarrow> fwd_is f s \<Longrightarrow> stamps s s'"
  unfolding stamps_def using stamped_fwd by blast

lemma stamps_none: "stamped 0 s s' \<Longrightarrow> s_connection s' = None \<Longrightarrow> stamps s s'"
  unfolding stamps_def by (rule exI [of _ 0]) (simp add: fwd_is_def)

lemma stamps_on_request:
  assumes "alloc_ok s"
  shows "stamps s (on_request h s)"
proof (cases "vh_fwd_cnt h \<noteq> 0 \<or> s_connection s \<noteq> None \<or> s_is_connecting s")
  case True
  then have "on_request h s = reject_packet h s" by (simp add: on_request_def)
  then show ?thesis using stamped_reject reject_packet_drops by (simp add: stamps_none)
next
  case False
  let ?c = "connection_new (vh_buf_alloc h)"
  obtain b s1 where r: "respond ?c OP_RESPONSE 0 s = (b, s1)" by fastforce
  have s1: "stamped 0 s s1"
    using stamped_respond [OF assms, of ?c 0 OP_RESPONSE 0] r by (simp add: connection_new_def)
  moreover have "stamped 0 s1 (s1\<lparr>s_connection := Some ?c\<rparr>)" by (rule stamped_connection) (simp add: connection_new_def)
  ultimately have "stamped 0 s (s1\<lparr>s_connection := Some ?c\<rparr>)" by (rule stamped_trans)
  moreover have "fwd_is 0 s" using False by (simp add: fwd_is_def)
  ultimately show ?thesis
    using False r s1 by (cases b) (simp_all add: on_request_def Let_def stampsI)
qed

lemma stamps_on_response: "stamps s (on_response h s)"
proof (cases "\<not> s_is_connecting s \<or> vh_fwd_cnt h \<noteq> 0")
  case True
  then have "on_response h s = (reject_packet h s)\<lparr>s_is_connecting := False\<rparr>" by (auto simp: on_response_def)
  then show ?thesis using stamped_reject [of 0 s h] reject_packet_drops [of h s]
    by (intro stamps_none) (simp_all add: stamped_def fwd_is_def)
next
  case False
  then show ?thesis unfolding stamps_def
    by (intro exI [of _ 0]) (simp add: on_response_def stamped_def fwd_is_def connection_new_def)
qed

lemma stamps_rx:
  assumes "alloc_ok s"
  shows "stamps s (stream_rx h data s)"
proof (rule stream_rx_cases)
  show "stamps s t" if "t = reject_packet h s" for t
    using that stamped_reject reject_packet_drops by (simp add: stamps_none)
  show "stamps s (on_request h s)" by (rule stamps_on_request [OF assms])
  show "stamps s (on_response h s)" by (rule stamps_on_response)
  show "stamps s (on_rst s)"
    using stamped_drop [of 0 s] by (intro stamps_none) (auto simp: on_rst_def drop_connection_def)
  show "stamps s (on_connected h data s)"
  proof (cases "s_connection s")
    case None
    then have "s_connection (on_connected h data s) = None"
      by (simp add: on_connected_def rst_def queue_reply_def Let_def)
    with None stamped_rst show ?thesis by (intro stamps_none) (simp_all add: on_connected_def)
  next
    case (Some c)
    then show ?thesis
      by (intro stampsI [OF stamped_on_connected [OF assms Some refl]]) (simp add: fwd_is_def)
  qed
qed

lemma stamps_request: "stamps s (snd (stream_request s))"
proof (cases "s_connection s \<noteq> None \<or> s_is_connecting s")
  case True
  then have eq: "snd (stream_request s) = s" by (auto simp: stream_request_def)
  show ?thesis unfolding eq
    by (cases "s_connection s") (auto simp: fwd_is_def intro: stampsI [OF stamped_refl])
next
  case False
  let ?r = "\<lparr>r_connection_number = 0, r_header = (host_header (s_host_port s) (s_guest_port s))\<lparr>vh_op := OP_REQUEST,
      vh_buf_alloc := s_rx_alloc s\<rparr>, r_payload = []\<rparr>"
  obtain b s1 where q: "queue_reply ?r s = (b, s1)" by fastforce
  have "stamped 0 s s1"
    using stamped_queue [of s 0 ?r] q by (simp add: announces_def host_header_def)
  then have "stamped 0 s (snd (stream_request s))"
    using False q by (cases b) (simp_all add: stream_request_def stamped_def fwd_is_def)
  then show ?thesis by (rule stampsI) (use False in \<open>simp add: fwd_is_def\<close>)
qed

lemma stamped_request_credit:
  assumes "fwd_is f s"
  shows "stamped f s (snd (stream_request_credit s))"
proof (cases "s_connection s")
  case (Some c)
  let ?r = "\<lparr>r_connection_number = 0, r_header = (host_header (s_host_port s) (s_guest_port s))\<lparr>vh_op := OP_CREDIT_REQUEST,
      vh_buf_alloc := s_rx_alloc s, vh_fwd_cnt := c_rx_fwd_cnt c\<rparr>, r_payload = []\<rparr>"
  obtain b s1 where q: "queue_reply ?r s = (b, s1)" by fastforce
  have s1: "stamped f s s1"
    using stamped_queue [of s f ?r] q assms Some by (simp add: announces_def fwd_is_def)
  have f: "c_rx_fwd_cnt c1 = f" if "s_connection s1 = Some c1" for c1
    using stamped_fwd [OF s1 assms] that by (simp add: fwd_is_def)
  have "stamped f s1 (s1\<lparr>s_connection := Some (c1\<lparr>c_is_credit_requested := True\<rparr>)\<rparr>)" if "s_connection s1 = Some c1" for c1
    by (rule stamped_connection) (use f [OF that] in auto)
  then show ?thesis
    using s1 q by (auto simp: stream_request_credit_def Some stamped_trans [OF s1] split: option.splits bool.splits)
qed (simp add: stream_request_credit_def)

lemma stamped_deliver:
  assumes "fwd_is f s"
  shows "stamped f s (snd (stream_deliver data s))"
proof -
  obtain r s' where d: "stream_deliver data s = (r, s')" by fastforce
  show ?thesis
    using stream_deliver_result [OF d]
  proof (elim disjE exE conjE)
    assume "s' = snd (stream_request_credit s)"
    then show ?thesis using stamped_request_credit [OF assms] d by simp
  next
    fix c assume c: "s_connection s = Some c" and acc: "\<not> c_tx_shutdown c" "data \<noteq> []" "length data \<le> stream_send_capacity s"
    have "announces (s_rx_alloc s) f (data_reply c data s)"
      using assms c by (simp add: announces_def data_reply_def fwd_is_def)
    then show ?thesis
      using assms c by (auto simp: stream_deliver_accepts [OF c acc] stamped_def fwd_is_def sent_connection_def)
  qed (simp add: d)
qed

lemma stamped_shutdown:
  assumes ok: "alloc_ok s" and f: "fwd_is f s"
  shows "stamped f s (snd (stream_shutdown s))"
proof (cases "s_connection s")
  case (Some c)
  let ?c = "c\<lparr>c_tx_shutdown := True\<rparr>"
  let ?s1 = "s\<lparr>s_connection := Some ?c\<rparr>"
  let ?t = "case respond ?c OP_SHUTDOWN FLAG_SHUTDOWN_SEND ?s1 of (True, s2) \<Rightarrow> s2 | (False, s2) \<Rightarrow> drop_connection s2"
  have fc: "c_rx_fwd_cnt ?c = f" using f Some by (simp add: fwd_is_def)
  have s1: "stamped f s ?s1" by (rule stamped_connection) (use fc in auto)
  have "stamped f ?s1 ?t" by (rule stamped_respond_or_drop [OF stamped_alloc [OF s1 ok] fc refl])
  from stamped_trans [OF s1 this] have "stamped f s ?t" .
  moreover have "snd (stream_shutdown s) = s \<or> snd (stream_shutdown s) = ?t"
    by (auto simp: stream_shutdown_def Some Let_def split: prod.splits bool.splits)
  ultimately show ?thesis by auto
qed (simp add: stream_shutdown_def)

lemma stamped_take_reply: "stamped f s (snd (stream_take_reply n s))"
  by (auto simp: stamped_def fwd_is_def stream_take_reply_def split: list.splits)

lemma stamps_advance:
  assumes ok: "alloc_ok s"
  shows "stamps s (advance_receive_credit k s)"
proof (cases "s_connection s")
  case None
  then show ?thesis by (intro stamps_none) (simp_all add: advance_receive_credit_def)
next
  case (Some c)
  define d where "d = c\<lparr>c_rx_fwd_cnt := c_rx_fwd_cnt c + count_u32 k\<rparr>"
  define s1 where "s1 = s\<lparr>s_connection := Some (if queued_bytes d = 0
      then d\<lparr>c_is_receive_credit_requested := False\<rparr> else d)\<rparr>"
  define t where "t = (case respond d OP_CREDIT_UPDATE 0 s1 of (True, s2) \<Rightarrow> s2 | (False, s2) \<Rightarrow> drop_connection s2)"
  let ?f = "c_rx_fwd_cnt d"
  have s1: "stamped ?f s s1" unfolding s1_def by (rule stamped_connection) (auto split: if_splits)
  have f1: "fwd_is ?f s1" by (simp add: s1_def fwd_is_def)
  have t1: "stamped ?f s1 t"
    by (rule stamped_respond_or_drop [OF stamped_alloc [OF s1 ok] refl]) (simp add: t_def)
  have "advance_receive_credit k s = s1 \<or> advance_receive_credit k s = t"
    by (simp add: advance_receive_credit_def Some Let_def d_def [symmetric] s1_def [symmetric] t_def [symmetric])
  then show ?thesis
    unfolding stamps_def using s1 f1 stamped_trans [OF s1 t1] stamped_fwd [OF t1 f1] by metis
qed

lemma stamps_consume:
  assumes ok: "alloc_ok s"
  shows "stamps s (stream_consume_upstream n s)"
proof -
  let ?s = "s\<lparr>s_upstream := drop (min n (length (s_upstream s))) (s_upstream s)\<rparr>"
  have "stamps s s" by (cases "s_connection s") (auto simp: fwd_is_def intro: stampsI [OF stamped_refl])
  moreover have "alloc_ok ?s" using ok by (simp add: alloc_ok_def)
  from stamps_advance [OF this] have "stamps s (advance_receive_credit k ?s)" for k
    by (simp add: stamps_def stamped_def fwd_is_def)
  ultimately show ?thesis by (simp add: stream_consume_upstream_def Let_def)
qed

text \<open>The calls of a stream, as values, and the data bytes the guest sends with each.\<close>

datatype stream_op =
    Op_Rx vsock_header bytes
  | Op_Request
  | Op_Request_Credit
  | Op_Deliver bytes
  | Op_Shutdown
  | Op_Consume nat
  | Op_Take nat

fun stream_apply :: "stream_op \<Rightarrow> stream_connection \<Rightarrow> stream_connection" where
  "stream_apply (Op_Rx h data) s = stream_rx h data s"
| "stream_apply Op_Request s = snd (stream_request s)"
| "stream_apply Op_Request_Credit s = snd (stream_request_credit s)"
| "stream_apply (Op_Deliver data) s = snd (stream_deliver data s)"
| "stream_apply Op_Shutdown s = snd (stream_shutdown s)"
| "stream_apply (Op_Consume n) s = stream_consume_upstream n s"
| "stream_apply (Op_Take n) s = snd (stream_take_reply n s)"

fun op_for :: "u32 \<Rightarrow> u32 \<Rightarrow> stream_op \<Rightarrow> bool" where
  "op_for gp hp (Op_Rx h data) \<longleftrightarrow> vh_src_port h = gp \<and> vh_dst_port h = hp"
| "op_for gp hp _ \<longleftrightarrow> True"

fun op_bytes :: "stream_op \<Rightarrow> nat" where
  "op_bytes (Op_Rx h data) = (if vh_op h = OP_RW then length data else 0)"
| "op_bytes _ = 0"

lemma stream_apply_reach:
  "stream_reach gp hp alloc tx s \<Longrightarrow> op_for gp hp op \<Longrightarrow> stream_reach gp hp alloc tx (stream_apply op s)"
  by (cases op) (auto intro: stream_reach.intros)

lemma stamps_apply:
  assumes "alloc_ok s"
  shows "stamps s (stream_apply op s)"
proof -
  obtain f where "fwd_is f s" by (cases "s_connection s") (auto simp: fwd_is_def)
  then show ?thesis
    using assms stamps_rx stamps_request stamps_consume
    by (cases op) (auto intro: stampsI stamped_request_credit stamped_deliver stamped_shutdown stamped_take_reply)
qed

lemma reach_alloc_ok:
  assumes "stream_reach gp hp alloc tx s"
  shows "alloc_ok s"
  using assms
proof (induction rule: stream_reach.induct)
  case sr_new
  then show ?case by (simp add: alloc_ok_def stream_new_def)
qed (use stamps_apply stamped_alloc in \<open>metis stamps_def stream_apply.simps\<close>)+

lemma upstream_growth:
  assumes "stream_reach gp hp alloc tx s" and "tx < 2 ^ 32" and "op_for gp hp op"
  shows "length (s_upstream (stream_apply op s)) \<le> length (s_upstream s) + op_bytes op"
proof -
  have inv: "stream_inv s" using stream_reach_inv [OF assms(1,2)] by simp
  have inv': "stream_inv (stream_apply op s)"
    using stream_reach_inv [OF stream_apply_reach [OF assms(1,3)] assms(2)] by simp
  show ?thesis
  proof (cases "s_connection (stream_apply op s) = None")
    case True
    then show ?thesis using stream_inv_no_connection [OF inv'] by simp
  next
    case False
    have "s_upstream (snd (stream_request s)) = s_upstream s"
      by (simp add: stream_request_def queue_reply_def Let_def)
    then show ?thesis
      using False stream_rx_upstream [OF inv] consume_upstream_prefix
        stream_request_credit_keeps [OF inv surjective_pairing] stream_deliver_keeps [OF inv surjective_pairing]
        stream_shutdown_keeps [OF inv surjective_pairing] stream_take_reply_keeps [OF inv surjective_pairing]
      by (cases op) simp_all
  qed
qed

lemma upstream_growth_run:
  assumes "stream_reach gp hp alloc tx s" and "tx < 2 ^ 32" and "list_all (op_for gp hp) ops"
  shows "stream_reach gp hp alloc tx (fold stream_apply ops s)
    \<and> length (s_upstream (fold stream_apply ops s)) \<le> length (s_upstream s) + sum_list (map op_bytes ops)"
  using assms
proof (induction ops arbitrary: s)
  case (Cons op ops)
  have op: "op_for gp hp op" and ops: "list_all (op_for gp hp) ops" using Cons.prems by simp_all
  have "stream_reach gp hp alloc tx (stream_apply op s)" by (rule stream_apply_reach [OF Cons.prems(1) op])
  from Cons.IH [OF this Cons.prems(2) ops] upstream_growth [OF Cons.prems(1,2) op] show ?case by simp
qed simp

text \<open>What the guest has in flight when a call leaves packet \<open>p\<close>: the bytes taken from it that the
  packet's forward count does not yet give back.\<close>

definition unreturned :: "reply \<Rightarrow> stream_connection \<Rightarrow> nat" where
  "unreturned p s = (case s_connection s of None \<Rightarrow> 0 | Some c \<Rightarrow> unat (c_rx_received c - vh_fwd_cnt (r_header p)))"

lemma announced_packet:
  assumes reach: "stream_reach gp hp alloc tx s" and tx: "tx < 2 ^ 32" and op: "op_for gp hp op"
    and new: "p \<in> set (s_replies (stream_apply op s))" "p \<notin> set (s_replies s)" and nrst: "vh_op (r_header p) \<noteq> OP_RST"
  shows "vh_buf_alloc (r_header p) = alloc \<and> unreturned p (stream_apply op s) = length (s_upstream (stream_apply op s))"
proof -
  let ?t = "stream_apply op s"
  have inv: "stream_inv ?t" using stream_reach_inv [OF stream_apply_reach [OF reach op] tx] by simp
  have al: "s_rx_alloc s = alloc" using stream_reach_inv [OF reach tx] by (simp add: same_stream_def stream_new_def)
  obtain f where f: "stamped f s ?t" "fwd_is f ?t" using stamps_apply [OF reach_alloc_ok [OF reach]] by (auto simp: stamps_def)
  have "set (s_replies ?t) \<subseteq> set (s_replies s) \<union> {p. announces (s_rx_alloc s) f p}" using f(1) by (simp add: stamped_def)
  then have "announces (s_rx_alloc s) f p" using new by blast
  then have p: "vh_buf_alloc (r_header p) = alloc" "vh_fwd_cnt (r_header p) = f" using nrst al by (simp_all add: announces_def)
  show ?thesis
  proof (cases "s_connection ?t")
    case None
    then show ?thesis using p stream_inv_no_connection [OF inv] by (simp add: unreturned_def)
  next
    case (Some c)
    have "c_rx_fwd_cnt c = f" using f(2) Some by (simp add: fwd_is_def)
    then show ?thesis
      using p Some stream_inv_connection(3) [OF inv Some] by (simp add: unreturned_def connection_ok_def queued_bytes_def)
  qed
qed

lemma note_peer_credit_accepts:
  assumes "s_connection s = Some c" and "\<not> ack_ahead (vh_fwd_cnt h) (c_tx_fwd_cnt c)" and "can_queue_reply s 0"
  shows "fst (note_peer_credit h s)"
proof -
  have r: "respond d OP_CREDIT_UPDATE 0 (s\<lparr>s_connection := Some d\<rparr>)
      = (True, snd (respond d OP_CREDIT_UPDATE 0 (s\<lparr>s_connection := Some d\<rparr>)))" for d
    using respond_success [of "s\<lparr>s_connection := Some d\<rparr>" d OP_CREDIT_UPDATE 0] assms(3)
    by (simp add: can_queue_reply_def prod_eq_iff)
  have "fst (accept_peer_credit h c s)"
    unfolding accept_peer_credit_def Let_def by (subst r) (simp only: prod.case bool.case if_cancel fst_conv simp_thms split: if_split)
  with assms(1,2) show ?thesis by (simp add: note_peer_credit_def)
qed

lemma note_peer_credit_receive:
  assumes "stream_inv s" and "s_connection s = Some c" and "fst (note_peer_credit h s)"
  shows "\<exists>c'. s_connection (snd (note_peer_credit h s)) = Some c' \<and> unat (queued_bytes c') = length (s_upstream s)
    \<and> s_upstream (snd (note_peer_credit h s)) = s_upstream s \<and> s_rx_alloc (snd (note_peer_credit h s)) = s_rx_alloc s"
proof -
  obtain b s' where n: "note_peer_credit h s = (b, s')" by fastforce
  have k: "keeps s s'" by (rule note_peer_credit_keeps [OF assms(1) n])
  have up: "s_upstream s' = s_upstream s" "s_connection s' \<noteq> None"
    using note_peer_credit_upstream [OF _ n] assms n by auto
  then obtain c' where c': "s_connection s' = Some c'" by auto
  have "stream_inv s'" using k by (simp add: keeps_def)
  from stream_inv_connection(3) [OF this c'] show ?thesis
    using k up c' n by (simp add: connection_ok_def keeps_def same_stream_def)
qed

lemma data_within_buffer_accepted:
  assumes inv: "stream_inv s" and c: "s_connection s = Some c" and h: "\<not> malformed_packet h data" "vh_op h = OP_RW"
    and open_side: "\<not> c_rx_shutdown c" and ack: "\<not> ack_ahead (vh_fwd_cnt h) (c_tx_fwd_cnt c)" and room: "can_queue_reply s 0"
    and fits: "length (s_upstream s) + length data \<le> unat (s_rx_alloc s)"
  shows "s_upstream (stream_rx h data s) = s_upstream s @ data \<and> s_connection (stream_rx h data s) \<noteq> None"
proof -
  obtain s1 where n: "note_peer_credit h s = (True, s1)"
    using note_peer_credit_accepts [OF c ack room] by (metis prod.collapse)
  obtain c1 where c1: "s_connection s1 = Some c1" "unat (queued_bytes c1) = length (s_upstream s)"
      "s_upstream s1 = s_upstream s" "s_rx_alloc s1 = s_rx_alloc s"
    using note_peer_credit_receive [OF inv c, of h] n by auto
  have "\<not> s_is_connecting s" using stream_inv_connection(2) [OF inv c] .
  then have "stream_rx h data s = on_connected h data s" using h by (simp add: stream_rx_def)
  also have "\<dots> = on_data h data s1" using c n h open_side by (simp add: on_connected_def)
  finally have rx: "stream_rx h data s = on_data h data s1" .
  have len: "length data = unat (vh_len h)" using h(1) by (simp add: malformed_packet_def)
  then show ?thesis using c1 fits by (simp add: rx on_data_def)
qed

section \<open>Properties\<close>

text \<open>C10: However the guest behaves, a stream stays within the memory it was given. In every state
  that packets and host calls can bring it to, the bytes waiting for the host fit the announced
  receive buffer and are exactly the bytes the counters say are queued, the queued replies carry at
  most the transmit budget, the byte count kept for them is exact, there are at most
  \<open>MAX_QUEUED_REPLIES\<close> of them, and each is a well-formed packet from the host to this stream's guest
  port.\<close>

theorem stream_memory_bounded:
  assumes "stream_reach gp hp alloc tx s" and "tx < 2 ^ 32"
  shows "length (s_upstream s) \<le> unat alloc
    \<and> (case s_connection s of None \<Rightarrow> s_upstream s = [] | Some c \<Rightarrow> unat (queued_bytes c) = length (s_upstream s))
    \<and> s_reply_bytes s = payload_bytes (s_replies s) \<and> s_reply_bytes s \<le> tx
    \<and> length (s_replies s) \<le> MAX_QUEUED_REPLIES
    \<and> list_all (reply_for gp hp) (s_replies s)"
  using stream_reach_inv [OF assms]
  by (auto simp: stream_inv_def core_inv_def replies_ok_def connection_ok_def same_stream_def stream_new_def
      split: option.splits)

definition sample_request :: vsock_header where
  "sample_request = \<lparr>vh_src_cid = ucast GUEST_CID, vh_dst_cid = ucast HOST_CID, vh_src_port = 50000,
     vh_dst_port = 6002, vh_len = 0, vh_type = TYPE_STREAM, vh_op = OP_REQUEST, vh_flags = 0,
     vh_buf_alloc = 64, vh_fwd_cnt = 0\<rparr>"

definition sample_data :: vsock_header where
  "sample_data = sample_request\<lparr>vh_op := OP_RW, vh_len := 3\<rparr>"

definition sample_stream :: stream_connection where
  "sample_stream = stream_rx sample_request [] (stream_new 50000 6002 16 32)"

lemma sample_stream_reach: "stream_reach 50000 6002 16 32 sample_stream"
  unfolding sample_stream_def by (rule sr_rx [OF sr_new]) (simp_all add: sample_request_def)

lemmas sample_stream_defs = sample_stream_def sample_request_def sample_data_def stream_rx_def malformed_packet_def
  on_request_def Let_def respond_def queue_reply_def can_queue_reply_def stream_new_def connection_new_def
  host_header_def MAX_QUEUED_REPLIES_def MAX_PACKET_DATA_BYTES_def HOST_CID_def GUEST_CID_def TYPE_STREAM_def

lemma sample_stream_connection: "s_connection sample_stream = Some (connection_new 64)"
  by (simp add: sample_stream_defs)

lemma sample_stream_fields:
  "s_upstream sample_stream = []" "s_reply_bytes sample_stream = 0" "length (s_replies sample_stream) = 1"
  "s_max_tx_bytes sample_stream = 32" "s_rx_alloc sample_stream = 16" "s_is_connecting sample_stream = False"
  "s_guest_port sample_stream = 50000" "s_host_port sample_stream = 6002"
  by (simp_all add: sample_stream_defs)

theorem stream_memory_bounded_witness:
  "length (s_upstream sample_stream) \<le> unat (16 :: u32) \<and> length (s_replies sample_stream) = 1
    \<and> list_all (reply_for 50000 6002) (s_replies sample_stream)"
  using stream_memory_bounded [OF sample_stream_reach] sample_stream_fields by simp

text \<open>C33: The host never sends beyond what the guest said it can hold. When \<open>deliver\<close> accepts bytes,
  the bytes sent and not yet acknowledged grow by exactly their number, the counter does not wrap past
  the guest's buffer allocation or the stream's own budget, and exactly one data packet carrying those
  bytes is added at the end of the reply queue.\<close>

theorem deliver_within_peer_credit:
  assumes "stream_reach gp hp alloc tx s" and "tx < 2 ^ 32" and "data \<noteq> []"
    and "stream_deliver data s = (Ok (), s')"
  shows "\<exists>c c'. s_connection s = Some c \<and> s_connection s' = Some c' \<and> c_peer_buf_alloc c' = c_peer_buf_alloc c
    \<and> unat (unacked_bytes (c_tx_fwd_cnt c') (c_peer_fwd_cnt c'))
        = unat (unacked_bytes (c_tx_fwd_cnt c) (c_peer_fwd_cnt c)) + length data
    \<and> unat (unacked_bytes (c_tx_fwd_cnt c') (c_peer_fwd_cnt c')) \<le> min (unat (c_peer_buf_alloc c')) tx
    \<and> s_replies s' = s_replies s @ [data_reply c data s]"
proof -
  have inv: "stream_inv s" and tx: "s_max_tx_bytes s = tx"
    using stream_reach_inv [OF assms(1,2)] by (auto simp: same_stream_def stream_new_def)
  obtain c where c: "s_connection s = Some c" and open_stream: "\<not> c_tx_shutdown c"
    using assms(4) by (auto simp: stream_deliver_def split: option.splits if_splits)
  have fits: "length data \<le> stream_send_capacity s"
    using assms(3,4) c open_stream by (auto simp: stream_deliver_def Let_def split: if_splits)
  note ci = stream_inv_connection [OF inv c]
  have "s_max_tx_bytes s < 2 ^ 32" using tx assms(2) by simp
  note sent = unacked_after_send [OF ci(3) c this send_capacity_fits(2) [OF fits assms(3)]]
  have "s' = s\<lparr>s_connection := Some (sent_connection (length data) c),
      s_reply_bytes := s_reply_bytes s + length data, s_replies := s_replies s @ [data_reply c data s]\<rparr>"
    using stream_deliver_accepts [OF c open_stream assms(3) fits] assms(4) by simp
  with c sent assms(3) tx show ?thesis by (auto simp: sent_connection_def)
qed

lemma sample_deliver:
  "stream_deliver [1, 2, 3] sample_stream = (Ok (), snd (stream_deliver [1, 2, 3] sample_stream))"
  by (subst (1 2) stream_deliver_accepts [OF sample_stream_connection])
    (simp_all add: connection_new_def stream_send_capacity_def stream_available_send_credit_def
      sample_stream_connection sample_stream_fields unacked_bytes_def MAX_PACKET_DATA_BYTES_def
      MAX_QUEUED_REPLIES_def RESERVED_CONTROL_REPLY_SLOTS_def)

theorem deliver_within_peer_credit_witness:
  "\<exists>c c'. s_connection sample_stream = Some c
    \<and> s_connection (snd (stream_deliver [1, 2, 3] sample_stream)) = Some c'
    \<and> unat (unacked_bytes (c_tx_fwd_cnt c') (c_peer_fwd_cnt c'))
        = unat (unacked_bytes (c_tx_fwd_cnt c) (c_peer_fwd_cnt c)) + 3"
  using deliver_within_peer_credit [OF sample_stream_reach _ _ sample_deliver] by auto

text \<open>C34: A guest that keeps to the credit it was announced is never reset for overflowing the
  receive buffer. Take any call on a stream that leaves a new packet \<open>p\<close> for the guest, a reset apart, and
  any further calls and packets after it. If the bytes that \<open>p\<close>'s forward count does not give back, those
  the guest sends afterwards and those of a data packet \<open>h\<close> together fit the buffer size that \<open>p\<close> states,
  then \<open>rx\<close> on \<open>h\<close> appends its data to the bytes waiting for the host and the connection stays open. The
  packet has to be well-formed, on a connection whose sending side the guest has not shut down, must not
  acknowledge bytes that were never sent, and there has to be room for one more reply.\<close>

theorem credit_respecting_data_accepted:
  assumes "stream_reach gp hp alloc tx s0" and "tx < 2 ^ 32" and "list_all (op_for gp hp) (op # ops)"
    and "s1 = stream_apply op s0" and "p \<in> set (s_replies s1)" and "p \<notin> set (s_replies s0)"
    and "vh_op (r_header p) \<noteq> OP_RST" and "s2 = fold stream_apply ops s1"
    and "unreturned p s1 + sum_list (map op_bytes ops) + length data \<le> unat (vh_buf_alloc (r_header p))"
    and "s_connection s2 = Some c" and "\<not> malformed_packet h data" and "vh_op h = OP_RW"
    and "\<not> c_rx_shutdown c" and "\<not> ack_ahead (vh_fwd_cnt h) (c_tx_fwd_cnt c)" and "can_queue_reply s2 0"
  shows "s_upstream (stream_rx h data s2) = s_upstream s2 @ data \<and> s_connection (stream_rx h data s2) \<noteq> None"
proof -
  have op: "op_for gp hp op" and ops: "list_all (op_for gp hp) ops" using assms(3) by simp_all
  have s1: "stream_reach gp hp alloc tx s1" using stream_apply_reach [OF assms(1) op] assms(4) by simp
  note run = upstream_growth_run [OF s1 assms(2) ops, folded assms(8)]
  note s2 = stream_reach_inv [OF run [THEN conjunct1] assms(2)]
  have "vh_buf_alloc (r_header p) = alloc \<and> unreturned p s1 = length (s_upstream s1)"
    using announced_packet [OF assms(1,2) op, of p] assms(4-7) by simp
  then have "length (s_upstream s2) + length data \<le> unat alloc" using run assms(9) by simp
  moreover have "s_rx_alloc s2 = alloc" using s2 by (simp add: same_stream_def stream_new_def)
  ultimately show ?thesis
    using data_within_buffer_accepted [of s2 c h data] s2 assms(10-15) by simp
qed

theorem credit_respecting_data_accepted_witness:
  "\<exists>p \<in> set (s_replies sample_stream). vh_op (r_header p) = OP_RESPONSE \<and> vh_buf_alloc (r_header p) = 16
    \<and> (let s2 = fold stream_apply [Op_Rx sample_data [7, 8, 9], Op_Consume 2, Op_Rx sample_data [4, 5, 6]] sample_stream
       in s_upstream (stream_rx sample_data [1, 2, 3] s2) = s_upstream s2 @ [1, 2, 3]
          \<and> s_connection (stream_rx sample_data [1, 2, 3] s2) \<noteq> None)"
proof -
  let ?ops = "[Op_Rx sample_data [7, 8, 9], Op_Consume 2, Op_Rx sample_data [4, 5, 6]]"
  define p where "p = hd (s_replies sample_stream)"
  define s2 where "s2 = fold stream_apply ?ops sample_stream"
  have p: "s_replies sample_stream = [p]" "vh_op (r_header p) = OP_RESPONSE" "vh_buf_alloc (r_header p) = 16"
      "vh_fwd_cnt (r_header p) = 0"
    by (simp_all add: p_def sample_stream_defs)
  have s2: "s_connection s2 = Some ((connection_new 64)\<lparr>c_rx_received := 6, c_rx_fwd_cnt := 2\<rparr>)" "can_queue_reply s2 0"
    by (simp_all add: s2_def sample_stream_defs on_connected_def note_peer_credit_def ack_ahead_def
      unacked_bytes_def max_tx_u32_def accept_peer_credit_def on_data_def queued_bytes_def
      stream_consume_upstream_def advance_receive_credit_def count_u32_def AGENT_PORT_def)
  have "s_upstream (stream_rx sample_data [1, 2, 3] s2) = s_upstream s2 @ [1, 2, 3]
      \<and> s_connection (stream_rx sample_data [1, 2, 3] s2) \<noteq> None"
  proof (rule credit_respecting_data_accepted [OF sr_new [of 50000 6002 16 32], where op = "Op_Rx sample_request []"
        and ops = ?ops and p = p and c = "(connection_new 64)\<lparr>c_rx_received := 6, c_rx_fwd_cnt := 2\<rparr>"])
    show "sample_stream = stream_apply (Op_Rx sample_request []) (stream_new 50000 6002 16 32)"
      by (simp add: sample_stream_def)
    show "s2 = fold stream_apply ?ops sample_stream" by (rule s2_def)
  qed (use p s2 sample_stream_connection in \<open>simp_all add: sample_data_def sample_request_def stream_new_def unreturned_def
      connection_new_def malformed_packet_def MAX_PACKET_DATA_BYTES_def ack_ahead_def\<close>)
  then show ?thesis using p by (auto simp: s2_def)
qed

text \<open>Consumed bytes are given back to the guest in time. After the host consumes upstream bytes,
  either every consumed byte has been announced, or what is left unannounced is less than half of the
  smaller of the two buffers, so the guest's send window never closes for want of an announcement.\<close>

lemma consume_announces_credit:
  assumes "stream_reach gp hp alloc tx s" and "tx < 2 ^ 32"
    and "n \<noteq> 0" and "s_upstream s \<noteq> []" and "s_connection (stream_consume_upstream n s) = Some c"
  shows "c_rx_credit_update_fwd_cnt c = c_rx_fwd_cnt c
    \<or> c_rx_fwd_cnt c - c_rx_credit_update_fwd_cnt c < min alloc (c_peer_buf_alloc c) div 2"
proof -
  have inv: "stream_inv s" and al: "s_rx_alloc s = alloc"
    using stream_reach_inv [OF assms(1,2)] by (auto simp: same_stream_def stream_new_def)
  obtain c0 where c0: "s_connection s = Some c0"
    using stream_inv_no_connection [OF inv] assms(4) by (cases "s_connection s") auto
  define k where "k = min n (length (s_upstream s))"
  define s0 where "s0 = s\<lparr>s_upstream := drop k (s_upstream s)\<rparr>"
  define d where "d = c0\<lparr>c_rx_fwd_cnt := c_rx_fwd_cnt c0 + count_u32 k\<rparr>"
  define d1 where "d1 = (if queued_bytes d = 0 then d\<lparr>c_is_receive_credit_requested := False\<rparr> else d)"
  have d1: "c_rx_fwd_cnt d1 = c_rx_fwd_cnt d" "c_rx_credit_update_fwd_cnt d1 = c_rx_credit_update_fwd_cnt d"
    "c_peer_buf_alloc d1 = c_peer_buf_alloc d" by (simp_all add: d1_def)
  have c0': "s_connection s0 = Some c0" and al': "s_rx_alloc s0 = alloc" using c0 al by (simp_all add: s0_def)
  obtain b s2 where r: "respond d OP_CREDIT_UPDATE 0 (s0\<lparr>s_connection := Some d1\<rparr>) = (b, s2)" by fastforce
  have up: "s_connection s2 = Some (d1\<lparr>c_rx_credit_update_fwd_cnt := c_rx_fwd_cnt d\<rparr>)" if b
    using r that by (auto simp: respond_def queue_reply_def Let_def split: if_splits)
  have "k \<noteq> 0" using assms(3,4) by (simp add: k_def min_def)
  then have "stream_consume_upstream n s = advance_receive_credit k s0"
    by (simp add: stream_consume_upstream_def Let_def k_def s0_def)
  also have "\<dots> = (if s_host_port s0 \<noteq> AGENT_PORT \<and> \<not> c_is_receive_credit_requested d
        \<and> c_rx_fwd_cnt d - c_rx_credit_update_fwd_cnt d < min alloc (c_peer_buf_alloc d) div 2
        \<and> (s_replies s0 = [] \<or> vh_op (r_header (last (s_replies s0))) \<noteq> OP_CREDIT_UPDATE)
      then s0\<lparr>s_connection := Some d1\<rparr> else if b then s2 else drop_connection s2)"
    using c0' al' r by (simp only: advance_receive_credit_def Let_def option.case d_def [symmetric] d1_def [symmetric]
        prod.case if_split_eq1 refl) (cases b; auto)
  finally show ?thesis
    using assms(5) up d1 by (auto simp: drop_connection_def split: if_splits)
qed

definition sample_fed_stream :: stream_connection where
  "sample_fed_stream = stream_rx sample_data [7, 8, 9] sample_stream"

lemma sample_fed_stream_reach: "stream_reach 50000 6002 16 32 sample_fed_stream"
  unfolding sample_fed_stream_def
  by (rule sr_rx [OF sample_stream_reach]) (simp_all add: sample_request_def sample_data_def)

lemma sample_fed_stream_upstream: "s_upstream sample_fed_stream = [7, 8, 9]"
  by (simp add: sample_fed_stream_def sample_stream_defs on_connected_def note_peer_credit_def ack_ahead_def
      unacked_bytes_def max_tx_u32_def accept_peer_credit_def on_data_def queued_bytes_def)

lemma sample_consumed_connection:
  "s_connection (stream_consume_upstream 2 sample_fed_stream) = Some ((connection_new 64)\<lparr>c_rx_received := 3, c_rx_fwd_cnt := 2\<rparr>)"
  by (simp add: sample_fed_stream_def sample_stream_defs on_connected_def note_peer_credit_def ack_ahead_def
      unacked_bytes_def max_tx_u32_def accept_peer_credit_def on_data_def queued_bytes_def
      stream_consume_upstream_def advance_receive_credit_def count_u32_def AGENT_PORT_def)

text \<open>C35: Bytes reach the host in the order the guest sent them, none lost, repeated or invented, for as
  long as the connection lives: a packet appends exactly its data when it is a data packet on a live
  connection and leaves the waiting bytes alone otherwise, consuming removes a prefix, and a connection
  that opens starts with nothing waiting.\<close>

theorem stream_bytes_in_order:
  assumes "stream_reach gp hp alloc tx s" and "tx < 2 ^ 32"
  shows "(s_connection (stream_rx h data s) \<noteq> None \<longrightarrow> s_upstream (stream_rx h data s) =
        (if s_connection s = None then [] else s_upstream s @ (if vh_op h = OP_RW then data else [])))
    \<and> (s_connection (stream_consume_upstream n s) \<noteq> None \<longrightarrow>
        s_upstream (stream_consume_upstream n s) = drop n (s_upstream s))"
proof -
  have inv: "stream_inv s" using stream_reach_inv [OF assms] by simp
  show ?thesis
    using stream_rx_upstream [OF inv, of h data] stream_inv_no_connection [OF inv] consume_upstream_prefix [of n s]
    by auto
qed

theorem stream_bytes_in_order_witness:
  "s_upstream (stream_consume_upstream 2 sample_fed_stream) = drop 2 [7, 8, 9]"
  using stream_bytes_in_order [OF sample_fed_stream_reach, of _ _ 2] sample_consumed_connection
    sample_fed_stream_upstream by simp

end
