(* ===== verification/Vsock_Switch.thy ===== *)
theory Vsock_Switch
  imports Vsock_Credit
begin

text \<open>
  \<open>VsockSwitch\<close> of \<open>components/vsock-device/src/switch.rs\<close>: the two fixed endpoints and the flows that
  share one virtio-vsock device. An operation that allocates a connection number ends the process
  when the 64-bit numbers run out, and an index outside the endpoint vector panics; both are the
  result \<open>None\<close> of the operations below.
\<close>

section \<open>State\<close>

datatype role = Agent | Control | Tcp | Udp | Publication

definition role_buffers :: "role \<Rightarrow> u32 \<times> nat" where
  "role_buffers role = (case role of
       Agent \<Rightarrow> (AGENT_UPSTREAM_BYTES, unat AGENT_REPLY_BYTES)
     | Control \<Rightarrow> (CONTROL_UPSTREAM_BYTES, unat CONTROL_REPLY_BYTES)
     | _ \<Rightarrow> (FLOW_UPSTREAM_BYTES, unat FLOW_REPLY_BYTES))"

record connection_id =
  ci_role :: role
  ci_guest_port :: u32
  ci_host_port :: u32
  ci_number :: u64

record endpoint =
  ep_role :: role
  ep_stream :: stream_connection
  ep_number :: u64
  ep_retiring :: "u64 option"

definition endpoint_new :: "role \<Rightarrow> u32 \<Rightarrow> u32 \<Rightarrow> u64 \<Rightarrow> endpoint" where
  "endpoint_new role guest_port host_port number =
     (let (rx_alloc, max_tx_bytes) = role_buffers role in
      \<lparr>ep_role = role, ep_stream = stream_new guest_port host_port rx_alloc max_tx_bytes,
       ep_number = number, ep_retiring = None\<rparr>)"

definition identity :: "endpoint \<Rightarrow> u64 \<Rightarrow> connection_id" where
  "identity ep number =
     \<lparr>ci_role = ep_role ep, ci_guest_port = s_guest_port (ep_stream ep),
      ci_host_port = s_host_port (ep_stream ep), ci_number = number\<rparr>"

definition connected :: "endpoint \<Rightarrow> connection_id option" where
  "connected ep = map_option (\<lambda>_. identity ep (ep_number ep)) (s_connection (ep_stream ep))"

definition is_live :: "endpoint \<Rightarrow> bool" where
  "is_live ep \<longleftrightarrow> s_connection (ep_stream ep) \<noteq> None \<or> s_is_connecting (ep_stream ep)"

definition endpoint_retire :: "u64 \<Rightarrow> endpoint \<Rightarrow> endpoint" where
  "endpoint_retire number ep =
     (let ep1 = (if is_live ep \<or> ep_retiring ep = None
                 then ep\<lparr>ep_retiring := Some (ep_number ep), ep_number := number\<rparr> else ep);
          st = drop_connection (ep_stream ep1)
      in ep1\<lparr>ep_stream := st\<lparr>s_replies := filter (\<lambda>r. vh_op (r_header r) = OP_RST) (s_replies st),
                             s_reply_bytes := 0\<rparr>\<rparr>)"

record switch =
  sw_endpoints :: "endpoint list"
  sw_next_number :: u64
  sw_network_enabled :: bool
  sw_capacity :: nat
  sw_next_reply :: nat
  sw_next_flow :: nat
  sw_rejected :: "reply list"

definition FIXED_ENDPOINTS :: nat where "FIXED_ENDPOINTS = 2"
definition REPLY_CLASSES :: nat where "REPLY_CLASSES = FIXED_ENDPOINTS + 1"

section \<open>Operations\<close>

definition switch_with_capacity :: "bool \<Rightarrow> nat \<Rightarrow> switch" where
  "switch_with_capacity network_enabled capacity =
     \<lparr>sw_endpoints = [endpoint_new Agent AGENT_PORT AGENT_PORT 1,
                      endpoint_new Control CONTROL_PORT CONTROL_PORT 2],
      sw_next_number = 3, sw_network_enabled = network_enabled,
      sw_capacity = min capacity MAX_NETWORK_SOCKETS,
      sw_next_reply = 0, sw_next_flow = 0, sw_rejected = []\<rparr>"

definition switch_new :: switch where
  "switch_new = switch_with_capacity True MAX_NETWORK_SOCKETS"

definition allocate_connection_number :: "switch \<Rightarrow> (u64 \<times> switch) option" where
  "allocate_connection_number sw =
     map_option (\<lambda>nxt. (sw_next_number sw, sw\<lparr>sw_next_number := nxt\<rparr>)) (checked_add (sw_next_number sw) 1)"

definition classify :: "switch \<Rightarrow> u32 \<Rightarrow> u32 \<Rightarrow> role option" where
  "classify sw guest_port host_port =
     (if guest_port = AGENT_PORT \<and> host_port = AGENT_PORT then Some Agent
      else if guest_port = CONTROL_PORT \<and> host_port = CONTROL_PORT \<and> sw_network_enabled sw then Some Control
      else if host_port = TCP_PORT \<and> sw_network_enabled sw \<and> is_flow_guest_port guest_port then Some Tcp
      else if host_port = UDP_PORT \<and> sw_network_enabled sw \<and> is_flow_guest_port guest_port then Some Udp
      else if guest_port = PUBLICATION_PORT \<and> sw_network_enabled sw \<and> publication_host_port host_port
      then Some Publication
      else None)"

definition at_ports :: "u32 \<Rightarrow> u32 \<Rightarrow> endpoint \<Rightarrow> bool" where
  "at_ports guest_port host_port ep \<longleftrightarrow>
     s_guest_port (ep_stream ep) = guest_port \<and> s_host_port (ep_stream ep) = host_port"

definition endpoint_index :: "switch \<Rightarrow> u32 \<Rightarrow> u32 \<Rightarrow> nat option" where
  "endpoint_index sw guest_port host_port = list_position (at_ports guest_port host_port) (sw_endpoints sw)"

definition connection_index :: "switch \<Rightarrow> connection_id \<Rightarrow> nat option" where
  "connection_index sw cid =
     (case endpoint_index sw (ci_guest_port cid) (ci_host_port cid) of
        None \<Rightarrow> None
      | Some i \<Rightarrow> if connected (sw_endpoints sw ! i) = Some cid then Some i else None)"

definition switch_reject :: "vsock_header \<Rightarrow> switch \<Rightarrow> switch" where
  "switch_reject h sw =
     (if vh_op h \<noteq> OP_RST \<and> length (sw_rejected sw) < MAX_REJECTED_RESETS
      then let number = (case endpoint_index sw (vh_src_port h) (vh_dst_port h) of
                 None \<Rightarrow> 0 | Some i \<Rightarrow> ep_number (sw_endpoints sw ! i))
        in sw\<lparr>sw_rejected := sw_rejected sw @
             [\<lparr>r_connection_number = number,
               r_header = (host_header (vh_dst_port h) (vh_src_port h))\<lparr>vh_op := OP_RST\<rparr>,
               r_payload = []\<rparr>]\<rparr>
      else sw)"

definition network_socket_count :: "switch \<Rightarrow> nat" where
  "network_socket_count sw = length (sw_endpoints sw) - FIXED_ENDPOINTS"

text \<open>Replacing the endpoint, or only its stream, at an index.\<close>

definition put_endpoint :: "nat \<Rightarrow> endpoint \<Rightarrow> switch \<Rightarrow> switch" where
  "put_endpoint i ep sw = sw\<lparr>sw_endpoints := (sw_endpoints sw)[i := ep]\<rparr>"

definition put_stream :: "nat \<Rightarrow> stream_connection \<Rightarrow> switch \<Rightarrow> switch" where
  "put_stream i st sw = put_endpoint i ((sw_endpoints sw ! i)\<lparr>ep_stream := st\<rparr>) sw"

definition retire_endpoint :: "nat \<Rightarrow> switch \<Rightarrow> switch option" where
  "retire_endpoint i sw =
     map_option (\<lambda>(number, sw1). put_endpoint i (endpoint_retire number (sw_endpoints sw1 ! i)) sw1)
       (allocate_connection_number sw)"

definition drop_rejected :: "u32 \<Rightarrow> u32 \<Rightarrow> switch \<Rightarrow> switch" where
  "drop_rejected guest_port host_port sw = sw\<lparr>sw_rejected :=
     filter (\<lambda>r. vh_dst_port (r_header r) \<noteq> guest_port \<or> vh_src_port (r_header r) \<noteq> host_port) (sw_rejected sw)\<rparr>"

text \<open>The conditions under which a packet for unknown ports opens a flow.\<close>

definition opens_flow :: "role \<Rightarrow> vsock_header \<Rightarrow> bytes \<Rightarrow> switch \<Rightarrow> bool" where
  "opens_flow role h data sw \<longleftrightarrow>
     (role = Tcp \<or> role = Udp) \<and> vh_op h = OP_REQUEST \<and> vh_type h = TYPE_STREAM
     \<and> vh_src_cid h = ucast GUEST_CID \<and> vh_dst_cid h = ucast HOST_CID \<and> vh_len h = 0 \<and> data = []
     \<and> vh_flags h = 0 \<and> vh_fwd_cnt h = 0 \<and> network_socket_count sw < sw_capacity sw"

text \<open>The end of \<open>rx\<close>, once the endpoint of the packet is known.\<close>

definition rx_at :: "nat \<Rightarrow> vsock_header \<Rightarrow> bytes \<Rightarrow> switch \<Rightarrow> (connection_id option \<times> switch) option" where
  "rx_at i h data sw =
     (let ep = sw_endpoints sw ! i in
      if ep_retiring ep \<noteq> None then Some (None, switch_reject h sw)
      else let touched = identity ep (ep_number ep);
               ep1 = ep\<lparr>ep_stream := stream_rx h data (ep_stream ep)\<rparr>;
               sw1 = put_endpoint i ep1 sw
        in if is_live ep \<and> \<not> is_live ep1
           then map_option (\<lambda>sw2. (Some touched, sw2)) (retire_endpoint i sw1)
           else Some (Some touched, sw1))"

definition open_flow :: "role \<Rightarrow> vsock_header \<Rightarrow> switch \<Rightarrow> switch option" where
  "open_flow role h sw =
     map_option (\<lambda>(number, sw1). sw1\<lparr>sw_endpoints := sw_endpoints sw1 @
         [endpoint_new role (vh_src_port h) (vh_dst_port h) number]\<rparr>)
       (allocate_connection_number (drop_rejected (vh_src_port h) (vh_dst_port h) sw))"

definition switch_rx :: "vsock_header \<Rightarrow> bytes \<Rightarrow> switch \<Rightarrow> (connection_id option \<times> switch) option" where
  "switch_rx h data sw =
     (case classify sw (vh_src_port h) (vh_dst_port h) of
        None \<Rightarrow> Some (None, switch_reject h sw)
      | Some role \<Rightarrow>
          (case endpoint_index sw (vh_src_port h) (vh_dst_port h) of
             Some i \<Rightarrow> rx_at i h data sw
           | None \<Rightarrow>
               if \<not> opens_flow role h data sw then Some (None, switch_reject h sw)
               else (case open_flow role h sw of
                       None \<Rightarrow> None
                     | Some sw1 \<Rightarrow> rx_at (length (sw_endpoints sw1) - 1) h data sw1)))"

definition connect_publication :: "u32 \<Rightarrow> switch \<Rightarrow> ((vsock_error + connection_id) \<times> switch) option" where
  "connect_publication host_port sw =
     (if \<not> sw_network_enabled sw \<or> \<not> publication_host_port host_port
         \<or> network_socket_count sw \<ge> sw_capacity sw
      then Some (Err Backpressure, sw)
      else if endpoint_index sw PUBLICATION_PORT host_port \<noteq> None then Some (Err Busy, sw)
      else case allocate_connection_number sw of
          None \<Rightarrow> None
        | Some (number, sw1) \<Rightarrow>
            let ep = endpoint_new Publication PUBLICATION_PORT host_port number in
            (case stream_request (ep_stream ep) of
               (False, _) \<Rightarrow> Some (Err Backpressure, sw1)
             | (True, st) \<Rightarrow>
                 let ep1 = ep\<lparr>ep_stream := st\<rparr> in
                 Some (Ok (identity ep1 number), sw1\<lparr>sw_endpoints := sw_endpoints sw1 @ [ep1]\<rparr>)))"

definition is_connecting :: "switch \<Rightarrow> connection_id \<Rightarrow> bool" where
  "is_connecting sw cid =
     (case endpoint_index sw (ci_guest_port cid) (ci_host_port cid) of
        None \<Rightarrow> False
      | Some i \<Rightarrow> let ep = sw_endpoints sw ! i in
          ep_number ep = ci_number cid \<and> s_is_connecting (ep_stream ep))"

definition connection_for :: "switch \<Rightarrow> u32 \<Rightarrow> u32 \<Rightarrow> connection_id option" where
  "connection_for sw guest_port host_port =
     (case endpoint_index sw guest_port host_port of
        None \<Rightarrow> None
      | Some i \<Rightarrow> connected (sw_endpoints sw ! i))"

definition switch_connection :: "switch \<Rightarrow> role \<Rightarrow> connection_id option" where
  "switch_connection sw role = (case role of
       Agent \<Rightarrow> connection_for sw AGENT_PORT AGENT_PORT
     | Control \<Rightarrow> connection_for sw CONTROL_PORT CONTROL_PORT
     | _ \<Rightarrow> None)"

definition is_current :: "switch \<Rightarrow> connection_id \<Rightarrow> bool" where
  "is_current sw cid \<longleftrightarrow> connection_index sw cid \<noteq> None"

definition flow_connections :: "switch \<Rightarrow> connection_id list" where
  "flow_connections sw = List.map_filter connected (drop FIXED_ENDPOINTS (sw_endpoints sw))"

definition connected_stream :: "switch \<Rightarrow> connection_id \<Rightarrow> stream_connection option" where
  "connected_stream sw cid = map_option (\<lambda>i. ep_stream (sw_endpoints sw ! i)) (connection_index sw cid)"

text \<open>A call on the stream that \<open>stream_mut\<close> finds.\<close>

definition on_stream ::
  "connection_id \<Rightarrow> (stream_connection \<Rightarrow> (vsock_error + 'a) \<times> stream_connection) \<Rightarrow> switch
    \<Rightarrow> (vsock_error + 'a) \<times> switch" where
  "on_stream cid f sw =
     (case connection_index sw cid of
        None \<Rightarrow> (Err UnknownConnection, sw)
      | Some i \<Rightarrow> let (r, st) = f (ep_stream (sw_endpoints sw ! i)) in (r, put_stream i st sw))"

definition retire_connection :: "connection_id \<Rightarrow> switch \<Rightarrow> (bool \<times> switch) option" where
  "retire_connection cid sw =
     (case endpoint_index sw (ci_guest_port cid) (ci_host_port cid) of
        None \<Rightarrow> Some (False, sw)
      | Some i \<Rightarrow>
          let ep = sw_endpoints sw ! i in
          if ep_role ep \<noteq> ci_role cid \<or> ep_retiring ep \<noteq> Some (ci_number cid) \<or> s_replies (ep_stream ep) \<noteq> []
          then Some (False, sw)
          else map_option (\<lambda>sw1. (True, drop_rejected (ci_guest_port cid) (ci_host_port cid) sw1))
            (if i \<ge> FIXED_ENDPOINTS
             then Some (sw\<lparr>sw_endpoints := take i (sw_endpoints sw) @ drop (Suc i) (sw_endpoints sw)\<rparr>)
             else map_option (\<lambda>(number, sw1). put_endpoint i (ep\<lparr>ep_retiring := None, ep_number := number\<rparr>) sw1)
               (allocate_connection_number sw)))"

definition retirements :: "switch \<Rightarrow> connection_id list" where
  "retirements sw = List.map_filter (\<lambda>ep. map_option (identity ep) (ep_retiring ep)) (sw_endpoints sw)"

definition is_retiring :: "switch \<Rightarrow> connection_id \<Rightarrow> bool" where
  "is_retiring sw cid =
     (case endpoint_index sw (ci_guest_port cid) (ci_host_port cid) of
        None \<Rightarrow> False
      | Some i \<Rightarrow> let ep = sw_endpoints sw ! i in
          ep_role ep = ci_role cid \<and> ep_retiring ep = Some (ci_number cid))"

text \<open>The bodies of the two loops over the endpoints, by index.\<close>

definition reset_at :: "nat \<Rightarrow> switch \<Rightarrow> switch option" where
  "reset_at i sw =
     map_option (\<lambda>sw1. put_stream i ((ep_stream (sw_endpoints sw1 ! i))\<lparr>s_replies := []\<rparr>) sw1)
       (if is_live (sw_endpoints sw ! i) then retire_endpoint i sw else Some sw)"

definition reset_network_at :: "nat \<Rightarrow> switch \<Rightarrow> switch option" where
  "reset_network_at i sw =
     (let ep = sw_endpoints sw ! i in
      if is_live ep
      then retire_endpoint i (put_stream i
        (snd (rst (s_guest_port (ep_stream ep)) (s_host_port (ep_stream ep)) (ep_stream ep))) sw)
      else Some sw)"

fun each_index :: "(nat \<Rightarrow> switch \<Rightarrow> switch option) \<Rightarrow> nat list \<Rightarrow> switch \<Rightarrow> switch option" where
  "each_index f [] sw = Some sw"
| "each_index f (i # is) sw = (case f i sw of None \<Rightarrow> None | Some sw1 \<Rightarrow> each_index f is sw1)"

definition reset_connections :: "switch \<Rightarrow> switch option" where
  "reset_connections sw =
     map_option (\<lambda>sw1. sw1\<lparr>sw_rejected := []\<rparr>) (each_index reset_at [0..<length (sw_endpoints sw)] sw)"

definition reset_network_connections :: "switch \<Rightarrow> switch option" where
  "reset_network_connections sw = each_index reset_network_at [1..<length (sw_endpoints sw)] sw"

definition disable_network :: "switch \<Rightarrow> switch option" where
  "disable_network sw = reset_network_connections (sw\<lparr>sw_network_enabled := False\<rparr>)"

definition output_budget :: "switch \<Rightarrow> connection_id \<Rightarrow> nat" where
  "output_budget sw cid = (case connected_stream sw cid of None \<Rightarrow> 0 | Some st \<Rightarrow> s_max_tx_bytes st)"

definition available_send_credit :: "switch \<Rightarrow> connection_id \<Rightarrow> nat" where
  "available_send_credit sw cid =
     (case connected_stream sw cid of None \<Rightarrow> 0 | Some st \<Rightarrow> stream_available_send_credit st)"

definition send_capacity :: "switch \<Rightarrow> connection_id \<Rightarrow> nat" where
  "send_capacity sw cid = (case connected_stream sw cid of None \<Rightarrow> 0 | Some st \<Rightarrow> stream_send_capacity st)"

definition request_credit :: "connection_id \<Rightarrow> switch \<Rightarrow> (vsock_error + bool) \<times> switch" where
  "request_credit cid = on_stream cid (\<lambda>st. let (b, st') = stream_request_credit st in (Ok b, st'))"

definition switch_deliver :: "connection_id \<Rightarrow> bytes \<Rightarrow> switch \<Rightarrow> (vsock_error + unit) \<times> switch" where
  "switch_deliver cid data sw =
     (if length data > unat MAX_PACKET_DATA_BYTES then (Err Backpressure, sw)
      else on_stream cid (stream_deliver data) sw)"

definition switch_shutdown :: "connection_id \<Rightarrow> switch \<Rightarrow> (vsock_error + unit) \<times> switch" where
  "switch_shutdown cid = on_stream cid stream_shutdown"

definition reset_connection :: "connection_id \<Rightarrow> switch \<Rightarrow> ((vsock_error + unit) \<times> switch) option" where
  "reset_connection cid sw =
     (case endpoint_index sw (ci_guest_port cid) (ci_host_port cid) of
        None \<Rightarrow> Some (Err UnknownConnection, sw)
      | Some i \<Rightarrow>
          let ep = sw_endpoints sw ! i in
          if ep_number ep = ci_number cid \<and> is_live ep
          then map_option (\<lambda>sw1. (Ok (), sw1)) (retire_endpoint i
            (put_stream i (snd (rst (ci_guest_port cid) (ci_host_port cid) (ep_stream ep))) sw))
          else Some (Err UnknownConnection, sw))"

definition guest_receive_closed :: "switch \<Rightarrow> connection_id \<Rightarrow> bool" where
  "guest_receive_closed sw cid =
     (case connected_stream sw cid of
        None \<Rightarrow> False
      | Some st \<Rightarrow> (case s_connection st of None \<Rightarrow> False | Some c \<Rightarrow> c_peer_receive_closed c))"

definition guest_send_closed :: "switch \<Rightarrow> connection_id \<Rightarrow> bool" where
  "guest_send_closed sw cid =
     (case connected_stream sw cid of None \<Rightarrow> False | Some st \<Rightarrow> stream_guest_send_closed st)"

definition peek_upstream :: "switch \<Rightarrow> connection_id \<Rightarrow> nat \<Rightarrow> bytes" where
  "peek_upstream sw cid max_bytes =
     (case connected_stream sw cid of None \<Rightarrow> [] | Some st \<Rightarrow> take max_bytes (s_upstream st))"

definition consume_upstream :: "connection_id \<Rightarrow> nat \<Rightarrow> switch \<Rightarrow> ((vsock_error + unit) \<times> switch) option" where
  "consume_upstream cid max_bytes sw =
     (case connection_index sw cid of
        None \<Rightarrow> Some (Err UnknownConnection, sw)
      | Some i \<Rightarrow>
          let st = stream_consume_upstream max_bytes (ep_stream (sw_endpoints sw ! i));
              sw1 = put_stream i st sw
          in map_option (\<lambda>sw2. (Ok (), sw2)) (if s_connection st = None then retire_endpoint i sw1 else Some sw1))"

definition is_reply_current :: "switch \<Rightarrow> reply \<Rightarrow> bool" where
  "is_reply_current sw r =
     (case endpoint_index sw (vh_dst_port (r_header r)) (vh_src_port (r_header r)) of
        None \<Rightarrow> r_connection_number r = 0
      | Some i \<Rightarrow> let ep = sw_endpoints sw ! i in
          ep_number ep = r_connection_number r
          \<and> (vh_op (r_header r) \<noteq> OP_RW
             \<or> \<not> (case s_connection (ep_stream ep) of None \<Rightarrow> False | Some c \<Rightarrow> c_peer_receive_closed c)))"

definition has_pending_replies_for :: "switch \<Rightarrow> connection_id \<Rightarrow> bool" where
  "has_pending_replies_for sw cid =
     (case endpoint_index sw (ci_guest_port cid) (ci_host_port cid) of
        None \<Rightarrow> False
      | Some i \<Rightarrow> let ep = sw_endpoints sw ! i in
          (ep_number ep = ci_number cid \<or> ep_retiring ep = Some (ci_number cid)) \<and> s_replies (ep_stream ep) \<noteq> [])"

definition pending_reply_count :: "switch \<Rightarrow> nat" where
  "pending_reply_count sw =
     sum_list (map (\<lambda>ep. length (s_replies (ep_stream ep))) (sw_endpoints sw)) + length (sw_rejected sw)"

definition take_reply_from :: "nat \<Rightarrow> nat \<Rightarrow> switch \<Rightarrow> (reply option \<times> switch) option" where
  "take_reply_from i max_bytes sw =
     (if i < length (sw_endpoints sw) then
        let ep = sw_endpoints sw ! i; (r, st) = stream_take_reply max_bytes (ep_stream ep) in
        Some (map_option (\<lambda>x. x\<lparr>r_connection_number := ep_number ep\<rparr>) r, put_stream i st sw)
      else None)"

fun take_flow_scan :: "nat \<Rightarrow> nat \<Rightarrow> nat list \<Rightarrow> switch \<Rightarrow> (reply option \<times> switch) option" where
  "take_flow_scan max_bytes count [] sw = Some (None, sw)"
| "take_flow_scan max_bytes count (offset # offsets) sw =
     (let i = FIXED_ENDPOINTS + (sw_next_flow sw + offset) mod count in
      case take_reply_from i max_bytes sw of
        None \<Rightarrow> None
      | Some (Some r, sw1) \<Rightarrow> Some (Some r, sw1\<lparr>sw_next_flow := (i - FIXED_ENDPOINTS + 1) mod count\<rparr>)
      | Some (None, sw1) \<Rightarrow> take_flow_scan max_bytes count offsets sw1)"

definition take_flow_reply :: "nat \<Rightarrow> switch \<Rightarrow> (reply option \<times> switch) option" where
  "take_flow_reply max_bytes sw =
     (let count = network_socket_count sw in take_flow_scan max_bytes count [0..<count] sw)"

definition take_class :: "nat \<Rightarrow> nat \<Rightarrow> switch \<Rightarrow> (reply option \<times> switch) option" where
  "take_class cls max_bytes sw =
     (if cls < FIXED_ENDPOINTS then take_reply_from cls max_bytes sw else take_flow_reply max_bytes sw)"

fun take_class_scan :: "nat \<Rightarrow> nat list \<Rightarrow> switch \<Rightarrow> (reply option \<times> switch) option" where
  "take_class_scan max_bytes [] sw =
     Some (case sw_rejected sw of [] \<Rightarrow> (None, sw) | r # rs \<Rightarrow> (Some r, sw\<lparr>sw_rejected := rs\<rparr>))"
| "take_class_scan max_bytes (offset # offsets) sw =
     (let cls = (sw_next_reply sw + offset) mod REPLY_CLASSES in
      case take_class cls max_bytes sw of
        None \<Rightarrow> None
      | Some (Some r, sw1) \<Rightarrow> Some (Some r, sw1\<lparr>sw_next_reply := (cls + 1) mod REPLY_CLASSES\<rparr>)
      | Some (None, sw1) \<Rightarrow> take_class_scan max_bytes offsets sw1)"

definition take_reply :: "nat \<Rightarrow> switch \<Rightarrow> (reply option \<times> switch) option" where
  "take_reply max_bytes sw = take_class_scan max_bytes [0..<REPLY_CLASSES] sw"

text \<open>The loop of \<open>take_replies_up_to\<close>: the first argument counts the items still wanted.\<close>

fun take_replies_up_to :: "nat \<Rightarrow> nat \<Rightarrow> switch \<Rightarrow> (reply list \<times> switch) option" where
  "take_replies_up_to 0 remaining sw = Some ([], sw)"
| "take_replies_up_to (Suc n) remaining sw =
     (case take_reply remaining sw of
        None \<Rightarrow> None
      | Some (None, sw1) \<Rightarrow> Some ([], sw1)
      | Some (Some r, sw1) \<Rightarrow>
          map_option (\<lambda>(rs, sw2). (r # rs, sw2)) (take_replies_up_to n (remaining - length (r_payload r)) sw1))"

definition take_replies :: "switch \<Rightarrow> (reply list \<times> switch) option" where
  "take_replies = take_replies_up_to usize_max_wasm32 usize_max_wasm32"

end
