(* ===== verification/Vsock_Switch_Inv.thy ===== *)
theory Vsock_Switch_Inv
  imports Vsock_Switch
begin

text \<open>
  The invariant of the vsock switch, the way endpoints descend from one another, and the building
  blocks of the proof that every operation keeps both: replacing an endpoint, retiring one, queueing a
  rejection and handing a packet to an endpoint.
\<close>

section \<open>The invariant of the switch\<close>

definition role_ports :: "role \<Rightarrow> u32 \<Rightarrow> u32 \<Rightarrow> bool" where
  "role_ports role gp hp = (case role of
       Agent \<Rightarrow> gp = AGENT_PORT \<and> hp = AGENT_PORT
     | Control \<Rightarrow> gp = CONTROL_PORT \<and> hp = CONTROL_PORT
     | Tcp \<Rightarrow> hp = TCP_PORT \<and> is_flow_guest_port gp
     | Udp \<Rightarrow> hp = UDP_PORT \<and> is_flow_guest_port gp
     | Publication \<Rightarrow> gp = PUBLICATION_PORT \<and> publication_host_port hp)"

definition ep_key :: "endpoint \<Rightarrow> u32 \<times> u32" where
  "ep_key ep = (s_guest_port (ep_stream ep), s_host_port (ep_stream ep))"

definition flow_roles :: "role list \<Rightarrow> bool" where
  "flow_roles rs \<longleftrightarrow> (\<exists>fs. rs = Agent # Control # fs \<and> Agent \<notin> set fs \<and> Control \<notin> set fs)"

text \<open>A stream in the buffers of its role, whatever its connection.\<close>

definition stream_of_role :: "role \<Rightarrow> stream_connection \<Rightarrow> bool" where
  "stream_of_role role st \<longleftrightarrow> stream_inv st \<and> role_buffers role = (s_rx_alloc st, s_max_tx_bytes st)
     \<and> role_ports role (s_guest_port st) (s_host_port st)"

definition endpoint_ok :: "u64 \<Rightarrow> endpoint \<Rightarrow> bool" where
  "endpoint_ok nxt ep \<longleftrightarrow> stream_of_role (ep_role ep) (ep_stream ep)
     \<and> (\<not> is_live ep \<longrightarrow> quiet (ep_stream ep)) \<and> (ep_retiring ep \<noteq> None \<longrightarrow> \<not> is_live ep)
     \<and> 0 < ep_number ep \<and> ep_number ep < nxt
     \<and> (case ep_retiring ep of None \<Rightarrow> True | Some n \<Rightarrow> 0 < n \<and> n < ep_number ep)"

definition sw_core :: "switch \<Rightarrow> bool" where
  "sw_core sw \<longleftrightarrow> flow_roles (map ep_role (sw_endpoints sw))
     \<and> list_all (endpoint_ok (sw_next_number sw)) (sw_endpoints sw)
     \<and> distinct (map ep_key (sw_endpoints sw)) \<and> distinct (map ep_number (sw_endpoints sw))
     \<and> network_socket_count sw \<le> sw_capacity sw \<and> sw_capacity sw \<le> MAX_NETWORK_SOCKETS
     \<and> length (sw_rejected sw) \<le> MAX_REJECTED_RESETS
     \<and> list_all (\<lambda>r. vh_op (r_header r) = OP_RST \<and> r_payload r = []) (sw_rejected sw)
     \<and> 0 < sw_next_number sw"

definition silent :: "switch \<Rightarrow> bool" where
  "silent sw \<longleftrightarrow> (\<forall>ep \<in> set (drop 1 (sw_endpoints sw)). \<not> is_live ep)"

definition sw_inv :: "switch \<Rightarrow> bool" where
  "sw_inv sw \<longleftrightarrow> sw_core sw \<and> (sw_network_enabled sw \<or> silent sw)"

text \<open>How the endpoints of a later state descend from those of an earlier one: an endpoint has a number
  handed out in between, or the number, ports and role of an endpoint of the earlier state, whose
  connection it still has.\<close>

definition descends :: "endpoint list \<Rightarrow> endpoint \<Rightarrow> bool" where
  "descends eps ep' \<longleftrightarrow> (\<exists>ep \<in> set eps. ep_number ep = ep_number ep' \<and> ep_key ep = ep_key ep'
     \<and> ep_role ep = ep_role ep' \<and> (connected ep \<noteq> None \<longrightarrow> connected ep' \<noteq> None))"

definition lineage :: "switch \<Rightarrow> switch \<Rightarrow> bool" where
  "lineage sw sw' \<longleftrightarrow> sw_next_number sw \<le> sw_next_number sw'
     \<and> (\<forall>ep' \<in> set (sw_endpoints sw'). sw_next_number sw \<le> ep_number ep' \<or> descends (sw_endpoints sw) ep')"

definition evolves :: "switch \<Rightarrow> switch \<Rightarrow> bool" where
  "evolves sw sw' \<longleftrightarrow> lineage sw sw' \<and> sw_network_enabled sw' = sw_network_enabled sw
     \<and> (\<not> sw_network_enabled sw \<longrightarrow> silent sw \<longrightarrow> silent sw')"

definition sw_moves :: "switch \<Rightarrow> switch \<Rightarrow> bool" where
  "sw_moves sw sw' \<longleftrightarrow> sw_core sw' \<and> evolves sw sw'"

lemma descends_refl: "ep \<in> set eps \<Longrightarrow> descends eps ep"
  by (auto simp: descends_def)

lemma lineage_refl: "lineage sw sw"
  by (auto simp: lineage_def intro: descends_refl)

lemma lineage_trans:
  assumes "lineage sw sw1" and "lineage sw1 sw2"
  shows "lineage sw sw2"
proof -
  have "sw_next_number sw \<le> ep_number ep \<or> descends (sw_endpoints sw) ep" if ep: "ep \<in> set (sw_endpoints sw2)" for ep
  proof (cases "sw_next_number sw1 \<le> ep_number ep")
    case True
    then show ?thesis using assms(1) by (auto simp: lineage_def)
  next
    case False
    then obtain e where e: "e \<in> set (sw_endpoints sw1)" "ep_number e = ep_number ep" "ep_key e = ep_key ep"
      "ep_role e = ep_role ep" "connected e \<noteq> None \<longrightarrow> connected ep \<noteq> None"
      using assms(2) ep by (auto simp: lineage_def descends_def)
    then have "sw_next_number sw \<le> ep_number e \<or> descends (sw_endpoints sw) e"
      using assms(1) by (auto simp: lineage_def)
    with e show ?thesis by (auto simp: descends_def)
  qed
  with assms show ?thesis by (auto simp: lineage_def)
qed

lemma evolves_refl: "evolves sw sw"
  by (simp add: evolves_def lineage_refl)

lemma evolves_trans: "evolves sw sw1 \<Longrightarrow> evolves sw1 sw2 \<Longrightarrow> evolves sw sw2"
  using lineage_trans by (auto simp: evolves_def)

lemma sw_moves_trans: "sw_moves sw sw1 \<Longrightarrow> sw_moves sw1 sw2 \<Longrightarrow> sw_moves sw sw2"
  using evolves_trans by (auto simp: sw_moves_def)

lemma sw_moves_refl: "sw_core sw \<Longrightarrow> sw_moves sw sw"
  by (simp add: sw_moves_def evolves_refl)

lemma sw_moves_inv: "sw_inv sw \<Longrightarrow> sw_moves sw sw' \<Longrightarrow> sw_inv sw'"
  by (auto simp: sw_moves_def sw_inv_def evolves_def)

subsection \<open>Replacing one endpoint\<close>

definition same_place :: "endpoint \<Rightarrow> endpoint \<Rightarrow> bool" where
  "same_place ep ep' \<longleftrightarrow> ep_role ep' = ep_role ep \<and> ep_key ep' = ep_key ep"

lemma set_update_cases: "x \<in> set (xs[i := y]) \<Longrightarrow> x = y \<or> x \<in> set xs"
  using set_update_subset_insert by fastforce

lemma map_update_same: "i < length xs \<Longrightarrow> f y = f (xs ! i) \<Longrightarrow> map f (xs[i := y]) = map f xs"
  by (metis list_update_id map_update nth_map)

lemma silent_update:
  assumes "silent sw" and "i < length (sw_endpoints sw)" and "1 \<le> i \<Longrightarrow> is_live (sw_endpoints sw ! i) \<or> \<not> is_live ep"
  shows "silent (put_endpoint i ep sw)"
proof (cases "i = 0")
  case True
  with assms(1) show ?thesis by (simp add: silent_def put_endpoint_def drop_update_cancel)
next
  case False
  then have "\<not> is_live (sw_endpoints sw ! i)"
    using assms(1,2) nth_mem [of "i - 1" "drop 1 (sw_endpoints sw)"] by (auto simp: silent_def)
  with assms False show ?thesis
    by (auto simp: silent_def put_endpoint_def drop_update_swap dest!: set_update_cases)
qed

lemma sw_core_at:
  assumes "sw_core sw" and "i < length (sw_endpoints sw)"
  shows "endpoint_ok (sw_next_number sw) (sw_endpoints sw ! i)"
  using assms by (simp add: sw_core_def list_all_length)

lemma put_endpoint_core:
  assumes core: "sw_core sw" and i: "i < length (sw_endpoints sw)" and place: "same_place (sw_endpoints sw ! i) ep"
    and ok: "endpoint_ok (sw_next_number sw) ep" and fresh: "ep_number ep \<notin> ep_number ` set (sw_endpoints sw) - {ep_number (sw_endpoints sw ! i)}"
  shows "sw_core (put_endpoint i ep sw)"
proof -
  have "map ep_role ((sw_endpoints sw)[i := ep]) = map ep_role (sw_endpoints sw)"
    "map ep_key ((sw_endpoints sw)[i := ep]) = map ep_key (sw_endpoints sw)"
    using place i by (auto intro!: map_update_same simp: same_place_def)
  moreover have "list_all (endpoint_ok (sw_next_number sw)) ((sw_endpoints sw)[i := ep])"
    using core ok by (auto simp: sw_core_def list_all_iff dest!: set_update_cases)
  moreover have "distinct (map ep_number ((sw_endpoints sw)[i := ep]))"
    using core fresh i distinct_list_update [of "map ep_number (sw_endpoints sw)" "ep_number ep" i]
    by (simp add: sw_core_def map_update)
  ultimately show ?thesis
    using core by (simp add: sw_core_def put_endpoint_def network_socket_count_def)
qed

lemma put_endpoint_moves:
  assumes core: "sw_core sw" and i: "i < length (sw_endpoints sw)" and place: "same_place (sw_endpoints sw ! i) ep"
    and ok: "endpoint_ok (sw_next_number sw) ep" and num: "ep_number ep = ep_number (sw_endpoints sw ! i)"
    and conn: "connected (sw_endpoints sw ! i) \<noteq> None \<longrightarrow> connected ep \<noteq> None"
    and live: "1 \<le> i \<Longrightarrow> \<not> sw_network_enabled sw \<Longrightarrow> is_live (sw_endpoints sw ! i) \<or> \<not> is_live ep"
  shows "sw_moves sw (put_endpoint i ep sw)"
proof -
  have fresh: "ep_number ep \<notin> ep_number ` set (sw_endpoints sw) - {ep_number (sw_endpoints sw ! i)}"
    using num by simp
  have "descends (sw_endpoints sw) ep"
    using i place num conn nth_mem [OF i] by (auto simp: descends_def same_place_def)
  then have "evolves sw (put_endpoint i ep sw)"
    using silent_update [OF _ i, of ep] live
    by (auto simp: evolves_def lineage_def put_endpoint_def dest!: set_update_cases intro: descends_refl)
  with put_endpoint_core [OF core i place ok fresh] show ?thesis by (simp add: sw_moves_def)
qed

subsection \<open>Numbers and retirement\<close>

lemma allocate_spec:
  assumes "allocate_connection_number sw = Some (n, sw1)"
  shows "n = sw_next_number sw" "sw1 = sw\<lparr>sw_next_number := n + 1\<rparr>" "n < n + 1"
proof -
  have c: "checked_add (sw_next_number sw) 1 = Some (sw_next_number sw1)" "n = sw_next_number sw"
    "sw1 = sw\<lparr>sw_next_number := sw_next_number sw1\<rparr>"
    using assms by (auto simp: allocate_connection_number_def)
  then show "n = sw_next_number sw" "sw1 = sw\<lparr>sw_next_number := n + 1\<rparr>" "n < n + 1"
    using checked_add_unat [OF c(1)] c by (auto simp: checked_add_Some word_less_nat_alt)
qed

lemma endpoint_ok_mono: "endpoint_ok n ep \<Longrightarrow> n \<le> m \<Longrightarrow> endpoint_ok m ep"
  by (auto simp: endpoint_ok_def)

lemma raise_next_core:
  "sw_core sw \<Longrightarrow> sw_next_number sw \<le> m \<Longrightarrow> sw_core (sw\<lparr>sw_next_number := m\<rparr>)"
  by (auto simp: sw_core_def network_socket_count_def list_all_iff intro: endpoint_ok_mono)

lemma numbers_below_next:
  "sw_core sw \<Longrightarrow> sw_next_number sw \<notin> ep_number ` set (sw_endpoints sw)"
  by (fastforce simp: sw_core_def list_all_iff endpoint_ok_def)

lemma retired_stream:
  assumes "stream_of_role role st"
  defines "st' \<equiv> (drop_connection st)\<lparr>s_replies := filter (\<lambda>r. vh_op (r_header r) = OP_RST) (s_replies (drop_connection st)),
      s_reply_bytes := 0\<rparr>"
  shows "stream_of_role role st' \<and> quiet st' \<and> same_stream st st'"
proof -
  let ?rs = "filter (\<lambda>r. vh_op (r_header r) = OP_RST) (s_replies st)"
  have rep: "replies_ok st" using assms(1) by (simp add: stream_of_role_def stream_inv_def core_inv_def)
  then have empty: "\<forall>r \<in> set ?rs. r_payload r = []"
    by (auto simp: replies_ok_def list_all_iff reply_for_def)
  then have "payload_bytes ?rs = 0" by (simp add: sum_list_eq_0_iff)
  moreover have "length ?rs \<le> MAX_QUEUED_REPLIES"
    using rep by (intro le_trans [OF length_filter_le]) (simp add: replies_ok_def)
  ultimately show ?thesis
    using assms(1) rep empty
    by (auto simp: st'_def stream_of_role_def stream_inv_def core_inv_def replies_ok_def credit_ok_def quiet_def
        same_stream_def drop_connection_def list_all_iff)
qed

lemma endpoint_retire_ok:
  assumes "stream_of_role (ep_role ep) (ep_stream ep)" and "ep_retiring ep = None"
    and "0 < ep_number ep" and "ep_number ep < n" and "n < nxt"
  shows "endpoint_ok nxt (endpoint_retire n ep)" "same_place ep (endpoint_retire n ep)"
    "\<not> is_live (endpoint_retire n ep)" "ep_number (endpoint_retire n ep) = n"
  using retired_stream [OF assms(1)] assms(2-5)
  by (auto simp: endpoint_ok_def endpoint_retire_def Let_def same_place_def ep_key_def same_stream_def is_live_def
      drop_connection_def)

lemma same_place_trans: "same_place a b \<Longrightarrow> same_place b c \<Longrightarrow> same_place a c"
  by (simp add: same_place_def)

lemma put_endpoint_simps [simp]:
  "sw_endpoints (put_endpoint i ep sw) = (sw_endpoints sw)[i := ep]"
  "sw_next_number (put_endpoint i ep sw) = sw_next_number sw"
  "sw_network_enabled (put_endpoint i ep sw) = sw_network_enabled sw"
  "sw_capacity (put_endpoint i ep sw) = sw_capacity sw" "sw_rejected (put_endpoint i ep sw) = sw_rejected sw"
  "put_endpoint i ep (put_endpoint i ep' sw) = put_endpoint i ep sw"
  "put_endpoint i ep (sw\<lparr>sw_next_number := n\<rparr>) = (put_endpoint i ep sw)\<lparr>sw_next_number := n\<rparr>"
  by (simp_all add: put_endpoint_def)

lemma retire_moves:
  assumes core: "sw_core sw" and i: "i < length (sw_endpoints sw)" and place: "same_place (sw_endpoints sw ! i) ep"
    and num: "ep_number ep = ep_number (sw_endpoints sw ! i)" and ret: "ep_retiring ep = None"
    and st: "stream_of_role (ep_role ep) (ep_stream ep)"
    and res: "retire_endpoint i (put_endpoint i ep sw) = Some sw'"
  shows "sw_moves sw sw'" and "sw_endpoints sw' = (sw_endpoints sw)[i := endpoint_retire (sw_next_number sw) ep]"
    and "\<not> is_live (endpoint_retire (sw_next_number sw) ep)"
proof -
  define n where "n = sw_next_number sw"
  define e where "e = endpoint_retire n ep"
  have i': "(sw_endpoints sw)[i := ep] ! i = ep" using i by simp
  obtain m sw1 where al: "allocate_connection_number (put_endpoint i ep sw) = Some (m, sw1)"
    and sw': "sw' = put_endpoint i (endpoint_retire m (sw_endpoints sw1 ! i)) sw1"
    using res by (auto simp: retire_endpoint_def)
  have m: "m = n" "sw1 = (put_endpoint i ep sw)\<lparr>sw_next_number := n + 1\<rparr>" "n < n + 1"
    using allocate_spec [OF al] by (simp_all add: n_def)
  then have eq: "sw' = put_endpoint i e (sw\<lparr>sw_next_number := n + 1\<rparr>)"
    using sw' i' by (simp add: e_def)
  have ok: "endpoint_ok n (sw_endpoints sw ! i)" using sw_core_at [OF core i] by (simp add: n_def)
  have e: "endpoint_ok (n + 1) e" "same_place ep e" "\<not> is_live e" "ep_number e = n"
    unfolding e_def using endpoint_retire_ok [OF st ret, of n "n + 1"] ok num m(3) by (auto simp: endpoint_ok_def)
  have core1: "sw_core (sw\<lparr>sw_next_number := n + 1\<rparr>)"
    using core m(3) by (intro raise_next_core) (auto simp: n_def)
  have "sw_core sw'"
    unfolding eq
    by (rule put_endpoint_core [OF core1]) (use i e same_place_trans [OF place] numbers_below_next [OF core] in \<open>auto simp: n_def\<close>)
  moreover have "silent sw \<Longrightarrow> silent sw'"
    using silent_update [of "sw\<lparr>sw_next_number := n + 1\<rparr>" i e] i e(3) by (simp add: eq silent_def)
  ultimately show "sw_moves sw sw'"
    using m(3) e(4) by (auto simp: sw_moves_def evolves_def lineage_def eq n_def dest!: set_update_cases intro: descends_refl)
  show "sw_endpoints sw' = (sw_endpoints sw)[i := endpoint_retire (sw_next_number sw) ep]"
    "\<not> is_live (endpoint_retire (sw_next_number sw) ep)"
    using eq e by (simp_all add: e_def n_def)
qed

subsection \<open>Packets\<close>

lemma respond_connecting: "s_is_connecting (snd (respond c op fl s)) = s_is_connecting s"
  by (simp add: respond_def queue_reply_def Let_def)

lemma rst_connecting [simp]: "s_is_connecting (snd (rst gp hp s)) = s_is_connecting s"
  by (simp add: rst_def queue_reply_def Let_def)

lemma announce_connecting:
  "s_is_connecting (case respond c op fl s of (True, s2) \<Rightarrow> s2 | (False, s2) \<Rightarrow> drop_connection s2) \<Longrightarrow> s_is_connecting s"
  using respond_connecting [of c op fl s]
  by (cases "respond c op fl s") (auto simp: drop_connection_def split: bool.splits)

lemma note_peer_credit_connecting:
  assumes "note_peer_credit h s = (b, s')" and "s_is_connecting s'"
  shows "s_is_connecting s"
proof (cases "s_connection s")
  case None
  with assms show ?thesis by (simp add: note_peer_credit_def)
next
  case (Some c)
  define c1 where "c1 = c\<lparr>c_peer_buf_alloc := vh_buf_alloc h, c_peer_fwd_cnt := vh_fwd_cnt h,
      c_is_credit_requested := (if saturating_sub (vh_buf_alloc h) (unacked_bytes (c_tx_fwd_cnt c) (vh_fwd_cnt h))
          > saturating_sub (c_peer_buf_alloc c) (unacked_bytes (c_tx_fwd_cnt c) (c_peer_fwd_cnt c))
        then False else c_is_credit_requested c)\<rparr>"
  obtain d s2 where r: "respond c1 OP_CREDIT_UPDATE 0 (s\<lparr>s_connection := Some c1\<rparr>) = (d, s2)" by fastforce
  then have "s_is_connecting s2 = s_is_connecting s"
    using respond_connecting [of c1 OP_CREDIT_UPDATE 0 "s\<lparr>s_connection := Some c1\<rparr>"] by simp
  then have "s_is_connecting s" if "accept_peer_credit h c s = (b, s')"
    using that r assms(2) unfolding accept_peer_credit_def Let_def c1_def [symmetric]
    by (cases d) (auto simp: drop_connection_def split: if_splits)
  with Some assms show ?thesis
    by (auto simp: note_peer_credit_def drop_connection_def split: if_splits)
qed

lemma on_connected_connecting:
  assumes "s_is_connecting (on_connected h data s)"
  shows "s_is_connecting s"
proof (cases "s_connection s")
  case None
  with assms show ?thesis by (simp add: on_connected_def)
next
  case (Some c)
  obtain b s1 where n: "note_peer_credit h s = (b, s1)" by fastforce
  have before: "s_is_connecting s1 \<Longrightarrow> s_is_connecting s" by (rule note_peer_credit_connecting [OF n])
  have "s_is_connecting (on_shutdown fl s1) = s_is_connecting s1" for fl
    by (auto simp: on_shutdown_def Let_def split: option.splits if_splits)
  moreover have "s_is_connecting (on_data h data s1) \<Longrightarrow> s_is_connecting s1"
    by (auto simp: on_data_def drop_connection_def split: option.splits if_splits)
  moreover have "s_is_connecting (on_credit_request s1) \<Longrightarrow> s_is_connecting s1"
    by (cases "s_connection s1") (auto simp: on_credit_request_def Let_def dest: announce_connecting)
  moreover have "s_is_connecting (reject_packet h s) \<Longrightarrow> s_is_connecting s"
    by (auto simp: reject_packet_def Let_def drop_connection_def split: if_splits)
  ultimately show ?thesis
    using assms Some n before by (simp add: on_connected_def split: if_splits bool.splits)
qed

lemma stream_rx_connecting:
  "s_is_connecting (stream_rx h data s) \<longrightarrow> s_is_connecting s"
proof (rule stream_rx_cases [of h s "\<lambda>t. s_is_connecting t \<longrightarrow> s_is_connecting s"])
  fix t assume "t = reject_packet h s"
  then show "s_is_connecting t \<longrightarrow> s_is_connecting s"
    by (auto simp: reject_packet_def Let_def drop_connection_def split: if_splits)
next
  have "s_is_connecting (reject_packet h s) \<longrightarrow> s_is_connecting s"
    by (auto simp: reject_packet_def Let_def drop_connection_def split: if_splits)
  then show "s_is_connecting (on_request h s) \<longrightarrow> s_is_connecting s"
    using respond_connecting [of "connection_new (vh_buf_alloc h)" OP_RESPONSE 0 s]
    by (cases "respond (connection_new (vh_buf_alloc h)) OP_RESPONSE 0 s")
      (auto simp: on_request_def Let_def split: if_splits bool.splits)
next
  show "s_is_connecting (on_response h s) \<longrightarrow> s_is_connecting s" by (simp add: on_response_def)
next
  show "s_is_connecting (on_rst s) \<longrightarrow> s_is_connecting s" by (simp add: on_rst_def drop_connection_def)
next
  show "s_is_connecting (on_connected h data s) \<longrightarrow> s_is_connecting s" using on_connected_connecting by blast
qed

lemma stream_rx_stays_connected:
  assumes "stream_inv s" and "s_connection s \<noteq> None"
    and "s_connection (stream_rx h data s) \<noteq> None \<or> s_is_connecting (stream_rx h data s)"
  shows "s_connection (stream_rx h data s) \<noteq> None"
  using assms stream_rx_connecting [of h data s] stream_inv_connection(2) [OF assms(1)] by auto

subsection \<open>The queue of rejections\<close>

lemma rejected_core:
  assumes "sw_core sw" and "length rs \<le> MAX_REJECTED_RESETS"
    and "list_all (\<lambda>r. vh_op (r_header r) = OP_RST \<and> r_payload r = []) rs"
  shows "sw_moves sw (sw\<lparr>sw_rejected := rs\<rparr>)"
  using assms
  by (auto simp: sw_moves_def sw_core_def network_socket_count_def evolves_def lineage_def silent_def intro: descends_refl)

lemma switch_reject_moves: "sw_core sw \<Longrightarrow> sw_moves sw (switch_reject h sw)"
  using rejected_core [of sw] sw_moves_refl [of sw] by (auto simp: switch_reject_def Let_def sw_core_def)

lemma drop_rejected_moves:
  assumes "sw_core sw"
  shows "sw_moves sw (drop_rejected gp hp sw)"
  unfolding drop_rejected_def
  by (rule rejected_core [OF assms])
    (use assms in \<open>auto simp: sw_core_def list_all_iff intro: le_trans [OF length_filter_le]\<close>)

subsection \<open>A packet on an endpoint\<close>

lemma rx_at_moves:
  assumes core: "sw_core sw" and i: "i < length (sw_endpoints sw)"
    and ports: "at_ports (vh_src_port h) (vh_dst_port h) (sw_endpoints sw ! i)"
    and en: "sw_network_enabled sw \<or> i = 0" and res: "rx_at i h data sw = Some (r, sw')"
  shows "sw_moves sw sw'"
proof (cases "ep_retiring (sw_endpoints sw ! i) = None")
  case False
  then show ?thesis using res switch_reject_moves [OF core] by (auto simp: rx_at_def Let_def)
next
  case True
  define ep where "ep = sw_endpoints sw ! i"
  define st where "st = stream_rx h data (ep_stream ep)"
  define ep1 where "ep1 = ep\<lparr>ep_stream := st\<rparr>"
  have ok: "endpoint_ok (sw_next_number sw) ep" using sw_core_at [OF core i] by (simp add: ep_def)
  then have inv: "stream_inv (ep_stream ep)" by (simp add: endpoint_ok_def stream_of_role_def)
  have k: "keeps (ep_stream ep) st"
    unfolding st_def by (rule stream_rx_keeps [OF inv]) (use ports in \<open>auto simp: at_ports_def ep_def\<close>)
  then have role: "stream_of_role (ep_role ep1) (ep_stream ep1)" and place: "same_place ep ep1"
    and num: "ep_number ep1 = ep_number ep" and ret: "ep_retiring ep1 = None"
    using ok True by (auto simp: ep1_def endpoint_ok_def stream_of_role_def keeps_def same_stream_def same_place_def
        ep_key_def ep_def)
  show ?thesis
  proof (cases "is_live ep \<and> \<not> is_live ep1")
    case True
    then have "retire_endpoint i (put_endpoint i ep1 sw) = Some sw'"
      using res ret num by (auto simp: rx_at_def Let_def ep_def ep1_def st_def)
    from retire_moves(1) [OF core i _ _ ret role this] place num show ?thesis by (simp add: ep_def)
  next
    case False
    then have sw': "sw' = put_endpoint i ep1 sw"
      using res ret by (auto simp: rx_at_def Let_def ep_def ep1_def st_def)
    have "endpoint_ok (sw_next_number sw) ep1"
      using ok role num ret False k by (auto simp: endpoint_ok_def keeps_def ep1_def)
    moreover have "connected ep \<noteq> None \<longrightarrow> connected ep1 \<noteq> None"
      using False stream_rx_stays_connected [OF inv, of h data]
      by (auto simp: connected_def is_live_def ep1_def st_def)
    ultimately show ?thesis
      unfolding sw' using core i place num en by (intro put_endpoint_moves) (auto simp: ep_def)
  qed
qed

section \<open>Every operation moves the switch within its invariant\<close>

lemma endpoint_index_Some:
  assumes "endpoint_index sw gp hp = Some i"
  shows "i < length (sw_endpoints sw)" "at_ports gp hp (sw_endpoints sw ! i)"
    "ep_key (sw_endpoints sw ! i) = (gp, hp)"
  using list_position_Some [OF assms [unfolded endpoint_index_def]] by (auto simp: at_ports_def ep_key_def)

lemma endpoint_index_None:
  "endpoint_index sw gp hp = None \<longleftrightarrow> (gp, hp) \<notin> ep_key ` set (sw_endpoints sw)"
  by (auto simp: endpoint_index_def list_position_None at_ports_def ep_key_def image_iff)

lemma connection_index_Some:
  assumes "connection_index sw cid = Some i"
  shows "i < length (sw_endpoints sw)" "connected (sw_endpoints sw ! i) = Some cid"
  using assms endpoint_index_Some by (auto simp: connection_index_def split: option.splits if_splits)

lemma sw_core_first:
  assumes "sw_core sw"
  shows "2 \<le> length (sw_endpoints sw)" "ep_role (sw_endpoints sw ! 0) = Agent" "ep_role (sw_endpoints sw ! 1) = Control"
proof -
  obtain fs where fs: "map ep_role (sw_endpoints sw) = Agent # Control # fs"
    using assms by (auto simp: sw_core_def flow_roles_def)
  then have len: "length (sw_endpoints sw) = length fs + 2" by (metis length_Cons length_map add_2_eq_Suc')
  then show "2 \<le> length (sw_endpoints sw)" by simp
  have "map ep_role (sw_endpoints sw) ! 0 = Agent" "map ep_role (sw_endpoints sw) ! 1 = Control"
    by (simp_all add: fs)
  then show "ep_role (sw_endpoints sw ! 0) = Agent" "ep_role (sw_endpoints sw ! 1) = Control"
    using len by (simp_all add: nth_map)
qed

lemma agent_index:
  assumes "sw_core sw"
  shows "endpoint_index sw AGENT_PORT AGENT_PORT = Some 0"
proof -
  obtain a r where eps: "sw_endpoints sw = a # r" using sw_core_first(1) [OF assms] by (cases "sw_endpoints sw") auto
  have "ep_role a = Agent" using sw_core_first(2) [OF assms] eps by simp
  moreover have "endpoint_ok (sw_next_number sw) a" using assms eps by (simp add: sw_core_def)
  ultimately have "at_ports AGENT_PORT AGENT_PORT a"
    by (simp add: endpoint_ok_def stream_of_role_def role_ports_def at_ports_def)
  then show ?thesis by (simp add: endpoint_index_def eps list_position_simps)
qed

lemma disabled_classify:
  "\<not> sw_network_enabled sw \<Longrightarrow> classify sw gp hp = Some role \<Longrightarrow> gp = AGENT_PORT \<and> hp = AGENT_PORT"
  by (auto simp: classify_def split: if_splits)

lemma classify_ports: "classify sw gp hp = Some role \<Longrightarrow> role_ports role gp hp"
  by (auto simp: classify_def role_ports_def split: if_splits)

lemma push_moves:
  assumes core: "sw_core sw" and n: "n = sw_next_number sw" "n < n + 1" and en: "sw_network_enabled sw"
    and ok: "endpoint_ok (n + 1) ep" and num: "ep_number ep = n" and key: "ep_key ep \<notin> ep_key ` set (sw_endpoints sw)"
    and role: "ep_role ep \<noteq> Agent" "ep_role ep \<noteq> Control" and room: "network_socket_count sw < sw_capacity sw"
  shows "sw_moves sw (sw\<lparr>sw_next_number := n + 1, sw_endpoints := sw_endpoints sw @ [ep]\<rparr>)"
proof -
  have core1: "sw_core (sw\<lparr>sw_next_number := n + 1\<rparr>)" using core n by (intro raise_next_core) auto
  have "flow_roles (map ep_role (sw_endpoints sw @ [ep]))"
    using core role by (auto simp: sw_core_def flow_roles_def)
  moreover have "distinct (map ep_number (sw_endpoints sw @ [ep]))"
    using core numbers_below_next [OF core] num n by (auto simp: sw_core_def)
  moreover have "distinct (map ep_key (sw_endpoints sw @ [ep]))"
    using core key by (auto simp: sw_core_def)
  moreover have "length (sw_endpoints sw @ [ep]) - FIXED_ENDPOINTS \<le> sw_capacity sw"
    using room by (simp add: network_socket_count_def)
  ultimately have "sw_core (sw\<lparr>sw_next_number := n + 1, sw_endpoints := sw_endpoints sw @ [ep]\<rparr>)"
    using core1 ok by (simp add: sw_core_def network_socket_count_def)
  with n en num show ?thesis
    by (auto simp: sw_moves_def evolves_def lineage_def intro: descends_refl)
qed

lemma role_buffers_small: "snd (role_buffers role) < 2 ^ 32"
  by (cases role) (simp_all add: role_buffers_def AGENT_REPLY_BYTES_def CONTROL_REPLY_BYTES_def FLOW_REPLY_BYTES_def)

lemma endpoint_new_ok:
  assumes "role_ports role gp hp" and "0 < n" and "n < nxt"
  shows "endpoint_ok nxt (endpoint_new role gp hp n)" "ep_key (endpoint_new role gp hp n) = (gp, hp)"
    "ep_role (endpoint_new role gp hp n) = role" "ep_number (endpoint_new role gp hp n) = n"
    "\<not> is_live (endpoint_new role gp hp n)" "ep_retiring (endpoint_new role gp hp n) = None"
proof -
  obtain a t where b: "role_buffers role = (a, t)" by fastforce
  then have "t < 2 ^ 32" using role_buffers_small [of role] by simp
  then have "stream_inv (stream_new gp hp a t)" by (rule stream_new_inv)
  with assms b show "endpoint_ok nxt (endpoint_new role gp hp n)" "ep_key (endpoint_new role gp hp n) = (gp, hp)"
    "ep_role (endpoint_new role gp hp n) = role" "ep_number (endpoint_new role gp hp n) = n"
    "\<not> is_live (endpoint_new role gp hp n)" "ep_retiring (endpoint_new role gp hp n) = None"
    by (auto simp: endpoint_ok_def endpoint_new_def stream_of_role_def is_live_def ep_key_def stream_new_def quiet_def)
qed

lemma open_flow_moves:
  assumes core: "sw_core sw" and cls: "classify sw (vh_src_port h) (vh_dst_port h) = Some role"
    and new: "endpoint_index sw (vh_src_port h) (vh_dst_port h) = None" and opens: "opens_flow role h data sw"
    and res: "open_flow role h sw = Some sw1"
  shows "sw_moves sw sw1" "length (sw_endpoints sw1) = Suc (length (sw_endpoints sw))"
    "at_ports (vh_src_port h) (vh_dst_port h) (sw_endpoints sw1 ! length (sw_endpoints sw))" "sw_network_enabled sw1"
proof -
  let ?sw = "drop_rejected (vh_src_port h) (vh_dst_port h) sw"
  have flds: "sw_endpoints ?sw = sw_endpoints sw" "sw_next_number ?sw = sw_next_number sw"
    "sw_network_enabled ?sw = sw_network_enabled sw" "network_socket_count ?sw = network_socket_count sw"
    "sw_capacity ?sw = sw_capacity sw"
    by (simp_all add: drop_rejected_def network_socket_count_def)
  have mv: "sw_moves sw ?sw" by (rule drop_rejected_moves [OF core])
  obtain n sw2 where al: "allocate_connection_number ?sw = Some (n, sw2)"
    and sw1: "sw1 = sw2\<lparr>sw_endpoints := sw_endpoints sw2 @ [endpoint_new role (vh_src_port h) (vh_dst_port h) n]\<rparr>"
    using res by (auto simp: open_flow_def)
  let ?ep = "endpoint_new role (vh_src_port h) (vh_dst_port h) n"
  note al' = allocate_spec [OF al]
  have eq: "sw1 = ?sw\<lparr>sw_next_number := n + 1, sw_endpoints := sw_endpoints ?sw @ [?ep]\<rparr>"
    using sw1 al' by simp
  have en: "sw_network_enabled sw" and role: "role = Tcp \<or> role = Udp"
    using cls opens by (auto simp: classify_def opens_flow_def split: if_splits)
  have n: "n = sw_next_number ?sw" "n < n + 1" "0 < n"
    using al'(1,3) core flds by (auto simp: sw_core_def)
  note ep = endpoint_new_ok [OF classify_ports [OF cls] n(3) n(2)]
  have "sw_moves ?sw sw1"
    unfolding eq
    by (rule push_moves)
      (use mv n en role ep flds new opens in \<open>auto simp: sw_moves_def endpoint_index_None opens_flow_def\<close>)
  with mv show "sw_moves sw sw1" by (rule sw_moves_trans)
  show "length (sw_endpoints sw1) = Suc (length (sw_endpoints sw))"
    "at_ports (vh_src_port h) (vh_dst_port h) (sw_endpoints sw1 ! length (sw_endpoints sw))" "sw_network_enabled sw1"
    using eq flds ep(2) en by (simp_all add: at_ports_def ep_key_def)
qed

lemma switch_rx_moves:
  assumes core: "sw_core sw" and res: "switch_rx h data sw = Some (r, sw')"
  shows "sw_moves sw sw'"
proof (cases "classify sw (vh_src_port h) (vh_dst_port h)")
  case None
  with res switch_reject_moves [OF core] show ?thesis by (auto simp: switch_rx_def)
next
  case cls: (Some role)
  show ?thesis
  proof (cases "endpoint_index sw (vh_src_port h) (vh_dst_port h)")
    case (Some i)
    have "sw_network_enabled sw \<or> i = 0"
      using disabled_classify [OF _ cls] agent_index [OF core] Some by (cases "sw_network_enabled sw") auto
    with rx_at_moves [OF core endpoint_index_Some(1,2) [OF Some]] res cls Some show ?thesis
      by (simp add: switch_rx_def)
  next
    case None
    show ?thesis
    proof (cases "opens_flow role h data sw")
      case False
      with res cls None switch_reject_moves [OF core] show ?thesis by (auto simp: switch_rx_def)
    next
      case True
      then obtain sw1 where o: "open_flow role h sw = Some sw1" and rx: "rx_at (length (sw_endpoints sw1) - 1) h data sw1 = Some (r, sw')"
        using res cls None by (auto simp: switch_rx_def split: option.splits)
      note op = open_flow_moves [OF core cls None True o]
      have "sw_moves sw1 sw'"
        by (rule rx_at_moves [OF _ _ _ _ rx]) (use op in \<open>auto simp: sw_moves_def\<close>)
      with op(1) show ?thesis by (rule sw_moves_trans)
    qed
  qed
qed

lemma fresh_request:
  assumes "stream_request (stream_new gp hp a t) = (b, st)" and "t < 2 ^ 32"
  shows "b" "stream_inv st" "same_stream (stream_new gp hp a t) st" "quiet st"
  using stream_request_keeps [OF stream_new_inv [OF assms(2)] assms(1)]
  by (auto simp: keeps_def stream_new_def quiet_def can_queue_reply_def MAX_QUEUED_REPLIES_def)

lemma connect_publication_moves:
  assumes core: "sw_core sw" and res: "connect_publication hp sw = Some (r, sw')"
  shows "sw_moves sw sw'"
proof (cases "r = Err Backpressure \<and> sw' = sw \<or> r = Err Busy \<and> sw' = sw")
  case True
  then show ?thesis using sw_moves_refl [OF core] by auto
next
  case False
  have en: "sw_network_enabled sw" and port: "publication_host_port hp"
    and room: "network_socket_count sw < sw_capacity sw" and new: "endpoint_index sw PUBLICATION_PORT hp = None"
    using res False by (auto simp: connect_publication_def split: if_splits)
  obtain n sw1 where al: "allocate_connection_number sw = Some (n, sw1)"
    using res en port room new by (auto simp: connect_publication_def split: option.splits)
  note al' = allocate_spec [OF al]
  let ?ep = "endpoint_new Publication PUBLICATION_PORT hp n"
  obtain a t where b: "role_buffers Publication = (a, t)" by fastforce
  then have t: "t < 2 ^ 32" using role_buffers_small [of Publication] by simp
  obtain c st where rq: "stream_request (ep_stream ?ep) = (c, st)" by fastforce
  have est: "ep_stream ?ep = stream_new PUBLICATION_PORT hp a t" by (simp add: endpoint_new_def b)
  note rq' = fresh_request [OF rq [unfolded est] t]
  have n: "0 < n" using al'(1) core by (simp add: sw_core_def)
  have pp: "role_ports Publication PUBLICATION_PORT hp" using port by (simp add: role_ports_def)
  note ep = endpoint_new_ok [OF pp n al'(3)]
  have eq: "sw' = sw\<lparr>sw_next_number := n + 1, sw_endpoints := sw_endpoints sw @ [?ep\<lparr>ep_stream := st\<rparr>]\<rparr>"
    using res en port room new al al'(2) rq rq'(1) by (simp add: connect_publication_def Let_def)
  have "endpoint_ok (n + 1) (?ep\<lparr>ep_stream := st\<rparr>)"
    using ep rq' est by (auto simp: endpoint_ok_def stream_of_role_def same_stream_def)
  moreover have "ep_key (?ep\<lparr>ep_stream := st\<rparr>) = (PUBLICATION_PORT, hp)"
    using rq' by (simp add: ep_key_def same_stream_def stream_new_def)
  ultimately show ?thesis
    unfolding eq using core al' en new room ep by (intro push_moves) (auto simp: endpoint_index_None)
qed

subsection \<open>Calls on a connection\<close>

lemma put_stream_moves:
  assumes core: "sw_core sw" and i: "i < length (sw_endpoints sw)"
    and conn: "s_connection (ep_stream (sw_endpoints sw ! i)) \<noteq> None"
    and st: "stream_inv st" "same_stream (ep_stream (sw_endpoints sw ! i)) st" "s_connection st \<noteq> None"
  shows "sw_moves sw (put_stream i st sw)"
proof -
  have ok: "endpoint_ok (sw_next_number sw) (sw_endpoints sw ! i)" by (rule sw_core_at [OF core i])
  show ?thesis
    unfolding put_stream_def
    by (rule put_endpoint_moves [OF core i])
      (use ok conn st in \<open>auto simp: endpoint_ok_def stream_of_role_def same_stream_def same_place_def ep_key_def
        connected_def is_live_def\<close>)
qed

lemma connected_stream_inv:
  assumes "sw_core sw" and "connection_index sw cid = Some i"
  shows "s_connection (ep_stream (sw_endpoints sw ! i)) \<noteq> None" "stream_inv (ep_stream (sw_endpoints sw ! i))"
  using connection_index_Some [OF assms(2)] sw_core_at [OF assms(1)]
  by (auto simp: connected_def endpoint_ok_def stream_of_role_def)

lemma on_stream_moves:
  assumes core: "sw_core sw" and res: "on_stream cid f sw = (r, sw')"
    and f: "\<And>st r st'. stream_inv st \<Longrightarrow> s_connection st \<noteq> None \<Longrightarrow> f st = (r, st') \<Longrightarrow>
      stream_inv st' \<and> same_stream st st' \<and> s_connection st' \<noteq> None"
  shows "sw_moves sw sw'"
proof (cases "connection_index sw cid")
  case None
  with res sw_moves_refl [OF core] show ?thesis by (simp add: on_stream_def)
next
  case (Some i)
  note st = connected_stream_inv [OF core Some]
  obtain r1 st' where e: "f (ep_stream (sw_endpoints sw ! i)) = (r1, st')" by fastforce
  with res Some have "sw' = put_stream i st' sw" by (simp add: on_stream_def)
  with f [OF st(2,1) e] put_stream_moves [OF core connection_index_Some(1) [OF Some] st(1)] show ?thesis by simp
qed

lemma request_credit_moves:
  assumes "sw_core sw" and "request_credit cid sw = (r, sw')"
  shows "sw_moves sw sw'"
proof (rule on_stream_moves [OF assms(1) assms(2) [unfolded request_credit_def]])
  fix st :: stream_connection and r :: "vsock_error + bool" and st'
  assume "stream_inv st" and "s_connection st \<noteq> None"
    and "(let (b, st') = stream_request_credit st in (Ok b, st')) = (r, st')"
  then show "stream_inv st' \<and> same_stream st st' \<and> s_connection st' \<noteq> None"
    using stream_request_credit_keeps [of st, OF _ surjective_pairing] by (auto simp: keeps_def split: prod.splits)
qed

lemma switch_deliver_moves:
  assumes "sw_core sw" and "switch_deliver cid data sw = (r, sw')"
  shows "sw_moves sw sw'"
proof (cases "length data > unat MAX_PACKET_DATA_BYTES")
  case True
  with assms sw_moves_refl show ?thesis by (simp add: switch_deliver_def)
next
  case False
  then have r: "on_stream cid (stream_deliver data) sw = (r, sw')" using assms(2) by (simp add: switch_deliver_def)
  show ?thesis by (rule on_stream_moves [OF assms(1) r]) (use stream_deliver_keeps in blast)
qed

lemma switch_shutdown_moves:
  assumes "sw_core sw" and "switch_shutdown cid sw = (r, sw')"
  shows "sw_moves sw sw'"
proof (rule on_stream_moves [OF assms(1) assms(2) [unfolded switch_shutdown_def]])
  fix st :: stream_connection and r :: "vsock_error + unit" and st'
  assume "stream_inv st" and c: "s_connection st \<noteq> None" and "stream_shutdown st = (r, st')"
  from stream_shutdown_keeps [OF this(1,3)] c
  show "stream_inv st' \<and> same_stream st st' \<and> s_connection st' \<noteq> None" by (simp add: keeps_def)
qed

lemma live_not_retiring:
  "sw_core sw \<Longrightarrow> i < length (sw_endpoints sw) \<Longrightarrow> is_live (sw_endpoints sw ! i) \<Longrightarrow> ep_retiring (sw_endpoints sw ! i) = None"
  using sw_core_at [of sw i] by (auto simp: endpoint_ok_def)

lemma retire_stream_moves:
  assumes core: "sw_core sw" and i: "i < length (sw_endpoints sw)" and live: "is_live (sw_endpoints sw ! i)"
    and st: "stream_inv st" "same_stream (ep_stream (sw_endpoints sw ! i)) st"
    and res: "retire_endpoint i (put_stream i st sw) = Some sw'"
  shows "sw_moves sw sw'" "length (sw_endpoints sw') = length (sw_endpoints sw)"
    "\<And>j. is_live (sw_endpoints sw' ! j) \<Longrightarrow> is_live (sw_endpoints sw ! j) \<and> j \<noteq> i"
proof -
  let ?ep = "(sw_endpoints sw ! i)\<lparr>ep_stream := st\<rparr>"
  have ok: "endpoint_ok (sw_next_number sw) (sw_endpoints sw ! i)" by (rule sw_core_at [OF core i])
  have place: "same_place (sw_endpoints sw ! i) ?ep" and role: "stream_of_role (ep_role ?ep) (ep_stream ?ep)"
    using ok st by (auto simp: endpoint_ok_def stream_of_role_def same_stream_def same_place_def ep_key_def)
  note mv = retire_moves [OF core i place _ _ role res [unfolded put_stream_def]]
  show "sw_moves sw sw'" by (rule mv(1)) (use live_not_retiring [OF core i live] in simp_all)
  have eps: "sw_endpoints sw' = (sw_endpoints sw)[i := endpoint_retire (sw_next_number sw) ?ep]"
    "\<not> is_live (endpoint_retire (sw_next_number sw) ?ep)"
    using mv(2,3) live_not_retiring [OF core i live] by simp_all
  then show "length (sw_endpoints sw') = length (sw_endpoints sw)"
    "\<And>j. is_live (sw_endpoints sw' ! j) \<Longrightarrow> is_live (sw_endpoints sw ! j) \<and> j \<noteq> i"
    using i by (auto simp: nth_list_update split: if_splits)
qed

lemma rst_stream:
  assumes "stream_inv st"
  shows "stream_inv (snd (rst (s_guest_port st) (s_host_port st) st))"
    "same_stream st (snd (rst (s_guest_port st) (s_host_port st) st))"
  using rst_inv [OF assms refl refl] by (auto simp: keeps_def)

lemma reset_connection_moves:
  assumes core: "sw_core sw" and res: "reset_connection cid sw = Some (r, sw')"
  shows "sw_moves sw sw'"
proof (cases "endpoint_index sw (ci_guest_port cid) (ci_host_port cid)")
  case None
  with res sw_moves_refl [OF core] show ?thesis by (simp add: reset_connection_def)
next
  case (Some i)
  note ix = endpoint_index_Some [OF Some]
  let ?ep = "sw_endpoints sw ! i"
  show ?thesis
  proof (cases "ep_number ?ep = ci_number cid \<and> is_live ?ep")
    case False
    with res Some sw_moves_refl [OF core] show ?thesis by (auto simp: reset_connection_def Let_def)
  next
    case True
    have ports: "ci_guest_port cid = s_guest_port (ep_stream ?ep)" "ci_host_port cid = s_host_port (ep_stream ?ep)"
      using ix(2) by (auto simp: at_ports_def)
    have "stream_inv (ep_stream ?ep)" using sw_core_at [OF core ix(1)] by (simp add: endpoint_ok_def stream_of_role_def)
    note st = rst_stream [OF this]
    have "retire_endpoint i (put_stream i (snd (rst (s_guest_port (ep_stream ?ep)) (s_host_port (ep_stream ?ep)) (ep_stream ?ep))) sw) = Some sw'"
      using res Some True ports by (auto simp: reset_connection_def Let_def)
    from retire_stream_moves(1) [OF core ix(1) _ st this] True show ?thesis by simp
  qed
qed

lemma consume_upstream_moves:
  assumes core: "sw_core sw" and res: "consume_upstream cid n sw = Some (r, sw')"
  shows "sw_moves sw sw'"
proof (cases "connection_index sw cid")
  case None
  with res sw_moves_refl [OF core] show ?thesis by (simp add: consume_upstream_def)
next
  case (Some i)
  note i = connection_index_Some(1) [OF Some] and st = connected_stream_inv [OF core Some]
  define t where "t = stream_consume_upstream n (ep_stream (sw_endpoints sw ! i))"
  have t: "stream_inv t" "same_stream (ep_stream (sw_endpoints sw ! i)) t"
    using stream_consume_upstream_keeps [OF st(2), of n] by (auto simp: t_def keeps_def)
  show ?thesis
  proof (cases "s_connection t = None")
    case True
    then have "retire_endpoint i (put_stream i t sw) = Some sw'"
      using res Some by (auto simp: consume_upstream_def Let_def t_def)
    from retire_stream_moves(1) [OF core i _ t this] st(1) show ?thesis by (simp add: is_live_def)
  next
    case False
    then have "sw' = put_stream i t sw" using res Some by (auto simp: consume_upstream_def Let_def t_def)
    with put_stream_moves [OF core i st(1) t False] show ?thesis by simp
  qed
qed

subsection \<open>Releasing a retired number\<close>

lemma distinct_remove: "distinct xs \<Longrightarrow> distinct (take i xs @ drop (Suc i) xs)"
  using set_take_disj_set_drop_if_distinct [of xs i "Suc i"] by auto

lemma set_remove: "x \<in> set (take i xs @ drop (Suc i) xs) \<Longrightarrow> x \<in> set xs"
  by (auto dest: in_set_takeD in_set_dropD)

lemma remove_flow_roles:
  assumes "flow_roles rs" and "2 \<le> i"
  shows "flow_roles (take i rs @ drop (Suc i) rs)"
proof -
  obtain fs where fs: "rs = Agent # Control # fs" "Agent \<notin> set fs" "Control \<notin> set fs"
    using assms by (auto simp: flow_roles_def)
  obtain j where "i = Suc (Suc j)" using assms(2) by (metis add_2_eq_Suc le_Suc_ex)
  with fs show ?thesis by (auto simp: flow_roles_def dest: in_set_takeD in_set_dropD)
qed

lemma remove_moves:
  assumes core: "sw_core sw" and i: "2 \<le> i" "i < length (sw_endpoints sw)"
  shows "sw_moves sw (sw\<lparr>sw_endpoints := take i (sw_endpoints sw) @ drop (Suc i) (sw_endpoints sw)\<rparr>)"
proof -
  let ?eps = "take i (sw_endpoints sw) @ drop (Suc i) (sw_endpoints sw)"
  have "flow_roles (map ep_role ?eps)" "distinct (map ep_key ?eps)" "distinct (map ep_number ?eps)"
    using core remove_flow_roles [OF _ i(1)] distinct_remove
    by (auto simp: sw_core_def take_map [symmetric] drop_map [symmetric] simp del: distinct_append)
  moreover have "length ?eps \<le> length (sw_endpoints sw)" using i by simp
  moreover have "list_all (endpoint_ok (sw_next_number sw)) ?eps"
    using core by (auto simp: sw_core_def list_all_iff dest: set_remove in_set_takeD in_set_dropD)
  ultimately have "sw_core (sw\<lparr>sw_endpoints := ?eps\<rparr>)"
    using core by (auto simp: sw_core_def network_socket_count_def)
  moreover have "drop 1 ?eps = take (i - 1) (drop 1 (sw_endpoints sw)) @ drop i (drop 1 (sw_endpoints sw))"
    using i by (simp add: drop_take)
  then have "set (drop 1 ?eps) \<subseteq> set (drop 1 (sw_endpoints sw))"
    by (simp only: set_append Un_least set_take_subset set_drop_subset)
  then have "silent sw \<Longrightarrow> silent (sw\<lparr>sw_endpoints := ?eps\<rparr>)" by (auto simp: silent_def)
  ultimately show ?thesis
    by (auto simp: sw_moves_def evolves_def lineage_def dest!: in_set_takeD in_set_dropD intro: descends_refl)
qed

lemma renumber_moves:
  assumes core: "sw_core sw" and i: "i < length (sw_endpoints sw)" and dead: "ep_retiring (sw_endpoints sw ! i) \<noteq> None"
    and al: "allocate_connection_number sw = Some (n, sw1)"
  shows "sw_moves sw (put_endpoint i ((sw_endpoints sw ! i)\<lparr>ep_retiring := None, ep_number := n\<rparr>) sw1)"
proof -
  let ?ep = "(sw_endpoints sw ! i)\<lparr>ep_retiring := None, ep_number := n\<rparr>"
  note al' = allocate_spec [OF al]
  have ok: "endpoint_ok (sw_next_number sw) (sw_endpoints sw ! i)" by (rule sw_core_at [OF core i])
  have n: "0 < n" using al'(1) core by (simp add: sw_core_def)
  have core1: "sw_core sw1" unfolding al'(2) using core al' by (intro raise_next_core) auto
  have dead': "\<not> is_live ?ep" using ok dead by (auto simp: endpoint_ok_def is_live_def)
  have "endpoint_ok (n + 1) ?ep"
    using ok dead n al'(3) by (auto simp: endpoint_ok_def is_live_def)
  then have "sw_core (put_endpoint i ?ep sw1)"
    using i al' numbers_below_next [OF core]
    by (intro put_endpoint_core [OF core1]) (auto simp: same_place_def ep_key_def)
  moreover have "silent sw \<Longrightarrow> silent (put_endpoint i ?ep sw1)"
    using silent_update [of sw1 i ?ep] i al'(2) dead' by (simp add: silent_def)
  ultimately show ?thesis
    using al' by (auto simp: sw_moves_def evolves_def lineage_def dest!: set_update_cases intro: descends_refl)
qed

lemma retire_connection_moves:
  assumes core: "sw_core sw" and res: "retire_connection cid sw = Some (b, sw')"
  shows "sw_moves sw sw'"
proof (cases "endpoint_index sw (ci_guest_port cid) (ci_host_port cid)")
  case None
  with res sw_moves_refl [OF core] show ?thesis by (simp add: retire_connection_def)
next
  case (Some i)
  note ix = endpoint_index_Some [OF Some]
  let ?ep = "sw_endpoints sw ! i"
  show ?thesis
  proof (cases "ep_role ?ep \<noteq> ci_role cid \<or> ep_retiring ?ep \<noteq> Some (ci_number cid) \<or> s_replies (ep_stream ?ep) \<noteq> []")
    case True
    with res Some sw_moves_refl [OF core] show ?thesis by (auto simp: retire_connection_def Let_def)
  next
    case False
    then obtain sw1 where sw1: "(if i \<ge> FIXED_ENDPOINTS
        then Some (sw\<lparr>sw_endpoints := take i (sw_endpoints sw) @ drop (Suc i) (sw_endpoints sw)\<rparr>)
        else map_option (\<lambda>(number, sw1). put_endpoint i (?ep\<lparr>ep_retiring := None, ep_number := number\<rparr>) sw1)
          (allocate_connection_number sw)) = Some sw1"
      and sw': "sw' = drop_rejected (ci_guest_port cid) (ci_host_port cid) sw1"
      using res Some by (auto simp: retire_connection_def Let_def)
    have "sw_moves sw sw1"
      using sw1 remove_moves [OF core _ ix(1)] renumber_moves [OF core ix(1)] False
      by (auto simp: FIXED_ENDPOINTS_def split: if_splits)
    moreover from this have "sw_moves sw1 sw'"
      unfolding sw' by (intro drop_rejected_moves) (simp add: sw_moves_def)
    ultimately show ?thesis by (rule sw_moves_trans)
  qed
qed

subsection \<open>Resets\<close>

lemma clear_replies:
  assumes "stream_of_role role st" and "quiet st"
  shows "stream_of_role role (st\<lparr>s_replies := []\<rparr>)" "quiet (st\<lparr>s_replies := []\<rparr>)"
proof -
  have "s_reply_bytes st = payload_bytes (s_replies st)"
    using assms by (simp add: stream_of_role_def stream_inv_def core_inv_def replies_ok_def)
  moreover have "payload_bytes (s_replies st) = 0"
    using assms(2) by (simp add: quiet_def list_all_iff)
  ultimately have "s_reply_bytes st = 0" by simp
  with assms(1) show "stream_of_role role (st\<lparr>s_replies := []\<rparr>)" "quiet (st\<lparr>s_replies := []\<rparr>)"
    by (auto simp: stream_of_role_def stream_inv_def core_inv_def replies_ok_def credit_ok_def quiet_def
        connection_ok_def split: option.splits)
qed

lemma clear_dead_moves:
  assumes core: "sw_core sw" and i: "i < length (sw_endpoints sw)" and dead: "\<not> is_live (sw_endpoints sw ! i)"
  shows "sw_moves sw (put_stream i ((ep_stream (sw_endpoints sw ! i))\<lparr>s_replies := []\<rparr>) sw)"
proof -
  have ok: "endpoint_ok (sw_next_number sw) (sw_endpoints sw ! i)" by (rule sw_core_at [OF core i])
  show ?thesis
    unfolding put_stream_def
    by (rule put_endpoint_moves [OF core i])
      (use ok dead clear_replies [of "ep_role (sw_endpoints sw ! i)" "ep_stream (sw_endpoints sw ! i)"] in
        \<open>auto simp: endpoint_ok_def same_place_def ep_key_def connected_def is_live_def split: option.splits\<close>)
qed

text \<open>What one turn of a reset loop does.\<close>

definition quiets :: "nat \<Rightarrow> switch \<Rightarrow> switch \<Rightarrow> bool" where
  "quiets i sw sw' \<longleftrightarrow> sw_moves sw sw' \<and> length (sw_endpoints sw') = length (sw_endpoints sw)
     \<and> (\<forall>j. is_live (sw_endpoints sw' ! j) \<longrightarrow> is_live (sw_endpoints sw ! j) \<and> j \<noteq> i)"

lemma reset_network_at_quiets:
  assumes core: "sw_core sw" and i: "i < length (sw_endpoints sw)" and res: "reset_network_at i sw = Some sw'"
  shows "quiets i sw sw'"
proof (cases "is_live (sw_endpoints sw ! i)")
  case False
  with res sw_moves_refl [OF core] show ?thesis by (auto simp: reset_network_at_def Let_def quiets_def)
next
  case True
  let ?st = "ep_stream (sw_endpoints sw ! i)"
  have "stream_inv ?st" using sw_core_at [OF core i] by (simp add: endpoint_ok_def stream_of_role_def)
  note st = rst_stream [OF this]
  have "retire_endpoint i (put_stream i (snd (rst (s_guest_port ?st) (s_host_port ?st) ?st)) sw) = Some sw'"
    using res True by (simp add: reset_network_at_def Let_def)
  from retire_stream_moves [OF core i True st this] show ?thesis by (simp add: quiets_def)
qed

lemma put_same_stream: "i < length (sw_endpoints sw) \<Longrightarrow> put_stream i (ep_stream (sw_endpoints sw ! i)) sw = sw"
  by (simp add: put_stream_def put_endpoint_def)

lemma reset_at_quiets:
  assumes core: "sw_core sw" and i: "i < length (sw_endpoints sw)" and res: "reset_at i sw = Some sw'"
  shows "quiets i sw sw'"
proof -
  obtain sw1 where sw1: "(if is_live (sw_endpoints sw ! i) then retire_endpoint i sw else Some sw) = Some sw1"
    and sw': "sw' = put_stream i ((ep_stream (sw_endpoints sw1 ! i))\<lparr>s_replies := []\<rparr>) sw1"
    using res by (auto simp: reset_at_def)
  have q: "quiets i sw sw1"
  proof (cases "is_live (sw_endpoints sw ! i)")
    case False
    with sw1 sw_moves_refl [OF core] show ?thesis by (auto simp: quiets_def)
  next
    case True
    have "stream_inv (ep_stream (sw_endpoints sw ! i))"
      using sw_core_at [OF core i] by (simp add: endpoint_ok_def stream_of_role_def)
    moreover have "same_stream (ep_stream (sw_endpoints sw ! i)) (ep_stream (sw_endpoints sw ! i))"
      by (simp add: same_stream_def)
    moreover have "retire_endpoint i (put_stream i (ep_stream (sw_endpoints sw ! i)) sw) = Some sw1"
      using sw1 True put_same_stream [OF i] by simp
    ultimately show ?thesis using retire_stream_moves [OF core i True] by (simp add: quiets_def)
  qed
  then have c1: "sw_core sw1" and i1: "i < length (sw_endpoints sw1)" and dead: "\<not> is_live (sw_endpoints sw1 ! i)"
    using i by (auto simp: quiets_def sw_moves_def)
  have "sw_moves sw sw'" using q clear_dead_moves [OF c1 i1 dead] sw_moves_trans by (auto simp: quiets_def sw')
  with q i1 dead show ?thesis
    by (auto simp: quiets_def sw' put_stream_def is_live_def nth_list_update split: if_splits)
qed

definition quiets_each :: "(nat \<Rightarrow> switch \<Rightarrow> switch option) \<Rightarrow> bool" where
  "quiets_each f \<longleftrightarrow> (\<forall>i sw sw'. sw_core sw \<longrightarrow> i < length (sw_endpoints sw) \<longrightarrow> f i sw = Some sw' \<longrightarrow> quiets i sw sw')"

lemma reset_loops_quiet: "quiets_each reset_at" "quiets_each reset_network_at"
  using reset_at_quiets reset_network_at_quiets by (simp_all add: quiets_each_def)

lemma each_index_quiets:
  assumes f: "quiets_each f"
  shows "sw_core sw \<Longrightarrow> \<forall>i \<in> set is. i < length (sw_endpoints sw) \<Longrightarrow> each_index f is sw = Some sw' \<Longrightarrow>
    sw_moves sw sw' \<and> length (sw_endpoints sw') = length (sw_endpoints sw)
    \<and> (\<forall>j. is_live (sw_endpoints sw' ! j) \<longrightarrow> is_live (sw_endpoints sw ! j) \<and> j \<notin> set is)"
proof (induction "is" arbitrary: sw)
  case Nil
  then show ?case using sw_moves_refl by auto
next
  case (Cons i "is")
  from Cons.prems(3) obtain sw1 where one: "f i sw = Some sw1" and rest: "each_index f is sw1 = Some sw'"
    by (auto split: option.splits)
  have q: "quiets i sw sw1" using f Cons.prems(1,2) one by (simp add: quiets_each_def)
  then have "sw_core sw1" "\<forall>i \<in> set is. i < length (sw_endpoints sw1)"
    using Cons.prems(2) by (auto simp: quiets_def sw_moves_def)
  note ih = Cons.IH [OF this rest]
  have "sw_moves sw sw'" using q ih by (intro sw_moves_trans [of sw sw1 sw']) (simp_all add: quiets_def)
  moreover have "j \<notin> set (i # is)" "is_live (sw_endpoints sw ! j)" if "is_live (sw_endpoints sw' ! j)" for j
    using that q ih by (auto simp: quiets_def)
  moreover have "length (sw_endpoints sw') = length (sw_endpoints sw)" using q ih by (simp add: quiets_def)
  ultimately show ?case by blast
qed

lemma reset_connections_moves:
  assumes core: "sw_core sw" and res: "reset_connections sw = Some sw'"
  shows "sw_moves sw sw'"
proof -
  obtain sw1 where e: "each_index reset_at [0..<length (sw_endpoints sw)] sw = Some sw1"
    and sw': "sw' = sw1\<lparr>sw_rejected := []\<rparr>" using res by (auto simp: reset_connections_def)
  have m: "sw_moves sw sw1" using each_index_quiets [OF reset_loops_quiet(1) core _ e] by simp
  then have "sw_moves sw1 sw'" unfolding sw' by (intro rejected_core) (auto simp: sw_moves_def)
  with m show ?thesis by (rule sw_moves_trans)
qed

lemma disable_network_spec:
  assumes inv: "sw_core sw" and res: "disable_network sw = Some sw'"
  shows "sw_core sw'" "lineage sw sw'" "\<not> sw_network_enabled sw'" "silent sw'"
proof -
  let ?sw = "sw\<lparr>sw_network_enabled := False\<rparr>"
  have core: "sw_core ?sw" using inv by (simp add: sw_core_def network_socket_count_def)
  have e: "each_index reset_network_at [1..<length (sw_endpoints ?sw)] ?sw = Some sw'"
    using res by (simp add: disable_network_def reset_network_connections_def)
  have m: "sw_moves ?sw sw'" "length (sw_endpoints sw') = length (sw_endpoints sw)"
    "\<forall>j. is_live (sw_endpoints sw' ! j) \<longrightarrow> j \<notin> {1..<length (sw_endpoints sw)}"
    using each_index_quiets [OF reset_loops_quiet(2) core _ e] by auto
  then show "sw_core sw'" "\<not> sw_network_enabled sw'" by (auto simp: sw_moves_def evolves_def)
  have "lineage ?sw sw'" using m(1) by (simp add: sw_moves_def evolves_def)
  then show "lineage sw sw'" by (simp add: lineage_def)
  show "silent sw'"
    unfolding silent_def
  proof
    fix ep assume "ep \<in> set (drop 1 (sw_endpoints sw'))"
    then obtain k where "k < length (sw_endpoints sw') - 1" "ep = sw_endpoints sw' ! (Suc k)"
      by (auto simp: in_set_conv_nth)
    with m(2,3) show "\<not> is_live ep" by auto
  qed
qed

end
