(* ===== verification/Vsock_Replies.thy ===== *)
theory Vsock_Replies
  imports Vsock_Switch_Inv
begin

text \<open>
  Taking replies from the vsock switch: the two nested round robins and the bounded drain, then the
  switches that any sequence of calls can reach and what holds of all of them.
\<close>

section \<open>Taking replies\<close>

definition pending_bytes :: "switch \<Rightarrow> nat" where
  "pending_bytes sw = sum_list (map (s_reply_bytes \<circ> ep_stream) (sw_endpoints sw))"

text \<open>An endpoint has nothing to send, or only replies behind one that does not fit.\<close>

definition blocked :: "nat \<Rightarrow> endpoint \<Rightarrow> bool" where
  "blocked n ep \<longleftrightarrow> s_replies (ep_stream ep) = [] \<or> length (r_payload (hd (s_replies (ep_stream ep)))) > n"

text \<open>What a taken reply, or none, leaves behind.\<close>

definition takes :: "nat \<Rightarrow> switch \<Rightarrow> reply option \<Rightarrow> switch \<Rightarrow> bool" where
  "takes n sw r sw' \<longleftrightarrow> sw_moves sw sw' \<and> (case r of
       None \<Rightarrow> sw' = sw
     | Some x \<Rightarrow> pending_reply_count sw = Suc (pending_reply_count sw')
         \<and> pending_bytes sw = pending_bytes sw' + length (r_payload x) \<and> length (r_payload x) \<le> n)"

lemma sum_list_update_nat:
  fixes f :: "'a \<Rightarrow> nat"
  assumes "i < length xs" and "f (xs ! i) = f y + k"
  shows "sum_list (map f xs) = sum_list (map f (xs[i := y])) + k"
  using assms
proof (induction xs arbitrary: i)
  case (Cons x xs)
  then show ?case by (cases i) auto
qed simp

lemma take_reply_from_takes:
  assumes core: "sw_core sw" and i: "i < length (sw_endpoints sw)"
  shows "\<exists>r sw'. take_reply_from i n sw = Some (r, sw') \<and> takes n sw r sw' \<and> (r = None \<longleftrightarrow> blocked n (sw_endpoints sw ! i))
    \<and> length (sw_endpoints sw') = length (sw_endpoints sw) \<and> sw_next_reply sw' = sw_next_reply sw
    \<and> sw_next_flow sw' = sw_next_flow sw \<and> (\<forall>j. j \<noteq> i \<longrightarrow> sw_endpoints sw' ! j = sw_endpoints sw ! j)"
proof -
  let ?ep = "sw_endpoints sw ! i"
  obtain x st where t: "stream_take_reply n (ep_stream ?ep) = (x, st)" by fastforce
  define sw' where "sw' = put_stream i st sw"
  define r where "r = map_option (\<lambda>y. y\<lparr>r_connection_number := ep_number ?ep\<rparr>) x"
  have ok: "endpoint_ok (sw_next_number sw) ?ep" by (rule sw_core_at [OF core i])
  then have inv: "stream_inv (ep_stream ?ep)" by (simp add: endpoint_ok_def stream_of_role_def)
  note k = stream_take_reply_keeps [OF inv t]
  have mv: "sw_moves sw sw'"
    unfolding sw'_def put_stream_def
    by (rule put_endpoint_moves [OF core i])
      (use ok k in \<open>auto simp: endpoint_ok_def stream_of_role_def keeps_def same_stream_def same_place_def ep_key_def
        connected_def is_live_def split: option.splits\<close>)
  have tk: "takes n sw r sw'"
  proof (cases x)
    case None
    then have "st = ep_stream ?ep" using k by simp
    then show ?thesis using mv None put_same_stream [OF i] by (simp add: takes_def r_def sw'_def)
  next
    case (Some y)
    then have rs: "s_replies (ep_stream ?ep) = y # s_replies st" and fits: "length (r_payload y) \<le> n" using k by auto
    have bytes: "s_reply_bytes (ep_stream ?ep) = s_reply_bytes st + length (r_payload y)"
    proof -
      have "s_reply_bytes (ep_stream ?ep) = payload_bytes (s_replies (ep_stream ?ep))" "s_reply_bytes st = payload_bytes (s_replies st)"
        using inv k by (auto simp: keeps_def stream_inv_def core_inv_def replies_ok_def)
      then show ?thesis using rs by simp
    qed
    have "pending_reply_count sw = Suc (pending_reply_count sw')"
      using sum_list_update_nat [OF i, of "\<lambda>ep. length (s_replies (ep_stream ep))" "?ep\<lparr>ep_stream := st\<rparr>" 1] rs
      by (simp add: pending_reply_count_def sw'_def put_stream_def)
    moreover have "pending_bytes sw = pending_bytes sw' + length (r_payload y)"
      using sum_list_update_nat [OF i, of "s_reply_bytes \<circ> ep_stream" "?ep\<lparr>ep_stream := st\<rparr>" "length (r_payload y)"] bytes
      by (simp add: pending_bytes_def sw'_def put_stream_def)
    ultimately show ?thesis using mv Some fits by (simp add: takes_def r_def)
  qed
  have "r = None \<longleftrightarrow> blocked n ?ep"
    using k by (cases x) (auto simp: r_def blocked_def)
  moreover have "take_reply_from i n sw = Some (r, sw')"
    using i t by (simp add: take_reply_from_def Let_def r_def sw'_def)
  ultimately show ?thesis using tk by (auto simp: sw'_def put_stream_def put_endpoint_def)
qed

lemma takes_core: "takes n sw r sw' \<Longrightarrow> sw_core sw'"
  by (simp add: takes_def sw_moves_def)

lemma cursor_moves:
  "takes n sw r sw' \<Longrightarrow> r \<noteq> None \<Longrightarrow> takes n sw r (sw'\<lparr>sw_next_flow := f\<rparr>)"
  "takes n sw r sw' \<Longrightarrow> r \<noteq> None \<Longrightarrow> takes n sw r (sw'\<lparr>sw_next_reply := f\<rparr>)"
  by (auto simp: takes_def sw_moves_def sw_core_def network_socket_count_def evolves_def lineage_def silent_def
      pending_reply_count_def pending_bytes_def split: option.splits)

lemma take_flow_scan_takes:
  assumes core: "sw_core sw" and count: "count = network_socket_count sw" and pos: "offsets \<noteq> [] \<Longrightarrow> 0 < count"
  shows "\<exists>r sw'. take_flow_scan n count offsets sw = Some (r, sw') \<and> takes n sw r sw'
    \<and> (r = None \<longleftrightarrow> (\<forall>k \<in> set offsets. blocked n (sw_endpoints sw ! (FIXED_ENDPOINTS + (sw_next_flow sw + k) mod count))))
    \<and> length (sw_endpoints sw') = length (sw_endpoints sw) \<and> sw_next_reply sw' = sw_next_reply sw
    \<and> (\<forall>j < FIXED_ENDPOINTS. sw_endpoints sw' ! j = sw_endpoints sw ! j)"
  using pos
proof (induction offsets)
  case Nil
  then show ?case using sw_moves_refl [OF core] by (simp add: takes_def)
next
  case (Cons k ks)
  let ?i = "FIXED_ENDPOINTS + (sw_next_flow sw + k) mod count"
  have "?i < length (sw_endpoints sw)"
  proof -
    have "(sw_next_flow sw + k) mod count < count" using Cons.prems by simp
    then show ?thesis using count by (simp add: network_socket_count_def)
  qed
  from take_reply_from_takes [OF core this, of n] obtain r sw' where
    t: "take_reply_from ?i n sw = Some (r, sw')" "takes n sw r sw'" "r = None \<longleftrightarrow> blocked n (sw_endpoints sw ! ?i)"
    "length (sw_endpoints sw') = length (sw_endpoints sw)" "sw_next_reply sw' = sw_next_reply sw"
    "\<forall>j. j \<noteq> ?i \<longrightarrow> sw_endpoints sw' ! j = sw_endpoints sw ! j" by blast
  show ?case
  proof (cases r)
    case None
    then have "sw' = sw" using t(2) by (simp add: takes_def)
    with Cons None t show ?thesis by (auto simp: Let_def)
  next
    case (Some x)
    let ?sw = "sw'\<lparr>sw_next_flow := (?i - FIXED_ENDPOINTS + 1) mod count\<rparr>"
    have "take_flow_scan n count (k # ks) sw = Some (Some x, ?sw)" using t(1) Some by (simp add: Let_def)
    moreover have "takes n sw (Some x) ?sw" using cursor_moves(1) [OF t(2)] Some by simp
    ultimately show ?thesis using t Some by (auto simp: FIXED_ENDPOINTS_def)
  qed
qed

lemma rotation_covers:
  assumes "j < (c :: nat)"
  shows "\<exists>k \<in> {0..<c}. (a + k) mod c = j"
proof (intro bexI)
  let ?k = "(j + (c - a mod c)) mod c"
  show "?k \<in> {0..<c}" using assms by simp
  have "(a + ?k) mod c = (a mod c + (j + (c - a mod c))) mod c" by (simp add: mod_add_eq mod_add_left_eq mod_add_right_eq)
  also have "a mod c + (j + (c - a mod c)) = j + c"
    using assms mod_less_divisor [of c a] by linarith
  finally show "(a + ?k) mod c = j" using assms by simp
qed

lemma take_flow_reply_takes:
  assumes core: "sw_core sw"
  shows "\<exists>r sw'. take_flow_reply n sw = Some (r, sw') \<and> takes n sw r sw'
    \<and> (r = None \<longleftrightarrow> (\<forall>ep \<in> set (drop FIXED_ENDPOINTS (sw_endpoints sw)). blocked n ep))
    \<and> length (sw_endpoints sw') = length (sw_endpoints sw) \<and> sw_next_reply sw' = sw_next_reply sw
    \<and> (\<forall>j < FIXED_ENDPOINTS. sw_endpoints sw' ! j = sw_endpoints sw ! j)"
proof -
  let ?c = "network_socket_count sw"
  have "(\<forall>k \<in> set [0..<?c]. blocked n (sw_endpoints sw ! (FIXED_ENDPOINTS + (sw_next_flow sw + k) mod ?c)))
      \<longleftrightarrow> (\<forall>j < ?c. blocked n (sw_endpoints sw ! (FIXED_ENDPOINTS + j)))"
    using rotation_covers [of _ ?c "sw_next_flow sw"] by (fastforce simp: set_upt)
  also have "\<dots> \<longleftrightarrow> (\<forall>ep \<in> set (drop FIXED_ENDPOINTS (sw_endpoints sw)). blocked n ep)"
    by (simp add: network_socket_count_def all_set_conv_all_nth)
  finally show ?thesis
    using take_flow_scan_takes [OF core refl, of "[0..<?c]" n] by (auto simp: take_flow_reply_def Let_def)
qed


definition class_blocked :: "nat \<Rightarrow> nat \<Rightarrow> switch \<Rightarrow> bool" where
  "class_blocked n cls sw \<longleftrightarrow> (if cls < FIXED_ENDPOINTS then blocked n (sw_endpoints sw ! cls)
     else (\<forall>ep \<in> set (drop FIXED_ENDPOINTS (sw_endpoints sw)). blocked n ep))"

lemma take_class_takes:
  assumes core: "sw_core sw"
  shows "\<exists>r sw'. take_class cls n sw = Some (r, sw') \<and> takes n sw r sw' \<and> (r = None \<longleftrightarrow> class_blocked n cls sw)
    \<and> length (sw_endpoints sw') = length (sw_endpoints sw) \<and> sw_next_reply sw' = sw_next_reply sw
    \<and> (\<forall>j < FIXED_ENDPOINTS. j \<noteq> cls \<longrightarrow> sw_endpoints sw' ! j = sw_endpoints sw ! j)"
proof (cases "cls < FIXED_ENDPOINTS")
  case True
  then have "cls < length (sw_endpoints sw)" using sw_core_first(1) [OF core] by (simp add: FIXED_ENDPOINTS_def)
  from take_reply_from_takes [OF core this, of n] True show ?thesis by (auto simp: take_class_def class_blocked_def)
next
  case False
  with take_flow_reply_takes [OF core, of n] show ?thesis by (auto simp: take_class_def class_blocked_def)
qed

lemma pop_rejected_takes:
  assumes core: "sw_core sw" and rej: "sw_rejected sw = r # rs"
  shows "takes n sw (Some r) (sw\<lparr>sw_rejected := rs\<rparr>)"
  using rejected_core [OF core, of rs] core rej
  by (auto simp: takes_def sw_core_def pending_reply_count_def pending_bytes_def)

lemma take_class_scan_takes:
  assumes core: "sw_core sw"
  shows "\<exists>r sw'. take_class_scan n offsets sw = Some (r, sw') \<and> takes n sw r sw'
    \<and> (r = None \<longleftrightarrow> (\<forall>k \<in> set offsets. class_blocked n ((sw_next_reply sw + k) mod REPLY_CLASSES) sw) \<and> sw_rejected sw = [])"
proof (induction offsets)
  case Nil
  show ?case
    using sw_moves_refl [OF core] pop_rejected_takes [OF core]
    by (cases "sw_rejected sw") (auto simp: takes_def)
next
  case (Cons k ks)
  let ?c = "(sw_next_reply sw + k) mod REPLY_CLASSES"
  obtain r sw' where t: "take_class ?c n sw = Some (r, sw')" "takes n sw r sw'" "r = None \<longleftrightarrow> class_blocked n ?c sw"
    using take_class_takes [OF core, of ?c n] by blast
  show ?case
  proof (cases r)
    case None
    then have "sw' = sw" using t(2) by (simp add: takes_def)
    with Cons None t show ?thesis by (auto simp: Let_def)
  next
    case (Some x)
    with t cursor_moves(2) [OF t(2)] show ?thesis by (auto simp: Let_def)
  qed
qed

lemma take_reply_takes:
  assumes core: "sw_core sw"
  shows "\<exists>r sw'. take_reply n sw = Some (r, sw') \<and> takes n sw r sw'
    \<and> (r = None \<longleftrightarrow> (\<forall>ep \<in> set (sw_endpoints sw). blocked n ep) \<and> sw_rejected sw = [])"
proof -
  have cls: "(\<forall>k \<in> set [0..<REPLY_CLASSES]. class_blocked n ((sw_next_reply sw + k) mod REPLY_CLASSES) sw)
      \<longleftrightarrow> (\<forall>c < REPLY_CLASSES. class_blocked n c sw)"
    using rotation_covers [of _ REPLY_CLASSES "sw_next_reply sw"] by (fastforce simp: REPLY_CLASSES_def)
  obtain a b fl where eps: "sw_endpoints sw = a # b # fl"
    using sw_core_first(1) [OF core] by (metis Suc_le_length_iff numeral_2_eq_2)
  have "(\<forall>c < REPLY_CLASSES. class_blocked n c sw) \<longleftrightarrow> (\<forall>ep \<in> set (sw_endpoints sw). blocked n ep)"
    by (auto simp: class_blocked_def REPLY_CLASSES_def FIXED_ENDPOINTS_def eps numeral_3_eq_3 numeral_2_eq_2 less_Suc_eq)
  then show ?thesis
    using take_class_scan_takes [OF core, of n "[0..<REPLY_CLASSES]"] cls by (simp add: take_reply_def)
qed

lemma takes_trans_pending:
  "takes n sw (Some x) sw' \<Longrightarrow> pending_reply_count sw = Suc (pending_reply_count sw')
     \<and> pending_bytes sw = length (r_payload x) + pending_bytes sw' \<and> length (r_payload x) \<le> n \<and> sw_moves sw sw' \<and> sw_core sw'"
  by (simp add: takes_def sw_moves_def)

lemma take_replies_up_to_total:
  "sw_core sw \<Longrightarrow> \<exists>rs sw'. take_replies_up_to n remaining sw = Some (rs, sw') \<and> length rs \<le> n \<and> payload_bytes rs \<le> remaining
    \<and> pending_reply_count sw = length rs + pending_reply_count sw'
    \<and> pending_bytes sw = payload_bytes rs + pending_bytes sw' \<and> sw_moves sw sw'
    \<and> (length rs < n \<longrightarrow> sw_rejected sw' = [] \<and> (\<forall>ep \<in> set (sw_endpoints sw'). blocked (remaining - payload_bytes rs) ep))"
proof (induction n arbitrary: remaining sw)
  case 0
  then show ?case using sw_moves_refl by simp
next
  case (Suc n)
  obtain r sw1 where t: "take_reply remaining sw = Some (r, sw1)" "takes remaining sw r sw1"
    "r = None \<longleftrightarrow> (\<forall>ep \<in> set (sw_endpoints sw). blocked remaining ep) \<and> sw_rejected sw = []"
    using take_reply_takes [OF Suc.prems, of remaining] by blast
  show ?case
  proof (cases r)
    case None
    then have "sw1 = sw" using t(2) by (simp add: takes_def)
    with None t show ?thesis using sw_moves_refl [OF Suc.prems] by auto
  next
    case (Some x)
    note tk = takes_trans_pending [OF t(2) [unfolded Some]]
    then obtain rs sw' where ih: "take_replies_up_to n (remaining - length (r_payload x)) sw1 = Some (rs, sw')" "length rs \<le> n"
      "payload_bytes rs \<le> remaining - length (r_payload x)" "pending_reply_count sw1 = length rs + pending_reply_count sw'"
      "pending_bytes sw1 = payload_bytes rs + pending_bytes sw'" "sw_moves sw1 sw'"
      "length rs < n \<longrightarrow> sw_rejected sw' = []
        \<and> (\<forall>ep \<in> set (sw_endpoints sw'). blocked (remaining - length (r_payload x) - payload_bytes rs) ep)"
      using Suc.IH [of sw1 "remaining - length (r_payload x)"] by blast
    have "take_replies_up_to (Suc n) remaining sw = Some (x # rs, sw')" using t(1) Some ih(1) by simp
    moreover have "sw_moves sw sw'" using tk ih(6) sw_moves_trans by blast
    ultimately show ?thesis using tk ih(2-5,7) by (intro exI [of _ "x # rs"] exI [of _ sw']) (auto simp: comp_def)
  qed
qed


section \<open>Reachable switches\<close>

text \<open>Every call the frontend makes on its switch, when it returns.\<close>

inductive sw_step :: "switch \<Rightarrow> switch \<Rightarrow> bool" where
  st_rx: "switch_rx h data sw = Some (r, sw') \<Longrightarrow> sw_step sw sw'"
| st_connect: "connect_publication hp sw = Some (c, sw') \<Longrightarrow> sw_step sw sw'"
| st_retire: "retire_connection cid sw = Some (b, sw') \<Longrightarrow> sw_step sw sw'"
| st_reset_all: "reset_connections sw = Some sw' \<Longrightarrow> sw_step sw sw'"
| st_disable: "disable_network sw = Some sw' \<Longrightarrow> sw_step sw sw'"
| st_credit: "request_credit cid sw = (q, sw') \<Longrightarrow> sw_step sw sw'"
| st_deliver: "switch_deliver cid data sw = (e, sw') \<Longrightarrow> sw_step sw sw'"
| st_shutdown: "switch_shutdown cid sw = (e, sw') \<Longrightarrow> sw_step sw sw'"
| st_reset: "reset_connection cid sw = Some (e, sw') \<Longrightarrow> sw_step sw sw'"
| st_consume: "consume_upstream cid n sw = Some (e, sw') \<Longrightarrow> sw_step sw sw'"
| st_take: "take_reply n sw = Some (rep, sw') \<Longrightarrow> sw_step sw sw'"
| st_take_all: "take_replies_up_to m n sw = Some (reps, sw') \<Longrightarrow> sw_step sw sw'"

inductive sw_steps :: "switch \<Rightarrow> switch \<Rightarrow> bool" where
  ss_refl: "sw_steps sw sw"
| ss_step: "sw_steps sw sw1 \<Longrightarrow> sw_step sw1 sw2 \<Longrightarrow> sw_steps sw sw2"

definition sw_reach :: "switch \<Rightarrow> bool" where
  "sw_reach sw \<longleftrightarrow> (\<exists>enabled capacity. sw_steps (switch_with_capacity enabled capacity) sw)"

lemma switch_start_inv: "sw_inv (switch_with_capacity enabled capacity)"
proof -
  have "role_ports Agent AGENT_PORT AGENT_PORT" "role_ports Control CONTROL_PORT CONTROL_PORT"
    by (simp_all add: role_ports_def)
  from endpoint_new_ok [OF this(1), of 1 3] endpoint_new_ok [OF this(2), of 2 3] show ?thesis
    by (simp add: sw_inv_def sw_core_def silent_def switch_with_capacity_def flow_roles_def network_socket_count_def
        FIXED_ENDPOINTS_def AGENT_PORT_def CONTROL_PORT_def)
qed

lemma take_reply_moves: "sw_core sw \<Longrightarrow> take_reply n sw = Some (r, sw') \<Longrightarrow> sw_moves sw sw'"
  using take_reply_takes [of sw n] by (auto simp: takes_def)

lemma take_replies_up_to_moves: "sw_core sw \<Longrightarrow> take_replies_up_to m n sw = Some (rs, sw') \<Longrightarrow> sw_moves sw sw'"
  using take_replies_up_to_total [of sw m n] by auto

lemmas operation_moves = switch_rx_moves connect_publication_moves retire_connection_moves reset_connections_moves
  request_credit_moves switch_deliver_moves switch_shutdown_moves reset_connection_moves consume_upstream_moves
  take_reply_moves take_replies_up_to_moves

lemma sw_step_moves:
  assumes "sw_step sw sw'" and "sw_core sw"
  shows "sw_moves sw sw' \<or> disable_network sw = Some sw'"
  using assms by (cases rule: sw_step.cases) (auto dest: operation_moves)

lemma sw_step_inv:
  assumes "sw_step sw sw'" and inv: "sw_inv sw"
  shows "sw_inv sw' \<and> lineage sw sw' \<and> (sw_network_enabled sw' \<longrightarrow> sw_network_enabled sw)"
proof -
  have core: "sw_core sw" using inv by (simp add: sw_inv_def)
  from sw_step_moves [OF assms(1) core] show ?thesis
  proof
    assume m: "sw_moves sw sw'"
    with sw_moves_inv [OF inv m] show ?thesis by (auto simp: sw_moves_def evolves_def)
  next
    assume "disable_network sw = Some sw'"
    from disable_network_spec [OF core this] show ?thesis by (simp add: sw_inv_def)
  qed
qed

lemma sw_steps_inv:
  assumes "sw_steps sw sw'" and "sw_inv sw"
  shows "sw_inv sw' \<and> lineage sw sw' \<and> (sw_network_enabled sw' \<longrightarrow> sw_network_enabled sw)"
  using assms
proof (induction rule: sw_steps.induct)
  case (ss_refl sw)
  then show ?case by (simp add: lineage_refl)
next
  case (ss_step sw sw1 sw2)
  then show ?case using sw_step_inv [of sw1 sw2] lineage_trans [of sw sw1 sw2] by simp
qed

lemma sw_reach_inv: "sw_reach sw \<Longrightarrow> sw_inv sw"
  using sw_steps_inv switch_start_inv by (auto simp: sw_reach_def)

lemma sw_steps_trans: "sw_steps sw1 sw2 \<Longrightarrow> sw_steps sw sw1 \<Longrightarrow> sw_steps sw sw2"
  by (induction rule: sw_steps.induct) (auto intro: sw_steps.intros)

lemma sw_reach_steps: "sw_reach sw \<Longrightarrow> sw_steps sw sw' \<Longrightarrow> sw_reach sw'"
  unfolding sw_reach_def by (blast intro: sw_steps_trans)

section \<open>Properties\<close>

lemma sum_by_role:
  fixes f :: "endpoint \<Rightarrow> nat"
  assumes core: "sw_core sw" and f: "\<And>ep. ep \<in> set (sw_endpoints sw) \<Longrightarrow> f ep \<le> g (ep_role ep)"
    and flow: "\<And>role. role \<noteq> Agent \<Longrightarrow> role \<noteq> Control \<Longrightarrow> g role = (b :: nat)"
  shows "sum_list (map f (sw_endpoints sw)) \<le> g Agent + g Control + MAX_NETWORK_SOCKETS * b"
proof -
  obtain fs where fs: "map ep_role (sw_endpoints sw) = Agent # Control # fs" "Agent \<notin> set fs" "Control \<notin> set fs"
    using core by (auto simp: sw_core_def flow_roles_def)
  have len: "length fs \<le> MAX_NETWORK_SOCKETS"
  proof -
    have "length (sw_endpoints sw) = length fs + 2" using fs(1) by (metis length_Cons length_map add_2_eq_Suc')
    then show ?thesis using core by (simp add: sw_core_def network_socket_count_def FIXED_ENDPOINTS_def)
  qed
  have "sum_list (map f (sw_endpoints sw)) \<le> sum_list (map (\<lambda>ep. g (ep_role ep)) (sw_endpoints sw))"
    using f by (rule sum_list_mono)
  also have "\<dots> = sum_list (map g (map ep_role (sw_endpoints sw)))" by (simp add: comp_def)
  also have "\<dots> = g Agent + g Control + sum_list (map g fs)" by (simp only: fs(1) list.map sum_list.Cons add.assoc)
  also have "sum_list (map g fs) \<le> length fs * b"
    using flow fs(2,3) by (intro sum_list_const_le) (metis order_refl)
  finally show ?thesis using mult_le_mono1 [OF len, of b] by linarith
qed

lemma endpoint_stream_bounds:
  assumes "sw_core sw" and "ep \<in> set (sw_endpoints sw)"
  shows "payload_bytes (s_replies (ep_stream ep)) \<le> snd (role_buffers (ep_role ep))"
    "length (s_upstream (ep_stream ep)) \<le> unat (fst (role_buffers (ep_role ep)))"
    "length (s_replies (ep_stream ep)) \<le> MAX_QUEUED_REPLIES"
    "s_reply_bytes (ep_stream ep) = payload_bytes (s_replies (ep_stream ep))"
  using assms
  by (auto simp: sw_core_def list_all_iff endpoint_ok_def stream_of_role_def stream_inv_def core_inv_def replies_ok_def)

lemma role_budgets: "role \<noteq> Agent \<Longrightarrow> role \<noteq> Control \<Longrightarrow> role_buffers role = (FLOW_UPSTREAM_BYTES, unat FLOW_REPLY_BYTES)"
  by (cases role) (simp_all add: role_buffers_def)

lemma switch_totals:
  assumes core: "sw_core sw"
  shows "pending_bytes sw \<le> 85000000" "pending_reply_count sw \<le> 140000"
proof -
  note b = endpoint_stream_bounds [OF core]
  have "pending_bytes sw \<le> snd (role_buffers Agent) + snd (role_buffers Control) + MAX_NETWORK_SOCKETS * unat FLOW_REPLY_BYTES"
    unfolding pending_bytes_def
    by (rule sum_by_role [OF core, of _ "\<lambda>role. snd (role_buffers role)"]) (use b(1,4) role_budgets in simp_all)
  then show "pending_bytes sw \<le> 85000000"
    by (simp add: role_buffers_def AGENT_REPLY_BYTES_def CONTROL_REPLY_BYTES_def FLOW_REPLY_BYTES_def MAX_NETWORK_SOCKETS_def)
  have "sum_list (map (\<lambda>ep. length (s_replies (ep_stream ep))) (sw_endpoints sw))
      \<le> MAX_QUEUED_REPLIES + MAX_QUEUED_REPLIES + MAX_NETWORK_SOCKETS * MAX_QUEUED_REPLIES"
    by (rule sum_by_role [OF core, of _ "\<lambda>_. MAX_QUEUED_REPLIES"]) (use b(3) in simp_all)
  moreover have "length (sw_rejected sw) \<le> MAX_REJECTED_RESETS" using core by (simp add: sw_core_def)
  ultimately show "pending_reply_count sw \<le> 140000"
    by (simp add: pending_reply_count_def MAX_QUEUED_REPLIES_def MAX_NETWORK_SOCKETS_def MAX_REJECTED_RESETS_def)
qed

text \<open>C22: Whatever the guest sends and the host calls, the switch stays within the memory the budgets
  promise: at most \<open>MAX_NETWORK_SOCKETS\<close> flows exist, the payloads of all queued replies together fit
  \<open>MAX_QUEUED_REPLY_BYTES\<close>, the bytes waiting for the host fit the upstream budgets of the fixed
  endpoints and of that many flows, and the number of queued packets is bounded too.\<close>

theorem switch_memory_bounded:
  assumes "sw_reach sw"
  shows "network_socket_count sw \<le> MAX_NETWORK_SOCKETS
    \<and> sum_list (map (\<lambda>ep. payload_bytes (s_replies (ep_stream ep))) (sw_endpoints sw)) \<le> MAX_QUEUED_REPLY_BYTES
    \<and> sum_list (map (\<lambda>ep. length (s_upstream (ep_stream ep))) (sw_endpoints sw))
        \<le> unat AGENT_UPSTREAM_BYTES + unat CONTROL_UPSTREAM_BYTES + MAX_FLOW_UPSTREAM_BYTES
    \<and> pending_reply_count sw \<le> (2 + MAX_NETWORK_SOCKETS) * MAX_QUEUED_REPLIES + MAX_REJECTED_RESETS"
proof -
  have core: "sw_core sw" using sw_reach_inv [OF assms] by (simp add: sw_inv_def)
  note b = endpoint_stream_bounds [OF core]
  have "sum_list (map (\<lambda>ep. payload_bytes (s_replies (ep_stream ep))) (sw_endpoints sw))
      \<le> snd (role_buffers Agent) + snd (role_buffers Control) + MAX_NETWORK_SOCKETS * unat FLOW_REPLY_BYTES"
    by (rule sum_by_role [OF core, of _ "\<lambda>role. snd (role_buffers role)"]) (use b(1) role_budgets in simp_all)
  moreover have "sum_list (map (\<lambda>ep. length (s_upstream (ep_stream ep))) (sw_endpoints sw))
      \<le> unat (fst (role_buffers Agent)) + unat (fst (role_buffers Control)) + MAX_NETWORK_SOCKETS * unat FLOW_UPSTREAM_BYTES"
    by (rule sum_by_role [OF core, of _ "\<lambda>role. unat (fst (role_buffers role))"]) (use b(2) role_budgets in simp_all)
  moreover have "sum_list (map (\<lambda>ep. length (s_replies (ep_stream ep))) (sw_endpoints sw))
      \<le> MAX_QUEUED_REPLIES + MAX_QUEUED_REPLIES + MAX_NETWORK_SOCKETS * MAX_QUEUED_REPLIES"
    by (rule sum_by_role [OF core, of _ "\<lambda>_. MAX_QUEUED_REPLIES"]) (use b(3) in simp_all)
  moreover have "network_socket_count sw \<le> MAX_NETWORK_SOCKETS" "length (sw_rejected sw) \<le> MAX_REJECTED_RESETS"
    using core by (auto simp: sw_core_def)
  ultimately show ?thesis
    by (simp add: role_buffers_def MAX_QUEUED_REPLY_BYTES_def MAX_FLOW_REPLY_BYTES_def MAX_FLOW_UPSTREAM_BYTES_def
        pending_reply_count_def)
qed

definition sample_flow_switch :: switch where
  "sample_flow_switch = snd (the (switch_rx sample_request [] switch_new))"

lemmas sample_switch_defs = sample_flow_switch_def switch_new_def switch_with_capacity_def switch_rx_def classify_def
  endpoint_index_def list_position_simps at_ports_def endpoint_new_def role_buffers_def opens_flow_def
  network_socket_count_def FIXED_ENDPOINTS_def MAX_NETWORK_SOCKETS_def open_flow_def drop_rejected_def
  allocate_connection_number_def checked_add_def rx_at_def put_endpoint_def is_live_def is_flow_guest_port_def
  AGENT_PORT_def CONTROL_PORT_def TCP_PORT_def UDP_PORT_def PUBLICATION_PORT_def identity_def publication_host_port_def
  PUBLICATION_HOST_PORTS_def

lemma sample_flow_rx: "switch_rx sample_request [] switch_new = Some
    (Some \<lparr>ci_role = Tcp, ci_guest_port = 50000, ci_host_port = 6002, ci_number = 3\<rparr>, sample_flow_switch)"
  by (simp add: sample_switch_defs sample_stream_defs)

lemma sample_flow_reach: "sw_reach sample_flow_switch"
  unfolding sw_reach_def switch_new_def [symmetric]
  using ss_step [OF ss_refl st_rx [OF sample_flow_rx]] by (auto simp: switch_new_def)

theorem switch_memory_bounded_witness:
  "network_socket_count sample_flow_switch \<le> MAX_NETWORK_SOCKETS
    \<and> sum_list (map (\<lambda>ep. payload_bytes (s_replies (ep_stream ep))) (sw_endpoints sample_flow_switch)) \<le> MAX_QUEUED_REPLY_BYTES"
  using switch_memory_bounded [OF sample_flow_reach] by simp


lemma connected_Some:
  "connected ep = Some cid \<longleftrightarrow> s_connection (ep_stream ep) \<noteq> None \<and> cid = identity ep (ep_number ep)"
  by (auto simp: connected_def)

lemma identity_eq:
  "identity ep n = cid \<longleftrightarrow> ci_role cid = ep_role ep \<and> (ci_guest_port cid, ci_host_port cid) = ep_key ep \<and> ci_number cid = n"
  by (cases cid) (auto simp: identity_def ep_key_def)

lemma is_current_iff:
  assumes "sw_core sw"
  shows "is_current sw cid \<longleftrightarrow> (\<exists>ep \<in> set (sw_endpoints sw). connected ep = Some cid)"
proof
  assume "is_current sw cid"
  then obtain i where "connection_index sw cid = Some i" by (auto simp: is_current_def)
  from connection_index_Some [OF this] show "\<exists>ep \<in> set (sw_endpoints sw). connected ep = Some cid" by auto
next
  assume "\<exists>ep \<in> set (sw_endpoints sw). connected ep = Some cid"
  then obtain ep where ep: "ep \<in> set (sw_endpoints sw)" "connected ep = Some cid" by auto
  then have key: "ep_key ep = (ci_guest_port cid, ci_host_port cid)" by (auto simp: connected_Some identity_def ep_key_def)
  obtain i where i: "endpoint_index sw (ci_guest_port cid) (ci_host_port cid) = Some i"
    using endpoint_index_None [of sw "ci_guest_port cid" "ci_host_port cid"] ep(1) key
    by (cases "endpoint_index sw (ci_guest_port cid) (ci_host_port cid)") (auto simp: image_iff)
  have "inj_on ep_key (set (sw_endpoints sw))" using assms by (simp add: sw_core_def distinct_map)
  then have "sw_endpoints sw ! i = ep"
    using endpoint_index_Some [OF i] ep(1) key by (metis inj_onD nth_mem)
  with i ep(2) show "is_current sw cid" by (simp add: is_current_def connection_index_def)
qed

lemma current_lineage:
  assumes core: "sw_core sw" "sw_core sw'" and lin: "lineage sw sw'" and cur': "is_current sw' cid"
    and old: "ci_number cid < sw_next_number sw"
  shows "\<exists>ep \<in> set (sw_endpoints sw). cid = identity ep (ep_number ep)"
proof -
  obtain ep' where ep': "ep' \<in> set (sw_endpoints sw')" "cid = identity ep' (ep_number ep')"
    using cur' is_current_iff [OF core(2)] by (auto simp: connected_Some)
  then have "\<not> sw_next_number sw \<le> ep_number ep'" using old by (simp add: identity_def)
  then obtain ep where "ep \<in> set (sw_endpoints sw)" "ep_number ep = ep_number ep'" "ep_key ep = ep_key ep'" "ep_role ep = ep_role ep'"
    using lin ep'(1) by (auto simp: lineage_def descends_def)
  with ep'(2) show ?thesis by (intro bexI [of _ ep]) (auto simp: identity_def ep_key_def)
qed

text \<open>C19: A connection that has ended never comes back. Once an identity that named a live connection
  no longer does, no later sequence of packets and calls makes it name one again, even though its ports
  may be used anew; so a call made with a stale identity can never reach another guest's stream.\<close>

theorem retired_connection_never_returns:
  assumes "sw_reach sw" and "is_current sw cid" and "sw_steps sw sw'" and "\<not> is_current sw' cid"
    and "sw_steps sw' sw''"
  shows "\<not> is_current sw'' cid"
proof
  assume cur'': "is_current sw'' cid"
  note inv = sw_reach_inv [OF assms(1)]
  note inv' = sw_steps_inv [OF assms(3) inv]
  note inv'' = sw_steps_inv [OF assms(5) conjunct1 [OF inv']]
  have core: "sw_core sw" "sw_core sw'" "sw_core sw''" using inv inv' inv'' by (auto simp: sw_inv_def)
  obtain ep where ep: "ep \<in> set (sw_endpoints sw)" "connected ep = Some cid"
    using assms(2) is_current_iff [OF core(1)] by auto
  then have num: "ci_number cid < sw_next_number sw"
    using core(1) by (auto simp: connected_Some identity_def sw_core_def list_all_iff endpoint_ok_def)
  also have "\<dots> \<le> sw_next_number sw'" using inv' by (simp add: lineage_def)
  finally have num': "ci_number cid < sw_next_number sw'" .
  obtain ep' where ep': "ep' \<in> set (sw_endpoints sw')" "cid = identity ep' (ep_number ep')"
    using current_lineage [OF core(2,3) _ cur'' num'] inv'' by auto
  have "\<not> sw_next_number sw \<le> ep_number ep'" using num ep'(2) by (simp add: identity_def)
  then obtain e where e: "e \<in> set (sw_endpoints sw)" "ep_number e = ep_number ep'" "ep_key e = ep_key ep'"
    "connected e \<noteq> None \<longrightarrow> connected ep' \<noteq> None"
    using inv' ep'(1) by (auto simp: lineage_def descends_def)
  have "ep_key e = ep_key ep" using e(3) ep'(2) ep(2) by (auto simp: connected_Some identity_eq ep_key_def identity_def)
  then have "e = ep" using core(1) e(1) ep(1) by (auto simp: sw_core_def distinct_map dest: inj_onD)
  then have "connected ep' = Some cid" using e(4) ep(2) ep'(2) by (auto simp: connected_def)
  then show False using assms(4) is_current_iff [OF core(2)] ep'(1) by auto
qed

definition sample_cid :: connection_id where
  "sample_cid = \<lparr>ci_role = Tcp, ci_guest_port = 50000, ci_host_port = 6002, ci_number = 3\<rparr>"

definition sample_reset_switch :: switch where
  "sample_reset_switch = snd (the (reset_connection sample_cid sample_flow_switch))"

lemma sample_cid_current: "is_current sample_flow_switch sample_cid"
  by (simp add: is_current_def connection_index_def connected_def sample_cid_def sample_switch_defs sample_stream_defs)

lemma sample_reset: "reset_connection sample_cid sample_flow_switch = Some (Ok (), sample_reset_switch)"
  by (simp add: sample_reset_switch_def reset_connection_def retire_endpoint_def put_stream_def sample_cid_def
      sample_switch_defs sample_stream_defs)

lemma sample_reset_not_current: "\<not> is_current sample_reset_switch sample_cid"
  by (simp add: sample_reset_switch_def reset_connection_def retire_endpoint_def put_stream_def sample_cid_def
      sample_switch_defs sample_stream_defs is_current_def connection_index_def connected_def endpoint_retire_def
      drop_connection_def rst_def)

theorem retired_connection_never_returns_witness: "\<not> is_current sample_reset_switch sample_cid"
  by (rule retired_connection_never_returns [OF sample_flow_reach sample_cid_current
      ss_step [OF ss_refl st_reset [OF sample_reset]] sample_reset_not_current ss_refl])


text \<open>C36: Turning the network off is final. From the moment \<open>disable_network\<close> returns, in every state any
  calls and packets can reach, no flow and no control connection exists, every connection is the
  agent's, and a packet for any other ports is answered with a reset and nothing else.\<close>

theorem disabled_network_stays_off:
  assumes "sw_reach sw" and "disable_network sw = Some sw1" and "sw_steps sw1 sw2"
  shows "flow_connections sw2 = [] \<and> switch_connection sw2 Control = None
    \<and> (\<forall>cid. is_current sw2 cid \<longrightarrow> ci_role cid = Agent)
    \<and> (\<forall>h data. (vh_src_port h, vh_dst_port h) \<noteq> (AGENT_PORT, AGENT_PORT) \<longrightarrow>
        switch_rx h data sw2 = Some (None, switch_reject h sw2))"
proof -
  have core: "sw_core sw" using sw_reach_inv [OF assms(1)] by (simp add: sw_inv_def)
  note d = disable_network_spec [OF core assms(2)]
  have "sw_inv sw1" using d by (simp add: sw_inv_def)
  from sw_steps_inv [OF assms(3) this] d(3) have inv: "sw_inv sw2" and off: "\<not> sw_network_enabled sw2" by auto
  then have core2: "sw_core sw2" and sil: "silent sw2" by (auto simp: sw_inv_def)
  obtain a b fl where eps: "sw_endpoints sw2 = a # b # fl"
    using sw_core_first(1) [OF core2] by (metis Suc_le_length_iff numeral_2_eq_2)
  have a: "ep_role a = Agent" using sw_core_first(2) [OF core2] eps by simp
  have dead: "connected ep = None" if "ep \<in> set (b # fl)" for ep
    using sil that eps by (auto simp: silent_def is_live_def connected_def)
  have "flow_connections sw2 = []"
    using dead by (simp add: flow_connections_def FIXED_ENDPOINTS_def eps map_filter_def filter_empty_conv)
  moreover have agent: "ci_role cid = Agent" if cur: "is_current sw2 cid" for cid
  proof -
    obtain ep where ep: "ep \<in> set (sw_endpoints sw2)" "connected ep = Some cid"
      using cur by (auto simp: is_current_iff [OF core2])
    then have "ep = a" using dead [of ep] eps by auto
    with ep(2) a show ?thesis by (auto simp: connected_Some identity_def)
  qed
  moreover have "switch_connection sw2 Control = None"
  proof (rule ccontr)
    assume "switch_connection sw2 Control \<noteq> None"
    then obtain i cid where i: "endpoint_index sw2 CONTROL_PORT CONTROL_PORT = Some i" "connected (sw_endpoints sw2 ! i) = Some cid"
      by (auto simp: switch_connection_def connection_for_def split: option.splits)
    note ix = endpoint_index_Some [OF i(1)]
    have "sw_endpoints sw2 ! i = a" using ix(1) i(2) dead eps by (metis nth_mem option.distinct(1) set_ConsD)
    moreover have "endpoint_ok (sw_next_number sw2) a" using core2 eps by (simp add: sw_core_def)
    ultimately show False
      using ix(2) a by (simp add: endpoint_ok_def stream_of_role_def role_ports_def at_ports_def AGENT_PORT_def CONTROL_PORT_def)
  qed
  moreover have "switch_rx h data sw2 = Some (None, switch_reject h sw2)"
    if "(vh_src_port h, vh_dst_port h) \<noteq> (AGENT_PORT, AGENT_PORT)" for h data
    using disabled_classify [OF off, of "vh_src_port h" "vh_dst_port h"] that
    by (cases "classify sw2 (vh_src_port h) (vh_dst_port h)") (auto simp: switch_rx_def)
  ultimately show ?thesis by blast
qed

definition sample_offline_switch :: switch where
  "sample_offline_switch = the (disable_network sample_flow_switch)"

lemma sample_offline: "disable_network sample_flow_switch = Some sample_offline_switch"
  by (simp add: sample_offline_switch_def disable_network_def reset_network_connections_def reset_network_at_def upt_rec
      retire_endpoint_def put_stream_def sample_switch_defs sample_stream_defs)

theorem disabled_network_stays_off_witness:
  "flow_connections sample_flow_switch = [sample_cid] \<and> flow_connections sample_offline_switch = []"
proof
  show "flow_connections sample_flow_switch = [sample_cid]"
    by (simp add: flow_connections_def connected_def sample_cid_def sample_switch_defs sample_stream_defs)
  show "flow_connections sample_offline_switch = []"
    using disabled_network_stays_off [OF sample_flow_reach sample_offline ss_refl] by simp
qed

text \<open>C21: Draining never loses a reply and never exceeds what the caller can take.
  \<open>take_replies_up_to\<close> always returns, with at most the requested number of replies and payload bytes,
  and \<open>take_replies\<close> empties every queue of the switch, returning exactly as many replies as were
  pending.\<close>

theorem take_replies_complete:
  assumes "sw_reach sw"
  shows "(\<exists>rs sw'. take_replies_up_to n remaining sw = Some (rs, sw') \<and> length rs \<le> n \<and> payload_bytes rs \<le> remaining)
    \<and> (\<exists>rs sw'. take_replies sw = Some (rs, sw') \<and> length rs = pending_reply_count sw \<and> pending_reply_count sw' = 0)"
proof -
  have core: "sw_core sw" using sw_reach_inv [OF assms] by (simp add: sw_inv_def)
  note bounds = switch_totals [OF core]
  obtain rs sw' where t: "take_replies sw = Some (rs, sw')" "pending_reply_count sw = length rs + pending_reply_count sw'"
    "pending_bytes sw = payload_bytes rs + pending_bytes sw'" "sw_moves sw sw'"
    "length rs < usize_max_wasm32 \<longrightarrow> sw_rejected sw' = []
      \<and> (\<forall>ep \<in> set (sw_endpoints sw'). blocked (usize_max_wasm32 - payload_bytes rs) ep)"
    using take_replies_up_to_total [OF core, of usize_max_wasm32 usize_max_wasm32] by (auto simp: take_replies_def)
  have core': "sw_core sw'" using t(4) by (simp add: sw_moves_def)
  have "length rs < usize_max_wasm32" using t(2) bounds(2) by (simp add: usize_max_wasm32_def)
  then have rej: "sw_rejected sw' = []" and bl: "\<forall>ep \<in> set (sw_endpoints sw'). blocked (usize_max_wasm32 - payload_bytes rs) ep"
    using t(5) by auto
  have "s_replies (ep_stream ep) = []" if ep: "ep \<in> set (sw_endpoints sw')" for ep
  proof (rule ccontr)
    assume ne: "s_replies (ep_stream ep) \<noteq> []"
    then have big: "length (r_payload (hd (s_replies (ep_stream ep)))) > usize_max_wasm32 - payload_bytes rs"
      using bl ep by (auto simp: blocked_def)
    have "length (r_payload (hd (s_replies (ep_stream ep)))) \<le> payload_bytes (s_replies (ep_stream ep))"
      using ne by (cases "s_replies (ep_stream ep)") auto
    also have "\<dots> = s_reply_bytes (ep_stream ep)" using endpoint_stream_bounds(4) [OF core' ep] by simp
    also have "\<dots> \<le> pending_bytes sw'"
      using ep member_le_sum_list [of "s_reply_bytes (ep_stream ep)" "map (s_reply_bytes \<circ> ep_stream) (sw_endpoints sw')"]
      by (auto simp: pending_bytes_def)
    finally show False using big t(3) bounds(1) by (simp add: usize_max_wasm32_def)
  qed
  then have "pending_reply_count sw' = 0" using rej by (simp add: pending_reply_count_def)
  with t(1,2) take_replies_up_to_total [OF core, of n remaining] show ?thesis by auto
qed

theorem take_replies_complete_witness:
  "\<exists>rs sw'. take_replies sample_flow_switch = Some (rs, sw') \<and> length rs = 1 \<and> pending_reply_count sw' = 0"
proof -
  have "pending_reply_count sample_flow_switch = 1"
    by (simp add: pending_reply_count_def sample_switch_defs sample_stream_defs)
  then show ?thesis using take_replies_complete [OF sample_flow_reach] by simp
qed


lemma filter_update_outside:
  "i < length xs \<Longrightarrow> \<not> P (xs ! i) \<Longrightarrow> \<not> P y \<Longrightarrow> filter P (xs[i := y]) = filter P xs"
proof (induction xs arbitrary: i)
  case (Cons x xs)
  then show ?case by (cases i) auto
qed simp

lemma rx_at_elsewhere:
  assumes core: "sw_core sw" and i: "i < length (sw_endpoints sw)"
    and ports: "at_ports (vh_src_port h) (vh_dst_port h) (sw_endpoints sw ! i)" and res: "rx_at i h data sw = Some (r, sw')"
  shows "filter (\<lambda>ep. ep_key ep \<noteq> (vh_src_port h, vh_dst_port h)) (sw_endpoints sw')
    = filter (\<lambda>ep. ep_key ep \<noteq> (vh_src_port h, vh_dst_port h)) (sw_endpoints sw)"
proof -
  let ?ep = "sw_endpoints sw ! i"
  let ?ep1 = "?ep\<lparr>ep_stream := stream_rx h data (ep_stream ?ep)\<rparr>"
  have key: "ep_key ?ep = (vh_src_port h, vh_dst_port h)" using ports by (simp add: at_ports_def ep_key_def)
  have inv: "stream_inv (ep_stream ?ep)" using sw_core_at [OF core i] by (simp add: endpoint_ok_def stream_of_role_def)
  have "keeps (ep_stream ?ep) (stream_rx h data (ep_stream ?ep))"
    by (rule stream_rx_keeps [OF inv]) (use ports in \<open>auto simp: at_ports_def\<close>)
  then have key1: "ep_key ?ep1 = (vh_src_port h, vh_dst_port h)" using key by (simp add: keeps_def same_stream_def ep_key_def)
  have key2: "ep_key (endpoint_retire n ?ep1) = (vh_src_port h, vh_dst_port h)" for n
    using key1 by (simp add: endpoint_retire_def Let_def ep_key_def drop_connection_def)
  have "sw_endpoints sw' = sw_endpoints sw \<or> (\<exists>e. sw_endpoints sw' = (sw_endpoints sw)[i := e] \<and> ep_key e = (vh_src_port h, vh_dst_port h))"
    using res key1 key2 i
    by (auto simp: rx_at_def Let_def switch_reject_def retire_endpoint_def allocate_connection_number_def put_endpoint_def
        split: if_splits)
  with filter_update_outside [OF i] key show ?thesis by auto
qed

text \<open>C4: A packet touches only the endpoint its ports name. Whatever its contents, and whether it opens a
  flow, ends one or is refused, every endpoint with other ports keeps its whole state, and no endpoint
  appears or disappears at other ports.\<close>

theorem rx_confined_to_its_ports:
  assumes "sw_reach sw" and "switch_rx h data sw = Some (r, sw')"
  shows "filter (\<lambda>ep. ep_key ep \<noteq> (vh_src_port h, vh_dst_port h)) (sw_endpoints sw')
    = filter (\<lambda>ep. ep_key ep \<noteq> (vh_src_port h, vh_dst_port h)) (sw_endpoints sw)"
proof -
  have core: "sw_core sw" using sw_reach_inv [OF assms(1)] by (simp add: sw_inv_def)
  have reject: "sw_endpoints (switch_reject h sw) = sw_endpoints sw" by (simp add: switch_reject_def Let_def)
  show ?thesis
  proof (cases "classify sw (vh_src_port h) (vh_dst_port h)")
    case None
    with assms(2) reject show ?thesis by (auto simp: switch_rx_def)
  next
    case cls: (Some role)
    show ?thesis
    proof (cases "endpoint_index sw (vh_src_port h) (vh_dst_port h)")
      case (Some i)
      with rx_at_elsewhere [OF core endpoint_index_Some(1,2) [OF Some]] assms(2) cls show ?thesis
        by (simp add: switch_rx_def)
    next
      case none: None
      show ?thesis
      proof (cases "opens_flow role h data sw")
        case False
        with assms(2) cls none reject show ?thesis by (auto simp: switch_rx_def)
      next
        case True
        then obtain sw1 where o: "open_flow role h sw = Some sw1"
          and rx: "rx_at (length (sw_endpoints sw1) - 1) h data sw1 = Some (r, sw')"
          using assms(2) cls none by (auto simp: switch_rx_def split: option.splits)
        note op = open_flow_moves [OF core cls none True o]
        obtain n where "sw_endpoints sw1 = sw_endpoints sw @ [endpoint_new role (vh_src_port h) (vh_dst_port h) n]"
          using o by (auto simp: open_flow_def allocate_connection_number_def drop_rejected_def)
        moreover have "filter (\<lambda>ep. ep_key ep \<noteq> (vh_src_port h, vh_dst_port h)) (sw_endpoints sw')
            = filter (\<lambda>ep. ep_key ep \<noteq> (vh_src_port h, vh_dst_port h)) (sw_endpoints sw1)"
          by (rule rx_at_elsewhere [OF _ _ _ rx]) (use op in \<open>auto simp: sw_moves_def\<close>)
        ultimately show ?thesis by (simp add: endpoint_new_def ep_key_def stream_new_def split: prod.split)
      qed
    qed
  qed
qed

lemma switch_new_reach: "sw_reach switch_new"
  unfolding sw_reach_def switch_new_def by (blast intro: ss_refl)

theorem rx_confined_to_its_ports_witness:
  "filter (\<lambda>ep. ep_key ep \<noteq> (50000, 6002)) (sw_endpoints sample_flow_switch)
    = filter (\<lambda>ep. ep_key ep \<noteq> (50000, 6002)) (sw_endpoints switch_new)"
  using rx_confined_to_its_ports [OF switch_new_reach sample_flow_rx] by (simp add: sample_request_def)

text \<open>How many replies may still be served before it is the turn of the endpoint at an index.\<close>

definition turns_until :: "nat \<Rightarrow> switch \<Rightarrow> nat" where
  "turns_until i sw = (i + REPLY_CLASSES - sw_next_reply sw mod REPLY_CLASSES) mod REPLY_CLASSES"

lemma take_reply_class:
  assumes core: "sw_core sw" and k: "k < REPLY_CLASSES"
    and before: "\<And>j. j < k \<Longrightarrow> class_blocked n ((sw_next_reply sw + j) mod REPLY_CLASSES) sw"
    and at: "\<not> class_blocked n ((sw_next_reply sw + k) mod REPLY_CLASSES) sw"
  shows "\<exists>x sw1. take_class ((sw_next_reply sw + k) mod REPLY_CLASSES) n sw = Some (Some x, sw1)
    \<and> take_reply n sw = Some (Some x, sw1\<lparr>sw_next_reply := ((sw_next_reply sw + k) mod REPLY_CLASSES + 1) mod REPLY_CLASSES\<rparr>)"
proof -
  have skip: "take_class c n sw = Some (None, sw)" if "class_blocked n c sw" for c
    using take_class_takes [OF core, of c n] that by (auto simp: takes_def)
  obtain x sw1 where hit: "take_class ((sw_next_reply sw + k) mod REPLY_CLASSES) n sw = Some (Some x, sw1)"
    using take_class_takes [OF core, of "(sw_next_reply sw + k) mod REPLY_CLASSES" n] at by (auto simp: not_None_eq)
  have "take_class_scan n ([m..<k] @ k # ks) sw
      = Some (Some x, sw1\<lparr>sw_next_reply := ((sw_next_reply sw + k) mod REPLY_CLASSES + 1) mod REPLY_CLASSES\<rparr>)"
    if "m \<le> k" for m ks
    using that
  proof (induction "k - m" arbitrary: m)
    case 0
    then show ?case using hit by (simp add: Let_def)
  next
    case (Suc d)
    then have "m < k" by simp
    then show ?case using Suc.hyps skip [OF before [OF \<open>m < k\<close>]] by (simp add: upt_conv_Cons Let_def)
  qed
  from this [of 0 "[Suc k..<REPLY_CLASSES]"] have "take_reply n sw
      = Some (Some x, sw1\<lparr>sw_next_reply := ((sw_next_reply sw + k) mod REPLY_CLASSES + 1) mod REPLY_CLASSES\<rparr>)"
    using k upt_add_eq_append [of 0 k "REPLY_CLASSES - k"] by (simp add: take_reply_def upt_conv_Cons)
  with hit show ?thesis by blast
qed


lemma turns_until_at: "i < REPLY_CLASSES \<Longrightarrow> (sw_next_reply sw + turns_until i sw) mod REPLY_CLASSES = i"
proof -
  assume i: "i < REPLY_CLASSES"
  let ?m = "sw_next_reply sw mod REPLY_CLASSES"
  have "?m < REPLY_CLASSES" by (simp add: REPLY_CLASSES_def)
  then have "?m + (i + REPLY_CLASSES - ?m) = i + REPLY_CLASSES" by simp
  then have "(?m + (i + REPLY_CLASSES - ?m) mod REPLY_CLASSES) mod REPLY_CLASSES = i"
    using i by (simp add: mod_add_right_eq)
  then show ?thesis by (simp add: turns_until_def mod_add_left_eq)
qed

lemma turns_until_next:
  assumes "k < turns_until i sw" and "sw_next_reply sw' = ((sw_next_reply sw + k) mod REPLY_CLASSES + 1) mod REPLY_CLASSES"
  shows "turns_until i sw' < turns_until i sw"
proof -
  have "sw_next_reply sw' mod 3 = (sw_next_reply sw mod 3 + k + 1) mod 3"
    using assms(2) mod_add_left_eq [of "sw_next_reply sw + k" 3 1] mod_add_left_eq [of "sw_next_reply sw" 3 "k + 1"]
    by (simp add: REPLY_CLASSES_def FIXED_ENDPOINTS_def)
  moreover have "sw_next_reply sw mod 3 \<in> {0, 1, 2}" by auto
  moreover have "k < 2" using assms(1) mod_less_divisor [of 3 "i + 3 - sw_next_reply sw mod 3"]
    unfolding turns_until_def by (simp add: REPLY_CLASSES_def FIXED_ENDPOINTS_def)
  moreover have "i mod 3 \<in> {0, 1, 2}" by auto
  moreover have "turns_until i s = (i mod 3 + 3 - sw_next_reply s mod 3) mod 3" for s
  proof -
    have "sw_next_reply s mod 3 \<le> 3" using mod_less_divisor [of 3 "sw_next_reply s"] by simp
    then have "(i + 3 - sw_next_reply s mod 3) = i + (3 - sw_next_reply s mod 3)"
      "(i mod 3 + 3 - sw_next_reply s mod 3) = i mod 3 + (3 - sw_next_reply s mod 3)" by auto
    then show ?thesis
      using mod_add_left_eq [of i 3 "3 - sw_next_reply s mod 3"]
      by (simp only: turns_until_def REPLY_CLASSES_def FIXED_ENDPOINTS_def) simp
  qed
  ultimately show ?thesis using assms(1) by (auto simp: less_Suc_eq numeral_2_eq_2)
qed

text \<open>C37: The agent and control streams are not starved by the flows. When the reply at the head of one of
  the two fixed endpoints fits, \<open>take_reply\<close> returns that very reply, marked with the endpoint's
  connection number, or it serves another class, leaves that endpoint untouched and brings its turn
  strictly closer; so at most \<open>REPLY_CLASSES - 1\<close> other replies go first.\<close>

theorem fixed_endpoint_bounded_wait:
  assumes "sw_reach sw" and "i < FIXED_ENDPOINTS" and "\<not> blocked n (sw_endpoints sw ! i)"
  shows "\<exists>x sw'. take_reply n sw = Some (Some x, sw')
    \<and> (x = (hd (s_replies (ep_stream (sw_endpoints sw ! i))))\<lparr>r_connection_number := ep_number (sw_endpoints sw ! i)\<rparr>
       \<or> sw_endpoints sw' ! i = sw_endpoints sw ! i \<and> turns_until i sw' < turns_until i sw)
    \<and> turns_until i sw < REPLY_CLASSES"
proof -
  have core: "sw_core sw" using sw_reach_inv [OF assms(1)] by (simp add: sw_inv_def)
  let ?cls = "\<lambda>k. (sw_next_reply sw + k) mod REPLY_CLASSES"
  have d: "turns_until i sw < REPLY_CLASSES" by (simp add: turns_until_def REPLY_CLASSES_def)
  have at: "?cls (turns_until i sw) = i" using turns_until_at assms(2) by (simp add: REPLY_CLASSES_def)
  then have open_class: "\<not> class_blocked n (?cls (turns_until i sw)) sw"
    using assms(2,3) by (simp add: class_blocked_def)
  define k where "k = (LEAST k. \<not> class_blocked n (?cls k) sw)"
  have k: "\<not> class_blocked n (?cls k) sw" "k \<le> turns_until i sw" "\<And>j. j < k \<Longrightarrow> class_blocked n (?cls j) sw"
    unfolding k_def using LeastI [of "\<lambda>k. \<not> class_blocked n (?cls k) sw", OF open_class]
      Least_le [of "\<lambda>k. \<not> class_blocked n (?cls k) sw", OF open_class] not_less_Least by blast+
  obtain x sw1 where t: "take_class (?cls k) n sw = Some (Some x, sw1)"
    "take_reply n sw = Some (Some x, sw1\<lparr>sw_next_reply := (?cls k + 1) mod REPLY_CLASSES\<rparr>)"
    using take_reply_class [OF core _ k(3,1)] k(2) d by auto
  let ?sw = "sw1\<lparr>sw_next_reply := (?cls k + 1) mod REPLY_CLASSES\<rparr>"
  have "x = (hd (s_replies (ep_stream (sw_endpoints sw ! i))))\<lparr>r_connection_number := ep_number (sw_endpoints sw ! i)\<rparr>
      \<or> sw_endpoints ?sw ! i = sw_endpoints sw ! i \<and> turns_until i ?sw < turns_until i sw"
  proof (cases "k = turns_until i sw")
    case True
    then show ?thesis
      using t(1) at assms(2)
      by (auto simp: take_class_def take_reply_from_def stream_take_reply_def Let_def split: if_splits list.splits)
  next
    case False
    then have lt: "k < turns_until i sw" using k(2) by simp
    have "?cls k \<noteq> i"
    proof
      assume "?cls k = i"
      then have "turns_until i ?sw = REPLY_CLASSES - 1"
        using assms(2) by (auto simp: turns_until_def REPLY_CLASSES_def FIXED_ENDPOINTS_def less_Suc_eq numeral_2_eq_2)
      moreover have "turns_until i ?sw < turns_until i sw" by (rule turns_until_next [OF lt]) simp
      ultimately show False using d by simp
    qed
    then have "sw_endpoints sw1 ! i = sw_endpoints sw ! i"
      using take_class_takes [OF core, of "?cls k" n] t(1) assms(2) by auto
    with turns_until_next [OF lt, of ?sw] show ?thesis by simp
  qed
  with t(2) d show ?thesis by blast
qed

definition sample_agent_request :: vsock_header where
  "sample_agent_request = sample_request\<lparr>vh_src_port := AGENT_PORT, vh_dst_port := AGENT_PORT\<rparr>"

definition sample_agent_switch :: switch where
  "sample_agent_switch = snd (the (switch_rx sample_agent_request [] sample_flow_switch))"

lemma sample_agent_rx: "switch_rx sample_agent_request [] sample_flow_switch = Some
    (Some \<lparr>ci_role = Agent, ci_guest_port = 6000, ci_host_port = 6000, ci_number = 1\<rparr>, sample_agent_switch)"
  by (simp add: sample_agent_switch_def sample_agent_request_def sample_switch_defs sample_stream_defs)

lemma sample_agent_reach: "sw_reach sample_agent_switch"
  using sw_reach_steps [OF sample_flow_reach ss_step [OF ss_refl st_rx [OF sample_agent_rx]]] .

theorem fixed_endpoint_bounded_wait_witness:
  "\<exists>x sw'. take_reply 0 sample_agent_switch = Some (Some x, sw') \<and> turns_until 0 sample_agent_switch < 3"
proof -
  have "\<not> blocked 0 (sw_endpoints sample_agent_switch ! 0)"
    by (simp add: blocked_def sample_agent_switch_def sample_agent_request_def sample_switch_defs sample_stream_defs)
  from fixed_endpoint_bounded_wait [OF sample_agent_reach _ this] show ?thesis
    by (auto simp: FIXED_ENDPOINTS_def REPLY_CLASSES_def)
qed

end
