(* ===== verification/Virtio_Mmio.thy ===== *)
theory Virtio_Mmio
  imports Prelude Limits
begin

unbundle bit_operations_syntax

text \<open>
  The modern virtio-MMIO register file of \<open>components/device-transport/src/lib.rs\<close>
  (\<open>MmioTransport\<close>): every guest access to a device's 512-byte register window and every device-side
  operation on its state. A write returns the state it leaves behind beside its result.
\<close>

section \<open>Registers and state\<close>

definition STATUS_RESET :: u8 where "STATUS_RESET = 0"
definition STATUS_ACKNOWLEDGE :: u8 where "STATUS_ACKNOWLEDGE = 1"
definition STATUS_DRIVER :: u8 where "STATUS_DRIVER = 2"
definition STATUS_DRIVER_OK :: u8 where "STATUS_DRIVER_OK = 4"
definition STATUS_FEATURES_OK :: u8 where "STATUS_FEATURES_OK = 8"
definition STATUS_DEVICE_NEEDS_RESET :: u8 where "STATUS_DEVICE_NEEDS_RESET = 64"
definition STATUS_FAILED :: u8 where "STATUS_FAILED = 128"

lemmas status_defs = STATUS_RESET_def STATUS_ACKNOWLEDGE_def STATUS_DRIVER_def STATUS_DRIVER_OK_def
  STATUS_FEATURES_OK_def STATUS_DEVICE_NEEDS_RESET_def STATUS_FAILED_def

definition MAGIC :: u32 where "MAGIC = 0x74726976"
definition VERSION :: u32 where "VERSION = 2"
definition VENDOR_ID :: u32 where "VENDOR_ID = 0x54455252"
definition INT_USED_BUFFER :: u32 where "INT_USED_BUFFER = 1"
definition VIRTIO_F_VERSION_1 :: u64 where "VIRTIO_F_VERSION_1 = push_bit 32 1"
definition REGION_BYTES :: u64 where "REGION_BYTES = 0x200"

definition MAGIC_VALUE :: u64 where "MAGIC_VALUE = 0x000"
definition REG_VERSION :: u64 where "REG_VERSION = 0x004"
definition DEVICE_ID :: u64 where "DEVICE_ID = 0x008"
definition VENDOR :: u64 where "VENDOR = 0x00c"
definition HOST_FEATURES :: u64 where "HOST_FEATURES = 0x010"
definition HOST_FEATURES_SEL :: u64 where "HOST_FEATURES_SEL = 0x014"
definition GUEST_FEATURES :: u64 where "GUEST_FEATURES = 0x020"
definition GUEST_FEATURES_SEL :: u64 where "GUEST_FEATURES_SEL = 0x024"
definition QUEUE_SEL :: u64 where "QUEUE_SEL = 0x030"
definition QUEUE_NUM_MAX :: u64 where "QUEUE_NUM_MAX = 0x034"
definition QUEUE_NUM :: u64 where "QUEUE_NUM = 0x038"
definition QUEUE_READY :: u64 where "QUEUE_READY = 0x044"
definition QUEUE_NOTIFY :: u64 where "QUEUE_NOTIFY = 0x050"
definition INTERRUPT_STATUS :: u64 where "INTERRUPT_STATUS = 0x060"
definition INTERRUPT_ACK :: u64 where "INTERRUPT_ACK = 0x064"
definition REG_STATUS :: u64 where "REG_STATUS = 0x070"
definition QUEUE_DESC_LOW :: u64 where "QUEUE_DESC_LOW = 0x080"
definition QUEUE_DESC_HIGH :: u64 where "QUEUE_DESC_HIGH = 0x084"
definition QUEUE_AVAIL_LOW :: u64 where "QUEUE_AVAIL_LOW = 0x090"
definition QUEUE_AVAIL_HIGH :: u64 where "QUEUE_AVAIL_HIGH = 0x094"
definition QUEUE_USED_LOW :: u64 where "QUEUE_USED_LOW = 0x0a0"
definition QUEUE_USED_HIGH :: u64 where "QUEUE_USED_HIGH = 0x0a4"
definition CONFIG_GENERATION :: u64 where "CONFIG_GENERATION = 0x0fc"
definition CONFIG_BASE :: u64 where "CONFIG_BASE = 0x100"
definition MAX_QUEUE_SIZE :: u16 where "MAX_QUEUE_SIZE = 32768"

lemmas register_defs = REGION_BYTES_def MAGIC_VALUE_def REG_VERSION_def DEVICE_ID_def VENDOR_def
  HOST_FEATURES_def HOST_FEATURES_SEL_def GUEST_FEATURES_def GUEST_FEATURES_SEL_def QUEUE_SEL_def
  QUEUE_NUM_MAX_def QUEUE_NUM_def QUEUE_READY_def QUEUE_NOTIFY_def INTERRUPT_STATUS_def
  INTERRUPT_ACK_def REG_STATUS_def QUEUE_DESC_LOW_def QUEUE_DESC_HIGH_def QUEUE_AVAIL_LOW_def
  QUEUE_AVAIL_HIGH_def QUEUE_USED_LOW_def QUEUE_USED_HIGH_def CONFIG_GENERATION_def CONFIG_BASE_def

datatype write_outcome = Outcome_None | QueueNotify u16 | Reset

datatype mmio_error =
  Mmio_Unmapped | Mmio_BadLen | Mmio_Unaligned | Mmio_BadFeatures | Mmio_BadStatus | Mmio_BadQueue
  | Mmio_NotReady | Mmio_ReadOnly

record queue_regs =
  q_num :: u16
  q_ready :: bool
  q_desc :: u64
  q_avail :: u64
  q_used :: u64

definition queue_default :: queue_regs where
  "queue_default = \<lparr>q_num = 0, q_ready = False, q_desc = 0, q_avail = 0, q_used = 0\<rparr>"

record mmio_transport =
  t_ram_size :: u64
  t_device_id :: u32
  t_host_features :: u64
  t_guest_features :: u64
  t_feature_sel :: u32
  t_status :: u8
  t_queue_max :: u16
  t_selected :: nat
  t_queues :: "queue_regs list"
  t_interrupt_status :: u32
  t_irq_level :: bool
  t_irq_dirty :: bool
  t_config :: bytes

section \<open>Operations\<close>

definition transport_new :: "u64 \<Rightarrow> u32 \<Rightarrow> u64 \<Rightarrow> u16 \<Rightarrow> bytes \<Rightarrow> mmio_transport" where
  "transport_new ram_size device_id host_features queue_max config =
     \<lparr>t_ram_size = ram_size, t_device_id = device_id, t_host_features = host_features,
      t_guest_features = 0, t_feature_sel = 0, t_status = 0, t_queue_max = queue_max,
      t_selected = 0, t_queues = [queue_default], t_interrupt_status = 0, t_irq_level = False,
      t_irq_dirty = False, t_config = config\<rparr>"

definition with_queue_count :: "u16 \<Rightarrow> mmio_transport \<Rightarrow> mmio_transport" where
  "with_queue_count count t = t\<lparr>t_queues := replicate (unat (max count 1)) queue_default\<rparr>"

definition negotiated :: "mmio_transport \<Rightarrow> u64" where
  "negotiated t = t_guest_features t AND t_host_features t"

definition queue_addrs_for :: "mmio_transport \<Rightarrow> nat \<Rightarrow> (u64 \<times> u64 \<times> u64 \<times> u16) option" where
  "queue_addrs_for t q =
     (if q < length (t_queues t)
      then let r = t_queues t ! q in
           if q_ready r then Some (q_desc r, q_avail r, q_used r, q_num r) else None
      else None)"

definition mmio_check :: "u64 \<Rightarrow> u8 \<Rightarrow> mmio_error + unit" where
  "mmio_check offset width =
     (if width \<notin> {1, 2, 4, 8} then Err Mmio_BadLen
      else and_then (ok_or Mmio_Unmapped (checked_add offset (ucast width))) (\<lambda>e.
        if offset \<ge> REGION_BYTES \<or> e > REGION_BYTES then Err Mmio_Unmapped
        else if \<not> is_multiple_of offset 4 \<and> offset < CONFIG_BASE then Err Mmio_Unaligned
        else Ok ()))"

definition selected_regs :: "mmio_transport \<Rightarrow> queue_regs" where
  "selected_regs t =
     (if t_selected t < length (t_queues t) then t_queues t ! t_selected t else queue_default)"

text \<open>\<open>selected_regs_mut\<close>: the updated transport, or the error where the index is out of range.\<close>

definition selected_regs_mut ::
  "mmio_transport \<Rightarrow> (queue_regs \<Rightarrow> queue_regs) \<Rightarrow> mmio_error + mmio_transport" where
  "selected_regs_mut t f =
     (if t_selected t < length (t_queues t)
      then Ok (t\<lparr>t_queues := (t_queues t)[t_selected t := f (t_queues t ! t_selected t)]\<rparr>)
      else Err Mmio_BadQueue)"

definition feature_word :: "mmio_transport \<Rightarrow> u64 \<Rightarrow> mmio_error + u32" where
  "feature_word t features =
     (if t_feature_sel t = 0 then Ok (ucast (features AND 0xffffffff))
      else if t_feature_sel t = 1 then Ok (ucast (drop_bit 32 features))
      else Err Mmio_BadFeatures)"

definition config_read :: "mmio_transport \<Rightarrow> u64 \<Rightarrow> u8 \<Rightarrow> mmio_error + u64" where
  "config_read t offset width =
     (if width \<notin> {1, 2, 4} then Err Mmio_BadLen
      else and_then (ok_or Mmio_Unmapped (slice (t_config t) (unat offset) (unat offset + unat width)))
        (\<lambda>bs. Ok (from_le_u64 (bs @ replicate (8 - length bs) 0))))"

definition mmio_read :: "mmio_transport \<Rightarrow> u64 \<Rightarrow> u8 \<Rightarrow> mmio_error + u64" where
  "mmio_read t offset width =
     and_then (mmio_check offset width) (\<lambda>_.
     if offset < CONFIG_BASE \<and> offset \<noteq> REG_STATUS \<and> width \<noteq> 4 then Err Mmio_BadLen
     else if offset = MAGIC_VALUE then Ok (ucast MAGIC)
     else if offset = REG_VERSION then Ok (ucast VERSION)
     else if offset = DEVICE_ID then Ok (ucast (t_device_id t))
     else if offset = VENDOR then Ok (ucast VENDOR_ID)
     else if offset = HOST_FEATURES
       then and_then (feature_word t (t_host_features t)) (\<lambda>w. Ok (ucast w))
     else if offset = GUEST_FEATURES
       then and_then (feature_word t (t_guest_features t)) (\<lambda>w. Ok (ucast w))
     else if offset = QUEUE_NUM_MAX then Ok (ucast (t_queue_max t))
     else if offset = QUEUE_NUM then Ok (ucast (q_num (selected_regs t)))
     else if offset = QUEUE_READY then Ok (if q_ready (selected_regs t) then 1 else 0)
     else if offset = INTERRUPT_STATUS then Ok (ucast (t_interrupt_status t))
     else if offset = REG_STATUS \<and> (width = 1 \<or> width = 4) then Ok (ucast (t_status t))
     else if offset = CONFIG_GENERATION then Ok 0
     else if offset \<ge> CONFIG_BASE then config_read t (offset - CONFIG_BASE) width
     else Err Mmio_Unmapped)"

definition valid_queue_size :: "u16 \<Rightarrow> u16 \<Rightarrow> bool" where
  "valid_queue_size max_size sz \<longleftrightarrow>
     max_size \<noteq> 0 \<and> max_size \<le> MAX_QUEUE_SIZE \<and> is_power_of_two max_size
     \<and> sz \<noteq> 0 \<and> sz \<le> max_size \<and> is_power_of_two sz"

definition drive_status :: "u8 \<Rightarrow> u8 \<Rightarrow> mmio_error + u8" where
  "drive_status current written =
     (if written = STATUS_RESET \<or> written = current then Ok written
      else if current AND STATUS_FAILED \<noteq> 0 \<or> written AND STATUS_DEVICE_NEEDS_RESET \<noteq> 0
        then Err Mmio_BadStatus
      else if written AND STATUS_FAILED \<noteq> 0 then Ok (current OR STATUS_FAILED)
      else (case List.find (\<lambda>bit. current AND bit = 0)
              [STATUS_ACKNOWLEDGE, STATUS_DRIVER, STATUS_FEATURES_OK, STATUS_DRIVER_OK] of
          None \<Rightarrow> Err Mmio_BadStatus
        | Some next \<Rightarrow> if written = current OR next then Ok written else Err Mmio_BadStatus))"

definition set_irq_level :: "bool \<Rightarrow> mmio_transport \<Rightarrow> mmio_transport" where
  "set_irq_level level t =
     (if t_irq_level t \<noteq> level then t\<lparr>t_irq_level := level, t_irq_dirty := True\<rparr> else t)"

definition reset_device :: "mmio_transport \<Rightarrow> mmio_transport" where
  "reset_device t =
     set_irq_level False
       (t\<lparr>t_queues := map (\<lambda>_. queue_default) (t_queues t), t_selected := 0,
          t_guest_features := 0, t_interrupt_status := 0\<rparr>)"

definition signal :: "u32 \<Rightarrow> mmio_transport \<Rightarrow> mmio_transport" where
  "signal b t =
     (if t_status t AND STATUS_FAILED = 0
      then let t1 = t\<lparr>t_interrupt_status := t_interrupt_status t OR b\<rparr> in
           if t_status t AND STATUS_DRIVER_OK \<noteq> 0 then set_irq_level True t1 else t1
      else t)"

definition take_irq :: "mmio_transport \<Rightarrow> bool option \<times> mmio_transport" where
  "take_irq t =
     (if t_irq_dirty t then (Some (t_irq_level t), t\<lparr>t_irq_dirty := False\<rparr>) else (None, t))"

definition ring_bell :: "mmio_transport \<Rightarrow> u32 \<Rightarrow> mmio_error + u16" where
  "ring_bell t value =
     (if value > 0xffff then Err Mmio_BadQueue
      else let queue = ucast value :: u16 in
        if unat queue \<ge> length (t_queues t) then Err Mmio_BadQueue
        else if \<not> q_ready (t_queues t ! unat queue) then Err Mmio_NotReady
        else Ok queue)"

definition SPLIT_RING_DESCRIPTOR_BYTES :: nat where "SPLIT_RING_DESCRIPTOR_BYTES = 16"

text \<open>The three rings of a queue with their lengths, and the check \<open>arm_queue\<close> makes of each.\<close>

definition queue_rings :: "queue_regs \<Rightarrow> (u64 \<times> u64) list" where
  "queue_rings r =
     (let sz = ucast (q_num r) :: u64 in
      [(q_desc r, sz * word_of_nat SPLIT_RING_DESCRIPTOR_BYTES), (q_avail r, 4 + sz * 2),
       (q_used r, 4 + sz * 8)])"

definition bad_ring :: "u64 \<Rightarrow> u64 \<times> u64 \<Rightarrow> bool" where
  "bad_ring ram_size = (\<lambda>(addr, len).
     addr = 0 \<or> (case checked_add addr len of None \<Rightarrow> True | Some e \<Rightarrow> e > ram_size))"

definition arm_queue :: "mmio_transport \<Rightarrow> mmio_error + mmio_transport" where
  "arm_queue t =
     and_then (selected_regs_mut t id) (\<lambda>_.
     let r = selected_regs t in
     if q_num r = 0 \<or> list_ex (bad_ring (t_ram_size t)) (queue_rings r) then Err Mmio_BadQueue
     else selected_regs_mut t (\<lambda>r. r\<lparr>q_ready := True\<rparr>))"

definition merge_addr :: "u64 \<Rightarrow> u32 \<Rightarrow> bool \<Rightarrow> u64" where
  "merge_addr addr value high =
     (if high then (addr AND 0xffffffff) OR push_bit 32 (ucast value)
      else (addr AND 0xffffffff00000000) OR ucast value)"

datatype ring_field = Desc | Avail | Used

fun set_ring_field :: "ring_field \<Rightarrow> (u64 \<Rightarrow> u64) \<Rightarrow> queue_regs \<Rightarrow> queue_regs" where
  "set_ring_field Desc f r = r\<lparr>q_desc := f (q_desc r)\<rparr>"
| "set_ring_field Avail f r = r\<lparr>q_avail := f (q_avail r)\<rparr>"
| "set_ring_field Used f r = r\<lparr>q_used := f (q_used r)\<rparr>"

definition update_addr ::
  "mmio_transport \<Rightarrow> ring_field \<Rightarrow> u32 \<Rightarrow> bool \<Rightarrow> mmio_error + mmio_transport" where
  "update_addr t field value high =
     and_then (selected_regs_mut t id) (\<lambda>_.
     if q_ready (selected_regs t) then Err Mmio_BadQueue
     else selected_regs_mut t (set_ring_field field (\<lambda>addr. merge_addr addr value high)))"

text \<open>The arms of \<open>write\<close> that only update the transport, given the new transport.\<close>

definition updated ::
  "mmio_transport \<Rightarrow> mmio_error + mmio_transport \<Rightarrow> (mmio_error + write_outcome) \<times> mmio_transport" where
  "updated t r = (case r of Inl e \<Rightarrow> (Err e, t) | Inr t' \<Rightarrow> (Ok Outcome_None, t'))"

definition write_guest_features :: "mmio_transport \<Rightarrow> u32 \<Rightarrow> mmio_error + mmio_transport" where
  "write_guest_features t word =
     (let value = ucast word :: u64 in
      and_then
       (if t_feature_sel t = 0 then Ok ((t_guest_features t AND 0xffffffff00000000) OR value)
        else if t_feature_sel t = 1 then Ok ((t_guest_features t AND 0xffffffff) OR push_bit 32 value)
        else Err Mmio_BadFeatures) (\<lambda>features.
       if features AND NOT (t_host_features t) \<noteq> 0 then Err Mmio_BadFeatures
       else Ok (t\<lparr>t_guest_features := features\<rparr>)))"

definition write_queue_num :: "mmio_transport \<Rightarrow> u32 \<Rightarrow> mmio_error + mmio_transport" where
  "write_queue_num t word =
     (if word > 0xffff then Err Mmio_BadQueue
      else let num = ucast word in
        if q_ready (selected_regs t) \<or> \<not> valid_queue_size (t_queue_max t) num then Err Mmio_BadQueue
        else selected_regs_mut t (\<lambda>r. r\<lparr>q_num := num\<rparr>))"

definition write_interrupt_ack :: "mmio_transport \<Rightarrow> u32 \<Rightarrow> mmio_transport" where
  "write_interrupt_ack t word =
     (let t1 = t\<lparr>t_interrupt_status := t_interrupt_status t AND NOT word\<rparr> in
      if t_interrupt_status t1 = 0 then set_irq_level False t1 else t1)"

definition write_status ::
  "mmio_transport \<Rightarrow> u64 \<Rightarrow> (mmio_error + write_outcome) \<times> mmio_transport" where
  "write_status t value =
     (case drive_status (t_status t) (ucast value) of
        Inl e \<Rightarrow> (Err e, t)
      | Inr s \<Rightarrow> (let t1 = t\<lparr>t_status := s\<rparr> in
          if s = 0 \<or> s AND STATUS_FAILED \<noteq> 0 then (Ok Reset, reset_device t1)
          else (Ok Outcome_None, t1)))"

definition mmio_write ::
  "mmio_transport \<Rightarrow> u64 \<Rightarrow> u8 \<Rightarrow> u64 \<Rightarrow> (mmio_error + write_outcome) \<times> mmio_transport" where
  "mmio_write t offset width value =
     (case mmio_check offset width of
        Inl e \<Rightarrow> (Err e, t)
      | Inr _ \<Rightarrow>
        (if offset < CONFIG_BASE \<and> offset \<noteq> REG_STATUS \<and> width \<noteq> 4 then (Err Mmio_Unmapped, t)
         else let word = ucast (value AND 0xffffffff) :: u32 in
           if offset = HOST_FEATURES_SEL \<or> offset = GUEST_FEATURES_SEL then
             (if word > 1 then (Err Mmio_BadFeatures, t)
              else (Ok Outcome_None, t\<lparr>t_feature_sel := word\<rparr>))
           else if offset = GUEST_FEATURES then updated t (write_guest_features t word)
           else if offset = QUEUE_SEL then
             (if unat word \<ge> length (t_queues t) then (Err Mmio_BadQueue, t)
              else (Ok Outcome_None, t\<lparr>t_selected := unat word\<rparr>))
           else if offset = QUEUE_NUM then updated t (write_queue_num t word)
           else if offset = QUEUE_READY then
             (if word = 0 then updated t (selected_regs_mut t (\<lambda>r. r\<lparr>q_ready := False\<rparr>))
              else if word = 1 then updated t (arm_queue t)
              else (Err Mmio_BadQueue, t))
           else if offset = QUEUE_NOTIFY then
             (case ring_bell t word of
                Inl e \<Rightarrow> (Err e, t) | Inr bell \<Rightarrow> (Ok (QueueNotify bell), t))
           else if offset = INTERRUPT_ACK then (Ok Outcome_None, write_interrupt_ack t word)
           else if offset = REG_STATUS \<and> (width = 1 \<or> width = 4) then write_status t value
           else if offset = QUEUE_DESC_LOW \<or> offset = QUEUE_DESC_HIGH then
             updated t (update_addr t Desc word (offset = QUEUE_DESC_HIGH))
           else if offset = QUEUE_AVAIL_LOW \<or> offset = QUEUE_AVAIL_HIGH then
             updated t (update_addr t Avail word (offset = QUEUE_AVAIL_HIGH))
           else if offset = QUEUE_USED_LOW \<or> offset = QUEUE_USED_HIGH then
             updated t (update_addr t Used word (offset = QUEUE_USED_HIGH))
           else if offset \<ge> CONFIG_BASE then (Err Mmio_ReadOnly, t)
           else (Err Mmio_Unmapped, t)))"

section \<open>The invariant of the register file\<close>

definition queue_ok :: "u64 \<Rightarrow> u16 \<Rightarrow> queue_regs \<Rightarrow> bool" where
  "queue_ok ram_size queue_max r \<longleftrightarrow>
     (q_num r \<noteq> 0 \<longrightarrow> valid_queue_size queue_max (q_num r))
     \<and> (q_ready r \<longrightarrow> q_num r \<noteq> 0 \<and> \<not> list_ex (bad_ring ram_size) (queue_rings r))"

definition legal_status :: "u8 set" where
  "legal_status = {0, 1, 3, 11, 15, 128, 129, 131, 139, 143}"

definition transport_inv :: "mmio_transport \<Rightarrow> bool" where
  "transport_inv t \<longleftrightarrow>
     t_status t \<in> legal_status
     \<and> t_guest_features t AND NOT (t_host_features t) = 0
     \<and> t_feature_sel t \<le> 1
     \<and> t_selected t < length (t_queues t)
     \<and> list_all (queue_ok (t_ram_size t) (t_queue_max t)) (t_queues t)
     \<and> (t_irq_level t \<longrightarrow> t_interrupt_status t \<noteq> 0)
     \<and> (t_status t AND STATUS_FAILED \<noteq> 0 \<longrightarrow> t_interrupt_status t = 0)"

text \<open>What no operation changes.\<close>

definition same_device :: "mmio_transport \<Rightarrow> mmio_transport \<Rightarrow> bool" where
  "same_device t t' \<longleftrightarrow>
     t_ram_size t' = t_ram_size t \<and> t_device_id t' = t_device_id t
     \<and> t_host_features t' = t_host_features t \<and> t_queue_max t' = t_queue_max t
     \<and> length (t_queues t') = length (t_queues t) \<and> length (t_config t') = length (t_config t)"

lemma same_device_refl [simp, intro]: "same_device t t"
  by (simp add: same_device_def)

lemma same_device_trans: "same_device t u \<Longrightarrow> same_device u v \<Longrightarrow> same_device t v"
  by (simp add: same_device_def)

lemma queue_default_ok [simp]: "queue_ok ram qmax queue_default"
  by (simp add: queue_ok_def queue_default_def)

lemma selected_regs_mutE:
  assumes "selected_regs_mut t f = Inr t'"
  shows "t_selected t < length (t_queues t)
    \<and> t' = t\<lparr>t_queues := (t_queues t)[t_selected t := f (selected_regs t)]\<rparr>"
  using assms by (auto simp: selected_regs_mut_def selected_regs_def split: if_splits)

lemma selected_regs_in: "transport_inv t \<Longrightarrow> selected_regs t \<in> set (t_queues t)"
  by (auto simp: transport_inv_def selected_regs_def)

lemma selected_regs_mut_inv:
  assumes "transport_inv t" and "selected_regs_mut t f = Inr t'"
    and "queue_ok (t_ram_size t) (t_queue_max t) (f (selected_regs t))"
  shows "transport_inv t' \<and> same_device t t'"
proof -
  note e = selected_regs_mutE [OF assms(2)]
  have "list_all (queue_ok (t_ram_size t) (t_queue_max t))
      ((t_queues t)[t_selected t := f (selected_regs t)])"
    using assms(1,3) by (auto simp: transport_inv_def list_all_iff dest!: set_update_subset_insert [THEN subsetD])
  then show ?thesis
    using assms(1) e by (simp add: transport_inv_def same_device_def)
qed

lemma set_irq_level_fields [simp]:
  "t_status (set_irq_level l t) = t_status t" "t_queues (set_irq_level l t) = t_queues t"
  "t_guest_features (set_irq_level l t) = t_guest_features t"
  "t_host_features (set_irq_level l t) = t_host_features t"
  "t_feature_sel (set_irq_level l t) = t_feature_sel t" "t_selected (set_irq_level l t) = t_selected t"
  "t_ram_size (set_irq_level l t) = t_ram_size t" "t_queue_max (set_irq_level l t) = t_queue_max t"
  "t_interrupt_status (set_irq_level l t) = t_interrupt_status t"
  "t_config (set_irq_level l t) = t_config t" "t_device_id (set_irq_level l t) = t_device_id t"
  "t_irq_level (set_irq_level l t) = l"
  by (simp_all add: set_irq_level_def)

lemma reset_device_inv:
  assumes "t_status t \<in> legal_status" and "t_feature_sel t \<le> 1" and "t_queues t \<noteq> []"
  shows "transport_inv (reset_device t) \<and> same_device t (reset_device t)"
  using assms by (simp add: transport_inv_def reset_device_def same_device_def list_all_iff)

lemma drive_status_legal:
  assumes "c \<in> legal_status" and "drive_status c w = Inr s"
  shows "s \<in> legal_status \<and> (s \<noteq> 0 \<longrightarrow> c AND s = c)"
proof -
  have "s \<in> {0, w, c OR 128}"
    using assms(2) by (auto simp: drive_status_def status_defs split: if_splits option.splits)
  with assms show ?thesis
    by (auto simp: legal_status_def drive_status_def status_defs split: if_splits)
qed

lemma signal_inv:
  assumes "transport_inv t" and "b \<noteq> 0"
  shows "transport_inv (signal b t) \<and> same_device t (signal b t)"
proof -
  have "t_interrupt_status t OR b \<noteq> 0"
    using assms(2) by (metis or_eq_0_iff)
  with assms show ?thesis
    by (auto simp: transport_inv_def same_device_def signal_def Let_def)
qed

lemma take_irq_inv:
  "transport_inv t \<Longrightarrow> transport_inv (snd (take_irq t)) \<and> same_device t (snd (take_irq t))"
  by (auto simp: transport_inv_def same_device_def take_irq_def)

lemma config_inv:
  "transport_inv t \<Longrightarrow> length c = length (t_config t) \<Longrightarrow>
   transport_inv (t\<lparr>t_config := c\<rparr>) \<and> same_device t (t\<lparr>t_config := c\<rparr>)"
  by (simp add: transport_inv_def same_device_def)

lemma arm_queue_inv:
  assumes "transport_inv t" and "arm_queue t = Inr t'"
  shows "transport_inv t' \<and> same_device t t'"
proof -
  from assms(2) have rings: "q_num (selected_regs t) \<noteq> 0"
      "\<not> list_ex (bad_ring (t_ram_size t)) (queue_rings (selected_regs t))"
      and up: "selected_regs_mut t (\<lambda>r. r\<lparr>q_ready := True\<rparr>) = Inr t'"
    by (auto simp: arm_queue_def result_simps Let_def split: if_splits)
  have "queue_ok (t_ram_size t) (t_queue_max t) (selected_regs t)"
    using assms(1) selected_regs_in [OF assms(1)] by (auto simp: transport_inv_def list_all_iff)
  with rings show ?thesis
    by (intro selected_regs_mut_inv [OF assms(1) up]) (simp add: queue_ok_def queue_rings_def)
qed

lemma write_queue_num_inv:
  assumes "transport_inv t" and "write_queue_num t w = Inr t'"
  shows "transport_inv t' \<and> same_device t t'"
proof -
  from assms(2) have "\<not> q_ready (selected_regs t)" "valid_queue_size (t_queue_max t) (ucast w)"
      and up: "selected_regs_mut t (\<lambda>r. r\<lparr>q_num := ucast w\<rparr>) = Inr t'"
    by (auto simp: write_queue_num_def Let_def split: if_splits)
  then show ?thesis
    by (intro selected_regs_mut_inv [OF assms(1) up]) (simp add: queue_ok_def)
qed

lemma update_addr_inv:
  assumes "transport_inv t" and "update_addr t fld w h = Inr t'"
  shows "transport_inv t' \<and> same_device t t'"
proof -
  from assms(2) have "\<not> q_ready (selected_regs t)"
      and up: "selected_regs_mut t (set_ring_field fld (\<lambda>a. merge_addr a w h)) = Inr t'"
    by (auto simp: update_addr_def result_simps split: if_splits)
  moreover have "queue_ok (t_ram_size t) (t_queue_max t) (selected_regs t)"
    using assms(1) selected_regs_in [OF assms(1)] by (auto simp: transport_inv_def list_all_iff)
  ultimately show ?thesis
    by (intro selected_regs_mut_inv [OF assms(1) up]) (cases fld; simp add: queue_ok_def)
qed

lemma disarm_queue_inv:
  assumes "transport_inv t" and "selected_regs_mut t (\<lambda>r. r\<lparr>q_ready := False\<rparr>) = Inr t'"
  shows "transport_inv t' \<and> same_device t t'"
proof -
  have "queue_ok (t_ram_size t) (t_queue_max t) (selected_regs t)"
    using assms(1) selected_regs_in [OF assms(1)] by (auto simp: transport_inv_def list_all_iff)
  then show ?thesis
    by (intro selected_regs_mut_inv [OF assms]) (simp add: queue_ok_def)
qed

lemma write_guest_features_inv:
  assumes "transport_inv t" and "write_guest_features t w = Inr t'"
  shows "transport_inv t' \<and> same_device t t'"
  using assms by (auto simp: write_guest_features_def transport_inv_def same_device_def Let_def
      result_simps split: if_splits)

lemma write_interrupt_ack_inv:
  "transport_inv t \<Longrightarrow> transport_inv (write_interrupt_ack t w) \<and> same_device t (write_interrupt_ack t w)"
  by (auto simp: write_interrupt_ack_def transport_inv_def same_device_def Let_def)

lemma write_status_inv:
  assumes "transport_inv t"
  shows "transport_inv (snd (write_status t v)) \<and> same_device t (snd (write_status t v))"
proof (cases "drive_status (t_status t) (ucast v)")
  case (Inl e)
  then show ?thesis using assms by (simp add: write_status_def)
next
  case (Inr s)
  have legal: "s \<in> legal_status"
    using drive_status_legal [OF _ Inr] assms by (simp add: transport_inv_def)
  show ?thesis
  proof (cases "s = 0 \<or> s AND STATUS_FAILED \<noteq> 0")
    case True
    have "transport_inv (reset_device (t\<lparr>t_status := s\<rparr>))
        \<and> same_device (t\<lparr>t_status := s\<rparr>) (reset_device (t\<lparr>t_status := s\<rparr>))"
      using legal assms by (intro reset_device_inv) (auto simp: transport_inv_def)
    with True Inr show ?thesis by (simp add: write_status_def Let_def same_device_def)
  next
    case False
    then show ?thesis
      using Inr legal assms by (simp add: write_status_def transport_inv_def same_device_def Let_def)
  qed
qed

lemma updated_inv:
  assumes "transport_inv t" and "\<And>t'. r = Inr t' \<Longrightarrow> transport_inv t' \<and> same_device t t'"
  shows "transport_inv (snd (updated t r)) \<and> same_device t (snd (updated t r))"
  using assms by (auto simp: updated_def split: sum.split)

lemmas write_arms_inv = updated_inv [OF _ write_guest_features_inv] updated_inv [OF _ write_queue_num_inv]
  updated_inv [OF _ disarm_queue_inv] updated_inv [OF _ arm_queue_inv] updated_inv [OF _ update_addr_inv]

text \<open>Case analysis over the arms of \<open>write\<close>, for any predicate on the result and the state left.\<close>

lemma mmio_write_arms:
  assumes err: "\<And>e. P (Inl e, t)"
    and fsel: "\<And>x. x \<le> 1 \<Longrightarrow> P (Ok Outcome_None, t\<lparr>t_feature_sel := x\<rparr>)"
    and feat: "\<And>x. P (updated t (write_guest_features t x))"
    and qsel: "\<And>x. x < length (t_queues t) \<Longrightarrow> P (Ok Outcome_None, t\<lparr>t_selected := x\<rparr>)"
    and qnum: "\<And>x. P (updated t (write_queue_num t x))"
    and disarm: "P (updated t (selected_regs_mut t (\<lambda>r. r\<lparr>q_ready := False\<rparr>)))"
    and arm: "P (updated t (arm_queue t))"
    and bell: "\<And>x b. ring_bell t x = Inr b \<Longrightarrow> P (Ok (QueueNotify b), t)"
    and ack: "\<And>x. P (Ok Outcome_None, write_interrupt_ack t x)"
    and stat: "\<And>x. P (write_status t x)"
    and addr: "\<And>f x h. P (updated t (update_addr t f x h))"
  shows "P (mmio_write t off w v)"
proof -
  have ifP: "\<And>c a b. (c \<Longrightarrow> P a) \<Longrightarrow> (\<not> c \<Longrightarrow> P b) \<Longrightarrow> P (if c then a else b)"
    by simp
  have sumP1: "\<And>(r :: mmio_error + unit) f g. (\<And>e. r = Inl e \<Longrightarrow> P (f e)) \<Longrightarrow> (\<And>x. r = Inr x \<Longrightarrow> P (g x))
      \<Longrightarrow> P (case r of Inl e \<Rightarrow> f e | Inr x \<Rightarrow> g x)"
    by (simp split: sum.split)
  have sumP2: "\<And>(r :: mmio_error + u16) f g. (\<And>e. r = Inl e \<Longrightarrow> P (f e)) \<Longrightarrow> (\<And>x. r = Inr x \<Longrightarrow> P (g x))
      \<Longrightarrow> P (case r of Inl e \<Rightarrow> f e | Inr x \<Rightarrow> g x)"
    by (simp split: sum.split)
  show ?thesis
    unfolding mmio_write_def Let_def
    by (intro ifP sumP1 sumP2 err feat qnum disarm arm ack stat addr)
      (simp_all only: not_less not_le fsel qsel bell)
qed

lemma mmio_write_inv:
  assumes "transport_inv t"
  shows "transport_inv (snd (mmio_write t off w v)) \<and> same_device t (snd (mmio_write t off w v))"
proof (rule mmio_write_arms [where P = "\<lambda>p. transport_inv (snd p) \<and> same_device t (snd p)"])
  show "transport_inv (snd (Ok Outcome_None, t\<lparr>t_feature_sel := x\<rparr>))
      \<and> same_device t (snd (Ok Outcome_None, t\<lparr>t_feature_sel := x\<rparr>))" if "x \<le> 1" for x
    using assms that by (simp add: transport_inv_def same_device_def)
  show "transport_inv (snd (Ok Outcome_None, t\<lparr>t_selected := x\<rparr>))
      \<and> same_device t (snd (Ok Outcome_None, t\<lparr>t_selected := x\<rparr>))" if "x < length (t_queues t)" for x
    using assms that by (simp add: transport_inv_def same_device_def)
  show "transport_inv (snd (Ok Outcome_None, write_interrupt_ack t x))
      \<and> same_device t (snd (Ok Outcome_None, write_interrupt_ack t x))" for x
    using write_interrupt_ack_inv [OF assms] by simp
qed (simp_all only: snd_conv assms same_device_refl simp_thms write_arms_inv [OF assms assms]
      write_status_inv [OF assms])

lemma updated_Inl: "fst (updated t r) = Inl e \<Longrightarrow> snd (updated t r) = t"
  by (auto simp: updated_def split: sum.splits)

lemma mmio_write_error_unchanged:
  "fst (mmio_write t off w v) = Inl e \<longrightarrow> snd (mmio_write t off w v) = t"
  by (rule mmio_write_arms)
    (auto simp: write_status_def Let_def dest: updated_Inl split: sum.splits if_splits)

section \<open>Reachable register files\<close>

text \<open>
  \<open>mmio_reach t0 l t\<close>: from the freshly built \<open>t0\<close> a sequence of guest writes, device signals,
  interrupt reports and configuration updates leads to \<open>t\<close>, where \<open>l\<close> is the interrupt level the
  host was last told.
\<close>

inductive mmio_reach :: "mmio_transport \<Rightarrow> bool \<Rightarrow> mmio_transport \<Rightarrow> bool" for t0 where
  reach_init: "mmio_reach t0 False t0"
| reach_write: "mmio_reach t0 l t \<Longrightarrow> mmio_reach t0 l (snd (mmio_write t off w v))"
| reach_signal: "mmio_reach t0 l t \<Longrightarrow> b \<noteq> 0 \<Longrightarrow> mmio_reach t0 l (signal b t)"
| reach_take: "mmio_reach t0 l t \<Longrightarrow> take_irq t = (r, t') \<Longrightarrow>
    mmio_reach t0 (case r of None \<Rightarrow> l | Some level \<Rightarrow> level) t'"
| reach_config: "mmio_reach t0 l t \<Longrightarrow> length c = length (t_config t) \<Longrightarrow>
    mmio_reach t0 l (t\<lparr>t_config := c\<rparr>)"

definition fresh_transport :: "mmio_transport \<Rightarrow> bool" where
  "fresh_transport t \<longleftrightarrow> (\<exists>ram dev feats qmax config count.
     t = with_queue_count count (transport_new ram dev feats qmax config))"

lemma fresh_inv:
  assumes "fresh_transport t"
  shows "transport_inv t \<and> \<not> t_irq_level t \<and> \<not> t_irq_dirty t"
proof -
  have "0 < unat (max c 1)" for c :: u16
    using max.cobounded2 [of 1 c] by (simp add: word_le_nat_alt)
  with assms show ?thesis
    by (auto simp: fresh_transport_def with_queue_count_def transport_new_def transport_inv_def
        legal_status_def list_all_iff)
qed

lemma mmio_reach_inv:
  "mmio_reach t0 l t \<Longrightarrow> fresh_transport t0 \<Longrightarrow> transport_inv t \<and> same_device t0 t"
proof (induction rule: mmio_reach.induct)
  case reach_init
  then show ?case using fresh_inv by blast
next
  case (reach_write l t off w v)
  then show ?case using mmio_write_inv same_device_trans by blast
next
  case (reach_signal l t b)
  then show ?case using signal_inv same_device_trans by blast
next
  case (reach_take l t r t')
  then show ?case using take_irq_inv same_device_trans by (metis snd_conv)
next
  case (reach_config l t c)
  then show ?case using config_inv same_device_trans by blast
qed

text \<open>An operation either leaves the level alone or marks it as not yet reported.\<close>

definition irq_kept :: "mmio_transport \<Rightarrow> mmio_transport \<Rightarrow> bool" where
  "irq_kept t t' \<longleftrightarrow> (t_irq_dirty t \<longrightarrow> t_irq_dirty t')
     \<and> (\<not> t_irq_dirty t' \<longrightarrow> t_irq_level t' = t_irq_level t)"

lemma irq_kept_same [simp]:
  "t_irq_dirty t' = t_irq_dirty t \<Longrightarrow> t_irq_level t' = t_irq_level t \<Longrightarrow> irq_kept t t'"
  by (simp add: irq_kept_def)

lemma irq_kept_set_level:
  "t_irq_dirty t' = t_irq_dirty t \<Longrightarrow> t_irq_level t' = t_irq_level t \<Longrightarrow> irq_kept t (set_irq_level l t')"
  by (auto simp: irq_kept_def set_irq_level_def)

lemma irq_kept_updated:
  assumes "\<And>t'. r = Inr t' \<Longrightarrow> irq_kept t t'"
  shows "irq_kept t (snd (updated t r))"
  using assms by (auto simp: updated_def split: sum.split)

lemma irq_kept_selected: "selected_regs_mut t f = Inr t' \<Longrightarrow> irq_kept t t'"
  by (auto dest: selected_regs_mutE)

lemma mmio_write_irq_kept: "irq_kept t (snd (mmio_write t off w v))"
proof (rule mmio_write_arms)
  show "irq_kept t (snd (updated t (write_guest_features t x)))" for x
    by (rule irq_kept_updated)
      (auto simp: write_guest_features_def Let_def result_simps split: if_splits)
  show "irq_kept t (snd (updated t (write_queue_num t x)))" for x
    by (rule irq_kept_updated)
      (auto simp: write_queue_num_def Let_def dest: irq_kept_selected split: if_splits)
  show "irq_kept t (snd (updated t (selected_regs_mut t (\<lambda>r. r\<lparr>q_ready := False\<rparr>))))"
    by (rule irq_kept_updated) (rule irq_kept_selected)
  show "irq_kept t (snd (updated t (arm_queue t)))"
    by (rule irq_kept_updated)
      (auto simp: arm_queue_def Let_def result_simps dest: irq_kept_selected split: if_splits)
  show "irq_kept t (snd (updated t (update_addr t f x h)))" for f x h
    by (rule irq_kept_updated)
      (auto simp: update_addr_def result_simps dest: irq_kept_selected split: if_splits)
  show "irq_kept t (snd (Ok Outcome_None, write_interrupt_ack t x))" for x
    by (simp add: write_interrupt_ack_def Let_def irq_kept_set_level)
  show "irq_kept t (snd (write_status t x))" for x
    by (auto simp: write_status_def Let_def reset_device_def irq_kept_set_level split: sum.split)
qed simp_all

text \<open>C27: The interrupt level the host was last told by \<open>take_irq\<close> is the device's level whenever
  \<open>take_irq\<close> has nothing to report: no level change is ever lost.\<close>

theorem take_irq_reports_every_change:
  assumes "fresh_transport t0" and "mmio_reach t0 told t" and "fst (take_irq t) = None"
  shows "t_irq_level t = told"
proof -
  have "\<not> t_irq_dirty t \<Longrightarrow> t_irq_level t = told"
    using assms(2)
  proof (induction rule: mmio_reach.induct)
    case reach_init
    then show ?case using fresh_inv [OF assms(1)] by simp
  next
    case (reach_write l t off w v)
    then show ?case using mmio_write_irq_kept [of t off w v] by (auto simp: irq_kept_def)
  next
    case (reach_signal l t b)
    have "irq_kept t (signal b t)"
      by (auto simp: signal_def Let_def irq_kept_set_level)
    with reach_signal show ?case by (auto simp: irq_kept_def)
  next
    case (reach_take l t r t')
    then show ?case by (auto simp: take_irq_def split: if_splits)
  next
    case (reach_config l t c)
    then show ?case by simp
  qed
  then show ?thesis using assms(3) by (simp add: take_irq_def split: if_splits)
qed

lemma good_ring_bounds:
  assumes "\<not> list_ex (bad_ring ram) (queue_rings r)"
  shows "q_desc r \<noteq> 0 \<and> q_avail r \<noteq> 0 \<and> q_used r \<noteq> 0
    \<and> unat (q_desc r) + 16 * unat (q_num r) \<le> unat ram
    \<and> unat (q_avail r) + 4 + 2 * unat (q_num r) \<le> unat ram
    \<and> unat (q_used r) + 4 + 8 * unat (q_num r) \<le> unat ram"
proof -
  have lt: "unat (q_num r) < 65536" using unat_lt_pow [of "q_num r"] by simp
  have len: "unat (ucast (q_num r) * 16 :: u64) = 16 * unat (q_num r)"
      "unat (4 + ucast (q_num r) * 2 :: u64) = 4 + 2 * unat (q_num r)"
      "unat (4 + ucast (q_num r) * 8 :: u64) = 4 + 8 * unat (q_num r)"
    using lt by (simp_all add: unat_word_ariths unat_ucast_up)
  have good: "a \<noteq> 0 \<and> unat a + unat n \<le> unat ram" if "\<not> bad_ring ram (a, n)" for a n
    using that by (auto simp: bad_ring_def word_le_nat_alt not_less dest!: checked_add_unat
        split: option.splits)
  show ?thesis
    using assms good [of "q_desc r" "ucast (q_num r) * 16"] good [of "q_avail r" "4 + ucast (q_num r) * 2"]
      good [of "q_used r" "4 + ucast (q_num r) * 8"] len
    by (simp add: queue_rings_def Let_def SPLIT_RING_DESCRIPTOR_BYTES_def)
qed

text \<open>C3: Whatever the guest writes to the registers, a queue that a device is given has a size
  that is a power of two within the device's maximum, and all three of its rings start above address
  zero and end, without wrapping around, at or below the limit on guest addresses the transport was
  created with. That limit is the end of the highest memory region, so a ring below it may still name
  addresses between regions; the accesses to guest memory refuse those.\<close>

theorem armed_queue_below_limit:
  assumes "fresh_transport t0" and "mmio_reach t0 l t"
    and "queue_addrs_for t q = Some (desc, avail, used, num)"
  shows "is_power_of_two num \<and> num \<le> t_queue_max t0
    \<and> desc \<noteq> 0 \<and> avail \<noteq> 0 \<and> used \<noteq> 0
    \<and> unat desc + 16 * unat num \<le> unat (t_ram_size t0)
    \<and> unat avail + 4 + 2 * unat num \<le> unat (t_ram_size t0)
    \<and> unat used + 4 + 8 * unat num \<le> unat (t_ram_size t0)"
proof -
  from mmio_reach_inv [OF assms(2,1)] have inv: "transport_inv t" and dev: "same_device t0 t" by auto
  define r where "r = t_queues t ! q"
  have r: "r \<in> set (t_queues t)" "q_ready r" "desc = q_desc r"
      "avail = q_avail r" "used = q_used r" "num = q_num r"
    using assms(3) by (auto simp: queue_addrs_for_def r_def Let_def split: if_splits)
  with inv have "queue_ok (t_ram_size t) (t_queue_max t) r" by (auto simp: transport_inv_def list_all_iff)
  with r good_ring_bounds [of "t_ram_size t" r] dev show ?thesis
    by (auto simp: queue_ok_def valid_queue_size_def same_device_def)
qed

text \<open>C26: In every reachable register file the accepted features are offered ones, DRIVER_OK is
  only ever set after ACKNOWLEDGE, DRIVER and FEATURES_OK, a raised interrupt line has a pending
  interrupt bit, and a failed device has neither.\<close>

theorem negotiation_respected:
  assumes "fresh_transport t0" and "mmio_reach t0 l t"
  shows "t_guest_features t AND NOT (t_host_features t0) = 0
    \<and> (t_status t AND STATUS_DRIVER_OK \<noteq> 0 \<longrightarrow>
        t_status t AND (STATUS_ACKNOWLEDGE OR STATUS_DRIVER OR STATUS_FEATURES_OK)
          = STATUS_ACKNOWLEDGE OR STATUS_DRIVER OR STATUS_FEATURES_OK)
    \<and> (t_irq_level t \<longrightarrow> t_interrupt_status t \<noteq> 0)
    \<and> (t_status t AND STATUS_FAILED \<noteq> 0 \<longrightarrow> t_interrupt_status t = 0 \<and> \<not> t_irq_level t)"
  using mmio_reach_inv [OF assms(2,1)]
  by (auto simp: transport_inv_def same_device_def legal_status_def status_defs)

text \<open>A register write that is refused leaves the register file as it was.\<close>

lemma refused_write_changes_nothing:
  assumes "mmio_write t offset width v = (Inl e, t')"
  shows "t' = t"
  using mmio_write_error_unchanged [of t offset width v] assms by simp

lemma merge_addr_halves:
  "merge_addr (merge_addr x (ucast (a AND 0xffffffff)) False) (ucast (drop_bit 32 a)) True = a"
  unfolding merge_addr_def u64_half_masks
  by (rule bit_word_eqI) (auto simp: bit_simps, metis add_diff_inverse_nat)


section \<open>Driver initialisation\<close>

text \<open>A sequence of four-byte register writes, and whether all of them were accepted.\<close>

fun mmio_run :: "mmio_transport \<Rightarrow> (u64 \<times> u64) list \<Rightarrow> bool \<times> mmio_transport" where
  "mmio_run t [] = (True, t)"
| "mmio_run t ((offset, v) # ws) =
     (case mmio_write t offset 4 v of
        (Inl _, t') \<Rightarrow> (False, t')
      | (Inr _, t') \<Rightarrow> mmio_run t' ws)"

text \<open>What a virtio driver writes: status bits, the features, queue 0 and its rings, DRIVER_OK.\<close>

definition driver_setup :: "u64 \<Rightarrow> u16 \<Rightarrow> u64 \<Rightarrow> u64 \<Rightarrow> u64 \<Rightarrow> (u64 \<times> u64) list" where
  "driver_setup features num desc avail used =
     [(REG_STATUS, 0), (REG_STATUS, 1), (REG_STATUS, 3),
      (GUEST_FEATURES_SEL, 0), (GUEST_FEATURES, features AND 0xffffffff),
      (GUEST_FEATURES_SEL, 1), (GUEST_FEATURES, drop_bit 32 features), (REG_STATUS, 11),
      (QUEUE_SEL, 0), (QUEUE_NUM, ucast num),
      (QUEUE_DESC_LOW, desc AND 0xffffffff), (QUEUE_DESC_HIGH, drop_bit 32 desc),
      (QUEUE_AVAIL_LOW, avail AND 0xffffffff), (QUEUE_AVAIL_HIGH, drop_bit 32 avail),
      (QUEUE_USED_LOW, used AND 0xffffffff), (QUEUE_USED_HIGH, drop_bit 32 used),
      (QUEUE_READY, 1), (REG_STATUS, 15)]"

lemma ucast_low_word: "ucast (v AND 0xffffffff) = (ucast v :: u32)" for v :: u64
  unfolding u64_half_masks by (rule bit_word_eqI) (auto simp: bit_simps)

lemma mmio_write_at:
  "mmio_write t REG_STATUS 4 v = write_status t v"
  "mmio_write t GUEST_FEATURES_SEL 4 v =
     (if (ucast v :: u32) > 1 then (Err Mmio_BadFeatures, t) else (Ok Outcome_None, t\<lparr>t_feature_sel := ucast v\<rparr>))"
  "mmio_write t GUEST_FEATURES 4 v = updated t (write_guest_features t (ucast v))"
  "mmio_write t QUEUE_SEL 4 v =
     (if unat (ucast v :: u32) \<ge> length (t_queues t) then (Err Mmio_BadQueue, t)
      else (Ok Outcome_None, t\<lparr>t_selected := unat (ucast v :: u32)\<rparr>))"
  "mmio_write t QUEUE_NUM 4 v = updated t (write_queue_num t (ucast v))"
  "mmio_write t QUEUE_READY 4 1 = updated t (arm_queue t)"
  "mmio_write t QUEUE_DESC_LOW 4 v = updated t (update_addr t Desc (ucast v) False)"
  "mmio_write t QUEUE_DESC_HIGH 4 v = updated t (update_addr t Desc (ucast v) True)"
  "mmio_write t QUEUE_AVAIL_LOW 4 v = updated t (update_addr t Avail (ucast v) False)"
  "mmio_write t QUEUE_AVAIL_HIGH 4 v = updated t (update_addr t Avail (ucast v) True)"
  "mmio_write t QUEUE_USED_LOW 4 v = updated t (update_addr t Used (ucast v) False)"
  "mmio_write t QUEUE_USED_HIGH 4 v = updated t (update_addr t Used (ucast v) True)"
  by (simp_all add: mmio_write_def mmio_check_def checked_add_def is_multiple_of_def register_defs
      ucast_low_word Let_def)

lemma write_features_low:
  assumes "t_feature_sel t = 0" and "t_guest_features t = 0" and "f AND NOT (t_host_features t) = 0"
  shows "write_guest_features t (ucast f) = Ok (t\<lparr>t_guest_features := f AND 0xffffffff\<rparr>)"
proof -
  have eq: "(ucast (ucast f :: u32) :: u64) = f AND 0xffffffff"
    unfolding u64_half_masks by (rule bit_word_eqI) (auto simp: bit_simps)
  have "(f AND 0xffffffff) AND NOT (t_host_features t) = (f AND NOT (t_host_features t)) AND 0xffffffff"
    by (simp only: ac_simps)
  then have "(f AND 0xffffffff) AND NOT (t_host_features t) = 0"
    using assms(3) by simp
  then show ?thesis
    using assms(1,2) by (simp add: write_guest_features_def eq Let_def)
qed

lemma write_features_high:
  assumes "t_feature_sel t = 1" and "t_guest_features t = f AND 0xffffffff"
    and "f AND NOT (t_host_features t) = 0"
  shows "write_guest_features t (ucast (drop_bit 32 f)) = Ok (t\<lparr>t_guest_features := f\<rparr>)"
proof -
  have eq: "((f AND 0xffffffff) AND 0xffffffff) OR push_bit 32 (ucast (ucast (drop_bit 32 f) :: u32)) = f"
    unfolding u64_half_masks by (rule bit_word_eqI) (auto simp: bit_simps)
  then show ?thesis
    using assms by (simp add: write_guest_features_def Let_def del: and.assoc)
qed

lemma write_queue_num_ok:
  assumes "t_selected t < length (t_queues t)" and "\<not> q_ready (selected_regs t)"
    and "valid_queue_size (t_queue_max t) n"
  shows "write_queue_num t (ucast (ucast n :: u64)) =
    Ok (t\<lparr>t_queues := (t_queues t)[t_selected t := (selected_regs t)\<lparr>q_num := n\<rparr>]\<rparr>)"
proof -
  have "(ucast (ucast n :: u64) :: u32) = ucast n"
    by (rule bit_word_eqI) (auto simp: bit_simps dest: bit_imp_le_length)
  then have "\<not> (ucast (ucast n :: u64) :: u32) > 0xffff"
    using unat_lt_pow [of n] by (simp add: word_less_nat_alt)
  moreover have "ucast (ucast (ucast n :: u64) :: u32) = n"
    by (rule bit_word_eqI) (auto simp: bit_simps)
  ultimately show ?thesis
    using assms by (simp add: write_queue_num_def selected_regs_mut_def selected_regs_def)
qed

lemma update_addr_halves:
  assumes "t_selected t < length (t_queues t)" and "\<not> q_ready (selected_regs t)"
  shows "\<exists>t1. update_addr t f (ucast (a AND 0xffffffff)) False = Ok t1
    \<and> update_addr t1 f (ucast (drop_bit 32 a)) True =
        Ok (t\<lparr>t_queues := (t_queues t)[t_selected t := set_ring_field f (\<lambda>_. a) (selected_regs t)]\<rparr>)"
proof (intro exI conjI)
  let ?r1 = "set_ring_field f (\<lambda>x. merge_addr x (ucast (a AND 0xffffffff)) False) (selected_regs t)"
  let ?t1 = "t\<lparr>t_queues := (t_queues t)[t_selected t := ?r1]\<rparr>"
  show "update_addr t f (ucast (a AND 0xffffffff)) False = Ok ?t1"
    using assms by (simp add: update_addr_def selected_regs_mut_def selected_regs_def)
  have r1: "selected_regs ?t1 = ?r1" "\<not> q_ready ?r1"
    using assms by (cases f; simp add: selected_regs_def)+
  have "set_ring_field f (\<lambda>x. merge_addr x (ucast (drop_bit 32 a)) True) ?r1
      = set_ring_field f (\<lambda>_. a) (selected_regs t)"
    by (cases f) (simp_all add: merge_addr_halves)
  then show "update_addr ?t1 f (ucast (drop_bit 32 a)) True =
      Ok (t\<lparr>t_queues := (t_queues t)[t_selected t := set_ring_field f (\<lambda>_. a) (selected_regs t)]\<rparr>)"
    using assms r1 by (simp add: update_addr_def selected_regs_mut_def)
qed

lemma mmio_run_ring_halves:
  assumes "t_selected t < length (t_queues t)" and "\<not> q_ready (selected_regs t)"
  shows "mmio_run t ((QUEUE_DESC_LOW, a AND 0xffffffff) # (QUEUE_DESC_HIGH, drop_bit 32 a) # ws) =
      mmio_run (t\<lparr>t_queues := (t_queues t)[t_selected t := (selected_regs t)\<lparr>q_desc := a\<rparr>]\<rparr>) ws"
    and "mmio_run t ((QUEUE_AVAIL_LOW, a AND 0xffffffff) # (QUEUE_AVAIL_HIGH, drop_bit 32 a) # ws) =
      mmio_run (t\<lparr>t_queues := (t_queues t)[t_selected t := (selected_regs t)\<lparr>q_avail := a\<rparr>]\<rparr>) ws"
    and "mmio_run t ((QUEUE_USED_LOW, a AND 0xffffffff) # (QUEUE_USED_HIGH, drop_bit 32 a) # ws) =
      mmio_run (t\<lparr>t_queues := (t_queues t)[t_selected t := (selected_regs t)\<lparr>q_used := a\<rparr>]\<rparr>) ws"
  using update_addr_halves [OF assms, of Desc a] update_addr_halves [OF assms, of Avail a]
    update_addr_halves [OF assms, of Used a]
  by (auto simp: mmio_write_at updated_def)

lemma driver_setup_run:
  assumes "features AND NOT host = 0" and "valid_queue_size qmax num"
    and "\<not> list_ex (bad_ring ram)
       (queue_rings \<lparr>q_num = num, q_ready = False, q_desc = desc, q_avail = avail, q_used = used\<rparr>)"
  shows "mmio_run (transport_new ram dev host qmax config) (driver_setup features num desc avail used) =
    (True, (transport_new ram dev host qmax config)\<lparr>t_status := 15, t_guest_features := features,
      t_feature_sel := 1,
      t_queues := [\<lparr>q_num = num, q_ready = True, q_desc = desc, q_avail = avail, q_used = used\<rparr>]\<rparr>)"
proof -
  let ?t0 = "transport_new ram dev host qmax config"
  let ?ws = "driver_setup features num desc avail used"
  let ?r = "\<lparr>q_num = num, q_ready = False, q_desc = desc, q_avail = avail, q_used = used\<rparr>"
  have "mmio_run ?t0 ?ws = mmio_run (?t0\<lparr>t_status := 3, t_feature_sel := 0\<rparr>) (drop 4 ?ws)"
    by (simp add: driver_setup_def mmio_write_at write_status_def drive_status_def status_defs
        transport_new_def reset_device_def set_irq_level_def Let_def queue_default_def)
  also have "\<dots> = mmio_run (?t0\<lparr>t_status := 3, t_guest_features := features, t_feature_sel := 1\<rparr>) (drop 7 ?ws)"
    using assms(1) by (simp add: driver_setup_def mmio_write_at transport_new_def updated_def
        write_features_low write_features_high ucast_low_word)
  also have "\<dots> = mmio_run (?t0\<lparr>t_status := 11, t_guest_features := features, t_feature_sel := 1,
      t_queues := [queue_default\<lparr>q_num := num\<rparr>]\<rparr>) (drop 10 ?ws)"
    using assms(2) by (simp add: driver_setup_def mmio_write_at write_status_def drive_status_def
        status_defs transport_new_def updated_def write_queue_num_ok selected_regs_def queue_default_def)
  also have "\<dots> = mmio_run (?t0\<lparr>t_status := 11, t_guest_features := features, t_feature_sel := 1,
      t_queues := [?r]\<rparr>) (drop 16 ?ws)"
    by (simp add: driver_setup_def transport_new_def mmio_run_ring_halves selected_regs_def queue_default_def
        del: mmio_run.simps)
  also have "\<dots> = (True, ?t0\<lparr>t_status := 15, t_guest_features := features, t_feature_sel := 1,
      t_queues := [\<lparr>q_num = num, q_ready = True, q_desc = desc, q_avail = avail, q_used = used\<rparr>]\<rparr>)"
    using assms(2,3) by (simp add: driver_setup_def mmio_write_at arm_queue_def transport_new_def updated_def
        selected_regs_def selected_regs_mut_def valid_queue_size_def write_status_def drive_status_def status_defs)
  finally show ?thesis .
qed

text \<open>Driver initialisation works: on a fresh device, a driver that picks offered features, a
  valid queue size and rings within RAM has every register write accepted, and afterwards the device
  is live with exactly those features and is given exactly those rings.\<close>

lemma driver_setup_succeeds:
  assumes "features AND NOT host = 0" and "valid_queue_size qmax num"
    and "\<not> list_ex (bad_ring ram)
       (queue_rings \<lparr>q_num = num, q_ready = False, q_desc = desc, q_avail = avail, q_used = used\<rparr>)"
  shows "\<exists>t. mmio_run (transport_new ram dev host qmax config) (driver_setup features num desc avail used)
       = (True, t)
     \<and> negotiated t = features \<and> t_status t = 15
     \<and> queue_addrs_for t 0 = Some (desc, avail, used, num)"
proof -
  have "features AND host = features"
    by (rule bit_word_eqI) (use arg_cong [OF assms(1), of bit] in \<open>auto simp: fun_eq_iff bit_simps\<close>)
  with driver_setup_run [OF assms] show ?thesis
    by (simp add: negotiated_def transport_new_def queue_addrs_for_def)
qed

lemma sample_rings:
  "valid_queue_size 8 8" "\<not> list_ex (bad_ring 0x10000)
     (queue_rings \<lparr>q_num = 8, q_ready = False, q_desc = 0x1000, q_avail = 0x2000, q_used = 0x3000\<rparr>)"
  by (simp_all add: valid_queue_size_def MAX_QUEUE_SIZE_def is_power_of_two_def queue_rings_def
      bad_ring_def checked_add_def SPLIT_RING_DESCRIPTOR_BYTES_def upt_rec)

lemma mmio_reach_run: "mmio_reach t0 l t \<Longrightarrow> mmio_reach t0 l (snd (mmio_run t ws))"
proof (induction t ws rule: mmio_run.induct)
  case (2 t offset v ws)
  then show ?case
    using reach_write [OF 2(2), of offset 4 v] by (auto split: prod.splits sum.splits)
qed simp

lemma fresh_transport_new: "fresh_transport (transport_new ram dev host qmax config)"
  unfolding fresh_transport_def with_queue_count_def
  by (intro exI [of _ ram] exI [of _ dev] exI [of _ host] exI [of _ qmax] exI [of _ config] exI [of _ 0])
    (simp add: transport_new_def max_def)

definition live_transport :: mmio_transport where
  "live_transport = snd (mmio_run (transport_new 0x10000 2 5 8 []) (driver_setup 4 8 0x1000 0x2000 0x3000))"

lemma live_transport:
  "live_transport = (transport_new 0x10000 2 5 8 [])\<lparr>t_status := 15, t_guest_features := 4,
      t_feature_sel := 1,
      t_queues := [\<lparr>q_num = 8, q_ready = True, q_desc = 0x1000, q_avail = 0x2000, q_used = 0x3000\<rparr>]\<rparr>"
  unfolding live_transport_def by (subst driver_setup_run [OF _ sample_rings]) simp_all

lemma live_transport_reach: "mmio_reach (transport_new 0x10000 2 5 8 []) False live_transport"
  unfolding live_transport_def by (intro mmio_reach_run reach_init)

theorem armed_queue_below_limit_witness:
  "fresh_transport (transport_new 0x10000 2 5 8 [])
   \<and> mmio_reach (transport_new 0x10000 2 5 8 []) False live_transport
   \<and> queue_addrs_for live_transport 0 = Some (0x1000, 0x2000, 0x3000, 8)
   \<and> unat (0x3000 :: u64) + 4 + 8 * unat (8 :: u16) \<le> unat (t_ram_size (transport_new 0x10000 2 5 8 []))"
proof -
  have q: "queue_addrs_for live_transport 0 = Some (0x1000, 0x2000, 0x3000, 8)"
    by (simp add: live_transport queue_addrs_for_def)
  from armed_queue_below_limit [OF fresh_transport_new live_transport_reach q] q show ?thesis
    using fresh_transport_new live_transport_reach by blast
qed

theorem negotiation_respected_witness:
  "mmio_reach (transport_new 0x10000 2 5 8 []) False (signal 1 live_transport)
   \<and> t_irq_level (signal 1 live_transport) \<and> t_interrupt_status (signal 1 live_transport) \<noteq> 0"
proof -
  have reach: "mmio_reach (transport_new 0x10000 2 5 8 []) False (signal 1 live_transport)"
    by (rule reach_signal [OF live_transport_reach]) simp
  moreover have "t_irq_level (signal 1 live_transport)"
    by (simp add: live_transport signal_def transport_new_def status_defs)
  ultimately show ?thesis
    using negotiation_respected [OF fresh_transport_new reach] by blast
qed

theorem take_irq_reports_every_change_witness:
  "take_irq (signal 1 live_transport) = (Some True, (signal 1 live_transport)\<lparr>t_irq_dirty := False\<rparr>)
   \<and> fst (take_irq ((signal 1 live_transport)\<lparr>t_irq_dirty := False\<rparr>)) = None
   \<and> t_irq_level ((signal 1 live_transport)\<lparr>t_irq_dirty := False\<rparr>) = True"
proof -
  let ?t = "(signal 1 live_transport)\<lparr>t_irq_dirty := False\<rparr>"
  have t1: "take_irq (signal 1 live_transport) = (Some True, ?t)"
    by (simp add: take_irq_def live_transport signal_def transport_new_def status_defs set_irq_level_def)
  have reach: "mmio_reach (transport_new 0x10000 2 5 8 []) True ?t"
    using reach_take [OF reach_signal [OF live_transport_reach, of 1] t1] by simp
  have none: "fst (take_irq ?t) = None" by (simp add: take_irq_def)
  from take_irq_reports_every_change [OF fresh_transport_new reach none] t1 none show ?thesis by simp
qed

text \<open>Writing zero to the status register quiesces the device: no queue stays armed, the accepted
  features and pending interrupts are gone, and a raised interrupt line is lowered and reported.\<close>

lemma reset_write_quiesces:
  "\<exists>t'. mmio_write t REG_STATUS 4 0 = (Ok Reset, t')
     \<and> t_status t' = 0 \<and> negotiated t' = 0 \<and> t_interrupt_status t' = 0 \<and> \<not> t_irq_level t'
     \<and> queue_addrs_for t' q = None
     \<and> fst (take_irq t') = (if t_irq_level t \<or> t_irq_dirty t then Some False else None)"
proof (intro exI conjI)
  let ?t' = "reset_device (t\<lparr>t_status := 0\<rparr>)"
  show "mmio_write t REG_STATUS 4 0 = (Ok Reset, ?t')"
    by (simp add: mmio_write_at write_status_def drive_status_def STATUS_RESET_def)
  show "queue_addrs_for ?t' q = None"
    by (simp add: queue_addrs_for_def reset_device_def queue_default_def)
  show "fst (take_irq ?t') = (if t_irq_level t \<or> t_irq_dirty t then Some False else None)"
    by (simp add: take_irq_def reset_device_def set_irq_level_def)
qed (simp_all add: reset_device_def negotiated_def)

end
