(* ===== verification/Guest_Copy.thy ===== *)
theory Guest_Copy
  imports Guest_Memory
begin

text \<open>
  Copying between a device and guest memory: the host imports of
  \<open>crates/terra-runtime/src/component/context.rs\<close> and the batching copy loops of
  \<open>components/device-transport/src/lib.rs\<close> (\<open>for_each_batch\<close>, \<open>read_guest_ranges\<close>,
  \<open>write_guest_ranges\<close> and the macro \<open>guest_memory!\<close> that every device expands). The copy of a
  list of ranges of any length is cut into pieces and batches that the host accepts.
\<close>

section \<open>Errors and host imports\<close>

datatype device_error = Dev_Unmapped | Dev_BadLen | Dev_BadQueue | Dev_NotReady | Dev_TooLarge | Dev_Io

datatype memory_copy_error = Copy_BadLen | Copy_Unmapped | Copy_TooLarge

fun copy_device_error :: "memory_copy_error \<Rightarrow> device_error" where
  "copy_device_error Copy_BadLen = Dev_BadLen"
| "copy_device_error Copy_Unmapped = Dev_Unmapped"
| "copy_device_error Copy_TooLarge = Dev_TooLarge"

definition host_read :: "'b backing_ops \<Rightarrow> 'b guest_memory \<Rightarrow> u64 \<Rightarrow> u64 \<Rightarrow> memory_error + bytes" where
  "host_read ops m offset len = bounded_read ops m offset len"

definition host_read_ranges ::
  "'b backing_ops \<Rightarrow> 'b guest_memory \<Rightarrow> (u64 \<times> u64) list \<Rightarrow> memory_error + bytes" where
  "host_read_ranges ops m ranges =
     (if length ranges > MAX_BATCH_GUEST_COPY_RANGES then Err TooLarge
      else bounded_read_ranges ops m (map (\<lambda>(offset, len). \<lparr>mr_addr = offset, mr_len = len\<rparr>) ranges))"

definition host_write ::
  "'b backing_ops \<Rightarrow> u64 \<Rightarrow> bytes \<Rightarrow> 'b guest_memory \<Rightarrow> (memory_error + unit) \<times> 'b guest_memory" where
  "host_write ops offset data m = bounded_write ops m offset data"

definition host_write_ranges ::
  "'b backing_ops \<Rightarrow> (u64 \<times> bytes) list \<Rightarrow> 'b guest_memory \<Rightarrow> (memory_error + unit) \<times> 'b guest_memory" where
  "host_write_ranges ops ranges m =
     (if length ranges > MAX_BATCH_GUEST_COPY_RANGES then (Err TooLarge, m)
      else bounded_write_ranges ops m ranges)"

section \<open>Batches\<close>

text \<open>\<open>for_each_batch\<close>: the closure works on a state, which is returned beside the result.\<close>

fun for_each_batch_loop ::
  "('p list \<Rightarrow> u64 \<Rightarrow> 's \<Rightarrow> ('e + unit) \<times> 's) \<Rightarrow> ('p \<times> u64) list \<Rightarrow> 'p list \<Rightarrow> u64 \<Rightarrow> 's
   \<Rightarrow> ('e + unit) \<times> 's" where
  "for_each_batch_loop issue [] batch batch_bytes s =
     (if batch = [] then (Ok (), s) else issue batch batch_bytes s)"
| "for_each_batch_loop issue ((piece, len) # pieces) batch batch_bytes s =
     (if batch \<noteq> [] \<and> (length batch = MAX_BATCH_GUEST_COPY_RANGES
          \<or> batch_bytes + len > MAX_BATCH_GUEST_COPY_BYTES)
      then (case issue batch batch_bytes s of
          (Inl e, s') \<Rightarrow> (Err e, s')
        | (Inr _, s') \<Rightarrow> for_each_batch_loop issue pieces [piece] (0 + len) s')
      else for_each_batch_loop issue pieces (batch @ [piece]) (batch_bytes + len) s)"

definition for_each_batch ::
  "('p \<times> u64) list \<Rightarrow> ('p list \<Rightarrow> u64 \<Rightarrow> 's \<Rightarrow> ('e + unit) \<times> 's) \<Rightarrow> 's \<Rightarrow> ('e + unit) \<times> 's" where
  "for_each_batch pieces issue s = for_each_batch_loop issue pieces [] 0 s"

section \<open>Reading and writing ranges\<close>

text \<open>
  The generic error type of the source is \<open>'e\<close> with its conversion \<open>conv\<close>; \<open>alloc n\<close> tells
  whether the allocator can reserve \<open>n\<close> bytes.
\<close>

fun ranges_total :: "(memory_copy_error \<Rightarrow> 'e) \<Rightarrow> (u64 \<times> u64) list \<Rightarrow> u64 \<Rightarrow> 'e + u64" where
  "ranges_total conv [] tot = Ok tot"
| "ranges_total conv ((address, len) # rs) tot =
     and_then (ok_or (conv Copy_Unmapped) (checked_add address len)) (\<lambda>_.
     and_then (ok_or (conv Copy_TooLarge) (checked_add tot len)) (\<lambda>tot'.
     ranges_total conv rs tot'))"

definition read_pieces :: "u64 \<times> u64 \<Rightarrow> ((u64 \<times> u64) \<times> u64) list" where
  "read_pieces = (\<lambda>(address, len).
     map (\<lambda>k. let offset = word_of_nat (k * 16384);
                piece_len = min (len - offset) MAX_SINGLE_GUEST_COPY_BYTES
            in ((address + offset, piece_len), piece_len))
       [0..<(unat len + 16383) div 16384])"

definition read_issue ::
  "(memory_copy_error \<Rightarrow> 'e) \<Rightarrow> (u64 \<Rightarrow> u64 \<Rightarrow> 'e + bytes) \<Rightarrow> ((u64 \<times> u64) list \<Rightarrow> 'e + bytes)
   \<Rightarrow> (u64 \<times> u64) list \<Rightarrow> u64 \<Rightarrow> bytes \<Rightarrow> ('e + unit) \<times> bytes" where
  "read_issue conv read read_batch batch batch_bytes bs =
     (case (case batch of [(address, len)] \<Rightarrow> read address len | _ \<Rightarrow> read_batch batch) of
        Inl e \<Rightarrow> (Err e, bs)
      | Inr chunk \<Rightarrow> (case ok_or (conv Copy_TooLarge) (u64_of_len (length chunk)) of
            Inl e \<Rightarrow> (Err e, bs)
          | Inr n \<Rightarrow> if n \<noteq> batch_bytes then (Err (conv Copy_BadLen), bs) else (Ok (), bs @ chunk)))"

definition read_guest_ranges ::
  "(memory_copy_error \<Rightarrow> 'e) \<Rightarrow> (nat \<Rightarrow> bool) \<Rightarrow> (u64 \<Rightarrow> u64 \<Rightarrow> 'e + bytes)
   \<Rightarrow> ((u64 \<times> u64) list \<Rightarrow> 'e + bytes) \<Rightarrow> (u64 \<times> u64) list \<Rightarrow> 'e + bytes" where
  "read_guest_ranges conv alloc read read_batch ranges =
     and_then (ranges_total conv ranges 0) (\<lambda>tot.
     if unat tot > usize_max_wasm32 \<or> \<not> alloc (unat tot) then Err (conv Copy_TooLarge)
     else (case for_each_batch (concat (map read_pieces ranges)) (read_issue conv read read_batch) [] of
         (Inl e, _) \<Rightarrow> Err e
       | (Inr _, bs) \<Rightarrow> Ok bs))"

fun write_ranges_fit :: "(memory_copy_error \<Rightarrow> 'e) \<Rightarrow> (u64 \<times> bytes) list \<Rightarrow> 'e + unit" where
  "write_ranges_fit conv [] = Ok ()"
| "write_ranges_fit conv ((address, bs) # rs) =
     and_then (ok_or (conv Copy_TooLarge) (u64_of_len (length bs))) (\<lambda>n.
     and_then (ok_or (conv Copy_Unmapped) (checked_add address n)) (\<lambda>_. write_ranges_fit conv rs))"

definition write_pieces :: "u64 \<times> bytes \<Rightarrow> ((u64 \<times> bytes) \<times> u64) list" where
  "write_pieces = (\<lambda>(address, bs).
     map (\<lambda>(k, chunk). ((address + word_of_nat (k * 16384), chunk), word_of_nat (length chunk)))
       (enumerate 0 (chunks 16384 bs)))"

definition write_issue ::
  "(u64 \<Rightarrow> bytes \<Rightarrow> 's \<Rightarrow> ('e + unit) \<times> 's) \<Rightarrow> ((u64 \<times> bytes) list \<Rightarrow> 's \<Rightarrow> ('e + unit) \<times> 's)
   \<Rightarrow> (u64 \<times> bytes) list \<Rightarrow> u64 \<Rightarrow> 's \<Rightarrow> ('e + unit) \<times> 's" where
  "write_issue write write_batch batch batch_bytes s =
     (case batch of [(address, bs)] \<Rightarrow> write address bs s | _ \<Rightarrow> write_batch batch s)"

definition write_guest_ranges ::
  "(memory_copy_error \<Rightarrow> 'e) \<Rightarrow> (u64 \<Rightarrow> bytes \<Rightarrow> 's \<Rightarrow> ('e + unit) \<times> 's)
   \<Rightarrow> ((u64 \<times> bytes) list \<Rightarrow> 's \<Rightarrow> ('e + unit) \<times> 's) \<Rightarrow> (u64 \<times> bytes) list \<Rightarrow> 's \<Rightarrow> ('e + unit) \<times> 's" where
  "write_guest_ranges conv write write_batch ranges s =
     (case write_ranges_fit conv ranges of
        Inl e \<Rightarrow> (Err e, s)
      | Inr _ \<Rightarrow> for_each_batch (concat (map write_pieces ranges)) (write_issue write write_batch) s)"

text \<open>The expansion of \<open>guest_memory!\<close> in a device: host errors become \<open>unmapped\<close>.\<close>

definition map_write_err :: "('e \<Rightarrow> 'f) \<Rightarrow> ('e + unit) \<times> 's \<Rightarrow> ('f + unit) \<times> 's" where
  "map_write_err g = (\<lambda>(r, s). (map_err g r, s))"

definition read_guest_memory ::
  "'b backing_ops \<Rightarrow> (nat \<Rightarrow> bool) \<Rightarrow> 'b guest_memory \<Rightarrow> (u64 \<times> u64) list \<Rightarrow> device_error + bytes" where
  "read_guest_memory ops alloc m ranges =
     read_guest_ranges copy_device_error alloc
       (\<lambda>address len. map_err (\<lambda>_. Dev_Unmapped) (host_read ops m address len))
       (\<lambda>rs. map_err (\<lambda>_. Dev_Unmapped) (host_read_ranges ops m rs)) ranges"

definition write_guest_memory ::
  "'b backing_ops \<Rightarrow> (u64 \<times> bytes) list \<Rightarrow> 'b guest_memory \<Rightarrow> (device_error + unit) \<times> 'b guest_memory" where
  "write_guest_memory ops ranges m =
     write_guest_ranges copy_device_error
       (\<lambda>address bs m. map_write_err (\<lambda>_. Dev_Unmapped) (host_write ops address bs m))
       (\<lambda>rs m. map_write_err (\<lambda>_. Dev_Unmapped) (host_write_ranges ops rs m)) ranges m"

section \<open>Batches respect the host limits\<close>

fun make_batches :: "('p \<times> u64) list \<Rightarrow> 'p list \<Rightarrow> u64 \<Rightarrow> ('p list \<times> u64) list" where
  "make_batches [] b n = (if b = [] then [] else [(b, n)])"
| "make_batches ((p, l) # ps) b n =
     (if b \<noteq> [] \<and> (length b = MAX_BATCH_GUEST_COPY_RANGES \<or> n + l > MAX_BATCH_GUEST_COPY_BYTES)
      then (b, n) # make_batches ps [p] (0 + l)
      else make_batches ps (b @ [p]) (n + l))"

fun run_batches :: "('p list \<Rightarrow> u64 \<Rightarrow> 's \<Rightarrow> ('e + unit) \<times> 's) \<Rightarrow> ('p list \<times> u64) list \<Rightarrow> 's
    \<Rightarrow> ('e + unit) \<times> 's" where
  "run_batches issue [] s = (Ok (), s)"
| "run_batches issue ((b, n) # bs) s =
     (case issue b n s of (Inl e, s') \<Rightarrow> (Err e, s') | (Inr _, s') \<Rightarrow> run_batches issue bs s')"

lemma for_each_batch_loop_eq:
  "for_each_batch_loop issue ps b n s = run_batches issue (make_batches ps b n) s"
  by (induction issue ps b n s rule: for_each_batch_loop.induct)
    (auto split: prod.splits sum.splits)

lemma make_batches_concat: "concat (map fst (make_batches ps b n)) = b @ map fst ps"
  by (induction ps b n rule: make_batches.induct) auto

lemma make_batches_limits:
  assumes "\<forall>(p, l) \<in> set ps. l = f p \<and> unat (f p) \<le> 16384"
    and "length b \<le> 32" and "unat n = sum_list (map (unat \<circ> f) b)" and "unat n \<le> 65536"
    and "(c, k) \<in> set (make_batches ps b n)"
  shows "c \<noteq> [] \<and> length c \<le> 32 \<and> unat k = sum_list (map (unat \<circ> f) c) \<and> unat k \<le> 65536"
  using assms
proof (induction ps b n rule: make_batches.induct)
  case (1 b n)
  then show ?case by (auto split: if_splits)
next
  case (2 p l ps b n)
  then have l: "l = f p" "unat l \<le> 16384" by auto
  have add: "unat (n + l) = unat n + unat l"
    using 2(6) l by (intro unat_add_no_wrap) simp
  show ?case
  proof (cases "b \<noteq> [] \<and> (length b = MAX_BATCH_GUEST_COPY_RANGES \<or> n + l > MAX_BATCH_GUEST_COPY_BYTES)")
    case True
    with 2 l show ?thesis by auto
  next
    case False
    then have "length b < 32 \<and> unat (n + l) \<le> 65536"
      using 2(4,5,6) l add
      by (cases "b = []") (auto simp: MAX_BATCH_GUEST_COPY_RANGES_def word_less_nat_alt not_less)
    with 2 False l add show ?thesis by auto
  qed
qed

lemma for_each_batch_eq:
  "for_each_batch ps issue s = run_batches issue (make_batches ps [] 0) s"
  by (simp add: for_each_batch_def for_each_batch_loop_eq)

lemmas for_each_batch_limits =
  make_batches_limits [of _ _ "[]" 0, simplified]

section \<open>Pieces cover their range\<close>

lemma view_bytes_split:
  "view_bytes v a (i + j) = view_bytes v a i @ view_bytes v (a + word_of_nat i) j"
proof -
  have "[0..<i + j] = [0..<i] @ map (\<lambda>k. k + i) [0..<j]"
    using upt_add_eq_append [of 0 i j] by (simp add: map_add_upt add.commute)
  then show ?thesis
    by (simp add: view_bytes_def comp_def add_ac)
qed

lemma view_bytes_blocks:
  "concat (map (\<lambda>k. view_bytes v (a + word_of_nat (k * c)) (min (n - k * c) c)) [0..<j])
     = view_bytes v a (min n (j * c))"
proof (induction j)
  case 0
  then show ?case by (simp add: view_bytes_def)
next
  case (Suc j)
  have "min n (Suc j * c) = min n (j * c) + min (n - j * c) c" by auto
  moreover have "word_of_nat (min n (j * c)) = (word_of_nat (j * c) :: u64)" if "n - j * c > 0"
    using that by (simp add: min_def)
  moreover have "view_bytes v b 0 = []" for b by (simp add: view_bytes_def)
  ultimately show ?case
    using Suc by (cases "n - j * c > 0") (simp_all add: view_bytes_split del: mult_Suc)
qed

lemma read_pieces_eq:
  "read_pieces (a, n) =
     map (\<lambda>k. ((a + word_of_nat (k * 16384), word_of_nat (min (unat n - k * 16384) 16384)),
               word_of_nat (min (unat n - k * 16384) 16384)))
       [0..<(unat n + 16383) div 16384]"
proof -
  have "min (n - word_of_nat (k * 16384)) MAX_SINGLE_GUEST_COPY_BYTES
      = word_of_nat (min (unat n - k * 16384) 16384)" if "k < (unat n + 16383) div 16384" for k
  proof -
    have lt: "k * 16384 < 2 ^ LENGTH(64)" and le: "k * 16384 \<le> unat n"
      using that unat_lt_pow [of n] by auto
    moreover from lt have "unat (word_of_nat (k * 16384) :: u64) = k * 16384"
      by (rule unat_of_nat_eq)
    ultimately have "unat (n - word_of_nat (k * 16384)) = unat n - k * 16384"
      by (simp add: unat_sub word_le_nat_alt del: of_nat_mult)
    moreover have "unat (word_of_nat (min (unat n - k * 16384) 16384) :: u64) = min (unat n - k * 16384) 16384"
      by (rule unat_of_nat_eq) simp
    ultimately show ?thesis
      by (auto simp: min_def word_unat_eq_iff word_le_nat_alt simp del: of_nat_mult split: if_splits)
  qed
  then show ?thesis by (simp add: read_pieces_def Let_def)
qed

lemma read_pieces_len:
  "((b, l), l') \<in> set (read_pieces (a, n)) \<Longrightarrow> l' = l \<and> unat l \<le> 16384"
  unfolding read_pieces_eq
  by (auto simp: unat_of_nat_eq)

lemma read_pieces_bytes:
  "concat (map (\<lambda>p. view_bytes v (fst p) (unat (snd p))) (map fst (read_pieces (a, n)))) = view_bytes v a (unat n)"
proof -
  have "unat (word_of_nat (min (unat n - k * 16384) 16384) :: u64) = min (unat n - k * 16384) 16384" for k
    by (rule unat_of_nat_eq) simp
  moreover have "min (unat n) ((unat n + 16383) div 16384 * 16384) = unat n"
  proof -
    have "unat n \<le> (unat n + 16383) div 16384 * 16384"
      using nat_page_ceiling [of 16384 "unat n"] by simp
    then show ?thesis by simp
  qed
  ultimately show ?thesis
    using view_bytes_blocks [of v a 16384 "unat n" "(unat n + 16383) div 16384"]
    by (simp add: read_pieces_eq comp_def del: upt_Suc)
qed

lemma ranges_total_ok:
  assumes "\<forall>r \<in> set rs. unat (fst r) + unat (snd r) < 2 ^ 64"
    and "unat t + sum_list (map (unat \<circ> snd) rs) < 2 ^ 64"
  shows "\<exists>t'. ranges_total conv rs t = Ok t' \<and> unat t' = unat t + sum_list (map (unat \<circ> snd) rs)"
  using assms
proof (induction rs arbitrary: t)
  case Nil
  then show ?case by simp
next
  case (Cons r rs)
  obtain a n where r: "r = (a, n)" by fastforce
  with Cons.prems have "unat t + unat n < 2 ^ LENGTH(64)" "unat a + unat n < 2 ^ LENGTH(64)" by auto
  with Cons.prems Cons.IH [of "t + n"] r show ?case
    by (simp add: checked_add_def unat_add_no_wrap add.assoc)
qed

section \<open>Reads\<close>

context ram_backing
begin

definition piece_view :: "'b guest_memory \<Rightarrow> (u64 \<times> u64) list \<Rightarrow> bytes" where
  "piece_view m ps = concat (map (\<lambda>p. view_bytes (gview m) (fst p) (unat (snd p))) ps)"

abbreviation dev_read_issue :: "'b guest_memory \<Rightarrow> (u64 \<times> u64) list \<Rightarrow> u64 \<Rightarrow> bytes \<Rightarrow> (device_error + unit) \<times> bytes" where
  "dev_read_issue m \<equiv> read_issue copy_device_error
     (\<lambda>address len. map_err (\<lambda>_. Dev_Unmapped) (host_read ops m address len))
     (\<lambda>rs. map_err (\<lambda>_. Dev_Unmapped) (host_read_ranges ops m rs))"

lemma length_piece_view: "length (piece_view m ps) = sum_list (map (unat \<circ> snd) ps)"
  by (induction ps) (auto simp: piece_view_def)

lemma piece_view_append: "piece_view m (ps @ qs) = piece_view m ps @ piece_view m qs"
  by (simp add: piece_view_def)

lemma host_read_eq:
  assumes "wf (gm_backing m)" and "unat n \<le> 16384"
  shows "map_err (\<lambda>_. Dev_Unmapped) (host_read ops m a n) =
    (if contains_range ops m a n then Ok (view_bytes (gview m) a (unat n)) else Err Dev_Unmapped)"
  using assms by (simp add: host_read_def bounded_read_eq word_less_nat_alt)

lemma host_read_ranges_eq:
  assumes "wf (gm_backing m)" and "length c \<le> 32" and "\<forall>p \<in> set c. unat (snd p) \<le> 16384"
    and "sum_list (map (unat \<circ> snd) c) \<le> 65536"
  shows "map_err (\<lambda>_. Dev_Unmapped) (host_read_ranges ops m c) =
    (if \<forall>p \<in> set c. contains_range ops m (fst p) (snd p) then Ok (piece_view m c) else Err Dev_Unmapped)"
proof -
  let ?rs = "map (\<lambda>(offset, len). \<lparr>mr_addr = offset, mr_len = len\<rparr>) c"
  have sum: "sum_list (map (\<lambda>r. unat (mr_len r)) ?rs) = sum_list (map (unat \<circ> snd) c)"
    by (induction c) auto
  have cat: "concat (map (\<lambda>r. view_bytes (gview m) (mr_addr r) (unat (mr_len r))) ?rs) = piece_view m c"
    by (simp add: piece_view_def comp_def case_prod_beta)
  have ok: "bounded_read_ranges ops m ?rs = Ok bs \<longleftrightarrow>
      (\<forall>p \<in> set c. contains_range ops m (fst p) (snd p)) \<and> bs = piece_view m c" for bs
    unfolding bounded_read_ranges_iff [OF assms(1)] sum cat using assms(2-4) by auto
  show ?thesis
    using assms(2) ok
    by (cases "bounded_read_ranges ops m ?rs") (auto simp: host_read_ranges_def MAX_BATCH_GUEST_COPY_RANGES_def)
qed

lemma read_issue_eq:
  assumes "wf (gm_backing m)" and "c \<noteq> []" and "length c \<le> 32" and "\<forall>p \<in> set c. unat (snd p) \<le> 16384"
    and k: "unat k = sum_list (map (unat \<circ> snd) c)" and "unat k \<le> 65536"
  shows "dev_read_issue m c k acc =
    (if \<forall>p \<in> set c. contains_range ops m (fst p) (snd p) then (Ok (), acc @ piece_view m c) else (Err Dev_Unmapped, acc))"
proof -
  have rd: "(case c of [(address, len)] \<Rightarrow> map_err (\<lambda>_. Dev_Unmapped) (host_read ops m address len)
       | _ \<Rightarrow> map_err (\<lambda>_. Dev_Unmapped) (host_read_ranges ops m c))
     = (if \<forall>p \<in> set c. contains_range ops m (fst p) (snd p) then Ok (piece_view m c) else Err Dev_Unmapped)"
  proof (cases "length c = 1")
    case True
    then obtain a n where "c = [(a, n)]" by (auto simp: length_Suc_conv)
    with assms(4) show ?thesis by (simp add: host_read_eq [OF assms(1)] piece_view_def)
  next
    case False
    then have "(case c of [(address, len)] \<Rightarrow> map_err (\<lambda>_. Dev_Unmapped) (host_read ops m address len)
       | _ \<Rightarrow> map_err (\<lambda>_. Dev_Unmapped) (host_read_ranges ops m c))
     = map_err (\<lambda>_. Dev_Unmapped) (host_read_ranges ops m c)"
      by (auto split: list.split)
    then show ?thesis
      using host_read_ranges_eq [OF assms(1,3,4)] k assms(6) by simp
  qed
  have len: "u64_of_len (length (piece_view m c)) = Some k"
    using k assms(6) by (simp add: length_piece_view u64_of_len_def word_unat_eq_iff unat_of_nat_eq)
  show ?thesis
    unfolding read_issue_def rd using len by auto
qed

lemma run_read_batches:
  assumes "wf (gm_backing m)"
    and "\<And>c k. (c, k) \<in> set bs \<Longrightarrow> c \<noteq> [] \<and> length c \<le> 32 \<and> (\<forall>p \<in> set c. unat (snd p) \<le> 16384)
       \<and> unat k = sum_list (map (unat \<circ> snd) c) \<and> unat k \<le> 65536"
  shows "\<exists>acc'. run_batches (dev_read_issue m) bs acc =
    (if \<forall>p \<in> set (concat (map fst bs)). contains_range ops m (fst p) (snd p)
     then (Ok (), acc @ piece_view m (concat (map fst bs))) else (Err Dev_Unmapped, acc'))"
  using assms(2)
proof (induction bs arbitrary: acc)
  case Nil
  then show ?case by (simp add: piece_view_def)
next
  case (Cons b bs)
  obtain c k where b: "b = (c, k)" by fastforce
  then have "(c, k) \<in> set (b # bs)" by simp
  note lim' = Cons.prems [OF this]
  have lim: "c \<noteq> []" "length c \<le> 32" "\<forall>p \<in> set c. unat (snd p) \<le> 16384"
      "unat k = sum_list (map (unat \<circ> snd) c)" "unat k \<le> 65536"
    using lim' by (simp_all add: comp_def)
  have IH: "\<exists>acc'. run_batches (dev_read_issue m) bs acc =
    (if \<forall>p \<in> set (concat (map fst bs)). contains_range ops m (fst p) (snd p)
     then (Ok (), acc @ piece_view m (concat (map fst bs))) else (Err Dev_Unmapped, acc'))" for acc
    by (rule Cons.IH) (rule Cons.prems, simp)
  show ?case
  proof (cases "\<forall>p \<in> set c. contains_range ops m (fst p) (snd p)")
    case True
    from IH [of "acc @ piece_view m c"] obtain acc' where
      "run_batches (dev_read_issue m) bs (acc @ piece_view m c) =
        (if \<forall>p \<in> set (concat (map fst bs)). contains_range ops m (fst p) (snd p)
         then (Ok (), (acc @ piece_view m c) @ piece_view m (concat (map fst bs)))
         else (Err Dev_Unmapped, acc'))" by blast
    with True show ?thesis
      by (intro exI [of _ acc']) (simp add: b read_issue_eq [OF assms(1) lim] piece_view_append ball_Un)
  next
    case False
    have "dev_read_issue m c k acc = (Err Dev_Unmapped, acc)"
      unfolding read_issue_eq [OF assms(1) lim] by (rule if_not_P [OF False])
    moreover have "\<not> (\<forall>p \<in> set (concat (map fst (b # bs))). contains_range ops m (fst p) (snd p))"
      using False by (auto simp: b)
    ultimately show ?thesis
      by (intro exI [of _ acc]) (simp only: b run_batches.simps prod.case sum.case if_False)
  qed
qed

lemma read_guest_memory_eq:
  assumes "wf (gm_backing m)" and "\<forall>r \<in> set rs. unat (fst r) + unat (snd r) < 2 ^ 64"
    and tot: "sum_list (map (unat \<circ> snd) rs) \<le> usize_max_wasm32" and "alloc (sum_list (map (unat \<circ> snd) rs))"
  shows "read_guest_memory ops alloc m rs =
    (if \<forall>p \<in> fst ` set (concat (map read_pieces rs)). contains_range ops m (fst p) (snd p)
     then Ok (concat (map (\<lambda>(a, n). view_bytes (gview m) a (unat n)) rs)) else Err Dev_Unmapped)"
proof -
  let ?ps = "concat (map read_pieces rs)"
  have "sum_list (map (unat \<circ> snd) rs) < 2 ^ 64"
    using tot by (simp add: usize_max_wasm32_def)
  then obtain t where t: "ranges_total copy_device_error rs 0 = Ok t"
      "unat t = sum_list (map (unat \<circ> snd) rs)"
    using ranges_total_ok [OF assms(2), of 0 copy_device_error] by auto
  have pc: "\<forall>(p, l) \<in> set ?ps. l = snd p \<and> unat (snd p) \<le> 16384"
    using read_pieces_len by fastforce
  have lim: "c \<noteq> [] \<and> length c \<le> 32 \<and> (\<forall>p \<in> set c. unat (snd p) \<le> 16384)
       \<and> unat k = sum_list (map (unat \<circ> snd) c) \<and> unat k \<le> 65536"
    if "(c, k) \<in> set (make_batches ?ps [] 0)" for c k
  proof -
    have "set c \<subseteq> set (concat (map fst (make_batches ?ps [] 0)))" using that by force
    then have "set c \<subseteq> fst ` set ?ps" by (simp add: make_batches_concat)
    with for_each_batch_limits [OF pc that] pc show ?thesis by fastforce
  qed
  have view: "piece_view m (map fst ?ps) = concat (map (\<lambda>(a, n). view_bytes (gview m) a (unat n)) rs)"
  proof (induction rs)
    case (Cons r rs)
    then show ?case
      using read_pieces_bytes [of "gview m" "fst r" "snd r"]
      by (simp add: piece_view_def case_prod_beta comp_def)
  qed (simp add: piece_view_def)
  from run_read_batches [of m "make_batches ?ps [] 0" "[]", OF assms(1) lim, unfolded make_batches_concat append_Nil]
  obtain acc' where "run_batches (dev_read_issue m) (make_batches ?ps [] 0) [] =
      (if \<forall>p \<in> set (map fst ?ps). contains_range ops m (fst p) (snd p)
       then (Ok (), piece_view m (map fst ?ps)) else (Err Dev_Unmapped, acc'))"
    by blast
  then show ?thesis
    using t assms(3,4) by (simp add: read_guest_memory_def read_guest_ranges_def for_each_batch_eq view)
qed

end

section \<open>Writes\<close>

lemma view_write_Nil [simp]: "view_write v a [] = v"
  by (simp add: view_write_def)

lemma view_write_append:
  assumes "length x + length y \<le> 2 ^ 64"
  shows "view_write (view_write v a x) (a + word_of_nat (length x)) y = view_write v a (x @ y)"
proof
  fix z
  let ?d = "unat (z - a)"
  have d: "?d < 2 ^ 64" using unat_lt_pow [of "z - a"] by simp
  show "view_write (view_write v a x) (a + word_of_nat (length x)) y z = view_write v a (x @ y) z"
  proof (cases "y = []")
    case False
    then have lx: "length x < 2 ^ 64" using assms by (cases y) auto
    then have ux: "unat (word_of_nat (length x) :: u64) = length x" by (simp add: unat_of_nat_eq)
    have eq: "z - (a + word_of_nat (length x)) = (z - a) - word_of_nat (length x)" by simp
    have "unat (z - (a + word_of_nat (length x))) =
        (if length x \<le> ?d then ?d - length x else 2 ^ 64 + ?d - length x)"
      unfolding eq using ux lx by (auto simp: unat_sub_if_size word_size word_le_nat_alt)
    then show ?thesis
      using assms d lx by (auto simp: view_write_def nth_append)
  qed simp
qed

lemma fold_chunks_write:
  assumes "0 < n" and "length xs \<le> 2 ^ 64"
  shows "fold (\<lambda>(k, c) v. view_write v (a + word_of_nat (k * n)) c) (enumerate k (chunks n xs)) v
    = view_write v (a + word_of_nat (k * n)) xs"
  using assms
proof (induction n xs arbitrary: k v rule: chunks.induct)
  case (1 n xs)
  show ?case
  proof (cases "xs = []")
    case False
    let ?w = "view_write v (a + word_of_nat (k * n)) (take n xs)"
    have "fold (\<lambda>(k, c) v. view_write v (a + word_of_nat (k * n)) c) (enumerate k (chunks n xs)) v
        = view_write ?w (a + word_of_nat (Suc k * n)) (drop n xs)"
      using 1 False by (simp add: chunks_take del: mult_Suc of_nat_mult)
    also have "\<dots> = view_write v (a + word_of_nat (k * n)) xs"
    proof (cases "drop n xs = []")
      case True
      then show ?thesis by simp
    next
      case d: False
      then have "length (take n xs) = n" by simp
      then have "a + word_of_nat (Suc k * n) = a + word_of_nat (k * n) + word_of_nat (length (take n xs))"
        by (simp add: add_ac)
      moreover have "length (take n xs) + length (drop n xs) \<le> 2 ^ 64" using 1(3) by simp
      ultimately show ?thesis
        using view_write_append [of "take n xs" "drop n xs" v "a + word_of_nat (k * n)"]
        by (simp only: append_take_drop_id)
    qed
    finally show ?thesis .
  qed simp
qed

abbreviation write_all :: "(u64 \<times> bytes) list \<Rightarrow> byte_view \<Rightarrow> byte_view" where
  "write_all \<equiv> fold (\<lambda>p v. view_write v (fst p) (snd p))"

lemma write_pieces_view:
  assumes "length d \<le> 2 ^ 64"
  shows "write_all (map fst (write_pieces (a, d))) v = view_write v a d"
proof -
  have "write_all (map fst (write_pieces (a, d))) v =
      fold (\<lambda>(k, c) v. view_write v (a + word_of_nat (k * 16384)) c) (enumerate 0 (chunks 16384 d)) v"
    by (simp add: write_pieces_def fold_map comp_def case_prod_unfold)
  then show ?thesis using fold_chunks_write [of 16384 d a 0 v] assms by simp
qed

lemma write_pieces_len:
  assumes "(p, l) \<in> set (write_pieces r)"
  shows "l = word_of_nat (length (snd p)) \<and> length (snd p) \<le> 16384"
proof -
  obtain a d where r: "r = (a, d)" by fastforce
  from assms obtain k c where "(k, c) \<in> set (enumerate 0 (chunks 16384 d))"
      "p = (a + word_of_nat (k * 16384), c)" "l = word_of_nat (length c)"
    by (auto simp: write_pieces_def r)
  moreover from this have "c \<in> set (chunks 16384 d)"
    by (metis enumerate_eq_zip in_set_zipE)
  ultimately show ?thesis using chunks_length [of c 16384 d] by simp
qed

lemma write_ranges_fit_ok:
  "(\<forall>r \<in> set rs. unat (fst r) + length (snd r) < 2 ^ 64) \<Longrightarrow> write_ranges_fit conv rs = Ok ()"
proof (induction rs)
  case (Cons r rs)
  obtain a d where r: "r = (a, d)" by fastforce
  with Cons.prems have lt: "unat a + length d < 2 ^ 64" by simp
  then have "unat (word_of_nat (length d) :: u64) = length d" by (intro unat_of_nat_eq) simp
  with lt Cons show ?case by (simp add: r u64_of_len_def checked_add_def)
qed simp

context ram_backing
begin

abbreviation mapped :: "'b guest_memory \<Rightarrow> u64 \<times> bytes \<Rightarrow> bool" where
  "mapped m p \<equiv> contains_range ops m (fst p) (word_of_nat (length (snd p)))"

text \<open>What a write of \<open>ps\<close> may do: everything if all is mapped, an error otherwise.\<close>

definition writes :: "(u64 \<times> bytes) list \<Rightarrow> 'b guest_memory \<Rightarrow> (device_error + unit) \<times> 'b guest_memory \<Rightarrow> bool" where
  "writes ps m = (\<lambda>(r, m'). wf (gm_backing m') \<and> contains_range ops m' = contains_range ops m
     \<and> r = (if \<forall>p \<in> set ps. mapped m p then Ok () else Err Dev_Unmapped)
     \<and> ((\<forall>p \<in> set ps. mapped m p) \<longrightarrow> gview m' = write_all ps (gview m)))"

abbreviation dev_write_issue where
  "dev_write_issue \<equiv> write_issue
     (\<lambda>address bs m. map_write_err (\<lambda>_. Dev_Unmapped) (host_write ops address bs m))
     (\<lambda>rs m. map_write_err (\<lambda>_. Dev_Unmapped) (host_write_ranges ops rs m))"

lemma host_write_writes:
  assumes "wf (gm_backing m)" and "length d \<le> 16384"
  shows "writes [(a, d)] m (map_write_err (\<lambda>_. Dev_Unmapped) (host_write ops a d m))"
proof (cases "contains_range ops m a (word_of_nat (length d))")
  case True
  from bounded_write_ok [OF assms(1,2) True] True show ?thesis
    by (auto simp: writes_def host_write_def map_write_err_def)
next
  case False
  with bounded_write_cases [OF assms(1), of a d] assms(1) show ?thesis
    by (auto simp: writes_def host_write_def map_write_err_def)
qed

lemma host_write_ranges_writes:
  assumes "wf (gm_backing m)" and "length c \<le> 32" and "\<forall>p \<in> set c. length (snd p) \<le> 16384"
    and "sum_list (map (length \<circ> snd) c) \<le> 65536"
  shows "writes c m (map_write_err (\<lambda>_. Dev_Unmapped) (host_write_ranges ops c m))"
proof -
  obtain r m' where w: "bounded_write_ranges ops m c = (r, m')" by fastforce
  have "fold (\<lambda>(a, d) v. view_write v a d) c = write_all c"
    by (simp add: case_prod_unfold)
  with bounded_write_ranges_spec [OF assms(1) w] assms(2-4) show ?thesis
    by (cases r) (auto simp: writes_def host_write_ranges_def map_write_err_def w
        MAX_BATCH_GUEST_COPY_RANGES_def)
qed

lemma write_issue_writes:
  assumes "wf (gm_backing m)" and "c \<noteq> []" and "length c \<le> 32" and "\<forall>p \<in> set c. length (snd p) \<le> 16384"
    and "sum_list (map (length \<circ> snd) c) \<le> 65536"
  shows "writes c m (dev_write_issue c k m)"
proof (cases "length c = 1")
  case True
  then obtain a d where "c = [(a, d)]" by (auto simp: length_Suc_conv)
  with host_write_writes [OF assms(1)] assms(4) show ?thesis by (simp add: write_issue_def)
next
  case False
  then have "dev_write_issue c k m = map_write_err (\<lambda>_. Dev_Unmapped) (host_write_ranges ops c m)"
    by (auto simp: write_issue_def split: list.split)
  with host_write_ranges_writes [OF assms(1,3,4,5)] show ?thesis by simp
qed

lemma run_write_batches:
  assumes "wf (gm_backing m)"
    and "\<And>c k. (c, k) \<in> set bs \<Longrightarrow> c \<noteq> [] \<and> length c \<le> 32 \<and> (\<forall>p \<in> set c. length (snd p) \<le> 16384)
       \<and> sum_list (map (length \<circ> snd) c) \<le> 65536"
  shows "writes (concat (map fst bs)) m (run_batches dev_write_issue bs m)"
  using assms
proof (induction bs arbitrary: m)
  case Nil
  then show ?case by (simp add: writes_def)
next
  case (Cons b bs)
  obtain c k where b: "b = (c, k)" by fastforce
  then have "(c, k) \<in> set (b # bs)" by simp
  note lim = Cons.prems(2) [OF this]
  obtain r m1 where i: "dev_write_issue c k m = (r, m1)" by fastforce
  from write_issue_writes [OF Cons.prems(1), of c k] lim i
  have w: "writes c m (r, m1)" by simp
  show ?case
  proof (cases "\<forall>p \<in> set c. mapped m p")
    case True
    have "writes (concat (map fst bs)) m1 (run_batches dev_write_issue bs m1)"
    proof (rule Cons.IH)
      show "wf (gm_backing m1)" using w by (simp add: writes_def)
      show "c' \<noteq> [] \<and> length c' \<le> 32 \<and> (\<forall>p \<in> set c'. length (snd p) \<le> 16384)
         \<and> sum_list (map (length \<circ> snd) c') \<le> 65536" if "(c', k') \<in> set bs" for c' k'
        by (rule Cons.prems(2) [of c' k']) (simp add: that)
    qed
    with True w i show ?thesis
      by (auto simp: writes_def b ball_Un)
  next
    case False
    with w i show ?thesis by (auto simp: writes_def b)
  qed
qed

lemma write_guest_memory_writes:
  assumes "wf (gm_backing m)" and "\<forall>r \<in> set rs. unat (fst r) + length (snd r) < 2 ^ 64"
  shows "writes (map fst (concat (map write_pieces rs))) m (write_guest_memory ops rs m)"
    and "write_all (map fst (concat (map write_pieces rs))) v = write_all rs v"
proof -
  let ?ps = "concat (map write_pieces rs)" and ?f = "\<lambda>p. word_of_nat (length (snd p)) :: u64"
  have uf: "unat (?f p) = length (snd p)" if "length (snd p) \<le> 16384" for p :: "u64 \<times> bytes"
    using that by (intro unat_of_nat_eq) simp
  have pc: "\<forall>(p, l) \<in> set ?ps. l = ?f p \<and> unat (?f p) \<le> 16384"
    using write_pieces_len uf by fastforce
  have lim: "c \<noteq> [] \<and> length c \<le> 32 \<and> (\<forall>p \<in> set c. length (snd p) \<le> 16384)
       \<and> sum_list (map (length \<circ> snd) c) \<le> 65536"
    if ck: "(c, k) \<in> set (make_batches ?ps [] 0)" for c k
  proof -
    have "set c \<subseteq> set (concat (map fst (make_batches ?ps [] 0)))" using ck by force
    then have "set c \<subseteq> fst ` set ?ps" by (simp add: make_batches_concat)
    then have small: "\<forall>p \<in> set c. length (snd p) \<le> 16384" using write_pieces_len by fastforce
    then have "map (unat \<circ> ?f) c = map (length \<circ> snd) c" using uf by auto
    with for_each_batch_limits [OF pc ck] small show ?thesis by auto
  qed
  show "writes (map fst ?ps) m (write_guest_memory ops rs m)"
    using run_write_batches [of m "make_batches ?ps [] 0", OF assms(1) lim, unfolded make_batches_concat append_Nil]
    by (simp add: write_guest_memory_def write_guest_ranges_def write_ranges_fit_ok [OF assms(2)] for_each_batch_eq)
  show "write_all (map fst ?ps) v = write_all rs v"
    using assms(2)
  proof (induction rs arbitrary: v)
    case (Cons r rs)
    then have "length (snd r) \<le> 2 ^ 64" by auto
    with Cons write_pieces_view [of "snd r" "fst r" v] show ?case by simp
  qed simp
qed

end
section \<open>Properties\<close>

text \<open>A device's read of any list of guest ranges (no range wraps around, the total fits a wasm32
  allocation) never trips the host's limits: it returns the concatenation of the bytes of all ranges
  if every piece of the ranges is mapped, and \<open>unmapped\<close> otherwise.\<close>

lemma read_guest_memory_exact:
  assumes "ram_backing ops good view" and "good (gm_backing m)"
    and "\<forall>r \<in> set rs. unat (fst r) + unat (snd r) < 2 ^ 64"
    and "sum_list (map (unat \<circ> snd) rs) \<le> usize_max_wasm32"
    and "alloc (sum_list (map (unat \<circ> snd) rs))"
  shows "read_guest_memory ops alloc m rs =
    (if \<forall>p \<in> fst ` set (concat (map read_pieces rs)). contains_range ops m (fst p) (snd p)
     then Ok (concat (map (\<lambda>(a, n). view_bytes (view (gm_backing m)) a (unat n)) rs))
     else Err Dev_Unmapped)"
  using assms by (rule ram_backing.read_guest_memory_eq)

text \<open>C28: A device's write of any list of guest ranges (no range wraps around) never trips the host's
  limits: it fails with \<open>unmapped\<close> exactly when some piece is not mapped, and when it succeeds guest
  memory is the old one with the ranges stored in order. Guest memory stays well-formed and mapped as
  it was in every case.\<close>

theorem write_guest_memory_exact:
  assumes "ram_backing ops good view" and "good (gm_backing m)"
    and "\<forall>r \<in> set rs. unat (fst r) + length (snd r) < 2 ^ 64"
    and "write_guest_memory ops rs m = (r, m')"
  shows "good (gm_backing m') \<and> contains_range ops m' = contains_range ops m
    \<and> r = (if \<forall>p \<in> fst ` set (concat (map write_pieces rs)).
               contains_range ops m (fst p) (word_of_nat (length (snd p)))
           then Ok () else Err Dev_Unmapped)
    \<and> (r = Ok () \<longrightarrow> view (gm_backing m')
         = fold (\<lambda>p v. view_write v (fst p) (snd p)) rs (view (gm_backing m)))"
  using ram_backing.write_guest_memory_writes [OF assms(1-3)] assms(4)
  by (simp add: ram_backing.writes_def [OF assms(1)] split: if_splits)

theorem write_guest_memory_exact_witness:
  "\<exists>m'. write_guest_memory (win_backing (\<lambda>_. True)) [(17, [9, 8])] sample_memory = (Ok (), m')
     \<and> view_bytes (alloc_view (gm_backing m')) 17 3 = [9, 8, 4]"
proof -
  have wf: "alloc_wf (gm_backing sample_memory)" by (simp add: sample_memory_simps)
  obtain r m' where w: "write_guest_memory (win_backing (\<lambda>_. True)) [(17, [9, 8])] sample_memory = (r, m')"
    by fastforce
  note spec = write_guest_memory_exact [OF win.ram_backing_axioms wf _ w]
  have "contains_range (win_backing (\<lambda>_. True)) sample_memory 17 2" by (simp add: sample_memory_simps)
  with spec have r: "r = Ok ()"
      and v: "alloc_view (gm_backing m') = view_write (alloc_view (gm_backing sample_memory)) 17 [9, 8]"
    by (simp_all add: write_pieces_def chunks_take)
  have "view_bytes (alloc_view (gm_backing m')) 17 3 = [9, 8, 4]"
    by (simp add: v view_bytes_def view_write_def upt_rec)
      (simp add: sample_memory_simps)
  with w r show ?thesis by blast
qed

end
