(* ===== verification/Split_Ring.thy ===== *)
theory Split_Ring
  imports Virtio_Mmio Guest_Copy
begin

unbundle bit_operations_syntax

text \<open>
  Split virtqueues in guest memory (\<open>components/device-transport/src/lib.rs\<close>): reading the
  available ring, walking a descriptor chain, publishing a used entry. The rings belong to the guest,
  so every value read here is arbitrary.
\<close>

section \<open>Operations\<close>

fun mmio_device_error :: "mmio_error \<Rightarrow> device_error" where
  "mmio_device_error Mmio_Unmapped = Dev_Unmapped"
| "mmio_device_error Mmio_BadQueue = Dev_BadQueue"
| "mmio_device_error Mmio_NotReady = Dev_NotReady"
| "mmio_device_error Mmio_BadLen = Dev_BadLen"
| "mmio_device_error Mmio_Unaligned = Dev_BadLen"
| "mmio_device_error Mmio_BadFeatures = Dev_BadLen"
| "mmio_device_error Mmio_BadStatus = Dev_BadLen"
| "mmio_device_error Mmio_ReadOnly = Dev_BadLen"

datatype split_ring_error = BadDescriptor | ChainTooLong

fun ring_device_error :: "split_ring_error \<Rightarrow> device_error" where
  "ring_device_error BadDescriptor = Dev_BadLen"
| "ring_device_error ChainTooLong = Dev_TooLarge"

text \<open>The number of pending entries and the possibly resynchronised position.\<close>

definition resync_pending_queue_entries :: "u16 \<Rightarrow> u16 \<Rightarrow> u16 \<Rightarrow> u16 \<times> u16" where
  "resync_pending_queue_entries next available sz =
     (let count = available - next in
      if sz \<noteq> 0 \<and> count \<le> sz then (count, next) else (0, available))"

definition ring_address :: "u64 \<Rightarrow> u64 \<Rightarrow> mmio_error + u64" where
  "ring_address base offset = ok_or Mmio_Unmapped (checked_add base offset)"

definition read_ring_index ::
  "(mmio_error \<Rightarrow> 'e) \<Rightarrow> (u64 \<Rightarrow> u64 \<Rightarrow> 'e + bytes) \<Rightarrow> u64 \<Rightarrow> 'e + u16" where
  "read_ring_index conv read address =
     and_then (read address 2) (\<lambda>bs.
       if length bs = 2 then Ok (from_le_u16 bs) else Err (conv Mmio_BadLen))"

definition read_split_ring_available ::
  "(mmio_error \<Rightarrow> 'e) \<Rightarrow> (u64 \<Rightarrow> u64 \<Rightarrow> 'e + bytes) \<Rightarrow> u64 \<Rightarrow> u16 \<Rightarrow> u16
   \<Rightarrow> ('e + (u16 \<times> u16 option)) \<times> u16" where
  "read_split_ring_available conv read available_ring sz next =
     (if sz = 0 then (Err (conv Mmio_BadQueue), next)
      else case and_then (map_err conv (ring_address available_ring 2)) (read_ring_index conv read) of
          Inl e \<Rightarrow> (Err e, next)
        | Inr available \<Rightarrow>
            (case resync_pending_queue_entries next available sz of (count, next') \<Rightarrow>
               if count = 0 then (Ok (available, None), next')
               else let offset = 4 + ucast (next' mod sz) * 2 in
                 (and_then (and_then (map_err conv (ring_address available_ring offset))
                     (read_ring_index conv read)) (\<lambda>head. Ok (available, Some head)), next')))"

definition complete_split_ring_entry ::
  "(mmio_error \<Rightarrow> 'e) \<Rightarrow> ('s \<Rightarrow> u64 \<Rightarrow> u64 \<Rightarrow> 'e + bytes) \<Rightarrow> (u64 \<Rightarrow> bytes \<Rightarrow> 's \<Rightarrow> ('e + unit) \<times> 's)
   \<Rightarrow> u64 \<Rightarrow> u16 \<Rightarrow> u16 \<Rightarrow> u32 \<Rightarrow> 's \<Rightarrow> ('e + unit) \<times> 's" where
  "complete_split_ring_entry conv read write used_ring sz head len s =
     (if sz = 0 then (Err (conv Mmio_BadQueue), s)
      else case and_then (map_err conv (ring_address used_ring 2)) (read_ring_index conv (read s)) of
          Inl e \<Rightarrow> (Err e, s)
        | Inr index \<Rightarrow>
            (case map_err conv (ring_address used_ring (4 + ucast (index mod sz) * 8)) of
               Inl e \<Rightarrow> (Err e, s)
             | Inr slot \<Rightarrow>
                 (let entry = to_le_u32 (ucast head) @ to_le_u32 len in
                  case write slot entry s of
                    (Inl e, s') \<Rightarrow> (Err e, s')
                  | (Inr _, s') \<Rightarrow>
                      (case map_err conv (ring_address used_ring 2) of
                         Inl e \<Rightarrow> (Err e, s')
                       | Inr address \<Rightarrow> write address (to_le_u16 (index + 1)) s'))))"

definition SPLIT_RING_DESC_F_NEXT :: u16 where "SPLIT_RING_DESC_F_NEXT = 1"
definition SPLIT_RING_DESC_F_WRITE :: u16 where "SPLIT_RING_DESC_F_WRITE = 2"

record split_ring_descriptor =
  d_addr :: u64
  d_len :: u32
  d_flags :: u16
  d_next :: u16

definition parse_descriptor :: "bytes \<Rightarrow> split_ring_descriptor" where
  "parse_descriptor bs =
     \<lparr>d_addr = from_le_u64 (take 8 bs), d_len = from_le_u32 (take 4 (drop 8 bs)),
      d_flags = from_le_u16 (take 2 (drop 12 bs)), d_next = from_le_u16 (take 2 (drop 14 bs))\<rparr>"

text \<open>The loop of \<open>split_ring_chain\<close>; the fuel is the source's bound on the iterations.\<close>

fun split_ring_chain_loop ::
  "bytes \<Rightarrow> u16 \<Rightarrow> u16 \<Rightarrow> nat \<Rightarrow> u16 \<Rightarrow> bool list \<Rightarrow> split_ring_descriptor list
   \<Rightarrow> split_ring_error + split_ring_descriptor list" where
  "split_ring_chain_loop table sz allowed_flags 0 index visited chain = Err ChainTooLong"
| "split_ring_chain_loop table sz allowed_flags (Suc n) index visited chain =
     (if index \<ge> sz \<or> visited ! unat index then Err BadDescriptor
      else let visited' = visited[unat index := True];
               offset = unat index * SPLIT_RING_DESCRIPTOR_BYTES in
        case slice table offset (offset + SPLIT_RING_DESCRIPTOR_BYTES) of
          None \<Rightarrow> Err BadDescriptor
        | Some bs \<Rightarrow>
          (let descriptor = parse_descriptor bs in
           if d_flags descriptor AND NOT allowed_flags \<noteq> 0 then Err BadDescriptor
           else if d_flags descriptor AND SPLIT_RING_DESC_F_NEXT = 0 then Ok (chain @ [descriptor])
           else if d_next descriptor \<ge> sz \<or> visited' ! unat (d_next descriptor) then Err BadDescriptor
           else split_ring_chain_loop table sz allowed_flags n (d_next descriptor) visited'
                  (chain @ [descriptor])))"

definition split_ring_chain ::
  "bytes \<Rightarrow> u16 \<Rightarrow> u16 \<Rightarrow> nat \<Rightarrow> u16 \<Rightarrow> split_ring_error + split_ring_descriptor list" where
  "split_ring_chain table index sz max_descriptors allowed_flags =
     (if sz = 0 \<or> max_descriptors = 0 then Err BadDescriptor
      else split_ring_chain_loop table sz allowed_flags max_descriptors index
             (replicate (unat sz) False) [])"

section \<open>Descriptor chains\<close>

definition descriptor_at :: "bytes \<Rightarrow> u16 \<Rightarrow> split_ring_descriptor" where
  "descriptor_at table i = parse_descriptor (take 16 (drop (16 * unat i) table))"

definition good_descriptor :: "bytes \<Rightarrow> u16 \<Rightarrow> u16 \<Rightarrow> u16 \<Rightarrow> bool" where
  "good_descriptor table sz allowed i \<longleftrightarrow>
     i < sz \<and> 16 * unat i + 16 \<le> length table
     \<and> d_flags (descriptor_at table i) AND NOT allowed = 0"

definition has_next :: "bytes \<Rightarrow> u16 \<Rightarrow> bool" where
  "has_next table i \<longleftrightarrow> d_flags (descriptor_at table i) AND SPLIT_RING_DESC_F_NEXT \<noteq> 0"

text \<open>A chain of descriptor indices as the virtio specification defines it.\<close>

fun is_chain :: "bytes \<Rightarrow> u16 \<Rightarrow> u16 \<Rightarrow> u16 list \<Rightarrow> bool" where
  "is_chain table sz allowed [] = False"
| "is_chain table sz allowed [i] = (good_descriptor table sz allowed i \<and> \<not> has_next table i)"
| "is_chain table sz allowed (i # j # js) =
     (good_descriptor table sz allowed i \<and> has_next table i
      \<and> d_next (descriptor_at table i) = j \<and> is_chain table sz allowed (j # js))"

lemma is_chain_good: "is_chain table sz allowed is \<Longrightarrow> i \<in> set is \<Longrightarrow> i < sz"
  by (induction table sz allowed "is" rule: is_chain.induct) (auto simp: good_descriptor_def)

lemma is_chain_Cons:
  "is_chain table sz allowed (i # js) \<longleftrightarrow> good_descriptor table sz allowed i
     \<and> (if has_next table i then js \<noteq> [] \<and> hd js = d_next (descriptor_at table i) \<and> is_chain table sz allowed js
        else js = [])"
  by (cases js) auto

lemma slice_descriptor:
  "slice table (unat i * SPLIT_RING_DESCRIPTOR_BYTES)
      (unat i * SPLIT_RING_DESCRIPTOR_BYTES + SPLIT_RING_DESCRIPTOR_BYTES) =
   (if 16 * unat i + 16 \<le> length table then Some (take 16 (drop (16 * unat i) table)) else None)"
  by (simp add: slice_def SPLIT_RING_DESCRIPTOR_BYTES_def mult.commute)

lemma split_ring_chain_loop_step:
  assumes "index < sz" and "\<not> visited ! unat index"
  shows "split_ring_chain_loop table sz allowed (Suc n) index visited chain =
    (if \<not> good_descriptor table sz allowed index then Err BadDescriptor
     else if \<not> has_next table index then Ok (chain @ [descriptor_at table index])
     else if d_next (descriptor_at table index) \<ge> sz
        \<or> visited[unat index := True] ! unat (d_next (descriptor_at table index)) then Err BadDescriptor
     else split_ring_chain_loop table sz allowed n (d_next (descriptor_at table index))
        (visited[unat index := True]) (chain @ [descriptor_at table index]))"
proof -
  from assms(1) have "\<not> sz \<le> index" by simp
  with assms show ?thesis
    by (simp add: Let_def slice_descriptor good_descriptor_def has_next_def descriptor_at_def)
qed

lemma visited_update:
  assumes "length visited = unat sz" and "i < sz" and "j < sz"
  shows "visited[unat i := True] ! unat j \<longleftrightarrow> j = i \<or> visited ! unat j"
  using assms by (auto simp: nth_list_update word_unat_eq_iff word_less_nat_alt)

lemma split_ring_chain_loop_sound:
  assumes "split_ring_chain_loop table sz allowed n index visited chain = Ok c"
    and "length visited = unat sz"
  shows "\<exists>is. is_chain table sz allowed is \<and> hd is = index \<and> distinct is
       \<and> (\<forall>i \<in> set is. \<not> visited ! unat i) \<and> length is \<le> n
       \<and> c = chain @ map (descriptor_at table) is"
  using assms
proof (induction n arbitrary: index visited chain)
  case (Suc n)
  let ?d = "descriptor_at table index" and ?v = "visited[unat index := True]"
  from Suc.prems(1) have idx: "index < sz" "\<not> visited ! unat index"
    by (auto split: if_splits)
  note step = Suc.prems(1) [unfolded split_ring_chain_loop_step [OF idx]]
  then have good: "good_descriptor table sz allowed index" by (auto split: if_splits)
  show ?case
  proof (cases "has_next table index")
    case False
    with step good idx show ?thesis
      by (intro exI [of _ "[index]"]) simp
  next
    case True
    with step good have "split_ring_chain_loop table sz allowed n (d_next ?d) ?v (chain @ [?d]) = Ok c"
      by (simp split: if_splits)
    from Suc.IH [OF this] Suc.prems(2) obtain "is" where js: "is_chain table sz allowed is"
        "hd is = d_next ?d" "distinct is" "\<forall>i \<in> set is. \<not> ?v ! unat i" "length is \<le> n"
        "c = (chain @ [?d]) @ map (descriptor_at table) is"
      by auto
    have "\<forall>i \<in> set is. i \<noteq> index \<and> \<not> visited ! unat i"
      using js(1,4) visited_update [OF Suc.prems(2) idx(1)] is_chain_good by blast
    with js True good idx show ?thesis
      by (intro exI [of _ "index # is"]) (auto simp: is_chain_Cons)
  qed
qed simp

lemma split_ring_chain_loop_complete:
  assumes "is_chain table sz allowed is" and "distinct is" and "\<forall>i \<in> set is. \<not> visited ! unat i"
    and "length is \<le> n" and "length visited = unat sz"
  shows "split_ring_chain_loop table sz allowed n (hd is) visited chain
    = Ok (chain @ map (descriptor_at table) is)"
  using assms
proof (induction "is" arbitrary: n visited chain)
  case (Cons i js)
  let ?d = "descriptor_at table i" and ?v = "visited[unat i := True]"
  have idx: "i < sz" "\<not> visited ! unat i"
    using Cons.prems is_chain_good by auto
  obtain k where n: "n = Suc k" using Cons.prems(4) by (cases n) auto
  show ?case
  proof (cases "has_next table i")
    case False
    with Cons.prems(1) show ?thesis
      unfolding n list.sel split_ring_chain_loop_step [OF idx] by (simp add: is_chain_Cons)
  next
    case True
    with Cons.prems(1) have js: "is_chain table sz allowed js" "js \<noteq> []" "hd js = d_next ?d"
        "good_descriptor table sz allowed i"
      by (auto simp: is_chain_Cons)
    have unv: "\<forall>j \<in> set js. \<not> ?v ! unat j"
      using Cons.prems(2,3,5) visited_update [OF Cons.prems(5) idx(1)] is_chain_good [OF js(1)] by auto
    have "d_next ?d \<in> set js" using js(2,3) by (metis hd_in_set)
    then have "\<not> sz \<le> d_next ?d" "\<not> ?v ! unat (d_next ?d)"
      using unv is_chain_good [OF js(1)] by (auto simp: not_le)
    moreover have "split_ring_chain_loop table sz allowed k (d_next ?d) ?v (chain @ [?d])
        = Ok ((chain @ [?d]) @ map (descriptor_at table) js)"
      using Cons.IH [OF js(1) _ unv] Cons.prems n js(3) by simp
    ultimately show ?thesis
      unfolding n list.sel split_ring_chain_loop_step [OF idx] using True js by simp
  qed
qed simp

text \<open>C7: The walk of a descriptor chain succeeds exactly on the well-formed chains: the result is
  the descriptors at a sequence of distinct indices below the queue size, inside the table, with only
  allowed flags, linked by their \<open>next\<close> fields, ending at the first descriptor without the NEXT flag,
  and no longer than the caller's bound.\<close>

theorem split_ring_chain_exact:
  "split_ring_chain table index sz max_descriptors allowed = Ok chain \<longleftrightarrow>
    (\<exists>is. is_chain table sz allowed is \<and> hd is = index \<and> distinct is
       \<and> length is \<le> max_descriptors \<and> chain = map (descriptor_at table) is)"
proof -
  let ?v = "replicate (unat sz) False"
  have unv: "\<forall>i \<in> set is. \<not> ?v ! unat i" if "is_chain table sz allowed is" for "is"
    using is_chain_good [OF that] by (auto simp: word_less_nat_alt)
  have pos: "sz \<noteq> 0 \<and> max_descriptors \<noteq> 0"
    if "is_chain table sz allowed is" "length is \<le> max_descriptors" for "is"
    using that is_chain_good [OF that(1), of "hd is"] by (cases "is") auto
  show ?thesis
  proof
    assume "split_ring_chain table index sz max_descriptors allowed = Ok chain"
    then show "\<exists>is. is_chain table sz allowed is \<and> hd is = index \<and> distinct is
       \<and> length is \<le> max_descriptors \<and> chain = map (descriptor_at table) is"
      using split_ring_chain_loop_sound [of table sz allowed max_descriptors index ?v "[]" chain]
      by (auto simp: split_ring_chain_def split: if_splits)
  next
    assume "\<exists>is. is_chain table sz allowed is \<and> hd is = index \<and> distinct is
       \<and> length is \<le> max_descriptors \<and> chain = map (descriptor_at table) is"
    then show "split_ring_chain table index sz max_descriptors allowed = Ok chain"
      using split_ring_chain_loop_complete [of table sz allowed _ ?v max_descriptors "[]"] unv pos
      by (auto simp: split_ring_chain_def)
  qed
qed

section \<open>The available ring is a queue\<close>

definition u16_at :: "byte_view \<Rightarrow> u64 \<Rightarrow> u16" where
  "u16_at v a = from_le_u16 (view_bytes v a 2)"

definition avail_entry :: "byte_view \<Rightarrow> u64 \<Rightarrow> u16 \<Rightarrow> u16 \<Rightarrow> u16" where
  "avail_entry v ring sz j = u16_at v (ring + (4 + ucast (j mod sz) * 2))"

text \<open>The heads the guest has published and the device has not taken, oldest first.\<close>

definition pending :: "byte_view \<Rightarrow> u64 \<Rightarrow> u16 \<Rightarrow> u16 \<Rightarrow> u16 list" where
  "pending v ring sz nxt =
     (let count = u16_at v (ring + 2) - nxt in
      if count \<le> sz then map (\<lambda>i. avail_entry v ring sz (nxt + word_of_nat i)) [0..<unat count] else [])"

text \<open>How the devices read a ring word: any host error becomes \<open>bad-len\<close>.\<close>

definition device_ring_read :: "'b backing_ops \<Rightarrow> 'b guest_memory \<Rightarrow> u64 \<Rightarrow> u64 \<Rightarrow> device_error + bytes" where
  "device_ring_read ops m address len = map_err (\<lambda>_. Dev_BadLen) (host_read ops m address len)"

definition avail_mapped :: "'b backing_ops \<Rightarrow> 'b guest_memory \<Rightarrow> u64 \<Rightarrow> u16 \<Rightarrow> bool" where
  "avail_mapped ops m ring sz \<longleftrightarrow> unat ring + 4 + 2 * unat sz < 2 ^ 64
     \<and> contains_range ops m (ring + 2) 2
     \<and> (\<forall>k < sz. contains_range ops m (ring + (4 + ucast k * 2)) 2)"

lemma pending_split:
  assumes "u16_at v (ring + 2) - nxt \<le> sz" and "u16_at v (ring + 2) \<noteq> nxt"
  shows "pending v ring sz nxt = avail_entry v ring sz nxt # pending v ring sz (nxt + 1)"
proof -
  let ?c = "u16_at v (ring + 2) - nxt"
  have pos: "0 < unat ?c" using assms(2) by (simp add: unat_gt_0)
  have dec: "u16_at v (ring + 2) - (nxt + 1) = ?c - 1" by simp
  have uc: "unat (?c - 1) = unat ?c - 1"
    using pos by (simp add: unat_sub word_le_nat_alt)
  have le: "?c - 1 \<le> sz" using assms(1) uc by (simp add: word_le_nat_alt)
  have "[0..<unat ?c] = 0 # map Suc [0..<unat ?c - 1]"
    using pos by (metis map_Suc_upt Suc_diff_1 upt_conv_Cons)
  then show ?thesis
    using assms(1) le by (simp add: pending_def Let_def dec uc comp_def add.assoc)
qed

lemma ucast_mod_offset:
  fixes j sz :: u16
  assumes "sz \<noteq> 0" and "unat c \<le> 8"
  shows "j mod sz < sz" and "unat (4 + ucast (j mod sz) * c :: u64) = 4 + unat (j mod sz) * unat c"
proof -
  show lt: "j mod sz < sz"
    using assms(1) by (simp add: word_less_nat_alt unat_mod_distrib unat_gt_0)
  have "unat (j mod sz) < 65536" using unat_lt_pow [of "j mod sz"] by simp
  then have "unat (j mod sz) * unat c < 65536 * 9"
    using assms(2) by (intro mult_strict_mono) auto
  then show "unat (4 + ucast (j mod sz) * c :: u64) = 4 + unat (j mod sz) * unat c"
    by (simp add: unat_word_ariths)
qed

context ram_backing
begin

lemma read_index_eq:
  assumes "wf (gm_backing m)" and "contains_range ops m a 2"
  shows "read_ring_index conv (device_ring_read ops m) a = Ok (u16_at (gview m) a)"
  using assms by (simp add: read_ring_index_def device_ring_read_def host_read_def bounded_read_eq
      MAX_SINGLE_GUEST_COPY_BYTES_def u16_at_def)

lemma read_available_eq:
  assumes good: "wf (gm_backing m)" and sz: "sz \<noteq> 0" and map: "avail_mapped ops m ring sz"
  shows "read_split_ring_available conv (device_ring_read ops m) ring sz nxt =
    (let avail = u16_at (gview m) (ring + 2); count = avail - nxt in
     if count = 0 then (Ok (avail, None), nxt)
     else if count \<le> sz then (Ok (avail, Some (avail_entry (gview m) ring sz nxt)), nxt)
     else (Ok (avail, None), avail))"
proof -
  have a2: "ring_address ring 2 = Ok (ring + 2)"
    using map by (simp add: ring_address_def checked_add_def avail_mapped_def)
  note off = ucast_mod_offset [OF sz, of 2 nxt]
  have "unat ring + (4 + unat (nxt mod sz) * 2) < 2 ^ 64"
    using map off(1) by (simp add: avail_mapped_def word_less_nat_alt)
  then have ae: "ring_address ring (4 + ucast (nxt mod sz) * 2) = Ok (ring + (4 + ucast (nxt mod sz) * 2))"
    using off(2) by (simp add: ring_address_def checked_add_def)
  have "contains_range ops m (ring + 2) 2" "contains_range ops m (ring + (4 + ucast (nxt mod sz) * 2)) 2"
    using map off(1) by (auto simp: avail_mapped_def)
  then show ?thesis
    using sz by (simp add: read_split_ring_available_def a2 ae read_index_eq [OF good]
        resync_pending_queue_entries_def Let_def avail_entry_def)
qed

end

text \<open>C29: On a mapped available ring, whatever the guest stored there, the device sees a queue: it is
  given the oldest pending head, or none when nothing is pending; a guest index that jumped ahead by
  more than the ring holds drops the backlog; and moving on by one entry leaves exactly the rest of
  the queue.\<close>

theorem available_ring_is_queue:
  assumes "ram_backing ops good view" and "good (gm_backing m)"
    and "sz \<noteq> 0" and "avail_mapped ops m ring sz"
    and "read_split_ring_available mmio_device_error (device_ring_read ops m) ring sz nxt = (r, nxt')"
  shows "r = Ok (u16_at (view (gm_backing m)) (ring + 2),
             case pending (view (gm_backing m)) ring sz nxt of [] \<Rightarrow> None | head # _ \<Rightarrow> Some head)
    \<and> pending (view (gm_backing m)) ring sz nxt' = pending (view (gm_backing m)) ring sz nxt
    \<and> (pending (view (gm_backing m)) ring sz nxt \<noteq> [] \<longrightarrow>
        pending (view (gm_backing m)) ring sz (nxt' + 1) = tl (pending (view (gm_backing m)) ring sz nxt))"
proof -
  let ?v = "view (gm_backing m)"
  let ?avail = "u16_at ?v (ring + 2)"
  note eq = ram_backing.read_available_eq [OF assms(1-4), of mmio_device_error "nxt", unfolded assms(5)]
  have nil: "pending ?v ring sz ?avail = []" by (simp add: pending_def)
  show ?thesis
  proof (cases "?avail - nxt = 0 \<or> \<not> ?avail - nxt \<le> sz")
    case True
    then have "pending ?v ring sz nxt = []" by (auto simp: pending_def)
    with True eq nil show ?thesis by (auto simp: Let_def split: if_splits)
  next
    case False
    then show ?thesis
      using eq pending_split [of ?v ring "nxt" sz] by (simp add: Let_def)
  qed
qed

section \<open>Publishing a used entry\<close>

definition device_ring_write ::
  "'b backing_ops \<Rightarrow> u64 \<Rightarrow> bytes \<Rightarrow> 'b guest_memory \<Rightarrow> (device_error + unit) \<times> 'b guest_memory" where
  "device_ring_write ops address bs m = map_write_err (\<lambda>_. Dev_BadLen) (host_write ops address bs m)"

definition used_mapped :: "'b backing_ops \<Rightarrow> 'b guest_memory \<Rightarrow> u64 \<Rightarrow> u16 \<Rightarrow> bool" where
  "used_mapped ops m ring sz \<longleftrightarrow> unat ring + 4 + 8 * unat sz < 2 ^ 64
     \<and> contains_range ops m (ring + 2) 2
     \<and> (\<forall>k < sz. contains_range ops m (ring + (4 + ucast k * 8)) 8)"

definition used_slot :: "u64 \<Rightarrow> u16 \<Rightarrow> u16 \<Rightarrow> u64" where
  "used_slot ring sz index = ring + (4 + ucast (index mod sz) * 8)"

context ram_backing
begin

lemma ring_write_ok:
  assumes "wf (gm_backing m)" and "length d \<le> 16384" and "contains_range ops m a (word_of_nat (length d))"
  shows "\<exists>b'. device_ring_write ops a d m = (Ok (), m\<lparr>gm_backing := b'\<rparr>) \<and> wf b'
        \<and> view b' = view_write (gview m) a d
        \<and> contains_range ops (m\<lparr>gm_backing := b'\<rparr>) = contains_range ops m"
  using bounded_write_ok [OF assms]
  by (auto simp: device_ring_write_def host_write_def map_write_err_def)

lemma complete_eq:
  assumes good: "wf (gm_backing m)" and sz: "sz \<noteq> 0" and map: "used_mapped ops m ring sz"
  shows "\<exists>b'. complete_split_ring_entry conv (device_ring_read ops) (device_ring_write ops) ring sz head len m
        = (Ok (), m\<lparr>gm_backing := b'\<rparr>)
      \<and> wf b' \<and> contains_range ops (m\<lparr>gm_backing := b'\<rparr>) = contains_range ops m
      \<and> view b' = view_write (view_write (gview m) (used_slot ring sz (u16_at (gview m) (ring + 2)))
              (to_le_u32 (ucast head) @ to_le_u32 len))
            (ring + 2) (to_le_u16 (u16_at (gview m) (ring + 2) + 1))"
proof -
  let ?idx = "u16_at (gview m) (ring + 2)"
  let ?slot = "used_slot ring sz ?idx" and ?e = "to_le_u32 (ucast head) @ to_le_u32 len"
  have a2: "ring_address ring 2 = Ok (ring + 2)"
    using map by (simp add: ring_address_def checked_add_def used_mapped_def)
  note off = ucast_mod_offset [OF sz, of 8 ?idx]
  have "unat ring + (4 + unat (?idx mod sz) * 8) < 2 ^ 64"
    using map off(1) by (simp add: used_mapped_def word_less_nat_alt)
  then have as: "ring_address ring (4 + ucast (?idx mod sz) * 8) = Ok ?slot"
    using off(2) by (simp add: ring_address_def checked_add_def used_slot_def)
  have c: "contains_range ops m (ring + 2) 2" "contains_range ops m ?slot (word_of_nat (length ?e))"
    using map off(1) by (auto simp: used_mapped_def used_slot_def)
  obtain b1 where b1: "device_ring_write ops ?slot ?e m = (Ok (), m\<lparr>gm_backing := b1\<rparr>)" "wf b1"
      "view b1 = view_write (gview m) ?slot ?e"
      "contains_range ops (m\<lparr>gm_backing := b1\<rparr>) = contains_range ops m"
    using ring_write_ok [OF good _ c(2)] by auto
  obtain b2 where "device_ring_write ops (ring + 2) (to_le_u16 (?idx + 1)) (m\<lparr>gm_backing := b1\<rparr>)
        = (Ok (), m\<lparr>gm_backing := b2\<rparr>)" "wf b2"
      "view b2 = view_write (view b1) (ring + 2) (to_le_u16 (?idx + 1))"
      "contains_range ops (m\<lparr>gm_backing := b2\<rparr>) = contains_range ops m"
    using ring_write_ok [of "m\<lparr>gm_backing := b1\<rparr>" "to_le_u16 (?idx + 1)" "ring + 2"] b1 c(1) by auto
  with b1 show ?thesis
    using sz by (intro exI [of _ b2])
      (simp add: complete_split_ring_entry_def a2 as read_index_eq [OF good c(1)] Let_def)
qed

end

lemma used_slot_bounds:
  assumes "sz \<noteq> 0" and "unat ring + 4 + 8 * unat sz < 2 ^ 64"
  shows "unat (used_slot ring sz index) = unat ring + 4 + 8 * unat (index mod sz)"
    and "unat (used_slot ring sz index) + 8 < 2 ^ 64" and "unat (ring + 2) = unat ring + 2"
proof -
  note off = ucast_mod_offset [OF assms(1), of 8 index]
  have lt: "unat (index mod sz) < unat sz" using off(1) by (simp add: word_less_nat_alt)
  then show eq: "unat (used_slot ring sz index) = unat ring + 4 + 8 * unat (index mod sz)"
    using off(2) assms(2) unfolding used_slot_def by (subst unat_add_no_wrap) auto
  show "unat (used_slot ring sz index) + 8 < 2 ^ 64" using eq lt assms(2) by simp
  show "unat (ring + 2) = unat ring + 2"
    using assms(2) by (subst unat_add_no_wrap) auto
qed

text \<open>Completing a request on a mapped used ring succeeds and publishes it: the slot at the old
  used index holds the descriptor head and the length, the used index is one higher, and no other byte
  of guest memory changes.\<close>

lemma used_entry_published:
  assumes "ram_backing ops good view" and "good (gm_backing m)"
    and "sz \<noteq> 0" and "used_mapped ops m ring sz"
    and "complete_split_ring_entry mmio_device_error (device_ring_read ops) (device_ring_write ops)
        ring sz head len m = (r, m')"
  defines "old \<equiv> view (gm_backing m)" and "new \<equiv> view (gm_backing m')"
  shows "r = Ok () \<and> good (gm_backing m') \<and> contains_range ops m' = contains_range ops m
    \<and> u16_at new (ring + 2) = u16_at old (ring + 2) + 1
    \<and> view_bytes new (used_slot ring sz (u16_at old (ring + 2))) 8 = to_le_u32 (ucast head) @ to_le_u32 len
    \<and> (unat (x - (ring + 2)) \<ge> 2 \<and> unat (x - used_slot ring sz (u16_at old (ring + 2))) \<ge> 8 \<longrightarrow> new x = old x)"
proof -
  let ?idx = "u16_at old (ring + 2)"
  let ?e = "to_le_u32 (ucast head) @ to_le_u32 len"
  from ram_backing.complete_eq [OF assms(1-4), of mmio_device_error head len] assms(5)
  have res: "r = Ok ()" "good (gm_backing m')" "contains_range ops m' = contains_range ops m"
    and new: "new = view_write (view_write old (used_slot ring sz ?idx) ?e) (ring + 2) (to_le_u16 (?idx + 1))"
    by (auto simp: old_def new_def)
  have fit: "unat ring + 4 + 8 * unat sz < 2 ^ 64" using assms(4) by (simp add: used_mapped_def)
  note b = used_slot_bounds(1,2) [OF assms(3) fit, of ?idx] used_slot_bounds(3) [OF assms(3) fit]
  have "u16_at new (ring + 2) = ?idx + 1"
    using view_bytes_write_same [of "to_le_u16 (?idx + 1)"] by (simp add: new u16_at_def)
  moreover have "view_bytes new (used_slot ring sz ?idx) 8 = ?e"
    using view_bytes_write_other [of "ring + 2" "to_le_u16 (?idx + 1)" "used_slot ring sz ?idx" 8]
      view_bytes_write_same [of ?e] b by (simp add: new)
  ultimately show ?thesis
    using res by (auto simp: new view_write_def)
qed

section \<open>Witnesses\<close>

definition ring_memory :: "allocation list guest_memory" where
  "ring_memory = \<lparr>gm_backing = [\<lparr>al_guest_base = 0x1000,
       al_mem = [0, 0, 1, 0, 5, 0, 0, 0, 0, 0, 0, 0, 0, 0, 0, 0, 0, 0, 0, 0, 0, 0, 0, 0,
                 0, 0, 0, 0, 0, 0, 0, 0, 0, 0, 0, 0]\<rparr>], gm_limit = 0x1024\<rparr>"

lemma ring_memory_contains:
  "contains_range (win_backing valloc) ring_memory a n \<longleftrightarrow>
     unat a + unat n < 2 ^ 64 \<and> 0x1000 \<le> a \<and> a + n \<le> 0x1024"
  by (auto simp: ring_memory_def contains_range_def win_backing_def win_contains_def allocation_index_def
      list_position_simps al_limit_def checked_add_def)

lemma below_two_u16: "k < (2 :: u16) \<longleftrightarrow> k = 0 \<or> k = 1"
  by (auto simp: word_less_nat_alt word_unat_eq_iff)

lemma ring_memory_rings:
  "alloc_wf (gm_backing ring_memory)"
  "avail_mapped (win_backing valloc) ring_memory 0x1000 2"
  "used_mapped (win_backing valloc) ring_memory 0x1010 2"
  "u16_at (alloc_view (gm_backing ring_memory)) 0x1002 = 1"
  by (simp_all add: avail_mapped_def used_mapped_def ring_memory_contains below_two_u16)
    (simp_all add: ring_memory_def alloc_wf_def u16_at_def view_bytes_def upt_rec alloc_view_def
      alloc_at_def list_position_simps al_limit_def from_le_u16_def)

theorem available_ring_is_queue_witness:
  "\<exists>r nxt'. read_split_ring_available mmio_device_error (device_ring_read (win_backing (\<lambda>_. True)) ring_memory)
       0x1000 2 0 = (r, nxt')
     \<and> r = Ok (1, Some 5) \<and> pending (alloc_view (gm_backing ring_memory)) 0x1000 2 nxt' = [5]"
proof -
  obtain r nxt' where rd: "read_split_ring_available mmio_device_error
      (device_ring_read (win_backing (\<lambda>_. True)) ring_memory) 0x1000 2 0 = (r, nxt')"
    by fastforce
  have "pending (alloc_view (gm_backing ring_memory)) 0x1000 2 0 = [5]"
    by (simp add: pending_def ring_memory_rings avail_entry_def)
      (simp add: ring_memory_def u16_at_def view_bytes_def upt_rec alloc_view_def
        alloc_at_def list_position_simps al_limit_def from_le_u16_def)
  with available_ring_is_queue [OF win.ram_backing_axioms ring_memory_rings(1) _ ring_memory_rings(2) rd]
    rd show ?thesis by (simp add: ring_memory_rings)
qed

end
