(* ===== verification/Doorbell.thy ===== *)
theory Doorbell
  imports Prelude
begin

unbundle bit_operations_syntax

text \<open>
  The \<open>Doorbell\<close> of \<open>components/device-transport/src/lib.rs\<close>: work bits coalesced from any number
  of ringers for one waiting task, and closure. The atomic accesses are separate steps, so ringers and
  the waiter interleave between them. The waker is the \<open>AtomicWaker\<close> of the \<open>futures\<close> crate: \<open>wake\<close>
  takes the registered waker, if any, and notifies its task.
\<close>

section \<open>State and atomic accesses\<close>

record doorbell =
  db_bits :: u32
  db_closed :: bool
  db_waker :: bool
  db_notified :: bool

definition doorbell_new :: doorbell where
  "doorbell_new = \<lparr>db_bits = 0, db_closed = False, db_waker = False, db_notified = False\<rparr>"

definition waker_wake :: "doorbell \<Rightarrow> doorbell" where
  "waker_wake d = (if db_waker d then d\<lparr>db_waker := False, db_notified := True\<rparr> else d)"

definition fetch_or_bits :: "u32 \<Rightarrow> doorbell \<Rightarrow> doorbell" where
  "fetch_or_bits b d = d\<lparr>db_bits := db_bits d OR b\<rparr>"

definition swap_closed :: "doorbell \<Rightarrow> bool \<times> doorbell" where
  "swap_closed d = (db_closed d, d\<lparr>db_closed := True\<rparr>)"

text \<open>\<open>ring\<close> and \<open>close\<close> as the sequences of their atomic accesses.\<close>

datatype access = Or_Bits u32 | Swap_Closed | Wake

primrec perform_access :: "access \<Rightarrow> doorbell \<Rightarrow> doorbell" where
  "perform_access (Or_Bits b) d = fetch_or_bits b d"
| "perform_access Swap_Closed d = snd (swap_closed d)"
| "perform_access Wake d = waker_wake d"

definition ring_program :: "u32 \<Rightarrow> access list" where
  "ring_program b = [Or_Bits b, Wake]"

definition close_program :: "access list" where
  "close_program = [Swap_Closed, Wake]"

definition ring :: "u32 \<Rightarrow> doorbell \<Rightarrow> doorbell" where
  "ring b d = fold perform_access (ring_program b) d"

definition db_close :: "doorbell \<Rightarrow> bool \<times> doorbell" where
  "db_close d = (fst (swap_closed d), fold perform_access close_program d)"

definition db_clear :: "doorbell \<Rightarrow> doorbell" where
  "db_clear d = d\<lparr>db_bits := 0\<rparr>"

definition db_reset :: "doorbell \<Rightarrow> doorbell" where
  "db_reset d = (db_clear d)\<lparr>db_closed := False\<rparr>"

definition db_take :: "doorbell \<Rightarrow> u32 \<times> doorbell" where
  "db_take d = (db_bits d, d\<lparr>db_bits := 0\<rparr>)"

definition register :: "doorbell \<Rightarrow> doorbell" where
  "register d = d\<lparr>db_waker := True, db_notified := False\<rparr>"

text \<open>\<open>None\<close> is \<open>Poll::Pending\<close>.\<close>

definition poll_result :: "u32 \<Rightarrow> doorbell \<Rightarrow> u32 option" where
  "poll_result b d = (if b \<noteq> 0 \<or> db_closed d then Some b else None)"

definition poll_wait :: "doorbell \<Rightarrow> u32 option \<times> doorbell" where
  "poll_wait d = (case db_take (register d) of (b, d') \<Rightarrow> (poll_result b d', d'))"

section \<open>Interleaved steps\<close>

datatype waiter = Idle | Registered | Taken u32 | Pending | Ready u32

text \<open>
  The doorbell, where the waiter is in \<open>poll_wait\<close>, what is left of every ring and close under way,
  and two ghosts: all bits ever rung and all bits ever handed to the waiter. \<open>reset\<close> and \<open>clear\<close>, which drop
  work on purpose, are not among the steps.
\<close>

record system =
  s_bell :: doorbell
  s_waiter :: waiter
  s_programs :: "access list list"
  s_rung :: u32
  s_seen :: u32

definition initial_system :: system where
  "initial_system = \<lparr>s_bell = doorbell_new, s_waiter = Idle, s_programs = [], s_rung = 0, s_seen = 0\<rparr>"

fun access_bits :: "access \<Rightarrow> u32" where
  "access_bits (Or_Bits b) = b"
| "access_bits _ = 0"

text \<open>The steps of the rings and closes under way and of the waiter; a pending waiter polls once it is notified.\<close>

inductive own_step :: "system \<Rightarrow> system \<Rightarrow> bool" where
  act: "s_programs s = ps @ (a # rest) # qs \<Longrightarrow>
    own_step s (s\<lparr>s_bell := perform_access a (s_bell s), s_programs := ps @ rest # qs, s_rung := s_rung s OR access_bits a\<rparr>)"
| poll: "s_waiter s = Idle \<or> s_waiter s = Pending \<and> db_notified (s_bell s) \<Longrightarrow>
    own_step s (s\<lparr>s_bell := register (s_bell s), s_waiter := Registered\<rparr>)"
| take_bits: "s_waiter s = Registered \<Longrightarrow>
    own_step s (s\<lparr>s_bell := snd (db_take (s_bell s)), s_waiter := Taken (fst (db_take (s_bell s)))\<rparr>)"
| check: "s_waiter s = Taken b \<Longrightarrow>
    own_step s (s\<lparr>s_waiter := (case poll_result b (s_bell s) of None \<Rightarrow> Pending | Some c \<Rightarrow> Ready c)\<rparr>)"

text \<open>New rings and closes, and the task taking what the waiter returned.\<close>

inductive bell_step :: "system \<Rightarrow> system \<Rightarrow> bool" where
  own: "own_step s s' \<Longrightarrow> bell_step s s'"
| start_ring: "bell_step s (s\<lparr>s_programs := ring_program b # s_programs s\<rparr>)"
| start_close: "bell_step s (s\<lparr>s_programs := close_program # s_programs s\<rparr>)"
| consume: "s_waiter s = Ready b \<Longrightarrow> bell_step s (s\<lparr>s_waiter := Idle, s_seen := s_seen s OR b\<rparr>)"

inductive_cases own_stepE: "own_step s s'"
inductive_cases bell_stepE: "bell_step s s'"

abbreviation "bell_reach \<equiv> bell_step\<^sup>*\<^sup>*"

text \<open>A poll that nothing interrupts is \<open>poll_wait\<close>.\<close>

lemma poll_wait_steps:
  assumes "s_waiter s = Idle" and "poll_wait (s_bell s) = (r, d)"
  shows "own_step\<^sup>*\<^sup>* s (s\<lparr>s_bell := d, s_waiter := (case r of None \<Rightarrow> Pending | Some b \<Rightarrow> Ready b)\<rparr>)"
proof -
  define s1 where "s1 = s\<lparr>s_bell := register (s_bell s), s_waiter := Registered\<rparr>"
  define s2 where "s2 = s1\<lparr>s_bell := snd (db_take (s_bell s1)), s_waiter := Taken (fst (db_take (s_bell s1)))\<rparr>"
  have "own_step s s1" unfolding s1_def by (rule poll) (simp add: assms)
  moreover have "own_step s1 s2" unfolding s2_def by (rule take_bits) (simp add: s1_def)
  moreover have "own_step s2 (s2\<lparr>s_waiter := (case poll_result (fst (db_take (s_bell s1))) (s_bell s2) of
      None \<Rightarrow> Pending | Some c \<Rightarrow> Ready c)\<rparr>)"
    by (rule check) (simp add: s2_def)
  moreover have "s2\<lparr>s_waiter := (case poll_result (fst (db_take (s_bell s1))) (s_bell s2) of None \<Rightarrow> Pending | Some c \<Rightarrow> Ready c)\<rparr>
      = s\<lparr>s_bell := d, s_waiter := (case r of None \<Rightarrow> Pending | Some b \<Rightarrow> Ready b)\<rparr>"
    using assms(2) by (simp add: poll_wait_def s2_def s1_def split: prod.splits)
  ultimately show ?thesis by (metis rtranclp.rtrancl_into_rtrancl rtranclp.rtrancl_refl)
qed

section \<open>No ring is lost\<close>

text \<open>The bits the waiter holds but has not handed on.\<close>

fun held_bits :: "waiter \<Rightarrow> u32" where
  "held_bits (Taken b) = b"
| "held_bits (Ready b) = b"
| "held_bits _ = 0"

definition accounted :: "system \<Rightarrow> bool" where
  "accounted s \<longleftrightarrow> s_rung s = s_seen s OR db_bits (s_bell s) OR held_bits (s_waiter s)"

definition program_ok :: "access list \<Rightarrow> bool" where
  "program_ok p \<longleftrightarrow> p = [] \<or> p = [Wake] \<or> p = close_program \<or> (\<exists>b. p = ring_program b)"

definition wake_inv :: "system \<Rightarrow> bool" where
  "wake_inv s \<longleftrightarrow>
     (\<forall>p \<in> set (s_programs s). program_ok p)
     \<and> (s_waiter s \<in> {Registered, Taken 0, Pending} \<longrightarrow> db_waker (s_bell s) \<or> db_notified (s_bell s))
     \<and> (s_waiter s \<in> {Taken 0, Pending} \<and> db_bits (s_bell s) \<noteq> 0 \<longrightarrow>
          db_notified (s_bell s) \<or> [Wake] \<in> set (s_programs s))
     \<and> (s_waiter s = Pending \<and> db_closed (s_bell s) \<longrightarrow> db_notified (s_bell s) \<or> [Wake] \<in> set (s_programs s))"

lemmas bell_defs = fetch_or_bits_def swap_closed_def waker_wake_def register_def db_take_def poll_result_def

lemma perform_access_simps [simp]:
  "db_bits (perform_access a d) = db_bits d OR access_bits a"
  "db_closed (perform_access a d) \<longleftrightarrow> db_closed d \<or> a = Swap_Closed"
  "db_notified (perform_access a d) \<longleftrightarrow> db_notified d \<or> a = Wake \<and> db_waker d"
  "db_waker (perform_access a d) \<longleftrightarrow> db_waker d \<and> a \<noteq> Wake"
  by (cases a; simp add: bell_defs)+

declare perform_access.simps [simp del]

lemma accounted_step: "bell_step s s' \<Longrightarrow> accounted s \<Longrightarrow> accounted s'"
  by (auto elim!: bell_stepE own_stepE
      simp: accounted_def register_def db_take_def poll_result_def or.assoc or.left_commute or.commute)

lemma program_ok_tail: "program_ok (a # rest) \<Longrightarrow> program_ok rest \<and> (a = Wake \<and> rest = [] \<or> a \<noteq> Wake \<and> rest = [Wake])"
  by (auto simp: program_ok_def close_program_def ring_program_def)

lemma wake_inv_own:
  assumes "own_step s s'" and "wake_inv s"
  shows "wake_inv s'"
  using assms(1)
proof cases
  case (act ps a rest qs)
  note inv = assms(2) [unfolded wake_inv_def act(2)]
  then have "program_ok (a # rest)" by simp
  note tail = program_ok_tail [OF this]
  have ok: "\<forall>p \<in> set (s_programs s'). program_ok p" using inv tail act(1) by auto
  have same: "s_waiter s' = s_waiter s" using act(1) by simp
  have waiting: "s_waiter s \<in> {Registered, Taken 0, Pending} \<longrightarrow> db_waker (s_bell s) \<or> db_notified (s_bell s)" using inv by blast
  have bell: "s_bell s' = perform_access a (s_bell s)" using act(1) by simp
  show ?thesis
  proof (cases "a = Wake")
    case True
    then have "s_waiter s \<in> {Registered, Taken 0, Pending} \<longrightarrow> db_notified (s_bell s')" using waiting bell by auto
    then show ?thesis unfolding wake_inv_def same using ok by blast
  next
    case False
    with tail act(1) have "[Wake] \<in> set (s_programs s')" by simp
    moreover from False waiting bell
    have "s_waiter s \<in> {Registered, Taken 0, Pending} \<longrightarrow> db_waker (s_bell s') \<or> db_notified (s_bell s')" by auto
    ultimately show ?thesis unfolding wake_inv_def same using ok by blast
  qed
next
  case (check b)
  with assms(2) show ?thesis by (auto simp: wake_inv_def poll_result_def)
qed (use assms(2) in \<open>auto simp: wake_inv_def register_def db_take_def\<close>)

lemma wake_inv_step:
  assumes "bell_step s s'" and "wake_inv s"
  shows "wake_inv s'"
  using assms(1)
proof cases
  case own
  then show ?thesis using assms(2) by (rule wake_inv_own)
qed (use assms(2) in \<open>auto simp: wake_inv_def program_ok_def\<close>)

lemma bell_reach_inv: "bell_reach initial_system s \<Longrightarrow> accounted s \<and> wake_inv s"
proof (induction rule: rtranclp_induct)
  case base
  show ?case by (simp add: accounted_def wake_inv_def initial_system_def doorbell_new_def)
next
  case (step s s')
  then show ?case using accounted_step wake_inv_step by blast
qed

text \<open>No ring is lost: in every interleaving of ringers and the waiter, the bits rung so far are
  exactly the bits handed to the waiter, those it is about to hand on and those still in the
  doorbell.\<close>

lemma rung_bits_accounted:
  assumes "bell_reach initial_system s"
  shows "s_rung s = s_seen s OR db_bits (s_bell s) OR held_bits (s_waiter s)"
  using bell_reach_inv [OF assms] by (simp add: accounted_def)

section \<open>No wakeup is lost\<close>

text \<open>How many steps the rings, closes and polls under way can still take.\<close>

fun waiter_steps :: "bool \<Rightarrow> waiter \<Rightarrow> nat" where
  "waiter_steps notified Idle = 3"
| "waiter_steps notified Registered = (if notified then 5 else 2)"
| "waiter_steps notified (Taken b) = (if notified then 4 else 1)"
| "waiter_steps notified Pending = (if notified then 3 else 0)"
| "waiter_steps notified (Ready b) = 0"

definition steps_left :: "system \<Rightarrow> nat" where
  "steps_left s = 4 * sum_list (map length (s_programs s)) + waiter_steps (db_notified (s_bell s)) (s_waiter s)"

lemma waiter_steps_notified: "waiter_steps n w \<le> waiter_steps m w + 3"
  by (cases w) simp_all

lemma own_step_decreases: "own_step s s' \<Longrightarrow> steps_left s' < steps_left s"
proof (erule own_stepE, goal_cases)
  case (1 ps a rest qs)
  then show ?case
    using waiter_steps_notified [of "db_notified (perform_access a (s_bell s))" "s_waiter s" "db_notified (s_bell s)"]
    by (simp add: steps_left_def)
qed (auto simp: steps_left_def register_def db_take_def poll_result_def)

lemma own_steps_bounded: "(own_step ^^ n) s s' \<Longrightarrow> n + steps_left s' \<le> steps_left s"
proof (induction n arbitrary: s')
  case (Suc n)
  then obtain t where "(own_step ^^ n) s t" "own_step t s'" by auto
  with Suc.IH own_step_decreases [of t s'] show ?case by fastforce
qed simp

text \<open>A waiter that is owed the bits \<open>b\<close>, or the closure.\<close>

definition owed :: "u32 \<Rightarrow> system \<Rightarrow> bool" where
  "owed b s \<longleftrightarrow> (b \<noteq> 0 \<or> db_closed (s_bell s))
     \<and> (case s_waiter s of
          Idle \<Rightarrow> False
        | Registered \<Rightarrow> db_bits (s_bell s) OR b = db_bits (s_bell s)
        | Pending \<Rightarrow> db_bits (s_bell s) OR b = db_bits (s_bell s)
        | Taken c \<Rightarrow> c OR b = c
        | Ready c \<Rightarrow> c OR b = c)"

lemma owed_nonzero: "(c :: u32) OR b = c \<Longrightarrow> b \<noteq> 0 \<Longrightarrow> c \<noteq> 0" by auto

lemma owed_step:
  assumes "own_step s s'" and "owed b s"
  shows "owed b s'"
  using assms(1)
proof cases
  case (act ps a rest qs)
  then show ?thesis using assms(2)
    by (cases "s_waiter s") (auto simp: owed_def or.assoc, (metis or.assoc or.commute)+)
next
  case (check c)
  with assms(2) owed_nonzero [of c b] show ?thesis by (auto simp: owed_def poll_result_def)
qed (use assms(2) in \<open>auto simp: owed_def register_def db_take_def\<close>)

lemma own_steps_owed: "own_step\<^sup>*\<^sup>* s s' \<Longrightarrow> wake_inv s \<Longrightarrow> owed b s \<Longrightarrow> wake_inv s' \<and> owed b s'"
  by (induction rule: rtranclp_induct) (use wake_inv_own owed_step in blast)+

lemma owed_stuck:
  assumes "wake_inv s" and "owed b s" and "\<nexists>s'. own_step s s'"
  shows "\<exists>c. s_waiter s = Ready c \<and> c OR b = c"
proof (cases "s_waiter s")
  case Pending
  have "db_bits (s_bell s) \<noteq> 0 \<or> db_closed (s_bell s)" using assms(2) Pending owed_nonzero by (auto simp: owed_def)
  then consider "db_notified (s_bell s)" | "[Wake] \<in> set (s_programs s)" using assms(1) Pending by (auto simp: wake_inv_def)
  then show ?thesis
  proof cases
    case 1
    then show ?thesis using assms(3) Pending poll by blast
  next
    case 2
    then obtain ps qs where "s_programs s = ps @ (Wake # []) # qs" by (metis split_list)
    then show ?thesis using assms(3) act by blast
  qed
qed (use assms(2,3) take_bits check in \<open>auto simp: owed_def\<close>)

text \<open>C20: No wakeup is lost. Take any reachable moment at which the waiter is pending while there is work, or
  while the doorbell is closed. However the rings and closes already under way and the waiter are
  scheduled from then on, with no new ring or close, they come to rest within \<open>steps_left\<close> steps, and
  where they rest the waiter has returned with at least all the bits there were.\<close>

theorem pending_waiter_is_woken:
  assumes "bell_reach initial_system s" and "s_waiter s = Pending"
    and "db_bits (s_bell s) \<noteq> 0 \<or> db_closed (s_bell s)"
  shows "(\<forall>n s'. (own_step ^^ n) s s' \<longrightarrow> n \<le> steps_left s)
    \<and> (\<forall>s'. own_step\<^sup>*\<^sup>* s s' \<and> (\<nexists>s''. own_step s' s'') \<longrightarrow>
        (\<exists>b. s_waiter s' = Ready b \<and> b OR db_bits (s_bell s) = b))"
proof (intro conjI allI impI)
  show "n \<le> steps_left s" if "(own_step ^^ n) s s'" for n s' using own_steps_bounded [OF that] by simp
next
  fix s' assume s': "own_step\<^sup>*\<^sup>* s s' \<and> (\<nexists>s''. own_step s' s'')"
  have "wake_inv s" using bell_reach_inv [OF assms(1)] by simp
  moreover have "owed (db_bits (s_bell s)) s" using assms(2,3) by (simp add: owed_def)
  ultimately have "wake_inv s' \<and> owed (db_bits (s_bell s)) s'" using own_steps_owed s' by blast
  with s' owed_stuck show "\<exists>b. s_waiter s' = Ready b \<and> b OR db_bits (s_bell s) = b" by blast
qed

text \<open>An example: a ring of two bits while the waiter is pending, stopped before its wake.\<close>

definition rung_system :: system where
  "rung_system = \<lparr>s_bell = \<lparr>db_bits = 6, db_closed = False, db_waker = True, db_notified = False\<rparr>, s_waiter = Pending,
     s_programs = [[Wake]], s_rung = 6, s_seen = 0\<rparr>"

lemma rung_system_reach: "bell_reach initial_system rung_system"
proof -
  define pending where "pending = initial_system\<lparr>s_bell := \<lparr>db_bits = 0, db_closed = False, db_waker = True, db_notified = False\<rparr>, s_waiter := Pending\<rparr>"
  have "own_step\<^sup>*\<^sup>* initial_system pending"
    using poll_wait_steps [of initial_system None "\<lparr>db_bits = 0, db_closed = False, db_waker = True, db_notified = False\<rparr>"]
    by (simp add: pending_def initial_system_def poll_wait_def bell_defs doorbell_new_def)
  then have "bell_reach initial_system pending" by (induction rule: rtranclp_induct) (auto dest: own)
  moreover have "bell_step pending (pending\<lparr>s_programs := [ring_program 6]\<rparr>)"
    using start_ring [of pending 6] by (simp add: pending_def initial_system_def)
  moreover have "bell_step (pending\<lparr>s_programs := [ring_program 6]\<rparr>) rung_system"
    using own [OF act [of "pending\<lparr>s_programs := [ring_program 6]\<rparr>" "[]" "Or_Bits 6" "[Wake]" "[]"]]
    by (simp add: pending_def initial_system_def rung_system_def ring_program_def fetch_or_bits_def perform_access.simps)
  ultimately show ?thesis by (meson rtranclp.rtrancl_into_rtrancl)
qed

text \<open>Where it comes to rest: the wake, then a poll of three steps.\<close>

definition woken_system :: system where
  "woken_system = rung_system\<lparr>s_bell := \<lparr>db_bits = 0, db_closed = False, db_waker = True, db_notified = False\<rparr>,
     s_waiter := Ready 6, s_programs := [[]]\<rparr>"

lemma woken_system_rests: "\<nexists>s. own_step woken_system s"
  by (auto elim!: own_stepE simp: woken_system_def Cons_eq_append_conv)

lemma rung_system_run: "(own_step ^^ 4) rung_system woken_system"
proof -
  define s1 where "s1 = rung_system\<lparr>s_bell := \<lparr>db_bits = 6, db_closed = False, db_waker = False, db_notified = True\<rparr>, s_programs := [[]]\<rparr>"
  define s2 where "s2 = s1\<lparr>s_bell := \<lparr>db_bits = 6, db_closed = False, db_waker = True, db_notified = False\<rparr>, s_waiter := Registered\<rparr>"
  define s3 where "s3 = s2\<lparr>s_bell := \<lparr>db_bits = 0, db_closed = False, db_waker = True, db_notified = False\<rparr>, s_waiter := Taken 6\<rparr>"
  have "own_step rung_system s1"
    using act [of rung_system "[]" Wake "[]" "[]"]
    by (simp add: rung_system_def s1_def waker_wake_def perform_access.simps)
  moreover have "own_step s1 s2" using poll [of s1] by (simp add: s1_def s2_def rung_system_def register_def)
  moreover have "own_step s2 s3" using take_bits [of s2] by (simp add: s1_def s2_def s3_def db_take_def)
  moreover have "own_step s3 woken_system"
    using check [of s3 6] by (simp add: s1_def s2_def s3_def woken_system_def rung_system_def poll_result_def)
  ultimately show ?thesis by (auto simp: numeral_eq_Suc)
qed

theorem pending_waiter_is_woken_witness:
  "bell_reach initial_system rung_system \<and> s_waiter rung_system = Pending
   \<and> (own_step ^^ 4) rung_system woken_system \<and> (\<nexists>s. own_step woken_system s)
   \<and> (\<exists>b. s_waiter woken_system = Ready b \<and> b OR 6 = b)
   \<and> (\<nexists>s. (own_step ^^ 5) rung_system s)"
proof -
  have s: "s_waiter rung_system = Pending" "db_bits (s_bell rung_system) = 6" "steps_left rung_system = 4"
    by (simp_all add: rung_system_def steps_left_def)
  have "db_bits (s_bell rung_system) \<noteq> 0 \<or> db_closed (s_bell rung_system)" by (simp add: s(2))
  note woken = pending_waiter_is_woken [OF rung_system_reach s(1) this, unfolded s(2,3)]
  have run: "own_step\<^sup>*\<^sup>* rung_system woken_system" using rung_system_run by (rule relpowp_imp_rtranclp)
  have "\<exists>b. s_waiter woken_system = Ready b \<and> b OR 6 = b"
    using woken [THEN conjunct2, THEN spec [of _ woken_system]] run woken_system_rests by blast
  moreover have "\<nexists>s. (own_step ^^ 5) rung_system s"
    using woken [THEN conjunct1, THEN spec [of _ 5]] by auto
  ultimately show ?thesis using s rung_system_reach rung_system_run woken_system_rests by blast
qed

end
