(* ===== verification/Packed_Image.thy ===== *)
theory Packed_Image
  imports Prelude
begin

text \<open>
  The packed guest images of \<open>crates/terra-protocol/src/packed_image.rs\<close> and their markers
  (\<open>guest_image.rs\<close>): a header, a table of compressed chunk sizes and the chunks. The LZ4 codec is a
  library, so the compressor, the decompressor and the bound on a block's size are parameters. The
  decompressor is given the output slice and returns the number of bytes it wrote, or nothing, with the
  slice afterwards. An index out of range, which panics, is the result \<open>None\<close> of a read.
\<close>

section \<open>Markers\<close>

datatype guest_image = Boot | Kernel

definition AGENT_PROTOCOL_VERSION :: u8 where "AGENT_PROTOCOL_VERSION = 2"
definition KERNEL_ABI_VERSION :: u16 where "KERNEL_ABI_VERSION = 1"
definition MARKER_DATA_BYTES :: u8 where "MARKER_DATA_BYTES = 3"
definition MARKER_BYTES :: nat where "MARKER_BYTES = 4 + unat MARKER_DATA_BYTES"

datatype packed_error = InvalidData | UnexpectedEof | OtherIo

definition marker :: "guest_image \<Rightarrow> bytes" where
  "marker kind =
     (let (id0, id1, agent_version) = (case kind of
          Boot \<Rightarrow> (0x54, 0x42, AGENT_PROTOCOL_VERSION)
        | Kernel \<Rightarrow> (0x54, 0x4b, 0))
      in [id0, id1, MARKER_DATA_BYTES, 0, agent_version] @ to_le_u16 KERNEL_ABI_VERSION)"

function marker_matches :: "nat \<Rightarrow> bytes \<Rightarrow> bytes \<Rightarrow> bool" where
  "marker_matches index bs m =
     (if index < MARKER_BYTES then (if bs ! index \<noteq> m ! index then False else marker_matches (Suc index) bs m)
      else True)"
  by pat_completeness auto

termination
  by (relation "measure (\<lambda>(i, _). MARKER_BYTES - i)") auto

declare marker_matches.simps [simp del]

definition is_marker :: "guest_image \<Rightarrow> bytes \<Rightarrow> bool" where
  "is_marker kind bs = (if length bs \<noteq> MARKER_BYTES then False else marker_matches 0 bs (marker kind))"

definition marker_validate :: "guest_image \<Rightarrow> bytes option \<Rightarrow> packed_error + unit" where
  "marker_validate kind extra =
     (if (case extra of None \<Rightarrow> False | Some e \<Rightarrow> is_marker kind e) then Ok () else Err InvalidData)"

section \<open>The container\<close>

definition PACKED_MAGIC :: bytes where "PACKED_MAGIC = [0x54, 0x45, 0x52, 0x52, 0x41, 0x4c, 0x5a, 0x02]"
definition KERNEL_CHUNK_BYTES :: u32 where "KERNEL_CHUNK_BYTES = 1024 * 1024"
definition BOOT_CHUNK_BYTES :: u32 where "BOOT_CHUNK_BYTES = 64 * 1024"
definition MAGIC_RANGE :: "nat \<times> nat" where "MAGIC_RANGE = (0, length PACKED_MAGIC)"
definition MARKER_RANGE :: "nat \<times> nat" where "MARKER_RANGE = (snd MAGIC_RANGE, snd MAGIC_RANGE + MARKER_BYTES)"
definition IMAGE_BYTES_RANGE :: "nat \<times> nat" where
  "IMAGE_BYTES_RANGE = (snd MARKER_RANGE, snd MARKER_RANGE + 8)"
definition HEADER_BYTES :: nat where "HEADER_BYTES = snd IMAGE_BYTES_RANGE"
definition TABLE_ENTRY_BYTES :: nat where "TABLE_ENTRY_BYTES = 4"

definition range_of :: "nat \<times> nat \<Rightarrow> bytes \<Rightarrow> bytes" where
  "range_of r bs = take (snd r - fst r) (drop (fst r) bs)"

definition chunk_bytes :: "guest_image \<Rightarrow> u32" where
  "chunk_bytes kind = (case kind of Kernel \<Rightarrow> KERNEL_CHUNK_BYTES | Boot \<Rightarrow> BOOT_CHUNK_BYTES)"

definition has_marker :: "bytes \<Rightarrow> guest_image \<Rightarrow> bool" where
  "has_marker bs kind =
     (if length bs < snd MARKER_RANGE then False
      else is_marker kind (take MARKER_BYTES (drop (fst MARKER_RANGE) bs)))"

record packed_image =
  pi_image_bytes :: u64
  pi_chunk_bytes :: nat
  pi_blocks :: "(nat \<times> nat) list"
  pi_payload :: bytes
  pi_cached_index :: "nat option"
  pi_cached_bytes :: bytes

text \<open>The loop over the chunk table: the blocks and the size of the payload so far.\<close>

fun parse_entries :: "nat \<Rightarrow> bytes list \<Rightarrow> (nat \<times> nat) list \<Rightarrow> nat \<Rightarrow> packed_error + ((nat \<times> nat) list \<times> nat)" where
  "parse_entries max_compressed [] blocks payload_bytes = Ok (blocks, payload_bytes)"
| "parse_entries max_compressed (entry # entries) blocks payload_bytes =
     (let compressed_bytes = unat (from_le_u32 entry) in
      if compressed_bytes = 0 \<or> compressed_bytes > max_compressed then Err InvalidData
      else if payload_bytes + compressed_bytes \<ge> 2 ^ 64 then Err InvalidData
      else parse_entries max_compressed entries (blocks @ [(payload_bytes, payload_bytes + compressed_bytes)])
             (payload_bytes + compressed_bytes))"

definition table_end :: "u64 \<Rightarrow> nat \<Rightarrow> nat option" where
  "table_end image_bytes chunk_size =
     (let chunk_count = (unat image_bytes + chunk_size - 1) div chunk_size in
      if chunk_count * TABLE_ENTRY_BYTES + HEADER_BYTES < 2 ^ 64
      then Some (chunk_count * TABLE_ENTRY_BYTES + HEADER_BYTES) else None)"

definition packed_parse :: "(nat \<Rightarrow> nat) \<Rightarrow> bytes \<Rightarrow> guest_image \<Rightarrow> packed_error + packed_image" where
  "packed_parse max_output bs kind =
     and_then (ok_or InvalidData (slice bs 0 HEADER_BYTES)) (\<lambda>header.
     if range_of MAGIC_RANGE header \<noteq> PACKED_MAGIC then Err InvalidData
     else and_then (marker_validate kind (Some (range_of MARKER_RANGE header))) (\<lambda>_.
     let image_bytes = from_le_u64 (range_of IMAGE_BYTES_RANGE header);
         chunk_size = unat (chunk_bytes kind) in
     if image_bytes = 0 then Err InvalidData
     else and_then (ok_or InvalidData (table_end image_bytes chunk_size)) (\<lambda>te.
     and_then (ok_or InvalidData (slice bs HEADER_BYTES te)) (\<lambda>table.
     and_then (parse_entries (max_output chunk_size) (chunks TABLE_ENTRY_BYTES table) [] 0) (\<lambda>(blocks, payload_bytes).
     let payload = drop te bs in
     if length payload \<noteq> payload_bytes then Err InvalidData
     else Ok \<lparr>pi_image_bytes = image_bytes, pi_chunk_bytes = chunk_size, pi_blocks = blocks,
              pi_payload = payload, pi_cached_index = None, pi_cached_bytes = []\<rparr>)))))"

definition chunk_len :: "packed_image \<Rightarrow> nat \<Rightarrow> nat" where
  "chunk_len img index = min (unat (pi_image_bytes img) - index * pi_chunk_bytes img) (pi_chunk_bytes img)"

definition decode_block ::
  "(bytes \<Rightarrow> bytes \<Rightarrow> nat option \<times> bytes) \<Rightarrow> bytes \<Rightarrow> bytes \<Rightarrow> (packed_error + unit) \<times> bytes" where
  "decode_block decompress block out =
     (case decompress block out of
        (None, out') \<Rightarrow> (Err InvalidData, out')
      | (Some decoded, out') \<Rightarrow> (if decoded \<noteq> length out then Err InvalidData else Ok (), out'))"

definition resize :: "nat \<Rightarrow> bytes \<Rightarrow> bytes" where
  "resize n bs = take n bs @ replicate (n - length bs) 0"

text \<open>Making sure a chunk is in the cache.\<close>

definition fill_cache ::
  "(bytes \<Rightarrow> bytes \<Rightarrow> nat option \<times> bytes) \<Rightarrow> bytes \<Rightarrow> nat \<Rightarrow> packed_image \<Rightarrow> (packed_error + unit) \<times> packed_image" where
  "fill_cache decompress block index img =
     (if pi_cached_index img = Some index then (Ok (), img)
      else let cached = resize (pi_chunk_bytes img) (pi_cached_bytes img); n = chunk_len img index in
        case decode_block decompress block (take n cached) of
          (Inl e, out) \<Rightarrow> (Err e, img\<lparr>pi_cached_index := None, pi_cached_bytes := out @ drop n cached\<rparr>)
        | (Inr _, out) \<Rightarrow> (Ok (), img\<lparr>pi_cached_index := Some index, pi_cached_bytes := out @ drop n cached\<rparr>))"

text \<open>
  One turn of the loop of \<open>read_at\<close>: how many bytes it copied and the buffer afterwards. The guards
  are the divisions, subtractions and indexings that panic. A failed read leaves the buffer
  unspecified, and its callers drop it.
\<close>

definition read_chunk ::
  "(bytes \<Rightarrow> bytes \<Rightarrow> nat option \<times> bytes) \<Rightarrow> nat \<Rightarrow> nat \<Rightarrow> bytes \<Rightarrow> packed_image
   \<Rightarrow> ((packed_error + (nat \<times> bytes)) \<times> packed_image) option" where
  "read_chunk decompress position copied buf img =
     (let index = position div pi_chunk_bytes img;
          within = position mod pi_chunk_bytes img;
          n = chunk_len img index;
          wanted = length buf - copied in
      if pi_chunk_bytes img = 0 \<or> unat (pi_image_bytes img) < index * pi_chunk_bytes img
         \<or> length (pi_blocks img) \<le> index then None
      else case slice (pi_payload img) (fst (pi_blocks img ! index)) (snd (pi_blocks img ! index)) of
        None \<Rightarrow> None
      | Some block \<Rightarrow>
          if within = 0 \<and> n \<le> wanted then
            (case decode_block decompress block (take n (drop copied buf)) of
               (Inl e, _) \<Rightarrow> Some (Err e, img)
             | (Inr _, out) \<Rightarrow> Some (Ok (n, splice buf copied out), img))
          else
            (case fill_cache decompress block index img of
               (Inl e, img') \<Rightarrow> Some (Err e, img')
             | (Inr _, img') \<Rightarrow>
                 if n < within then None
                 else let took = min (n - within) wanted in
                   (case slice (pi_cached_bytes img') within (within + took) of
                      None \<Rightarrow> None
                    | Some piece \<Rightarrow> Some (Ok (took, splice buf copied piece), img'))))"

text \<open>Every turn copies at least one byte, so the number of bytes wanted bounds the turns.\<close>

fun read_loop ::
  "(bytes \<Rightarrow> bytes \<Rightarrow> nat option \<times> bytes) \<Rightarrow> nat \<Rightarrow> nat \<Rightarrow> nat \<Rightarrow> bytes \<Rightarrow> packed_image
   \<Rightarrow> ((packed_error + bytes) \<times> packed_image) option" where
  "read_loop decompress fuel position copied buf img =
     (if length buf \<le> copied then Some (Ok buf, img)
      else case fuel of
        0 \<Rightarrow> None
      | Suc fuel' \<Rightarrow>
          (case read_chunk decompress position copied buf img of
             None \<Rightarrow> None
           | Some (Inl e, img') \<Rightarrow> Some (Err e, img')
           | Some (Inr (took, buf'), img') \<Rightarrow>
               read_loop decompress fuel' (position + took) (copied + took) buf' img'))"

declare read_loop.simps [simp del]

definition packed_read_at ::
  "(bytes \<Rightarrow> bytes \<Rightarrow> nat option \<times> bytes) \<Rightarrow> u64 \<Rightarrow> bytes \<Rightarrow> packed_image
   \<Rightarrow> ((packed_error + bytes) \<times> packed_image) option" where
  "packed_read_at decompress offset buf img =
     (if unat offset + length buf < 2 ^ 64 \<and> unat offset + length buf \<le> unat (pi_image_bytes img)
      then read_loop decompress (length buf) (unat offset) 0 buf img
      else Some (Err UnexpectedEof, img))"

fun pack_chunks ::
  "nat \<Rightarrow> (bytes \<Rightarrow> packed_error + bytes) \<Rightarrow> bytes list \<Rightarrow> bytes \<Rightarrow> bytes \<Rightarrow> packed_error + (bytes \<times> bytes)" where
  "pack_chunks max_compressed compress [] table payload = Ok (table, payload)"
| "pack_chunks max_compressed compress (chunk # cs) table payload =
     and_then (compress chunk) (\<lambda>block.
     if block = [] \<or> length block > max_compressed then Err InvalidData
     else if length block \<ge> 2 ^ 32 then Err OtherIo
     else pack_chunks max_compressed compress cs (table @ to_le_u32 (word_of_nat (length block))) (payload @ block))"

definition pack ::
  "(nat \<Rightarrow> nat) \<Rightarrow> (bytes \<Rightarrow> packed_error + bytes) \<Rightarrow> bytes \<Rightarrow> guest_image \<Rightarrow> packed_error + bytes" where
  "pack max_output compress contents kind =
     (if contents = [] then Err InvalidData
      else let chunk_size = unat (chunk_bytes kind) in
        and_then (pack_chunks (max_output chunk_size) compress (chunks chunk_size contents) [] []) (\<lambda>(table, payload).
          Ok (PACKED_MAGIC @ marker kind @ to_le_u64 (word_of_nat (length contents)) @ table @ payload)))"


text \<open>A sequence of reads on one image, each given its offset and buffer.\<close>

fun packed_reads ::
  "(bytes \<Rightarrow> bytes \<Rightarrow> nat option \<times> bytes) \<Rightarrow> (u64 \<times> bytes) list \<Rightarrow> packed_image \<Rightarrow> (packed_error + bytes) list option" where
  "packed_reads decompress [] img = Some []"
| "packed_reads decompress ((offset, buf) # reads) img =
     (case packed_read_at decompress offset buf img of
        None \<Rightarrow> None
      | Some (r, img') \<Rightarrow> map_option (Cons r) (packed_reads decompress reads img'))"

section \<open>The layout and the cache\<close>

text \<open>The decompressor writes into the slice it is given: the slice keeps its length.\<close>

definition keeps_slice :: "(bytes \<Rightarrow> bytes \<Rightarrow> nat option \<times> bytes) \<Rightarrow> bool" where
  "keeps_slice decompress \<longleftrightarrow> (\<forall>block out. length (snd (decompress block out)) = length out)"

definition image_wf :: "packed_image \<Rightarrow> bool" where
  "image_wf img \<longleftrightarrow> 0 < pi_chunk_bytes img \<and> unat (pi_image_bytes img) \<le> length (pi_blocks img) * pi_chunk_bytes img
     \<and> list_all (\<lambda>r. fst r \<le> snd r \<and> snd r \<le> length (pi_payload img)) (pi_blocks img)
     \<and> (pi_cached_index img \<noteq> None \<longrightarrow> length (pi_cached_bytes img) = pi_chunk_bytes img)"

definition same_layout :: "packed_image \<Rightarrow> packed_image \<Rightarrow> bool" where
  "same_layout a b \<longleftrightarrow> pi_image_bytes a = pi_image_bytes b \<and> pi_chunk_bytes a = pi_chunk_bytes b
     \<and> pi_blocks a = pi_blocks b \<and> pi_payload a = pi_payload b"

lemma length_resize [simp]: "length (resize n bs) = n"
  by (auto simp: resize_def)

lemma decode_block_length:
  "keeps_slice decompress \<Longrightarrow> decode_block decompress block out = (r, out') \<Longrightarrow> length out' = length out"
  by (auto simp: decode_block_def keeps_slice_def split: prod.splits option.splits if_splits)
    (metis snd_conv)+

lemma fill_cache_wf:
  assumes "keeps_slice decompress" "image_wf img" "fill_cache decompress block index img = (r, img')"
  shows "image_wf img' \<and> same_layout img' img \<and> (\<forall>u. r = Inr u \<longrightarrow> length (pi_cached_bytes img') = pi_chunk_bytes img)"
proof (cases "pi_cached_index img = Some index")
  case True
  then show ?thesis using assms by (auto simp: fill_cache_def image_wf_def same_layout_def)
next
  case False
  define cached where "cached = resize (pi_chunk_bytes img) (pi_cached_bytes img)"
  define n where "n = chunk_len img index"
  obtain q out where d: "decode_block decompress block (take n cached) = (q, out)" by fastforce
  have "length out = min n (length cached)" using decode_block_length [OF assms(1) d] by simp
  then have "length (out @ drop n cached) = pi_chunk_bytes img" by (simp add: cached_def)
  then show ?thesis using assms(2,3) False d
    by (auto simp: fill_cache_def image_wf_def same_layout_def cached_def [symmetric] n_def [symmetric] Let_def
        split: sum.splits)
qed

lemma div_in_range:
  fixes p n c :: nat
  assumes "p < n" "n \<le> k * c"
  shows "p div c < k \<and> p div c * c \<le> p \<and> p mod c < min (n - p div c * c) c"
proof -
  have "p < k * c" using assms by simp
  then have "p div c < k" "0 < c" by (auto simp: less_mult_imp_div_less mult.commute intro: gr0I)
  moreover have "p div c * c + p mod c = p" by simp
  ultimately show ?thesis using assms by (simp add: less_diff_conv)
qed

text \<open>On a well-formed image a turn never panics, and makes progress unless the codec fails.\<close>

lemma read_chunk_wf:
  assumes "keeps_slice decompress" "image_wf img" "copied < length buf"
    "position + (length buf - copied) \<le> unat (pi_image_bytes img)"
  shows "\<exists>r img'. read_chunk decompress position copied buf img = Some (r, img') \<and> image_wf img' \<and> same_layout img' img
    \<and> (\<forall>took buf'. r = Inr (took, buf') \<longrightarrow> 0 < took \<and> took \<le> length buf - copied \<and> length buf' = length buf)"
proof -
  define index where "index = position div pi_chunk_bytes img"
  define within where "within = position mod pi_chunk_bytes img"
  define n where "n = chunk_len img index"
  have lt: "position < unat (pi_image_bytes img)" using assms(3,4) by linarith
  have rng: "index < length (pi_blocks img)" "index * pi_chunk_bytes img \<le> position" "within < n" "n \<le> pi_chunk_bytes img"
    using div_in_range [OF lt, of "length (pi_blocks img)" "pi_chunk_bytes img"] assms(2)
    by (auto simp: image_wf_def index_def within_def n_def chunk_len_def)
  have no: "\<not> (pi_chunk_bytes img = 0 \<or> unat (pi_image_bytes img) < index * pi_chunk_bytes img \<or> length (pi_blocks img) \<le> index)"
    using rng lt assms(2) by (auto simp: image_wf_def)
  obtain block where bl: "slice (pi_payload img) (fst (pi_blocks img ! index)) (snd (pi_blocks img ! index)) = Some block"
    using assms(2) rng(1) by (auto simp: image_wf_def slice_def list_all_length)
  note eq = read_chunk_def [of decompress position copied buf img, folded index_def within_def, folded n_def,
      unfolded Let_def, folded index_def within_def, folded n_def]
  show ?thesis
  proof (cases "within = 0 \<and> n \<le> length buf - copied")
    case True
    obtain q out where d: "decode_block decompress block (take n (drop copied buf)) = (q, out)" by fastforce
    have "length out = n" using decode_block_length [OF assms(1) d] True by simp
    then show ?thesis using True d bl no rng assms(2,3)
      by (cases q) (auto simp: eq same_layout_def)
  next
    case False
    obtain q img' where f: "fill_cache decompress block index img = (q, img')" by fastforce
    note w = fill_cache_wf [OF assms(1,2) f]
    show ?thesis
    proof (cases q)
      case (Inl e)
      then show ?thesis using False f w bl no by (auto simp: eq)
    next
      case (Inr u)
      then have "length (pi_cached_bytes img') = pi_chunk_bytes img" using w by simp
      then show ?thesis using False f w bl no Inr rng assms(3)
        by (auto simp: eq slice_def)
    qed
  qed
qed

lemma read_loop_wf:
  assumes "keeps_slice decompress"
  shows "image_wf img \<Longrightarrow> copied \<le> length buf \<Longrightarrow> length buf - copied \<le> fuel
    \<Longrightarrow> position + (length buf - copied) \<le> unat (pi_image_bytes img)
    \<Longrightarrow> \<exists>r img'. read_loop decompress fuel position copied buf img = Some (r, img') \<and> image_wf img' \<and> same_layout img' img
          \<and> (\<forall>buf'. r = Inr buf' \<longrightarrow> length buf' = length buf)"
proof (induction fuel arbitrary: position copied buf img)
  case 0
  then show ?case by (simp add: read_loop.simps same_layout_def)
next
  case (Suc fuel)
  show ?case
  proof (cases "copied < length buf")
    case False
    then show ?thesis using Suc.prems by (simp add: read_loop.simps same_layout_def)
  next
    case True
    obtain r img1 where c: "read_chunk decompress position copied buf img = Some (r, img1)"
      and w: "image_wf img1" "same_layout img1 img"
      and p: "\<forall>took buf'. r = Inr (took, buf') \<longrightarrow> 0 < took \<and> took \<le> length buf - copied \<and> length buf' = length buf"
      using read_chunk_wf [OF assms Suc.prems(1) True Suc.prems(4)] by blast
    show ?thesis
    proof (cases r)
      case (Inl e)
      then show ?thesis using c w True by (simp add: read_loop.simps [of _ "Suc fuel"])
    next
      case (Inr q)
      obtain took buf' where q: "q = (took, buf')" by fastforce
      have pr: "0 < took" "took \<le> length buf - copied" "length buf' = length buf" using p Inr q by auto
      have st: "read_loop decompress (Suc fuel) position copied buf img
          = read_loop decompress fuel (position + took) (copied + took) buf' img1"
        using c Inr q True by (simp add: read_loop.simps [of _ "Suc fuel"])
      have "\<exists>r img'. read_loop decompress fuel (position + took) (copied + took) buf' img1 = Some (r, img') \<and> image_wf img'
          \<and> same_layout img' img1 \<and> (\<forall>b. r = Inr b \<longrightarrow> length b = length buf')"
        by (rule Suc.IH) (use w pr Suc.prems in \<open>auto simp: same_layout_def\<close>)
      then show ?thesis using st w(2) pr(3) by (auto simp: same_layout_def)
    qed
  qed
qed

lemma packed_read_at_wf:
  assumes "keeps_slice decompress" "image_wf img"
  shows "\<exists>r img'. packed_read_at decompress offset buf img = Some (r, img') \<and> image_wf img' \<and> same_layout img' img
    \<and> (\<forall>buf'. r = Inr buf' \<longrightarrow> length buf' = length buf \<and> unat offset + length buf \<le> unat (pi_image_bytes img))"
  using read_loop_wf [OF assms, of 0 buf "length buf" "unat offset"] assms(2)
  by (auto simp: packed_read_at_def same_layout_def)

lemma packed_reads_wf:
  assumes "keeps_slice decompress"
  shows "image_wf img \<Longrightarrow> \<exists>rs. packed_reads decompress reads img = Some rs \<and> length rs = length reads
    \<and> (\<forall>i < length reads. \<forall>b. rs ! i = Inr b \<longrightarrow> length b = length (snd (reads ! i))
          \<and> unat (fst (reads ! i)) + length b \<le> unat (pi_image_bytes img))"
proof (induction reads arbitrary: img)
  case Nil
  then show ?case by simp
next
  case (Cons rd reads)
  obtain offset buf where rd: "rd = (offset, buf)" by fastforce
  obtain r img1 where r: "packed_read_at decompress offset buf img = Some (r, img1)" "image_wf img1" "same_layout img1 img"
    "\<forall>buf'. r = Inr buf' \<longrightarrow> length buf' = length buf \<and> unat offset + length buf \<le> unat (pi_image_bytes img)"
    using packed_read_at_wf [OF assms Cons.prems] by blast
  obtain rs where rs: "packed_reads decompress reads img1 = Some rs" "length rs = length reads"
    "\<forall>i < length reads. \<forall>b. rs ! i = Inr b \<longrightarrow> length b = length (snd (reads ! i))
          \<and> unat (fst (reads ! i)) + length b \<le> unat (pi_image_bytes img1)"
    using Cons.IH [OF r(2)] by blast
  have "pi_image_bytes img1 = pi_image_bytes img" using r(3) by (simp add: same_layout_def)
  then show ?case using rd r(1,4) rs by (auto simp: nth_Cons split: nat.split)
qed

section \<open>What parsing accepts\<close>

definition blocks_in :: "nat \<Rightarrow> (nat \<times> nat) list \<Rightarrow> bool" where
  "blocks_in limit blocks \<longleftrightarrow> list_all (\<lambda>r. fst r \<le> snd r \<and> snd r \<le> limit) blocks"

lemma parse_entries_blocks:
  "parse_entries maxc entries blocks pb = Inr (blocks', pb') \<Longrightarrow> blocks_in pb blocks
   \<Longrightarrow> length blocks' = length blocks + length entries \<and> pb \<le> pb' \<and> blocks_in pb' blocks'"
proof (induction entries arbitrary: blocks pb)
  case Nil
  then show ?case by simp
next
  case (Cons entry entries)
  define c where "c = unat (from_le_u32 entry)"
  have "parse_entries maxc entries (blocks @ [(pb, pb + c)]) (pb + c) = Inr (blocks', pb')"
    using Cons.prems(1) by (simp add: Let_def c_def split: if_splits)
  moreover have "blocks_in (pb + c) (blocks @ [(pb, pb + c)])"
    using Cons.prems(2) by (force simp: blocks_in_def list_all_iff)
  ultimately show ?case using Cons.IH by fastforce
qed

lemma ceil_div_covers: "0 < (c::nat) \<Longrightarrow> n \<le> (n + c - 1) div c * c"
  using div_mult_mod_eq [of "n + c - 1" c] mod_less_divisor [of c "n + c - 1"] by linarith

lemma chunk_bytes_pos: "0 < unat (chunk_bytes kind)"
  by (cases kind) (simp_all add: chunk_bytes_def KERNEL_CHUNK_BYTES_def BOOT_CHUNK_BYTES_def)

lemma packed_parse_wf:
  assumes "packed_parse maxo bs kind = Inr img"
  shows "image_wf img"
proof -
  define c where "c = unat (chunk_bytes kind)"
  obtain header ib te table blocks pb where
    te: "table_end ib c = Some te" and tb: "slice bs HEADER_BYTES te = Some table"
    and pe: "parse_entries (maxo c) (chunks TABLE_ENTRY_BYTES table) [] 0 = Inr (blocks, pb)"
    and img: "img = \<lparr>pi_image_bytes = ib, pi_chunk_bytes = c, pi_blocks = blocks, pi_payload = drop te bs,
                     pi_cached_index = None, pi_cached_bytes = []\<rparr>" "length (drop te bs) = pb"
    using assms by (auto simp: packed_parse_def Let_def c_def result_simps split: if_splits)
  have b: "length blocks = length (chunks TABLE_ENTRY_BYTES table)" "blocks_in pb blocks"
    using parse_entries_blocks [OF pe] by (auto simp: blocks_in_def)
  have "length table = (unat ib + c - 1) div c * TABLE_ENTRY_BYTES"
    using te length_slice [OF tb] by (auto simp: table_end_def Let_def split: if_splits)
  then have "length blocks = (unat ib + c - 1) div c"
    using b(1) by (simp add: length_chunks TABLE_ENTRY_BYTES_def)
  then show ?thesis using ceil_div_covers chunk_bytes_pos b(2) img
    by (auto simp: image_wf_def blocks_in_def c_def)
qed

text \<open>C30: reading a packed image cannot panic or hang, whatever its bytes are. For every container
  \<open>parse\<close> accepts and every decompressor that keeps to the slice it is given, correct or not, every
  sequence of reads returns a result for each read. A read that succeeds fills its whole buffer and
  lies inside the image.\<close>

theorem parsed_image_reads_return:
  assumes "packed_parse max_output bs kind = Ok img" "keeps_slice decompress"
  shows "\<exists>results. packed_reads decompress reads img = Some results \<and> length results = length reads
    \<and> (\<forall>i < length reads. \<forall>b. results ! i = Ok b \<longrightarrow> length b = length (snd (reads ! i))
          \<and> unat (fst (reads ! i)) + length b \<le> unat (pi_image_bytes img))"
  by (rule packed_reads_wf [OF assms(2) packed_parse_wf [OF assms(1)]])

section \<open>Packing, parsing and reading back\<close>

text \<open>What the codec promises: a block decompresses to the chunk it was compressed from.\<close>

definition codec_ok :: "(bytes \<Rightarrow> packed_error + bytes) \<Rightarrow> (bytes \<Rightarrow> bytes \<Rightarrow> nat option \<times> bytes) \<Rightarrow> bool" where
  "codec_ok compress decompress \<longleftrightarrow> (\<forall>chunk block out. compress chunk = Inr block \<longrightarrow> length out = length chunk
     \<longrightarrow> decompress block out = (Some (length chunk), chunk))"

definition chunk_of :: "packed_image \<Rightarrow> bytes \<Rightarrow> nat \<Rightarrow> bytes" where
  "chunk_of img contents index = take (pi_chunk_bytes img) (drop (index * pi_chunk_bytes img) contents)"

text \<open>The image holds \<open>contents\<close>: every block decodes to its chunk, and a cached chunk is the right one.\<close>

definition image_holds :: "(bytes \<Rightarrow> bytes \<Rightarrow> nat option \<times> bytes) \<Rightarrow> bytes \<Rightarrow> packed_image \<Rightarrow> bool" where
  "image_holds decompress contents img \<longleftrightarrow> image_wf img \<and> unat (pi_image_bytes img) = length contents
     \<and> (\<forall>index block out. index < length (pi_blocks img)
          \<longrightarrow> slice (pi_payload img) (fst (pi_blocks img ! index)) (snd (pi_blocks img ! index)) = Some block
          \<longrightarrow> length out = chunk_len img index \<longrightarrow> decompress block out = (Some (length out), chunk_of img contents index))
     \<and> (\<forall>index. pi_cached_index img = Some index \<longrightarrow> take (chunk_len img index) (pi_cached_bytes img) = chunk_of img contents index)"

lemma length_chunk_of: "unat (pi_image_bytes img) = length contents \<Longrightarrow> length (chunk_of img contents index) = chunk_len img index"
  by (simp add: chunk_of_def chunk_len_def min.commute)

lemma fill_cache_holds:
  assumes "image_holds decompress contents img" "index < length (pi_blocks img)"
    "slice (pi_payload img) (fst (pi_blocks img ! index)) (snd (pi_blocks img ! index)) = Some block"
  shows "\<exists>img'. fill_cache decompress block index img = (Inr (), img') \<and> image_holds decompress contents img'
    \<and> same_layout img' img \<and> length (pi_cached_bytes img') = pi_chunk_bytes img
    \<and> take (chunk_len img index) (pi_cached_bytes img') = chunk_of img contents index"
proof (cases "pi_cached_index img = Some index")
  case True
  then show ?thesis using assms(1) by (auto simp: fill_cache_def image_holds_def image_wf_def same_layout_def)
next
  case False
  define cached where "cached = resize (pi_chunk_bytes img) (pi_cached_bytes img)"
  define n where "n = chunk_len img index"
  define img' where "img' = img\<lparr>pi_cached_index := Some index, pi_cached_bytes := chunk_of img contents index @ drop n cached\<rparr>"
  have n: "n \<le> pi_chunk_bytes img" by (simp add: n_def chunk_len_def)
  then have d: "decompress block (take n cached) = (Some n, chunk_of img contents index)"
    using assms by (simp add: image_holds_def n_def cached_def)
  have l: "length (chunk_of img contents index) = n" using assms(1) by (simp add: length_chunk_of image_holds_def n_def)
  have f: "fill_cache decompress block index img = (Inr (), img')"
    using False d n by (simp add: fill_cache_def decode_block_def Let_def n_def [symmetric] cached_def [symmetric] img'_def)
      (simp add: cached_def)
  have same: "same_layout img' img" "chunk_len img' = chunk_len img" "chunk_of img' = chunk_of img"
    by (auto simp: img'_def same_layout_def chunk_len_def chunk_of_def fun_eq_iff)
  have "image_holds decompress contents img'"
    using assms(1) l n same unfolding image_holds_def
    by (simp add: img'_def image_wf_def cached_def n_def)
  then show ?thesis using f same l n by (auto simp: img'_def n_def cached_def)
qed

lemma take_drop_chunk_of:
  assumes "0 < pi_chunk_bytes img" "within = p mod pi_chunk_bytes img" "index = p div pi_chunk_bytes img"
    "within + took \<le> pi_chunk_bytes img"
  shows "take took (drop within (chunk_of img contents index)) = take took (drop p contents)"
proof -
  have "within + index * pi_chunk_bytes img = p" using assms(2,3) by (simp add: add.commute)
  then show ?thesis using assms(4) by (simp add: chunk_of_def drop_take add.commute)
qed

lemma read_chunk_holds:
  assumes h: "image_holds decompress contents img" and c: "copied < length buf"
    "position + (length buf - copied) \<le> length contents"
  shows "\<exists>took img'. read_chunk decompress position copied buf img
      = Some (Inr (took, splice buf copied (take took (drop position contents))), img')
    \<and> image_holds decompress contents img' \<and> 0 < took \<and> took \<le> length buf - copied"
proof -
  define index where "index = position div pi_chunk_bytes img"
  define within where "within = position mod pi_chunk_bytes img"
  define n where "n = chunk_len img index"
  have w: "image_wf img" "unat (pi_image_bytes img) = length contents" using h by (auto simp: image_holds_def)
  have lt: "position < unat (pi_image_bytes img)" using c w(2) by linarith
  have rng: "index < length (pi_blocks img)" "index * pi_chunk_bytes img \<le> position" "within < n" "n \<le> pi_chunk_bytes img"
    using div_in_range [OF lt, of "length (pi_blocks img)" "pi_chunk_bytes img"] w(1)
    by (auto simp: image_wf_def index_def within_def n_def chunk_len_def)
  have no: "\<not> (pi_chunk_bytes img = 0 \<or> unat (pi_image_bytes img) < index * pi_chunk_bytes img \<or> length (pi_blocks img) \<le> index)"
    using rng lt w(1) by (auto simp: image_wf_def)
  obtain block where bl: "slice (pi_payload img) (fst (pi_blocks img ! index)) (snd (pi_blocks img ! index)) = Some block"
    using w(1) rng(1) by (auto simp: image_wf_def slice_def list_all_length)
  have piece: "take took (drop within (take n (chunk_of img contents index))) = take took (drop position contents)"
    if "within + took \<le> n" for took
    using take_drop_chunk_of [of img within position index took contents] that rng no w(2)
    by (simp add: within_def [symmetric] index_def [symmetric] length_chunk_of n_def)
  note eq = read_chunk_def [of decompress position copied buf img, folded index_def within_def, folded n_def,
      unfolded Let_def, folded index_def within_def, folded n_def]
  show ?thesis
  proof (cases "within = 0 \<and> n \<le> length buf - copied")
    case True
    then have "decompress block (take n (drop copied buf)) = (Some n, chunk_of img contents index)"
      using h rng(1) bl by (simp add: image_holds_def n_def)
    moreover have "chunk_of img contents index = take n (drop position contents)"
      using piece [of n] True w(2) by (simp add: length_chunk_of n_def)
    ultimately show ?thesis using True bl no rng h by (simp add: eq decode_block_def)
  next
    case False
    obtain img' where f: "fill_cache decompress block index img = (Inr (), img')" "image_holds decompress contents img'"
      "length (pi_cached_bytes img') = pi_chunk_bytes img"
      "take n (pi_cached_bytes img') = chunk_of img contents index"
      using fill_cache_holds [OF h rng(1) bl] n_def by auto
    define took where "took = min (n - within) (length buf - copied)"
    have t: "within + took \<le> n" "0 < took" "took \<le> length buf - copied" using rng c by (auto simp: took_def)
    have "take took (drop within (pi_cached_bytes img')) = take took (drop within (take n (pi_cached_bytes img')))"
      using t by (simp add: drop_take)
    also have "\<dots> = take took (drop position contents)"
      using piece [OF t(1)] f(4) w(2) by (simp add: length_chunk_of n_def)
    finally have "slice (pi_cached_bytes img') within (within + took) = Some (take took (drop position contents))"
      using t rng f(3) by (simp add: slice_def)
    then show ?thesis using False f bl no rng t by (auto simp: eq took_def [symmetric])
  qed
qed

lemma read_loop_holds:
  "image_holds decompress contents img \<Longrightarrow> copied \<le> length buf \<Longrightarrow> length buf - copied \<le> fuel
   \<Longrightarrow> position + (length buf - copied) \<le> length contents
   \<Longrightarrow> \<exists>img'. read_loop decompress fuel position copied buf img
          = Some (Inr (take copied buf @ take (length buf - copied) (drop position contents)), img')
        \<and> image_holds decompress contents img'"
proof (induction fuel arbitrary: position copied buf img)
  case 0
  then show ?case by (simp add: read_loop.simps)
next
  case (Suc fuel)
  show ?case
  proof (cases "copied < length buf")
    case False
    then show ?thesis using Suc.prems by (simp add: read_loop.simps)
  next
    case True
    obtain took img1 where c: "read_chunk decompress position copied buf img
        = Some (Inr (took, splice buf copied (take took (drop position contents))), img1)"
      and h: "image_holds decompress contents img1" and t: "0 < took" "took \<le> length buf - copied"
      using read_chunk_holds [OF Suc.prems(1) True Suc.prems(4)] by blast
    define piece where "piece = take took (drop position contents)"
    have lp: "length piece = took" using t(2) Suc.prems(4) by (simp add: piece_def)
    then have lb: "length (splice buf copied piece) = length buf" using t True by simp
    have "\<exists>img'. read_loop decompress fuel (position + took) (copied + took) (splice buf copied piece) img1
        = Some (Inr (take (copied + took) (splice buf copied piece)
            @ take (length (splice buf copied piece) - (copied + took)) (drop (position + took) contents)), img')
        \<and> image_holds decompress contents img'"
      by (rule Suc.IH) (use h t lb Suc.prems in auto)
    moreover have "take (copied + took) (splice buf copied piece) = take copied buf @ piece"
      using lp True by (simp add: splice_def)
    moreover have "piece @ take (length buf - (copied + took)) (drop (position + took) contents)
        = take (length buf - copied) (drop position contents)"
      using take_add [of took "length buf - (copied + took)" "drop position contents"] t
      by (simp add: piece_def add.commute)
    ultimately show ?thesis using c True lb by (simp add: read_loop.simps [of _ "Suc fuel"] piece_def [symmetric])
  qed
qed

definition exact_read :: "bytes \<Rightarrow> u64 \<times> bytes \<Rightarrow> packed_error + bytes" where
  "exact_read contents rd = (if unat (fst rd) + length (snd rd) \<le> length contents
     then Ok (take (length (snd rd)) (drop (unat (fst rd)) contents)) else Err UnexpectedEof)"

lemma packed_read_at_holds:
  assumes "image_holds decompress contents img"
  shows "\<exists>img'. packed_read_at decompress offset buf img = Some (exact_read contents (offset, buf), img')
    \<and> image_holds decompress contents img'"
proof -
  have sz: "unat (pi_image_bytes img) = length contents" using assms by (simp add: image_holds_def)
  then have "length contents < 2 ^ 64" using unat_lt_pow [of "pi_image_bytes img"] by simp
  then show ?thesis using read_loop_holds [OF assms, of 0 buf "length buf" "unat offset"] assms sz
    by (auto simp: packed_read_at_def exact_read_def)
qed

lemma packed_reads_holds:
  "image_holds decompress contents img \<Longrightarrow> packed_reads decompress reads img = Some (map (exact_read contents) reads)"
proof (induction reads arbitrary: img)
  case Nil
  then show ?case by simp
next
  case (Cons rd reads)
  obtain img' where "packed_read_at decompress (fst rd) (snd rd) img = Some (exact_read contents rd, img')"
    "image_holds decompress contents img'"
    using packed_read_at_holds [OF Cons.prems, of "fst rd" "snd rd"] by auto
  then show ?case using Cons.IH by (cases rd) auto
qed

lemma is_marker_marker: "is_marker kind (marker kind)"
proof -
  have "marker_matches i m m" for i m
  proof (induction "MARKER_BYTES - i" arbitrary: i)
    case 0
    then show ?case by (subst marker_matches.simps) simp
  next
    case (Suc k)
    then show ?case by (subst marker_matches.simps) simp
  qed
  then show ?thesis
    by (cases kind) (simp_all add: is_marker_def marker_def MARKER_BYTES_def MARKER_DATA_BYTES_def)
qed

lemma length_marker [simp]: "length (marker kind) = MARKER_BYTES"
  by (cases kind) (simp_all add: marker_def MARKER_BYTES_def MARKER_DATA_BYTES_def)

lemma pack_chunks_blocks:
  "pack_chunks maxc compress cs table payload = Inr (t, p) \<Longrightarrow>
   \<exists>bl. list_all2 (\<lambda>c b. compress c = Inr b \<and> b \<noteq> [] \<and> length b \<le> maxc \<and> length b < 2 ^ 32) cs bl
     \<and> t = table @ concat (map (\<lambda>b. to_le_u32 (word_of_nat (length b))) bl) \<and> p = payload @ concat bl"
proof (induction cs arbitrary: table payload)
  case Nil
  then show ?case by simp
next
  case (Cons c cs)
  from Cons.prems obtain b where b: "compress c = Inr b" "b \<noteq> []" "length b \<le> maxc" "length b < 2 ^ 32"
    "pack_chunks maxc compress cs (table @ to_le_u32 (word_of_nat (length b))) (payload @ b) = Inr (t, p)"
    by (auto simp: result_simps split: if_splits)
  obtain bl where "list_all2 (\<lambda>c b. compress c = Inr b \<and> b \<noteq> [] \<and> length b \<le> maxc \<and> length b < 2 ^ 32) cs bl"
    "t = (table @ to_le_u32 (word_of_nat (length b))) @ concat (map (\<lambda>b. to_le_u32 (word_of_nat (length b))) bl)"
    "p = (payload @ b) @ concat bl"
    using Cons.IH [OF b(5)] by blast
  then have "list_all2 (\<lambda>c b. compress c = Inr b \<and> b \<noteq> [] \<and> length b \<le> maxc \<and> length b < 2 ^ 32) (c # cs) (b # bl)
     \<and> t = table @ concat (map (\<lambda>b. to_le_u32 (word_of_nat (length b))) (b # bl)) \<and> p = payload @ concat (b # bl)"
    using b by simp
  then show ?case by blast
qed

fun block_ranges :: "nat \<Rightarrow> bytes list \<Rightarrow> (nat \<times> nat) list" where
  "block_ranges start [] = []"
| "block_ranges start (b # bs) = (start, start + length b) # block_ranges (start + length b) bs"

lemma length_block_ranges [simp]: "length (block_ranges start bs) = length bs"
  by (induction start bs rule: block_ranges.induct) auto

lemma parse_entries_packed:
  "list_all (\<lambda>b. b \<noteq> [] \<and> length b \<le> maxc \<and> length b < 2 ^ 32) bl \<Longrightarrow> start + length (concat bl) < 2 ^ 64
   \<Longrightarrow> parse_entries maxc (map (\<lambda>b. to_le_u32 (word_of_nat (length b))) bl) blocks start
       = Inr (blocks @ block_ranges start bl, start + length (concat bl))"
proof (induction bl arbitrary: blocks start)
  case Nil
  then show ?case by simp
next
  case (Cons b bl)
  have "unat (word_of_nat (length b) :: u32) = length b" using Cons.prems(1) by (simp add: unat_of_nat_eq)
  then show ?case using Cons by (simp add: Let_def add_ac)
qed

lemma slice_block_ranges:
  "i < length bl \<Longrightarrow> slice (before @ concat bl) (fst (block_ranges (length before) bl ! i)) (snd (block_ranges (length before) bl ! i))
    = Some (bl ! i)"
proof (induction bl arbitrary: i before)
  case Nil
  then show ?case by simp
next
  case (Cons b bl)
  show ?case
  proof (cases i)
    case 0
    then show ?thesis by (simp add: slice_def)
  next
    case (Suc j)
    then show ?thesis using Cons.IH [of j "before @ b"] Cons.prems by simp
  qed
qed

lemma packed_parse_pack:
  assumes ok: "pack maxo compress contents kind = Inr packed"
    and sz: "length contents < 2 ^ 63" "length packed < 2 ^ 63"
  shows "\<exists>bl. packed_parse maxo packed kind = Inr \<lparr>pi_image_bytes = word_of_nat (length contents),
      pi_chunk_bytes = unat (chunk_bytes kind), pi_blocks = block_ranges 0 bl, pi_payload = concat bl,
      pi_cached_index = None, pi_cached_bytes = []\<rparr>
    \<and> list_all2 (\<lambda>c b. compress c = Inr b) (chunks (unat (chunk_bytes kind)) contents) bl"
proof -
  define c where "c = unat (chunk_bytes kind)"
  define entry where "entry = (\<lambda>b :: bytes. to_le_u32 (word_of_nat (length b)))"
  have c0: "0 < c" by (simp add: c_def chunk_bytes_pos)
  obtain table payload where pc: "pack_chunks (maxo c) compress (chunks c contents) [] [] = Inr (table, payload)"
    and pk: "packed = PACKED_MAGIC @ marker kind @ to_le_u64 (word_of_nat (length contents)) @ table @ payload"
    and ne: "contents \<noteq> []"
    using ok by (auto simp: pack_def Let_def c_def result_simps split: if_splits)
  obtain bl where bl: "list_all2 (\<lambda>ch b. compress ch = Inr b \<and> b \<noteq> [] \<and> length b \<le> maxo c \<and> length b < 2 ^ 32)
      (chunks c contents) bl" and tp: "table = concat (map entry bl)" "payload = concat bl"
    using pack_chunks_blocks [OF pc] unfolding entry_def by auto
  have all: "list_all (\<lambda>b. b \<noteq> [] \<and> length b \<le> maxo c \<and> length b < 2 ^ 32) bl"
    and two: "list_all2 (\<lambda>ch b. compress ch = Inr b) (chunks c contents) bl"
    using bl by (auto simp: list_all2_conv_all_nth list_all_length)
  have lb: "length bl = (length contents + c - 1) div c"
    using list_all2_lengthD [OF two] c0 by (simp add: length_chunks)
  have le: "length (concat (map entry bl)) = length bl * TABLE_ENTRY_BYTES"
    by (induction bl) (simp_all add: entry_def TABLE_ENTRY_BYTES_def)
  have ch: "chunks TABLE_ENTRY_BYTES table = map entry bl"
    unfolding tp(1) by (rule chunks_concat) (auto simp: TABLE_ENTRY_BYTES_def entry_def list_all_iff)
  have n: "unat (word_of_nat (length contents) :: u64) = length contents" using sz(1) by (simp add: unat_of_nat_eq)
  define hd where "hd = PACKED_MAGIC @ marker kind @ to_le_u64 (word_of_nat (length contents))"
  have lh: "length hd = HEADER_BYTES"
    by (simp add: hd_def HEADER_BYTES_def IMAGE_BYTES_RANGE_def MARKER_RANGE_def MAGIC_RANGE_def)
  have pk': "packed = hd @ table @ payload" using pk by (simp add: hd_def)
  have te: "table_end (word_of_nat (length contents)) c = Some (HEADER_BYTES + length table)"
    using sz(2) n lb le lh pk' by (simp add: table_end_def Let_def tp(1) add.commute)
  have parts: "range_of MAGIC_RANGE hd = PACKED_MAGIC" "range_of MARKER_RANGE hd = marker kind"
    "range_of IMAGE_BYTES_RANGE hd = to_le_u64 (word_of_nat (length contents))"
    by (simp_all add: hd_def range_of_def IMAGE_BYTES_RANGE_def MARKER_RANGE_def MAGIC_RANGE_def)
  have nz: "(word_of_nat (length contents) :: u64) \<noteq> 0" using n ne by auto
  have pe: "parse_entries (maxo c) (map entry bl) [] 0 = Inr (block_ranges 0 bl, length (concat bl))"
    using parse_entries_packed [OF all, of 0 "[]"] sz(2) pk' tp(2) by (simp add: entry_def)
  have sl: "slice packed 0 HEADER_BYTES = Some hd" "slice packed HEADER_BYTES (HEADER_BYTES + length table) = Some table"
    "drop (HEADER_BYTES + length table) packed = payload"
    using lh by (simp_all add: slice_def pk')
  have lp: "length packed - (HEADER_BYTES + length table) = length (concat bl)" using lh tp(2) by (simp add: pk')
  have "packed_parse maxo packed kind = Inr \<lparr>pi_image_bytes = word_of_nat (length contents), pi_chunk_bytes = c,
      pi_blocks = block_ranges 0 bl, pi_payload = concat bl, pi_cached_index = None, pi_cached_bytes = []\<rparr>"
    using sl parts nz te ch pe tp(2) lp
    by (simp add: packed_parse_def marker_validate_def is_marker_marker Let_def c_def [symmetric])
  then show ?thesis using two c_def by blast
qed

lemma packed_image_holds:
  assumes two: "list_all2 (\<lambda>c b. compress c = Inr b) (chunks cb contents) bl" and c0: "0 < cb"
    and codec: "codec_ok compress decompress" and n: "unat n = length contents"
    and img: "img = \<lparr>pi_image_bytes = n, pi_chunk_bytes = cb, pi_blocks = block_ranges 0 bl, pi_payload = concat bl,
      pi_cached_index = None, pi_cached_bytes = []\<rparr>" and wf: "image_wf img"
  shows "image_holds decompress contents img"
proof -
  have "decompress block out = (Some (length out), chunk_of img contents index)"
    if i: "index < length bl" and sl: "slice (concat bl) (fst (block_ranges 0 bl ! index)) (snd (block_ranges 0 bl ! index)) = Some block"
      and l: "length out = chunk_len img index" for index block out
  proof -
    have b: "block = bl ! index" using slice_block_ranges [OF i, of "[]"] sl by simp
    have ic: "index < length (chunks cb contents)" using i list_all2_lengthD [OF two] by simp
    have "chunks cb contents ! index = chunk_of img contents index"
      using nth_chunks [OF c0 ic] by (simp add: chunk_of_def img)
    then have "compress (chunk_of img contents index) = Inr block" using list_all2_nthD [OF two ic] b by simp
    moreover have "length (chunk_of img contents index) = length out" using l n by (simp add: length_chunk_of img)
    ultimately show ?thesis using codec unfolding codec_ok_def by metis
  qed
  then show ?thesis using wf n unfolding image_holds_def by (simp add: img)
qed

text \<open>C6: packing and reading back are inverse. For a codec that decompresses what it compressed, and
  contents and container within the address space, whatever \<open>pack\<close> produces is accepted by \<open>parse\<close> as
  an image of the same size, and every sequence of reads, in any order and of any length, through the
  cache or not, returns exactly the bytes of the original; a read that leaves the image is an
  end-of-file error and changes nothing of that.\<close>

theorem pack_parse_read_round_trip:
  assumes "pack max_output compress contents kind = Ok packed" "codec_ok compress decompress"
    "length contents < 2 ^ 63" "length packed < 2 ^ 63"
  shows "\<exists>img. packed_parse max_output packed kind = Ok img \<and> unat (pi_image_bytes img) = length contents
    \<and> packed_reads decompress reads img = Some (map (exact_read contents) reads)"
proof -
  define c where "c = unat (chunk_bytes kind)"
  obtain bl img where p: "packed_parse max_output packed kind = Inr img"
    and img: "img = \<lparr>pi_image_bytes = word_of_nat (length contents), pi_chunk_bytes = c, pi_blocks = block_ranges 0 bl,
      pi_payload = concat bl, pi_cached_index = None, pi_cached_bytes = []\<rparr>"
    and two: "list_all2 (\<lambda>c b. compress c = Inr b) (chunks c contents) bl"
    using packed_parse_pack [OF assms(1,3,4)] c_def by auto
  have n: "unat (word_of_nat (length contents) :: u64) = length contents" using assms(3) by (simp add: unat_of_nat_eq)
  have "image_holds decompress contents img"
    using packed_image_holds [OF two _ assms(2) n img packed_parse_wf [OF p]] chunk_bytes_pos c_def by simp
  then show ?thesis using p packed_reads_holds n by (auto simp: img)
qed

text \<open>A codec that stores its chunks as they are.\<close>

definition stored :: "bytes \<Rightarrow> bytes \<Rightarrow> nat option \<times> bytes" where
  "stored block out = (if length block = length out then (Some (length block), block) else (None, out))"

lemma stored_ok: "keeps_slice stored" "codec_ok Inr stored"
  by (auto simp: keeps_slice_def codec_ok_def stored_def)

lemma pack_example:
  "pack (\<lambda>n. n) Inr [7, 8, 9] Boot = Inr (PACKED_MAGIC @ marker Boot @ [3, 0, 0, 0, 0, 0, 0, 0] @ [3, 0, 0, 0] @ [7, 8, 9])"
proof -
  have "chunks 65536 [7, 8, 9 :: u8] = [[7, 8, 9]]" by (rule chunks_short) simp_all
  moreover have "to_le_u32 3 = [3, 0, 0, 0]" "to_le_u64 3 = [3, 0, 0, 0, 0, 0, 0, 0]"
    by code_simp+
  ultimately show ?thesis by (simp add: pack_def chunk_bytes_def BOOT_CHUNK_BYTES_def)
qed

theorem pack_parse_read_round_trip_witness:
  "\<exists>packed img. pack (\<lambda>n. n) Inr [7, 8, 9] Boot = Ok packed \<and> packed_parse (\<lambda>n. n) packed Boot = Ok img
    \<and> packed_reads stored [(1, [0, 0]), (0, [0, 0, 0]), (2, [0, 0])] img
      = Some [Ok [8, 9], Ok [7, 8, 9], Err UnexpectedEof]"
  using pack_parse_read_round_trip [OF pack_example stored_ok(2), of "[(1, [0, 0]), (0, [0, 0, 0]), (2, [0, 0])]"] pack_example
  by (auto simp: exact_read_def PACKED_MAGIC_def MARKER_BYTES_def MARKER_DATA_BYTES_def simp del: packed_reads.simps)


theorem parsed_image_reads_return_witness:
  "\<exists>img results. packed_parse (\<lambda>n. n) (PACKED_MAGIC @ marker Boot @ [3, 0, 0, 0, 0, 0, 0, 0] @ [3, 0, 0, 0] @ [7, 8, 9]) Boot = Ok img
    \<and> packed_reads (\<lambda>block out. (Some 1, out)) [(1, [0, 0]), (9, [0])] img = Some results \<and> length results = 2"
proof -
  obtain img where p: "packed_parse (\<lambda>n. n) (PACKED_MAGIC @ marker Boot @ [3, 0, 0, 0, 0, 0, 0, 0] @ [3, 0, 0, 0] @ [7, 8, 9]) Boot = Inr img"
    using packed_parse_pack [OF pack_example] by (auto simp: PACKED_MAGIC_def MARKER_BYTES_def MARKER_DATA_BYTES_def)
  have k: "keeps_slice (\<lambda>block out. (Some 1, out))" by (simp add: keeps_slice_def)
  obtain results where "packed_reads (\<lambda>block out. (Some 1, out)) [(1, [0, 0]), (9, [0])] img = Some results"
      "length results = length [(1 :: u64, [0 :: u8, 0]), (9, [0])]"
    using parsed_image_reads_return [OF p k, of "[(1, [0, 0]), (9, [0])]"] by blast
  then show ?thesis using p by (auto simp del: packed_reads.simps)
qed

end
