(* ===== verification/Disk_Backing.thy ===== *)
theory Disk_Backing
  imports Packed_Image Limits
begin

text \<open>
  The disks behind the block device: the backings of
  \<open>crates/terra-runtime/src/component/block/backing.rs\<close>, the positional file operations of
  \<open>crates/terra-platform/src/filesystem/disk.rs\<close> and the disk imports of \<open>block/host.rs\<close>.
  A file and the system calls on it are a parameter (\<open>file_os\<close>), with what they promise in
  \<open>file_contract\<close>. The trait \<open>BlockBacking\<close> is the locale \<open>block_backing\<close>. A read of a packed image can
  panic in principle; \<open>None\<close> stands for that, and the blocking task turns it into an I/O error and
  leaves the disk's lock poisoned.
\<close>

section \<open>Files\<close>

datatype io_error = Unsupported | OtherError

record 'f file_os =
  fo_len :: "'f \<Rightarrow> io_error + u64"
  fo_read_exact :: "'f \<Rightarrow> u64 \<Rightarrow> nat \<Rightarrow> io_error + bytes"
  fo_write_all :: "'f \<Rightarrow> u64 \<Rightarrow> bytes \<Rightarrow> (io_error + unit) \<times> 'f"
  fo_sync_all :: "'f \<Rightarrow> io_error + unit"
  fo_block_size :: "'f \<Rightarrow> io_error + u64"
  fo_punch_hole :: "'f \<Rightarrow> u64 \<Rightarrow> u64 \<Rightarrow> (io_error + unit) \<times> 'f"
  fo_set_sparse :: "'f \<Rightarrow> bool \<times> 'f"
  fo_set_zero :: "'f \<Rightarrow> u64 \<Rightarrow> u64 \<Rightarrow> bool \<times> 'f"

datatype host_os = Linux | Macos | Windows

definition i64_fits :: "nat \<Rightarrow> bool" where
  "i64_fits n \<longleftrightarrow> n < 2 ^ 63"

definition ignore_unsupported :: "io_error + unit \<Rightarrow> io_error + unit" where
  "ignore_unsupported r = (case r of Inr _ \<Rightarrow> Ok () | Inl e \<Rightarrow> if e = Unsupported then Ok () else Err e)"

definition discard_file_linux :: "'f file_os \<Rightarrow> 'f \<Rightarrow> u64 \<Rightarrow> u64 \<Rightarrow> (io_error + unit) \<times> 'f" where
  "discard_file_linux os f offset len = map_prod ignore_unsupported (\<lambda>g. g) (fo_punch_hole os f offset len)"

definition div_ceil :: "u64 \<Rightarrow> u64 \<Rightarrow> u64" where
  "div_ceil a b = (if a mod b = 0 then a div b else a div b + 1)"

definition discard_file_macos :: "'f file_os \<Rightarrow> 'f \<Rightarrow> u64 \<Rightarrow> u64 \<Rightarrow> (io_error + unit) \<times> 'f" where
  "discard_file_macos os f offset len =
     (case fo_block_size os f of
        Inl e \<Rightarrow> (Err e, f)
      | Inr block \<Rightarrow>
          if block = 0 then (Err OtherError, f)
          else case checked_add offset len of
            None \<Rightarrow> (Err OtherError, f)
          | Some end \<Rightarrow>
              (case checked_mul (div_ceil offset block) block of
                 None \<Rightarrow> (Err OtherError, f)
               | Some start \<Rightarrow>
                   let stop = end div block * block in
                   if stop \<le> start then (Ok (), f)
                   else if \<not> i64_fits (unat start) \<or> \<not> i64_fits (unat (stop - start)) then (Err OtherError, f)
                   else map_prod ignore_unsupported (\<lambda>g. g) (fo_punch_hole os f start (stop - start))))"

definition ZERO_CHUNK_BYTES :: nat where "ZERO_CHUNK_BYTES = 64 * 1024"

lemma zero_chunk_shrinks:
  fixes len :: u64
  assumes "len \<noteq> 0"
  shows "unat (len - word_of_nat (min (unat len) ZERO_CHUNK_BYTES)) = unat len - min (unat len) ZERO_CHUNK_BYTES"
    "0 < min (unat len) ZERO_CHUNK_BYTES"
proof -
  have n: "unat (word_of_nat (min (unat len) ZERO_CHUNK_BYTES) :: u64) = min (unat len) ZERO_CHUNK_BYTES"
    by (rule unat_of_nat_eq) (simp add: ZERO_CHUNK_BYTES_def)
  then show "unat (len - word_of_nat (min (unat len) ZERO_CHUNK_BYTES)) = unat len - min (unat len) ZERO_CHUNK_BYTES"
    by (subst unat_sub_le) (simp_all add: word_le_nat_alt)
  show "0 < min (unat len) ZERO_CHUNK_BYTES"
    using assms by (auto simp: ZERO_CHUNK_BYTES_def unat_eq_0 intro: gr0I)
qed

function zero_loop :: "'f file_os \<Rightarrow> 'f \<Rightarrow> u64 \<Rightarrow> u64 \<Rightarrow> (io_error + unit) \<times> 'f" where
  "zero_loop os f offset len =
     (if len = 0 then (Ok (), f)
      else let chunk = min (unat len) ZERO_CHUNK_BYTES in
        case fo_write_all os f offset (replicate chunk 0) of
          (Inl e, f') \<Rightarrow> (Err e, f')
        | (Inr _, f') \<Rightarrow> zero_loop os f' (offset + word_of_nat chunk) (len - word_of_nat chunk))"
  by pat_completeness auto

termination
  by (relation "measure (\<lambda>(_, _, _, len). unat len)") (auto simp: zero_chunk_shrinks intro!: diff_less zero_chunk_shrinks(2)
      simp: word_neq_0_conv [symmetric] unat_gt_0)

declare zero_loop.simps [simp del]

definition zero_file_range :: "'f file_os \<Rightarrow> 'f \<Rightarrow> u64 \<Rightarrow> u64 \<Rightarrow> (io_error + unit) \<times> 'f" where
  "zero_file_range os f offset len =
     (case checked_add offset len of
        None \<Rightarrow> (Err OtherError, f)
      | Some end \<Rightarrow>
          (case fo_len os f of
             Inl e \<Rightarrow> (Err e, f)
           | Inr n \<Rightarrow> if n < end then (Err OtherError, f) else zero_loop os f offset len))"

definition discard_file_windows :: "'f file_os \<Rightarrow> 'f \<Rightarrow> u64 \<Rightarrow> u64 \<Rightarrow> (io_error + unit) \<times> 'f" where
  "discard_file_windows os f offset len =
     (if \<not> i64_fits (unat offset) \<or> \<not> i64_fits (unat len) \<or> \<not> i64_fits (unat offset + unat len) then (Err OtherError, f)
      else case fo_set_sparse os f of
        (False, f1) \<Rightarrow> zero_file_range os f1 offset len
      | (True, f1) \<Rightarrow>
          (case fo_set_zero os f1 offset (offset + len) of
             (False, f2) \<Rightarrow> zero_file_range os f2 offset len
           | (True, f2) \<Rightarrow> (Ok (), f2)))"

definition discard_file :: "host_os \<Rightarrow> 'f file_os \<Rightarrow> 'f \<Rightarrow> u64 \<Rightarrow> u64 \<Rightarrow> (io_error + unit) \<times> 'f" where
  "discard_file platform = (case platform of
     Linux \<Rightarrow> discard_file_linux | Macos \<Rightarrow> discard_file_macos | Windows \<Rightarrow> discard_file_windows)"

definition file_discard :: "host_os \<Rightarrow> 'f file_os \<Rightarrow> 'f \<Rightarrow> u64 \<Rightarrow> u64 \<Rightarrow> (io_error + unit) \<times> 'f" where
  "file_discard platform os f offset len =
     (if len = 0 then (Ok (), f) else discard_file platform os f offset len)"


section \<open>Backings\<close>

datatype access_mode = ReadOnly | ReadWrite

definition is_read_only :: "access_mode \<Rightarrow> bool" where
  "is_read_only access = (access = ReadOnly)"

datatype backing_error = Backing_OutOfRange | Backing_ReadOnly | Backing_Io

text \<open>The methods of \<open>BlockBacking\<close>. A read may change a cache, and returns \<open>None\<close> when it panics.\<close>

record 'd disk_ops =
  b_capacity :: "'d \<Rightarrow> u64"
  b_access :: "'d \<Rightarrow> access_mode"
  b_read_at :: "'d \<Rightarrow> u64 \<Rightarrow> nat \<Rightarrow> ((backing_error + bytes) \<times> 'd) option"
  b_write_at :: "'d \<Rightarrow> u64 \<Rightarrow> bytes \<Rightarrow> (backing_error + unit) \<times> 'd"
  b_discard :: "'d \<Rightarrow> u64 \<Rightarrow> u64 \<Rightarrow> (backing_error + unit) \<times> 'd"
  b_sync :: "'d \<Rightarrow> backing_error + unit"

definition check_range :: "u64 \<Rightarrow> u64 \<Rightarrow> u64 \<Rightarrow> backing_error + unit" where
  "check_range capacity offset len =
     and_then (ok_or Backing_OutOfRange (checked_add offset len)) (\<lambda>end.
     if capacity < end then Err Backing_OutOfRange else Ok ())"

subsection \<open>In memory\<close>

record bounded_disk =
  bd_data :: bytes
  bd_access :: access_mode

definition bounded_new :: "nat \<Rightarrow> access_mode \<Rightarrow> bounded_disk" where
  "bounded_new capacity access = \<lparr>bd_data = replicate capacity 0, bd_access = access\<rparr>"

definition bounded_range :: "bounded_disk \<Rightarrow> u64 \<Rightarrow> nat \<Rightarrow> backing_error + (nat \<times> nat)" where
  "bounded_range d offset len =
     (if unat offset + len \<ge> 2 ^ 64 then Err Backing_OutOfRange
      else if length (bd_data d) < unat offset + len then Err Backing_OutOfRange
      else Ok (unat offset, unat offset + len))"

definition bounded_capacity :: "bounded_disk \<Rightarrow> u64" where
  "bounded_capacity d = (if length (bd_data d) < 2 ^ 64 then word_of_nat (length (bd_data d)) else - 1)"

definition bounded_read_at :: "bounded_disk \<Rightarrow> u64 \<Rightarrow> nat \<Rightarrow> backing_error + bytes" where
  "bounded_read_at d offset len =
     and_then (bounded_range d offset len) (\<lambda>(a, b). Ok (take (b - a) (drop a (bd_data d))))"

definition bounded_write_at :: "bounded_disk \<Rightarrow> u64 \<Rightarrow> bytes \<Rightarrow> (backing_error + unit) \<times> bounded_disk" where
  "bounded_write_at d offset buf =
     (if is_read_only (bd_access d) then (Err Backing_ReadOnly, d)
      else case bounded_range d offset (length buf) of
        Inl e \<Rightarrow> (Err e, d)
      | Inr (a, b) \<Rightarrow> (Ok (), d\<lparr>bd_data := splice (bd_data d) a buf\<rparr>))"

definition bounded_discard :: "bounded_disk \<Rightarrow> u64 \<Rightarrow> u64 \<Rightarrow> (backing_error + unit) \<times> bounded_disk" where
  "bounded_discard d offset len =
     (if is_read_only (bd_access d) then (Err Backing_ReadOnly, d)
      else case bounded_range d offset (unat len) of
        Inl e \<Rightarrow> (Err e, d)
      | Inr (a, b) \<Rightarrow> (Ok (), d\<lparr>bd_data := splice (bd_data d) a (replicate (b - a) 0)\<rparr>))"

definition bounded_ops :: "bounded_disk disk_ops" where
  "bounded_ops = \<lparr>b_capacity = bounded_capacity, b_access = bd_access,
     b_read_at = (\<lambda>d offset len. Some (bounded_read_at d offset len, d)),
     b_write_at = bounded_write_at, b_discard = bounded_discard, b_sync = (\<lambda>_. Ok ())\<rparr>"

subsection \<open>Packed images\<close>

record packed_disk =
  pd_capacity :: u64
  pd_image :: packed_image

definition packed_new :: "packed_image \<Rightarrow> packed_disk" where
  "packed_new img = \<lparr>pd_capacity = pi_image_bytes img, pd_image = img\<rparr>"

definition packed_disk_read_at ::
  "(bytes \<Rightarrow> bytes \<Rightarrow> nat option \<times> bytes) \<Rightarrow> packed_disk \<Rightarrow> u64 \<Rightarrow> nat \<Rightarrow> ((backing_error + bytes) \<times> packed_disk) option" where
  "packed_disk_read_at decompress d offset len =
     (case check_range (pd_capacity d) offset (word_of_nat len) of
        Inl e \<Rightarrow> Some (Err e, d)
      | Inr _ \<Rightarrow> map_option (\<lambda>(r, img). (map_err (\<lambda>_. Backing_Io) r, d\<lparr>pd_image := img\<rparr>))
                   (packed_read_at decompress offset (replicate len 0) (pd_image d)))"

definition packed_ops :: "(bytes \<Rightarrow> bytes \<Rightarrow> nat option \<times> bytes) \<Rightarrow> packed_disk disk_ops" where
  "packed_ops decompress = \<lparr>b_capacity = pd_capacity, b_access = (\<lambda>_. ReadOnly),
     b_read_at = packed_disk_read_at decompress,
     b_write_at = (\<lambda>d _ _. (Err Backing_ReadOnly, d)), b_discard = (\<lambda>d _ _. (Err Backing_ReadOnly, d)),
     b_sync = (\<lambda>_. Ok ())\<rparr>"

subsection \<open>Files\<close>

record 'f file_disk =
  fd_file :: 'f
  fd_capacity :: u64
  fd_access :: access_mode

text \<open>The file has been opened with the mode of the grant; its length then is the capacity.\<close>

definition file_open :: "'f file_os \<Rightarrow> (bool \<Rightarrow> io_error + 'f) \<Rightarrow> access_mode \<Rightarrow> io_error + 'f file_disk" where
  "file_open os open_disk access =
     and_then (open_disk (is_read_only access)) (\<lambda>f.
     and_then (fo_len os f) (\<lambda>capacity.
     Ok \<lparr>fd_file = f, fd_capacity = capacity, fd_access = access\<rparr>))"

definition file_read_at :: "'f file_os \<Rightarrow> 'f file_disk \<Rightarrow> u64 \<Rightarrow> nat \<Rightarrow> backing_error + bytes" where
  "file_read_at os d offset len =
     and_then (check_range (fd_capacity d) offset (word_of_nat len)) (\<lambda>_.
     map_err (\<lambda>_. Backing_Io) (fo_read_exact os (fd_file d) offset len))"

definition file_write_at :: "'f file_os \<Rightarrow> 'f file_disk \<Rightarrow> u64 \<Rightarrow> bytes \<Rightarrow> (backing_error + unit) \<times> 'f file_disk" where
  "file_write_at os d offset buf =
     (if is_read_only (fd_access d) then (Err Backing_ReadOnly, d)
      else case check_range (fd_capacity d) offset (word_of_nat (length buf)) of
        Inl e \<Rightarrow> (Err e, d)
      | Inr _ \<Rightarrow> map_prod (map_err (\<lambda>_. Backing_Io)) (\<lambda>f. d\<lparr>fd_file := f\<rparr>)
                   (fo_write_all os (fd_file d) offset buf))"

definition file_disk_discard ::
  "host_os \<Rightarrow> 'f file_os \<Rightarrow> 'f file_disk \<Rightarrow> u64 \<Rightarrow> u64 \<Rightarrow> (backing_error + unit) \<times> 'f file_disk" where
  "file_disk_discard platform os d offset len =
     (if is_read_only (fd_access d) then (Err Backing_ReadOnly, d)
      else case check_range (fd_capacity d) offset len of
        Inl e \<Rightarrow> (Err e, d)
      | Inr _ \<Rightarrow> map_prod (map_err (\<lambda>_. Backing_Io)) (\<lambda>f. d\<lparr>fd_file := f\<rparr>)
                   (file_discard platform os (fd_file d) offset len))"

definition file_ops :: "host_os \<Rightarrow> 'f file_os \<Rightarrow> 'f file_disk disk_ops" where
  "file_ops platform os = \<lparr>b_capacity = fd_capacity, b_access = fd_access,
     b_read_at = (\<lambda>d offset len. Some (file_read_at os d offset len, d)),
     b_write_at = file_write_at os, b_discard = file_disk_discard platform os,
     b_sync = (\<lambda>d. map_err (\<lambda>_. Backing_Io) (fo_sync_all os (fd_file d)))\<rparr>"

subsection \<open>The grant\<close>

datatype 'f disk_grant = Mem bounded_disk | File "'f file_disk" | Packed packed_disk

definition grant_capacity :: "'f disk_grant \<Rightarrow> u64" where
  "grant_capacity g = (case g of Mem d \<Rightarrow> bounded_capacity d | File d \<Rightarrow> fd_capacity d | Packed d \<Rightarrow> pd_capacity d)"

definition grant_access :: "'f disk_grant \<Rightarrow> access_mode" where
  "grant_access g = (case g of Mem d \<Rightarrow> bd_access d | File d \<Rightarrow> fd_access d | Packed d \<Rightarrow> ReadOnly)"

definition grant_read_at ::
  "'f file_os \<Rightarrow> (bytes \<Rightarrow> bytes \<Rightarrow> nat option \<times> bytes) \<Rightarrow> 'f disk_grant \<Rightarrow> u64 \<Rightarrow> nat
   \<Rightarrow> ((backing_error + bytes) \<times> 'f disk_grant) option" where
  "grant_read_at os decompress g offset len = (case g of
     Mem d \<Rightarrow> Some (bounded_read_at d offset len, Mem d)
   | File d \<Rightarrow> Some (file_read_at os d offset len, File d)
   | Packed d \<Rightarrow> map_option (map_prod (\<lambda>r. r) Packed) (packed_disk_read_at decompress d offset len))"

definition grant_write_at ::
  "'f file_os \<Rightarrow> 'f disk_grant \<Rightarrow> u64 \<Rightarrow> bytes \<Rightarrow> (backing_error + unit) \<times> 'f disk_grant" where
  "grant_write_at os g offset buf = (case g of
     Mem d \<Rightarrow> map_prod (\<lambda>r. r) Mem (bounded_write_at d offset buf)
   | File d \<Rightarrow> map_prod (\<lambda>r. r) File (file_write_at os d offset buf)
   | Packed d \<Rightarrow> (Err Backing_ReadOnly, Packed d))"

definition grant_discard ::
  "host_os \<Rightarrow> 'f file_os \<Rightarrow> 'f disk_grant \<Rightarrow> u64 \<Rightarrow> u64 \<Rightarrow> (backing_error + unit) \<times> 'f disk_grant" where
  "grant_discard platform os g offset len = (case g of
     Mem d \<Rightarrow> map_prod (\<lambda>r. r) Mem (bounded_discard d offset len)
   | File d \<Rightarrow> map_prod (\<lambda>r. r) File (file_disk_discard platform os d offset len)
   | Packed d \<Rightarrow> (Err Backing_ReadOnly, Packed d))"

definition grant_sync :: "'f file_os \<Rightarrow> 'f disk_grant \<Rightarrow> backing_error + unit" where
  "grant_sync os g = (case g of
     Mem d \<Rightarrow> Ok () | File d \<Rightarrow> map_err (\<lambda>_. Backing_Io) (fo_sync_all os (fd_file d)) | Packed d \<Rightarrow> Ok ())"

definition grant_ops ::
  "host_os \<Rightarrow> 'f file_os \<Rightarrow> (bytes \<Rightarrow> bytes \<Rightarrow> nat option \<times> bytes) \<Rightarrow> 'f disk_grant disk_ops" where
  "grant_ops platform os decompress = \<lparr>b_capacity = grant_capacity, b_access = grant_access,
     b_read_at = grant_read_at os decompress, b_write_at = grant_write_at os,
     b_discard = grant_discard platform os, b_sync = grant_sync os\<rparr>"

section \<open>The disk imports\<close>

datatype disk_error = Disk_TooLarge | Disk_OutOfRange | Disk_Readonly | Disk_Io

text \<open>The host of a block device. The semaphore has one slot, so jobs run one after the other.\<close>

record 'd block_host =
  bh_disk :: 'd
  bh_disk_capacity :: u64
  bh_disk_access :: access_mode
  bh_poisoned :: bool

definition block_host_new :: "'d disk_ops \<Rightarrow> 'd \<Rightarrow> 'd block_host" where
  "block_host_new ops disk = \<lparr>bh_disk = disk, bh_disk_capacity = b_capacity ops disk,
     bh_disk_access = b_access ops disk, bh_poisoned = False\<rparr>"

definition disk_error_of :: "backing_error \<Rightarrow> disk_error" where
  "disk_error_of e = (case e of Backing_OutOfRange \<Rightarrow> Disk_OutOfRange | Backing_ReadOnly \<Rightarrow> Disk_Readonly | Backing_Io \<Rightarrow> Disk_Io)"

definition run_disk_job ::
  "'d block_host \<Rightarrow> u64 \<Rightarrow> u64 \<Rightarrow> u64 \<Rightarrow> ('d \<Rightarrow> ((backing_error + 'a) \<times> 'd) option) \<Rightarrow> (disk_error + 'a) \<times> 'd block_host" where
  "run_disk_job h offset len max_len operation =
     (if max_len < len then (Err Disk_TooLarge, h)
      else if (case checked_add offset len of None \<Rightarrow> True | Some end \<Rightarrow> bh_disk_capacity h < end)
      then (Err Disk_OutOfRange, h)
      else if bh_poisoned h then (Err Disk_Io, h)
      else case operation (bh_disk h) of
        None \<Rightarrow> (Err Disk_Io, h\<lparr>bh_poisoned := True\<rparr>)
      | Some (r, d) \<Rightarrow> (map_err disk_error_of r, h\<lparr>bh_disk := d\<rparr>))"

definition disk_read_at :: "'d disk_ops \<Rightarrow> 'd block_host \<Rightarrow> u64 \<Rightarrow> u64 \<Rightarrow> (disk_error + bytes) \<times> 'd block_host" where
  "disk_read_at ops h offset len =
     run_disk_job h offset len MAX_BATCH_GUEST_COPY_BYTES (\<lambda>d. b_read_at ops d offset (unat len))"

definition disk_write_at :: "'d disk_ops \<Rightarrow> 'd block_host \<Rightarrow> u64 \<Rightarrow> bytes \<Rightarrow> (disk_error + unit) \<times> 'd block_host" where
  "disk_write_at ops h offset data =
     run_disk_job h offset (word_of_nat (length data)) MAX_BATCH_GUEST_COPY_BYTES
       (\<lambda>d. Some (b_write_at ops d offset data))"

definition disk_discard :: "'d disk_ops \<Rightarrow> 'd block_host \<Rightarrow> u64 \<Rightarrow> u64 \<Rightarrow> (disk_error + unit) \<times> 'd block_host" where
  "disk_discard ops h offset len =
     run_disk_job h offset len MAX_GUEST_DISCARD_BYTES (\<lambda>d. Some (b_discard ops d offset len))"

definition disk_sync :: "'d disk_ops \<Rightarrow> 'd block_host \<Rightarrow> (disk_error + unit) \<times> 'd block_host" where
  "disk_sync ops h = run_disk_job h 0 0 MAX_BATCH_GUEST_COPY_BYTES (\<lambda>d. Some (b_sync ops d, d))"

definition disk_capacity_import :: "'d block_host \<Rightarrow> u64" where
  "disk_capacity_import h = bh_disk_capacity h"


section \<open>What a backing promises\<close>

definition same_outside :: "nat \<Rightarrow> nat \<Rightarrow> bytes \<Rightarrow> bytes \<Rightarrow> bool" where
  "same_outside offset n c c' \<longleftrightarrow> length c' = length c
     \<and> (\<forall>i < length c. i < offset \<or> offset + n \<le> i \<longrightarrow> c' ! i = c ! i)"

definition discarded :: "nat \<Rightarrow> nat \<Rightarrow> bytes \<Rightarrow> bytes \<Rightarrow> bool" where
  "discarded offset n c c' \<longleftrightarrow> same_outside offset n c c' \<and> (\<forall>i < length c. c' ! i = c ! i \<or> c' ! i = 0)"

definition read_effect :: "bytes \<Rightarrow> nat \<Rightarrow> nat \<Rightarrow> 'e + bytes \<Rightarrow> bool" where
  "read_effect data offset n r \<longleftrightarrow>
     (\<forall>bs. r = Inr bs \<longrightarrow> offset + n \<le> length data \<and> bs = take n (drop offset data))"

definition write_effect :: "access_mode \<Rightarrow> bytes \<Rightarrow> nat \<Rightarrow> bytes \<Rightarrow> 'e + unit \<Rightarrow> bytes \<Rightarrow> bool" where
  "write_effect access data offset buf r data' \<longleftrightarrow>
     (if access = ReadWrite \<and> offset + length buf \<le> length data
      then same_outside offset (length buf) data data' \<and> (is_ok r \<longrightarrow> data' = splice data offset buf)
      else \<not> is_ok r \<and> data' = data)"

definition discard_effect :: "access_mode \<Rightarrow> bytes \<Rightarrow> nat \<Rightarrow> nat \<Rightarrow> 'e + unit \<Rightarrow> bytes \<Rightarrow> bool" where
  "discard_effect access data offset n r data' \<longleftrightarrow>
     (if access = ReadWrite \<and> offset + n \<le> length data
      then same_outside offset n data data' \<and> (is_ok r \<longrightarrow> discarded offset n data data')
      else \<not> is_ok r \<and> data' = data)"

lemma same_outside_refl [simp]: "same_outside offset n c c"
  by (simp add: same_outside_def)

lemma same_outside_length: "same_outside offset n c c' \<Longrightarrow> length c' = length c"
  by (simp add: same_outside_def)

lemma same_outside_trans: "same_outside offset n a b \<Longrightarrow> same_outside offset n b c \<Longrightarrow> same_outside offset n a c"
  by (simp add: same_outside_def)

lemma same_outside_widen:
  "same_outside o1 n1 c c' \<Longrightarrow> o2 \<le> o1 \<Longrightarrow> o1 + n1 \<le> o2 + n2 \<Longrightarrow> same_outside o2 n2 c c'"
  by (auto simp: same_outside_def)

lemma discarded_refl [simp]: "discarded offset n c c"
  by (simp add: discarded_def)

lemma discarded_outside: "discarded offset n c c' \<Longrightarrow> same_outside offset n c c'"
  by (simp add: discarded_def)

lemma discarded_trans: "discarded offset n a b \<Longrightarrow> discarded offset n b c \<Longrightarrow> discarded offset n a c"
proof -
  assume d: "discarded offset n a b" "discarded offset n b c"
  have "length b = length a" using d(1) by (simp add: discarded_def same_outside_def)
  then have "\<forall>i < length a. c ! i = a ! i \<or> c ! i = 0" using d unfolding discarded_def by (metis (no_types, lifting))
  then show ?thesis using d same_outside_trans unfolding discarded_def by blast
qed

lemma discarded_widen:
  "discarded o1 n1 c c' \<Longrightarrow> o2 \<le> o1 \<Longrightarrow> o1 + n1 \<le> o2 + n2 \<Longrightarrow> discarded o2 n2 c c'"
  by (auto simp: discarded_def intro: same_outside_widen)

lemma splice_outside: "offset + length buf \<le> length c \<Longrightarrow> same_outside offset (length buf) c (splice c offset buf)"
  by (auto simp: same_outside_def nth_splice)

lemma splice_zero_discarded: "offset + n \<le> length c \<Longrightarrow> discarded offset n c (splice c offset (replicate n 0))"
  using splice_outside [of offset "replicate n 0" c] by (auto simp: discarded_def nth_splice)

text \<open>The trait: the laws its clients rely on, over an abstract view of the disk's bytes.\<close>

locale block_backing =
  fixes ops :: "'d disk_ops" and good :: "'d \<Rightarrow> bool" and view :: "'d \<Rightarrow> bytes"
  assumes capacity_law: "good d \<Longrightarrow> unat (b_capacity ops d) = length (view d)"
    and read_law: "good d \<Longrightarrow> n < 2 ^ 64 \<Longrightarrow> \<exists>r d'. b_read_at ops d offset n = Some (r, d') \<and> good d'
      \<and> view d' = view d \<and> b_access ops d' = b_access ops d \<and> read_effect (view d) (unat offset) n r"
    and write_law: "good d \<Longrightarrow> length buf < 2 ^ 64 \<Longrightarrow> b_write_at ops d offset buf = (r, d') \<Longrightarrow> good d'
      \<and> b_access ops d' = b_access ops d \<and> write_effect (b_access ops d) (view d) (unat offset) buf r (view d')"
    and discard_law: "good d \<Longrightarrow> b_discard ops d offset len = (r, d') \<Longrightarrow> good d'
      \<and> b_access ops d' = b_access ops d \<and> discard_effect (b_access ops d) (view d) (unat offset) (unat len) r (view d')"

lemma outcome_length:
  "write_effect access data offset buf r data' \<Longrightarrow> length data' = length data"
  "discard_effect access data offset n r data' \<Longrightarrow> length data' = length data"
  by (auto simp: write_effect_def discard_effect_def same_outside_length split: if_splits)

lemma bounded_range_eq:
  assumes "length (bd_data d) < 2 ^ 64"
  shows "bounded_range d offset n = (if unat offset + n \<le> length (bd_data d) then Inr (unat offset, unat offset + n)
    else Inl Backing_OutOfRange)"
  using assms by (auto simp: bounded_range_def)

interpretation bounded: block_backing bounded_ops "\<lambda>d. length (bd_data d) < 2 ^ 64" bd_data
proof (unfold_locales, goal_cases)
  case (1 d)
  then show ?case by (simp add: bounded_ops_def bounded_capacity_def unat_of_nat_eq)
next
  case (2 d n offset)
  then show ?case by (auto simp: bounded_ops_def bounded_read_at_def bounded_range_eq read_effect_def result_simps)
next
  case (3 d buf offset r d')
  then show ?case using splice_outside
    by (cases "bd_access d") (auto simp: bounded_ops_def bounded_write_at_def bounded_range_eq write_effect_def is_read_only_def
        split: if_splits)
next
  case (4 d offset len r d')
  then show ?case using splice_zero_discarded [THEN discarded_outside] splice_zero_discarded
    by (cases "bd_access d") (auto simp: bounded_ops_def bounded_discard_def bounded_range_eq discard_effect_def is_read_only_def
        split: if_splits)
qed

lemma check_range_eq:
  "check_range capacity offset len = (if unat offset + unat len \<le> unat capacity then Inr () else Inl Backing_OutOfRange)"
proof (cases "checked_add offset len")
  case None
  then have "2 ^ 64 \<le> unat offset + unat len" by (simp add: checked_add_None)
  then show ?thesis using None unat_lt_pow [of capacity] by (auto simp: check_range_def)
next
  case (Some e)
  then show ?thesis using checked_add_unat [OF Some] by (auto simp: check_range_def word_less_nat_alt)
qed


section \<open>Files keep the promise\<close>

text \<open>
  What the operating system promises of a file nobody else resizes: reads return its bytes, a write or a
  hole changes only its range, also when it fails, and a hole reads as zeros or as before.
\<close>

definition file_contract :: "'f file_os \<Rightarrow> ('f \<Rightarrow> bytes) \<Rightarrow> bool" where
  "file_contract os contents \<longleftrightarrow>
     (\<forall>f n. fo_len os f = Inr n \<longrightarrow> unat n = length (contents f))
     \<and> (\<forall>f offset n. read_effect (contents f) (unat offset) n (fo_read_exact os f offset n))
     \<and> (\<forall>f offset buf r f'. fo_write_all os f offset buf = (r, f') \<longrightarrow> unat offset + length buf \<le> length (contents f)
          \<longrightarrow> same_outside (unat offset) (length buf) (contents f) (contents f')
            \<and> (is_ok r \<longrightarrow> contents f' = splice (contents f) (unat offset) buf))
     \<and> (\<forall>f offset len r f'. fo_punch_hole os f offset len = (r, f') \<longrightarrow> unat offset + unat len \<le> length (contents f)
          \<longrightarrow> discarded (unat offset) (unat len) (contents f) (contents f'))
     \<and> (\<forall>f r f'. fo_set_sparse os f = (r, f') \<longrightarrow> contents f' = contents f)
     \<and> (\<forall>f start stop r f'. fo_set_zero os f start stop = (r, f') \<longrightarrow> start \<le> stop \<longrightarrow> unat stop \<le> length (contents f)
          \<longrightarrow> discarded (unat start) (unat stop - unat start) (contents f) (contents f'))"

lemma contract_read: "file_contract os contents \<Longrightarrow> read_effect (contents f) (unat offset) n (fo_read_exact os f offset n)"
  by (simp add: file_contract_def)

lemma contract_write:
  "file_contract os contents \<Longrightarrow> fo_write_all os f offset buf = (r, f') \<Longrightarrow> unat offset + length buf \<le> length (contents f)
   \<Longrightarrow> same_outside (unat offset) (length buf) (contents f) (contents f')
     \<and> (is_ok r \<longrightarrow> contents f' = splice (contents f) (unat offset) buf)"
  by (simp add: file_contract_def)

lemma contract_punch:
  "file_contract os contents \<Longrightarrow> fo_punch_hole os f offset len = (r, f') \<Longrightarrow> unat offset + unat len \<le> length (contents f)
   \<Longrightarrow> discarded (unat offset) (unat len) (contents f) (contents f')"
  by (simp add: file_contract_def)

lemma contract_sparse: "file_contract os contents \<Longrightarrow> fo_set_sparse os f = (r, f') \<Longrightarrow> contents f' = contents f"
  by (simp add: file_contract_def)

lemma contract_zero:
  "file_contract os contents \<Longrightarrow> fo_set_zero os f start stop = (r, f') \<Longrightarrow> start \<le> stop \<Longrightarrow> unat stop \<le> length (contents f)
   \<Longrightarrow> discarded (unat start) (unat stop - unat start) (contents f) (contents f')"
  by (simp add: file_contract_def)

definition dropped :: "nat \<Rightarrow> nat \<Rightarrow> 'e + unit \<Rightarrow> bytes \<Rightarrow> bytes \<Rightarrow> bool" where
  "dropped offset n r c c' \<longleftrightarrow> same_outside offset n c c' \<and> (is_ok r \<longrightarrow> discarded offset n c c')"

lemma dropped_of_discarded: "discarded offset n c c' \<Longrightarrow> dropped offset n r c c'"
  by (simp add: dropped_def discarded_def)

lemma discarded_dropped: "discarded offset n a b \<Longrightarrow> dropped offset n r b c \<Longrightarrow> dropped offset n r a c"
  unfolding dropped_def using discarded_trans same_outside_trans discarded_outside by blast

lemma dropped_widen: "dropped o1 n1 r c c' \<Longrightarrow> o2 \<le> o1 \<Longrightarrow> o1 + n1 \<le> o2 + n2 \<Longrightarrow> dropped o2 n2 r c c'"
  unfolding dropped_def using discarded_widen same_outside_widen by blast

lemma linux_dropped:
  assumes "file_contract os contents" "discard_file_linux os f offset len = (r, f')" "unat offset + unat len \<le> length (contents f)"
  shows "dropped (unat offset) (unat len) r (contents f) (contents f')"
  using assms(2) contract_punch [OF assms(1) _ assms(3)]
  by (cases "fo_punch_hole os f offset len") (auto simp: discard_file_linux_def intro: dropped_of_discarded)

text \<open>The hole on macOS is the part of the range aligned to the file system's blocks.\<close>

lemma aligned_inside:
  fixes offset e block start :: u64
  assumes "block \<noteq> 0" "checked_mul (div_ceil offset block) block = Some start" "\<not> e div block * block \<le> start"
  shows "unat offset \<le> unat start \<and> unat start + unat (e div block * block - start) \<le> unat e"
proof -
  define stop where "stop = e div block * block"
  have b: "0 < unat block" using assms(1) by (simp add: unat_gt_0)
  have "unat (e div block) * unat block \<le> unat e" by (simp add: unat_div)
  moreover have "unat e < 2 ^ 64" using unat_lt_pow [of e] by simp
  ultimately have st: "unat stop = unat (e div block) * unat block"
    unfolding stop_def by (intro unat_mult_no_wrap) simp
  have le: "start \<le> stop" using assms(3) by (simp add: stop_def)
  have u: "unat (stop - start) = unat stop - unat start" by (rule unat_sub_le [OF le])
  have up: "unat offset \<le> unat (div_ceil offset block) * unat block"
  proof (cases "offset mod block = 0")
    case True
    then have "unat offset mod unat block = 0" by (metis unat_mod unat_0)
    then have "unat offset div unat block * unat block = unat offset"
      using div_mult_mod_eq [of "unat offset" "unat block"] by linarith
    then show ?thesis using True by (simp add: div_ceil_def unat_div)
  next
    case False
    have "unat (offset div block) + 1 < 2 ^ 64"
    proof -
      have "unat block \<noteq> 1"
      proof
        assume "unat block = 1"
        then have "unat (offset mod block) = 0" by (simp add: unat_mod)
        then show False using False by (simp add: unat_eq_0)
      qed
      then have "2 \<le> unat block" using b by simp
      then have "unat offset div unat block \<le> unat offset div 2" by (simp add: div_le_mono2)
      also have "\<dots> < 2 ^ 63" using unat_lt_pow [of offset] by simp
      finally show ?thesis by (simp add: unat_div)
    qed
    then have "unat (offset div block + 1) = unat offset div unat block + 1"
      by (subst unat_add_no_wrap) (simp_all add: unat_div)
    moreover have "unat offset \<le> (unat offset div unat block + 1) * unat block"
    proof -
      have "(unat offset div unat block + 1) * unat block = unat offset div unat block * unat block + unat block" by simp
      then show ?thesis
        using div_mult_mod_eq [of "unat offset" "unat block"] mod_less_divisor [OF b, of "unat offset"] by linarith
    qed
    ultimately show ?thesis using False by (simp add: div_ceil_def)
  qed
  have "unat start = unat (div_ceil offset block) * unat block" using checked_mul_unat [OF assms(2)] .
  then show ?thesis using up u st le \<open>unat (e div block) * unat block \<le> unat e\<close>
    by (simp add: stop_def [symmetric] word_le_nat_alt)
qed


lemma macos_dropped:
  assumes "file_contract os contents" "discard_file_macos os f offset len = (r, f')" "unat offset + unat len \<le> length (contents f)"
  shows "dropped (unat offset) (unat len) r (contents f) (contents f')"
proof (cases "f' = f")
  case True
  then show ?thesis by (simp add: dropped_of_discarded)
next
  case False
  from False assms(2) obtain block e start where
    b: "block \<noteq> 0" "checked_add offset len = Some e" "checked_mul (div_ceil offset block) block = Some start"
    "\<not> e div block * block \<le> start"
    and p: "map_prod ignore_unsupported (\<lambda>g. g) (fo_punch_hole os f start (e div block * block - start)) = (r, f')"
    by (auto simp: discard_file_macos_def Let_def split: sum.splits option.splits if_splits)
  obtain q where q: "fo_punch_hole os f start (e div block * block - start) = (q, f')"
    using p by (cases "fo_punch_hole os f start (e div block * block - start)") auto
  have i: "unat offset \<le> unat start" "unat start + unat (e div block * block - start) \<le> unat offset + unat len"
    using aligned_inside [OF b(1,3,4)] checked_add_unat [OF b(2)] by auto
  have "discarded (unat start) (unat (e div block * block - start)) (contents f) (contents f')"
    by (rule contract_punch [OF assms(1) q le_trans [OF i(2) assms(3)]])
  then show ?thesis by (rule dropped_of_discarded [OF discarded_widen]) (fact i)+
qed

lemma zero_loop_dropped:
  "file_contract os contents \<Longrightarrow> zero_loop os f offset len = (r, f') \<Longrightarrow> unat offset + unat len \<le> length (contents f)
   \<Longrightarrow> length (contents f) < 2 ^ 64 \<Longrightarrow> dropped (unat offset) (unat len) r (contents f) (contents f')"
proof (induction os f offset len rule: zero_loop.induct)
  case (1 os f offset len)
  show ?case
  proof (cases "len = 0")
    case True
    then show ?thesis using "1.prems"(2) by (simp add: zero_loop.simps dropped_of_discarded)
  next
    case False
    define n where "n = min (unat len) ZERO_CHUNK_BYTES"
    have n: "0 < n" "n \<le> unat len" "unat (word_of_nat n :: u64) = n" "unat (len - word_of_nat n) = unat len - n"
      using zero_chunk_shrinks [OF False] by (auto simp: n_def ZERO_CHUNK_BYTES_def intro!: unat_of_nat_eq)
    obtain q f1 where w: "fo_write_all os f offset (replicate n 0) = (q, f1)" by fastforce
    have in1: "unat offset + n \<le> length (contents f)" using n(2) "1.prems"(3) by linarith
    then have c: "same_outside (unat offset) n (contents f) (contents f1)"
      "is_ok q \<longrightarrow> contents f1 = splice (contents f) (unat offset) (replicate n 0)"
      using contract_write [OF "1.prems"(1) w] by simp_all
    show ?thesis
    proof (cases q)
      case (Inl e)
      then have "r = Inl e \<and> f' = f1" using "1.prems"(2) False w
        by (simp add: zero_loop.simps [of os f] Let_def n_def [symmetric])
      then show ?thesis using same_outside_widen [OF c(1)] n(2) by (simp add: dropped_def)
    next
      case (Inr u)
      have lp: "zero_loop os f1 (offset + word_of_nat n) (len - word_of_nat n) = (r, f')"
        using "1.prems"(2) False w Inr by (simp add: zero_loop.simps [of os f] Let_def n_def [symmetric])
      have u: "unat (offset + word_of_nat n) = unat offset + n"
        using n(3) in1 "1.prems"(4) by (subst unat_add_no_wrap) simp_all
      have d1: "discarded (unat offset) (unat len) (contents f) (contents f1)"
        using c(2) Inr splice_zero_discarded [OF in1] n(2) by (auto intro: discarded_widen)
      have l1: "length (contents f1) = length (contents f)" using c(1) by (rule same_outside_length)
      have "dropped (unat (offset + word_of_nat n)) (unat (len - word_of_nat n)) r (contents f1) (contents f')"
        using "1.IH" [OF False n_def w [symmetric] _ "1.prems"(1) lp] Inr u n l1 "1.prems"(3,4) by simp
      then have "dropped (unat offset) (unat len) r (contents f1) (contents f')"
        using u n by (auto intro: dropped_widen)
      then show ?thesis using d1 discarded_dropped by blast
    qed
  qed
qed

lemma zero_file_range_dropped:
  assumes "file_contract os contents" "zero_file_range os f offset len = (r, f')" "unat offset + unat len \<le> length (contents f)"
  shows "dropped (unat offset) (unat len) r (contents f) (contents f')"
proof (cases "f' = f")
  case True
  then show ?thesis by (simp add: dropped_of_discarded)
next
  case False
  then obtain n where n: "fo_len os f = Inr n" "zero_loop os f offset len = (r, f')"
    using assms(2) by (auto simp: zero_file_range_def split: option.splits sum.splits if_splits)
  then have "length (contents f) = unat n" using assms(1) by (simp add: file_contract_def)
  then show ?thesis using zero_loop_dropped [OF assms(1) n(2) assms(3)] unat_lt_pow [of n] by simp
qed

lemma windows_dropped:
  assumes "file_contract os contents" "discard_file_windows os f offset len = (r, f')" "unat offset + unat len \<le> length (contents f)"
  shows "dropped (unat offset) (unat len) r (contents f) (contents f')"
proof (cases "f' = f")
  case True
  then show ?thesis by (simp add: dropped_of_discarded)
next
  case False
  obtain s f1 where s: "fo_set_sparse os f = (s, f1)" by fastforce
  obtain z f2 where z: "fo_set_zero os f1 offset (offset + len) = (z, f2)" by fastforce
  have fits: "unat offset + unat len < 2 ^ 63"
    using False assms(2) by (auto simp: discard_file_windows_def i64_fits_def split: if_splits)
  then have u: "unat (offset + len) = unat offset + unat len" by (subst unat_add_no_wrap) simp_all
  have c1: "contents f1 = contents f" by (rule contract_sparse [OF assms(1) s])
  have d: "discarded (unat offset) (unat len) (contents f) (contents f2)"
    using contract_zero [OF assms(1) z] u c1 assms(3) by (simp add: word_le_nat_alt)
  then have l2: "length (contents f2) = length (contents f)" by (simp add: discarded_def same_outside_def)
  consider "\<not> s" "zero_file_range os f1 offset len = (r, f')" | "s" "\<not> z" "zero_file_range os f2 offset len = (r, f')"
    | "s" "z" "f' = f2"
    using False assms(2) s z by (auto simp: discard_file_windows_def split: if_splits bool.splits)
  then show ?thesis
  proof cases
    case 1
    then show ?thesis using zero_file_range_dropped [OF assms(1) 1(2)] c1 assms(3) by simp
  next
    case 2
    then show ?thesis using zero_file_range_dropped [OF assms(1) 2(3)] l2 assms(3) discarded_dropped [OF d] by simp
  next
    case 3
    then show ?thesis using d by (simp add: dropped_of_discarded)
  qed
qed

lemma file_discard_dropped:
  assumes "file_contract os contents" "file_discard platform os f offset len = (r, f')" "unat offset + unat len \<le> length (contents f)"
  shows "dropped (unat offset) (unat len) r (contents f) (contents f')"
proof (cases "len = 0")
  case True
  then show ?thesis using assms(2) by (simp add: file_discard_def dropped_of_discarded)
next
  case False
  then have "discard_file platform os f offset len = (r, f')" using assms(2) by (simp add: file_discard_def)
  then show ?thesis using linux_dropped macos_dropped windows_dropped assms(1,3)
    by (cases platform) (simp_all add: discard_file_def)
qed


lemma file_backing:
  assumes c: "file_contract os contents"
  shows "block_backing (file_ops platform os) (\<lambda>d. length (contents (fd_file d)) = unat (fd_capacity d)) (\<lambda>d. contents (fd_file d))"
proof (unfold_locales, goal_cases)
  case (1 d)
  then show ?case by (simp add: file_ops_def)
next
  case (2 d n offset)
  then show ?case using contract_read [OF c, of "fd_file d" offset n]
    by (simp add: file_ops_def file_read_at_def check_range_eq unat_of_nat_eq read_effect_def result_simps)
next
  case (3 d buf offset r d')
  obtain q f' where w: "fo_write_all os (fd_file d) offset buf = (q, f')" by fastforce
  show ?case using 3 w contract_write [OF c w]
    by (cases "fd_access d"; cases q)
      (auto simp: file_ops_def file_write_at_def check_range_eq unat_of_nat_eq write_effect_def is_read_only_def same_outside_length
        split: if_splits)
next
  case (4 d offset len r d')
  obtain q f' where w: "file_discard platform os (fd_file d) offset len = (q, f')" by fastforce
  show ?case using 4 w file_discard_dropped [OF c w]
    by (cases "fd_access d"; cases q)
      (auto simp: file_ops_def file_disk_discard_def check_range_eq discard_effect_def dropped_def is_read_only_def same_outside_length
        split: if_splits)
qed

lemma packed_backing:
  "block_backing (packed_ops decompress)
     (\<lambda>d. image_holds decompress contents (pd_image d) \<and> pd_capacity d = pi_image_bytes (pd_image d)) (\<lambda>_. contents)"
proof (unfold_locales, goal_cases)
  case (1 d)
  then show ?case by (simp add: packed_ops_def image_holds_def)
next
  case (2 d n offset)
  obtain img' where i: "packed_read_at decompress offset (replicate n 0) (pd_image d)
      = Some (exact_read contents (offset, replicate n 0), img')" "image_holds decompress contents img'"
    using packed_read_at_holds 2(1) by blast
  have "pi_image_bytes img' = pi_image_bytes (pd_image d)"
    using i(2) 2(1) by (simp add: image_holds_def word_unat_eq_iff)
  then show ?case using 2 i
    by (auto simp: packed_ops_def packed_disk_read_at_def check_range_eq unat_of_nat_eq read_effect_def exact_read_def
        image_holds_def split: if_splits)
next
  case (3 d buf offset r d')
  then show ?case by (auto simp: packed_ops_def write_effect_def)
next
  case (4 d offset len r d')
  then show ?case by (auto simp: packed_ops_def discard_effect_def)
qed

definition grant_good :: "('f \<Rightarrow> bytes) \<Rightarrow> (bytes \<Rightarrow> bytes \<Rightarrow> nat option \<times> bytes) \<Rightarrow> bytes \<Rightarrow> 'f disk_grant \<Rightarrow> bool" where
  "grant_good contents decompress packed g = (case g of
     Mem d \<Rightarrow> length (bd_data d) < 2 ^ 64
   | File d \<Rightarrow> length (contents (fd_file d)) = unat (fd_capacity d)
   | Packed d \<Rightarrow> image_holds decompress packed (pd_image d) \<and> pd_capacity d = pi_image_bytes (pd_image d))"

definition grant_view :: "('f \<Rightarrow> bytes) \<Rightarrow> bytes \<Rightarrow> 'f disk_grant \<Rightarrow> bytes" where
  "grant_view contents packed g = (case g of Mem d \<Rightarrow> bd_data d | File d \<Rightarrow> contents (fd_file d) | Packed d \<Rightarrow> packed)"

lemmas grant_simps = grant_ops_def grant_good_def grant_view_def grant_capacity_def grant_access_def grant_read_at_def
  grant_write_at_def grant_discard_def bounded_ops_def packed_ops_def file_ops_def

lemma grant_backing:
  assumes c: "file_contract os contents"
  shows "block_backing (grant_ops platform os decompress) (grant_good contents decompress packed) (grant_view contents packed)"
proof (unfold_locales, goal_cases)
  case (1 d)
  then show ?case
    using bounded.capacity_law block_backing.capacity_law [OF file_backing [OF c]]
      block_backing.capacity_law [OF packed_backing, of decompress packed]
    by (cases d) (simp_all add: grant_simps)
next
  case (2 d n offset)
  then show ?case
  proof (cases d)
    case (Mem b)
    then show ?thesis using bounded.read_law [of b n offset] 2 by (simp add: grant_simps)
  next
    case (File b)
    then show ?thesis using block_backing.read_law [OF file_backing [OF c, of platform], of b n offset] 2 by (simp add: grant_simps)
  next
    case (Packed b)
    then show ?thesis using block_backing.read_law [OF packed_backing [of decompress packed], of b n offset] 2
      by (auto simp: grant_simps)
  qed
next
  case (3 d buf offset r d')
  then show ?case
  proof (cases d)
    case (Mem b)
    then show ?thesis using bounded.write_law [of b buf offset r] 3
      by (cases "bounded_write_at b offset buf") (auto simp: grant_simps)
  next
    case (File b)
    then show ?thesis using block_backing.write_law [OF file_backing [OF c, of platform], of b buf offset r] 3
      by (cases "file_write_at os b offset buf") (auto simp: grant_simps)
  next
    case (Packed b)
    then show ?thesis using 3 by (auto simp: grant_simps write_effect_def)
  qed
next
  case (4 d offset len r d')
  then show ?case
  proof (cases d)
    case (Mem b)
    then show ?thesis using bounded.discard_law [of b offset len r] 4
      by (cases "bounded_discard b offset len") (auto simp: grant_simps)
  next
    case (File b)
    then show ?thesis using block_backing.discard_law [OF file_backing [OF c, of platform], of b offset len r] 4
      by (cases "file_disk_discard platform os b offset len") (auto simp: grant_simps)
  next
    case (Packed b)
    then show ?thesis using 4 by (auto simp: grant_simps discard_effect_def)
  qed
qed


section \<open>The imports as a component calls them\<close>

datatype disk_call = Disk_Read u64 u64 | Disk_Write u64 bytes | Disk_Discard u64 u64 | Disk_Sync

datatype disk_reply = Reply_Bytes "disk_error + bytes" | Reply_Unit "disk_error + unit"

definition disk_call_run :: "'d disk_ops \<Rightarrow> disk_call \<Rightarrow> 'd block_host \<Rightarrow> disk_reply \<times> 'd block_host" where
  "disk_call_run ops call h = (case call of
     Disk_Read offset len \<Rightarrow> map_prod Reply_Bytes (\<lambda>h. h) (disk_read_at ops h offset len)
   | Disk_Write offset data \<Rightarrow> map_prod Reply_Unit (\<lambda>h. h) (disk_write_at ops h offset data)
   | Disk_Discard offset len \<Rightarrow> map_prod Reply_Unit (\<lambda>h. h) (disk_discard ops h offset len)
   | Disk_Sync \<Rightarrow> map_prod Reply_Unit (\<lambda>h. h) (disk_sync ops h))"

fun disk_calls_run :: "'d disk_ops \<Rightarrow> disk_call list \<Rightarrow> 'd block_host \<Rightarrow> disk_reply list \<times> 'd block_host" where
  "disk_calls_run ops [] h = ([], h)"
| "disk_calls_run ops (call # calls) h =
     (let (reply, h1) = disk_call_run ops call h; (replies, h2) = disk_calls_run ops calls h1 in (reply # replies, h2))"

text \<open>The abstract disk: an array of bytes that a call reads, or changes only inside its range.\<close>

fun disk_spec :: "access_mode \<Rightarrow> bytes \<Rightarrow> disk_call \<Rightarrow> disk_reply \<Rightarrow> bytes \<Rightarrow> bool" where
  "disk_spec access data (Disk_Read offset len) (Reply_Bytes r) data' \<longleftrightarrow>
     data' = data \<and> read_effect data (unat offset) (unat len) r
     \<and> (is_ok r \<longrightarrow> len \<le> MAX_BATCH_GUEST_COPY_BYTES)"
| "disk_spec access data (Disk_Write offset buf) (Reply_Unit r) data' \<longleftrightarrow>
     (if unat MAX_BATCH_GUEST_COPY_BYTES < length buf then \<not> is_ok r \<and> data' = data
      else write_effect access data (unat offset) buf r data')"
| "disk_spec access data (Disk_Discard offset len) (Reply_Unit r) data' \<longleftrightarrow>
     (if MAX_GUEST_DISCARD_BYTES < len then \<not> is_ok r \<and> data' = data
      else discard_effect access data (unat offset) (unat len) r data')"
| "disk_spec access data Disk_Sync (Reply_Unit r) data' \<longleftrightarrow> data' = data"
| "disk_spec access data _ _ data' \<longleftrightarrow> False"

inductive disk_spec_run :: "access_mode \<Rightarrow> bytes \<Rightarrow> disk_call list \<Rightarrow> disk_reply list \<Rightarrow> bytes \<Rightarrow> bool" where
  spec_done: "disk_spec_run access data [] [] data"
| spec_call: "disk_spec access data call reply mid \<Longrightarrow> disk_spec_run access mid calls replies data'
    \<Longrightarrow> disk_spec_run access data (call # calls) (reply # replies) data'"

definition calls_fit :: "disk_call list \<Rightarrow> bool" where
  "calls_fit calls = list_all (\<lambda>c. case c of Disk_Write _ buf \<Rightarrow> length buf < 2 ^ 64 | _ \<Rightarrow> True) calls"

lemma run_disk_job_eq:
  "run_disk_job h offset len max_len operation =
     (if max_len < len then (Inl Disk_TooLarge, h)
      else if unat (bh_disk_capacity h) < unat offset + unat len then (Inl Disk_OutOfRange, h)
      else if bh_poisoned h then (Inl Disk_Io, h)
      else case operation (bh_disk h) of
        None \<Rightarrow> (Inl Disk_Io, h\<lparr>bh_poisoned := True\<rparr>)
      | Some (r, d) \<Rightarrow> (map_err disk_error_of r, h\<lparr>bh_disk := d\<rparr>))"
proof (cases "checked_add offset len")
  case None
  then have "2 ^ 64 \<le> unat offset + unat len" by (simp add: checked_add_None)
  then show ?thesis using None unat_lt_pow [of "bh_disk_capacity h"] by (auto simp: run_disk_job_def)
next
  case (Some e)
  then show ?thesis using checked_add_unat [OF Some] by (simp add: run_disk_job_def word_less_nat_alt)
qed

lemma is_ok_map_err [simp]: "is_ok (map_err g r) = is_ok r"
  by (cases r) simp_all

lemma outcome_map_err [simp]:
  "read_effect data offset n (map_err g r) = read_effect data offset n r"
  "write_effect access data offset buf (map_err g q) data' = write_effect access data offset buf q data'"
  "discard_effect access data offset n (map_err g q) data' = discard_effect access data offset n q data'"
  by (simp_all add: read_effect_def write_effect_def discard_effect_def result_simps)

lemma outcome_refused [simp]:
  "read_effect data offset n (Inl e)"
  "write_effect access data offset buf (Inl e) data"
  "discard_effect access data offset n (Inl e) data"
  by (simp_all add: read_effect_def write_effect_def discard_effect_def)

definition host_good :: "'d disk_ops \<Rightarrow> ('d \<Rightarrow> bool) \<Rightarrow> 'd block_host \<Rightarrow> bool" where
  "host_good ops good h \<longleftrightarrow> good (bh_disk h) \<and> bh_disk_capacity h = b_capacity ops (bh_disk h)"

context block_backing
begin

lemma same_capacity: "good d \<Longrightarrow> good d' \<Longrightarrow> length (view d') = length (view d) \<Longrightarrow> b_capacity ops d' = b_capacity ops d"
  using capacity_law by (simp add: word_unat_eq_iff)

lemma disk_call_spec:
  assumes h: "host_good ops good h" and fit: "calls_fit [call]" and run: "disk_call_run ops call h = (reply, h')"
  shows "host_good ops good h' \<and> b_access ops (bh_disk h') = b_access ops (bh_disk h)
    \<and> disk_spec (b_access ops (bh_disk h)) (view (bh_disk h)) call reply (view (bh_disk h'))"
proof -
  have g: "good (bh_disk h)" "bh_disk_capacity h = b_capacity ops (bh_disk h)" using h by (auto simp: host_good_def)
  show ?thesis
  proof (cases call)
    case (Disk_Read offset len)
    have "unat len < 2 ^ 64" using unat_lt_pow [of len] by simp
    then obtain r d' where r: "b_read_at ops (bh_disk h) offset (unat len) = Some (r, d')" "good d'" "view d' = view (bh_disk h)"
      "b_access ops d' = b_access ops (bh_disk h)" "read_effect (view (bh_disk h)) (unat offset) (unat len) r"
      using read_law [OF g(1)] by blast
    have "b_capacity ops d' = b_capacity ops (bh_disk h)" using same_capacity [OF g(1) r(2)] r(3) by simp
    then show ?thesis using run Disk_Read r g
      by (auto simp: disk_call_run_def disk_read_at_def run_disk_job_eq host_good_def split: if_splits)
  next
    case (Disk_Write offset buf)
    obtain r d' where w: "b_write_at ops (bh_disk h) offset buf = (r, d')" by fastforce
    have l: "length buf < 2 ^ 64" using fit Disk_Write by (simp add: calls_fit_def)
    note o = write_law [OF g(1) l w]
    then have "b_capacity ops d' = b_capacity ops (bh_disk h)" using same_capacity [OF g(1)] outcome_length(1) by blast
    then show ?thesis using run Disk_Write w o g l
      by (auto simp: disk_call_run_def disk_write_at_def run_disk_job_eq host_good_def unat_of_nat_eq word_less_nat_alt split: if_splits)
  next
    case (Disk_Discard offset len)
    obtain r d' where w: "b_discard ops (bh_disk h) offset len = (r, d')" by fastforce
    note o = discard_law [OF g(1) w]
    then have "b_capacity ops d' = b_capacity ops (bh_disk h)" using same_capacity [OF g(1)] outcome_length(2) by blast
    then show ?thesis using run Disk_Discard w o g
      by (auto simp: disk_call_run_def disk_discard_def run_disk_job_eq host_good_def split: if_splits)
  next
    case Disk_Sync
    then show ?thesis using run g
      by (auto simp: disk_call_run_def disk_sync_def run_disk_job_eq host_good_def split: if_splits)
  qed
qed

lemma disk_calls_spec:
  "host_good ops good h \<Longrightarrow> calls_fit calls \<Longrightarrow> disk_calls_run ops calls h = (replies, h')
   \<Longrightarrow> host_good ops good h' \<and> b_access ops (bh_disk h') = b_access ops (bh_disk h)
     \<and> disk_spec_run (b_access ops (bh_disk h)) (view (bh_disk h)) calls replies (view (bh_disk h'))"
proof (induction calls arbitrary: h replies)
  case Nil
  then show ?case by (auto intro: spec_done)
next
  case (Cons call calls)
  obtain reply h1 where c: "disk_call_run ops call h = (reply, h1)" by fastforce
  obtain rs h2 where r: "disk_calls_run ops calls h1 = (rs, h2)" by fastforce
  have eq: "replies = reply # rs" "h' = h2" using Cons.prems(3) c r by auto
  have fit: "calls_fit [call]" "calls_fit calls" using Cons.prems(2) by (auto simp: calls_fit_def)
  note s = disk_call_spec [OF Cons.prems(1) fit(1) c]
  then have "host_good ops good h1" by simp
  from Cons.IH [OF this fit(2) r [folded eq(2)]] s show ?case unfolding eq by (auto intro: spec_call)
qed

lemma host_good_new: "good d \<Longrightarrow> host_good ops good (block_host_new ops d)"
  by (simp add: host_good_def block_host_new_def)

end


section \<open>Properties\<close>

text \<open>C5: the disk imports of a block device implement an array of bytes of fixed size. Whatever grant
  the device has (memory, a file on any of the platforms, a packed image), and whatever calls the
  component makes, in any order and with any arguments, every reply and every change is one the
  abstract disk allows: a read that succeeds returns the bytes last there, a write or a discard changes
  nothing outside its range, and a call that is too large, out of range or not permitted changes
  nothing. Files are only assumed to keep \<open>file_contract\<close>.\<close>

theorem disk_imports_refine_disk:
  assumes "file_contract os contents" "grant_good contents decompress packed g" "calls_fit calls"
    "disk_calls_run (grant_ops platform os decompress) calls (block_host_new (grant_ops platform os decompress) g) = (replies, h)"
  shows "disk_spec_run (grant_access g) (grant_view contents packed g) calls replies (grant_view contents packed (bh_disk h))"
  using block_backing.disk_calls_spec [OF grant_backing [OF assms(1)]
      block_backing.host_good_new [OF grant_backing [OF assms(1)] assms(2)] assms(3,4)]
  by (simp add: block_host_new_def grant_ops_def)

text \<open>A file system that holds the file in memory.\<close>

definition mem_os :: "bytes file_os" where
  "mem_os = \<lparr>fo_len = (\<lambda>f. if length f < 2 ^ 64 then Inr (word_of_nat (length f)) else Inl OtherError),
     fo_read_exact = (\<lambda>f offset n. if unat offset + n \<le> length f then Inr (take n (drop (unat offset) f)) else Inl OtherError),
     fo_write_all = (\<lambda>f offset buf. if unat offset + length buf \<le> length f then (Inr (), splice f (unat offset) buf) else (Inl OtherError, f)),
     fo_sync_all = (\<lambda>_. Inr ()), fo_block_size = (\<lambda>_. Inr 4096),
     fo_punch_hole = (\<lambda>f offset len. if unat offset + unat len \<le> length f
        then (Inr (), splice f (unat offset) (replicate (unat len) 0)) else (Inl OtherError, f)),
     fo_set_sparse = (\<lambda>f. (True, f)), fo_set_zero = (\<lambda>f _ _. (False, f))\<rparr>"

lemma mem_os_contract: "file_contract mem_os (\<lambda>f. f)"
  by (auto simp: file_contract_def mem_os_def read_effect_def unat_of_nat_eq splice_outside splice_zero_discarded
      split: if_splits)

interpretation mem_grant: block_backing "grant_ops platform mem_os decompress" "grant_good (\<lambda>f. f) decompress packed"
  "grant_view (\<lambda>f. f) packed" for platform decompress packed
  by (rule grant_backing [OF mem_os_contract])

definition example_disk :: "bytes disk_grant" where
  "example_disk = File \<lparr>fd_file = [1, 2, 3, 4], fd_capacity = 4, fd_access = ReadWrite\<rparr>"

lemmas disk_eval = disk_call_run_def disk_read_at_def disk_write_at_def disk_discard_def disk_sync_def run_disk_job_eq
  block_host_new_def grant_ops_def grant_capacity_def grant_access_def grant_read_at_def grant_write_at_def grant_discard_def
  grant_sync_def file_read_at_def file_write_at_def file_disk_discard_def file_discard_def discard_file_def discard_file_linux_def
  check_range_eq mem_os_def example_disk_def is_read_only_def ignore_unsupported_def MAX_BATCH_GUEST_COPY_BYTES_def
  MAX_COMPONENT_HOSTCALL_BYTES_def MAX_GUEST_DISCARD_BYTES_def splice_def

theorem disk_imports_refine_disk_witness:
  "\<exists>replies h. disk_calls_run (grant_ops Linux mem_os stored) [Disk_Write 1 [7, 8], Disk_Read 0 4, Disk_Read 3 2]
      (block_host_new (grant_ops Linux mem_os stored) example_disk) = (replies, h)
    \<and> replies = [Reply_Unit (Ok ()), Reply_Bytes (Ok [1, 7, 8, 4]), Reply_Bytes (Err Disk_OutOfRange)]
    \<and> disk_spec_run ReadWrite [1, 2, 3, 4] [Disk_Write 1 [7, 8], Disk_Read 0 4, Disk_Read 3 2] replies
        (grant_view (\<lambda>f. f) [] (bh_disk h))"
proof -
  obtain replies h where r: "disk_calls_run (grant_ops Linux mem_os stored) [Disk_Write 1 [7, 8], Disk_Read 0 4, Disk_Read 3 2]
      (block_host_new (grant_ops Linux mem_os stored) example_disk) = (replies, h)" by fastforce
  have "replies = [Reply_Unit (Inr ()), Reply_Bytes (Inr [1, 7, 8, 4]), Reply_Bytes (Inl Disk_OutOfRange)]"
    using r by (auto simp: disk_eval)
  moreover have "disk_spec_run ReadWrite [1, 2, 3, 4] [Disk_Write 1 [7, 8], Disk_Read 0 4, Disk_Read 3 2] replies
        (grant_view (\<lambda>f. f) [] (bh_disk h))"
    using disk_imports_refine_disk [OF mem_os_contract _ _ r, of "[]"]
    by (simp add: example_disk_def grant_good_def grant_view_def grant_access_def calls_fit_def)
  ultimately show ?thesis using r by blast
qed


text \<open>The storage behind a grant: for a packed image that is its container, not the cache.\<close>

definition same_storage :: "'f disk_grant \<Rightarrow> 'f disk_grant \<Rightarrow> bool" where
  "same_storage g g' = (case g of
     Mem d \<Rightarrow> g' = Mem d
   | File d \<Rightarrow> g' = File d
   | Packed d \<Rightarrow> (case g' of Packed d' \<Rightarrow> pd_capacity d' = pd_capacity d \<and> same_layout (pd_image d') (pd_image d) | _ \<Rightarrow> False))"

lemma same_layout_refl [simp]: "same_layout img img"
  by (simp add: same_layout_def)

lemma map_prod_keep: "map_prod g (\<lambda>h. h) p = (a, b) \<Longrightarrow> \<exists>r. p = (r, b)"
  by (cases p) auto

lemma fill_cache_layout: "fill_cache decompress block index img = (r, img') \<Longrightarrow> same_layout img' img"
  by (auto simp: fill_cache_def same_layout_def Let_def split: if_splits prod.splits sum.splits)

lemma read_chunk_layout: "read_chunk decompress position copied buf img = Some (r, img') \<Longrightarrow> same_layout img' img"
  by (auto simp: read_chunk_def Let_def dest: fill_cache_layout
      split: if_splits option.splits prod.splits sum.splits)

lemma read_loop_layout:
  "read_loop decompress fuel position copied buf img = Some (r, img') \<Longrightarrow> same_layout img' img"
proof (induction fuel arbitrary: position copied buf img)
  case 0
  then show ?case by (auto simp: read_loop.simps same_layout_def split: if_splits)
next
  case (Suc fuel)
  show ?case
  proof (cases "length buf \<le> copied")
    case True
    then show ?thesis using Suc.prems by (auto simp: read_loop.simps same_layout_def)
  next
    case False
    obtain q img1 where c: "read_chunk decompress position copied buf img = Some (q, img1)"
      using Suc.prems False by (auto simp: read_loop.simps [of _ "Suc fuel"] split: option.splits)
    note l = read_chunk_layout [OF c]
    show ?thesis
    proof (cases q)
      case (Inl e)
      then show ?thesis using Suc.prems False c l by (simp add: read_loop.simps [of _ "Suc fuel"])
    next
      case (Inr p)
      then have "same_layout img' img1"
        using Suc.prems False c by (cases p) (auto simp: read_loop.simps [of _ "Suc fuel"] intro: Suc.IH)
      then show ?thesis using l by (simp add: same_layout_def)
    qed
  qed
qed

lemma packed_disk_read_layout:
  "packed_disk_read_at decompress d offset n = Some (r, d') \<Longrightarrow> pd_capacity d' = pd_capacity d \<and> same_layout (pd_image d') (pd_image d)"
  by (auto simp: packed_disk_read_at_def packed_read_at_def 
      dest!: read_loop_layout split: sum.splits if_splits)

lemma same_storage_refl: "same_storage g g"
  by (cases g) (simp_all add: same_storage_def same_layout_def)

lemma same_storage_trans: "same_storage a b \<Longrightarrow> same_storage b c \<Longrightarrow> same_storage a c"
  by (cases a; cases b; cases c) (simp_all add: same_storage_def same_layout_def)

lemma same_storage_access: "same_storage a b \<Longrightarrow> grant_access b = grant_access a"
  by (cases a; cases b) (simp_all add: same_storage_def grant_access_def)

lemma read_only_grant:
  assumes "grant_access g = ReadOnly"
  shows "grant_read_at os decompress g offset n = Some (r, g') \<Longrightarrow> same_storage g g'"
    "snd (grant_write_at os g offset buf) = g" "snd (grant_discard platform os g offset len) = g"
  using assms packed_disk_read_layout
  by (cases g; force simp: grant_read_at_def grant_write_at_def grant_discard_def grant_access_def same_storage_def
      bounded_write_at_def bounded_discard_def file_write_at_def file_disk_discard_def is_read_only_def)+

lemma run_disk_job_storage:
  assumes "run_disk_job h offset len max_len operation = (r, h')"
    "\<And>q d. operation (bh_disk h) = Some (q, d) \<Longrightarrow> same_storage (bh_disk h) d"
  shows "same_storage (bh_disk h) (bh_disk h')"
  using assms same_storage_refl by (auto simp: run_disk_job_eq split: if_splits option.splits)

lemma read_only_call:
  assumes "grant_access (bh_disk h) = ReadOnly" "disk_call_run (grant_ops platform os decompress) call h = (reply, h')"
  shows "same_storage (bh_disk h) (bh_disk h')"
proof (cases call)
  case (Disk_Read offset len)
  then obtain r where "disk_read_at (grant_ops platform os decompress) h offset len = (r, h')"
    using assms(2) by (auto simp: disk_call_run_def dest: map_prod_keep)
  then show ?thesis unfolding disk_read_at_def
    by (rule run_disk_job_storage) (auto simp: grant_ops_def intro: read_only_grant(1) [OF assms(1)])
next
  case (Disk_Write offset buf)
  then obtain r where "disk_write_at (grant_ops platform os decompress) h offset buf = (r, h')"
    using assms(2) by (auto simp: disk_call_run_def dest: map_prod_keep)
  then show ?thesis unfolding disk_write_at_def
    using read_only_grant(2) [OF assms(1), of os offset buf]
    by (rule_tac run_disk_job_storage) (auto simp: grant_ops_def same_storage_refl)
next
  case (Disk_Discard offset len)
  then obtain r where "disk_discard (grant_ops platform os decompress) h offset len = (r, h')"
    using assms(2) by (auto simp: disk_call_run_def dest: map_prod_keep)
  then show ?thesis unfolding disk_discard_def
    using read_only_grant(3) [OF assms(1), of platform os offset len]
    by (rule_tac run_disk_job_storage) (auto simp: grant_ops_def same_storage_refl)
next
  case Disk_Sync
  then obtain r where "disk_sync (grant_ops platform os decompress) h = (r, h')"
    using assms(2) by (auto simp: disk_call_run_def dest: map_prod_keep)
  then show ?thesis unfolding disk_sync_def
    by (rule run_disk_job_storage) (auto simp: grant_ops_def same_storage_refl)
qed

lemma read_only_calls:
  "grant_access (bh_disk h) = ReadOnly \<Longrightarrow> disk_calls_run (grant_ops platform os decompress) calls h = (replies, h')
   \<Longrightarrow> same_storage (bh_disk h) (bh_disk h')"
proof (induction calls arbitrary: h replies)
  case Nil
  then show ?case by (simp add: same_storage_refl)
next
  case (Cons call calls)
  obtain reply h1 where c: "disk_call_run (grant_ops platform os decompress) call h = (reply, h1)" by fastforce
  obtain rs where r: "disk_calls_run (grant_ops platform os decompress) calls h1 = (rs, h')"
    using Cons.prems(2) c by (auto split: prod.splits)
  have s: "same_storage (bh_disk h) (bh_disk h1)" by (rule read_only_call [OF Cons.prems(1) c])
  then have "grant_access (bh_disk h1) = ReadOnly" using Cons.prems(1) same_storage_access by metis
  from same_storage_trans [OF s Cons.IH [OF this r]] show ?case .
qed

text \<open>A read-only grant is never written. Whatever sequence of imports a component calls on a
  read-only disk, with any arguments, and whatever the operating system or the codec does, the storage
  is exactly what it was: no system call that changes the file is even made.\<close>

lemma read_only_disk_never_written:
  assumes "grant_access g = ReadOnly"
    "disk_calls_run (grant_ops platform os decompress) calls (block_host_new (grant_ops platform os decompress) g) = (replies, h)"
  shows "same_storage g (bh_disk h)"
  using read_only_calls [OF _ assms(2)] assms(1) by (simp add: block_host_new_def)

definition example_read_only :: "bytes disk_grant" where
  "example_read_only = File \<lparr>fd_file = [1, 2, 3, 4], fd_capacity = 4, fd_access = ReadOnly\<rparr>"

end
