(* ===== verification/Block_Device.thy ===== *)
theory Block_Device
  imports Split_Ring Doorbell Disk_Backing
begin

text \<open>
  The virtio block device, \<open>components/block/src/lib.rs\<close>: its configuration, the parsing and the
  execution of a request, the register handlers and the queue loop. The state is that of the
  component's statics with the guest memory, the disk and the interrupt line its imports act on. The
  disk imports are a record, instantiated with the host's implementation. A request awaits at most one
  disk import; whatever other tasks and the guest do meanwhile is the argument \<open>during\<close>, an arbitrary
  function on the state that is applied at the await.
\<close>

section \<open>Constants and state\<close>

definition SECTOR_BYTES :: u64 where "SECTOR_BYTES = 512"
definition STATUS_OK :: u8 where "STATUS_OK = 0"
definition STATUS_IOERR :: u8 where "STATUS_IOERR = 1"
definition STATUS_UNSUPP :: u8 where "STATUS_UNSUPP = 2"
definition T_IN :: u32 where "T_IN = 0"
definition T_OUT :: u32 where "T_OUT = 1"
definition T_FLUSH :: u32 where "T_FLUSH = 4"
definition T_DISCARD :: u32 where "T_DISCARD = 11"
definition VIRTIO_BLK_F_SIZE_MAX :: nat where "VIRTIO_BLK_F_SIZE_MAX = 1"
definition VIRTIO_BLK_F_SEG_MAX :: nat where "VIRTIO_BLK_F_SEG_MAX = 2"
definition VIRTIO_BLK_F_RO :: nat where "VIRTIO_BLK_F_RO = 5"
definition VIRTIO_BLK_F_FLUSH :: nat where "VIRTIO_BLK_F_FLUSH = 9"
definition VIRTIO_BLK_F_DISCARD :: nat where "VIRTIO_BLK_F_DISCARD = 13"
definition CONFIG_SIZE_MAX :: nat where "CONFIG_SIZE_MAX = 8"
definition CONFIG_SEG_MAX :: nat where "CONFIG_SEG_MAX = 12"
definition CONFIG_MAX_DISCARD_SECTORS :: nat where "CONFIG_MAX_DISCARD_SECTORS = 36"
definition CONFIG_MAX_DISCARD_SEG :: nat where "CONFIG_MAX_DISCARD_SEG = 40"
definition CONFIG_DISCARD_SECTOR_ALIGNMENT :: nat where "CONFIG_DISCARD_SECTOR_ALIGNMENT = 44"
definition CONFIG_BYTES :: nat where "CONFIG_BYTES = 48"
definition MAX_SINGLE :: u64 where "MAX_SINGLE = MAX_SINGLE_GUEST_COPY_BYTES"
definition MAX_TOTAL :: u64 where "MAX_TOTAL = MAX_BATCH_GUEST_COPY_BYTES"
definition MAX_DISCARD :: u64 where "MAX_DISCARD = MAX_GUEST_DISCARD_BYTES"
definition MAX_RANGES :: nat where "MAX_RANGES = 16"
definition DISCARD_BYTES :: nat where "DISCARD_BYTES = 16"
definition DISCARD_SECTOR_ALIGNMENT :: u32 where "DISCARD_SECTOR_ALIGNMENT = 1"

record 'd disk_imports =
  di_capacity :: "'d \<Rightarrow> u64"
  di_read_at :: "'d \<Rightarrow> u64 \<Rightarrow> u64 \<Rightarrow> (disk_error + bytes) \<times> 'd"
  di_write_at :: "'d \<Rightarrow> u64 \<Rightarrow> bytes \<Rightarrow> (disk_error + unit) \<times> 'd"
  di_discard :: "'d \<Rightarrow> u64 \<Rightarrow> u64 \<Rightarrow> (disk_error + unit) \<times> 'd"
  di_sync :: "'d \<Rightarrow> (disk_error + unit) \<times> 'd"

definition host_imports :: "'d disk_ops \<Rightarrow> 'd block_host disk_imports" where
  "host_imports ops = \<lparr>di_capacity = disk_capacity_import, di_read_at = disk_read_at ops,
     di_write_at = disk_write_at ops, di_discard = disk_discard ops, di_sync = disk_sync ops\<rparr>"

record blk_transport_state =
  ts_transport :: mmio_transport
  ts_avail :: u16

record ('b, 'd) blk =
  blk_epoch :: u64
  blk_queues :: doorbell
  blk_transport :: "blk_transport_state option"
  blk_memory :: "'b guest_memory"
  blk_disk :: 'd
  blk_irq :: bool

record blk_range =
  br_addr :: u64
  br_len :: u64

section \<open>Configuration\<close>

definition try_u32 :: "u64 \<Rightarrow> device_error + u32" where
  "try_u32 x = (if unat x < 2 ^ 32 then Ok (ucast x) else Err Dev_TooLarge)"

definition build_block_configuration :: "u64 \<Rightarrow> bool \<Rightarrow> device_error + (u64 \<times> bytes)" where
  "build_block_configuration capacity readonly =
     (let config = splice (replicate CONFIG_BYTES 0) 0 (to_le_u64 (capacity div SECTOR_BYTES)) in
      and_then (try_u32 MAX_SINGLE) (\<lambda>single.
      let config = splice config CONFIG_SIZE_MAX (to_le_u32 single) in
      and_then (try_u32 (MAX_TOTAL div MAX_SINGLE)) (\<lambda>segs.
      let config = splice config CONFIG_SEG_MAX (to_le_u32 segs);
          features = push_bit VIRTIO_BLK_F_SIZE_MAX 1 OR push_bit VIRTIO_BLK_F_SEG_MAX 1
            OR push_bit VIRTIO_BLK_F_FLUSH 1 OR VIRTIO_F_VERSION_1 in
      if readonly then Ok (features OR push_bit VIRTIO_BLK_F_RO 1, config)
      else and_then (try_u32 (MAX_DISCARD div SECTOR_BYTES)) (\<lambda>sectors.
        let config = splice config CONFIG_MAX_DISCARD_SECTORS (to_le_u32 sectors);
            config = splice config CONFIG_MAX_DISCARD_SEG (to_le_u32 1);
            config = splice config CONFIG_DISCARD_SECTOR_ALIGNMENT (to_le_u32 DISCARD_SECTOR_ALIGNMENT) in
        Ok (features OR push_bit VIRTIO_BLK_F_DISCARD 1, config)))))"

section \<open>Requests\<close>

definition sector_start :: "u64 \<Rightarrow> u64 \<Rightarrow> u64 \<Rightarrow> u64 option" where
  "sector_start sector tot capacity =
     (case checked_mul sector SECTOR_BYTES of
        None \<Rightarrow> None
      | Some start \<Rightarrow>
          (case checked_add start tot of
             None \<Rightarrow> None
           | Some end \<Rightarrow>
               if tot = 0 \<or> \<not> is_multiple_of tot SECTOR_BYTES \<or> capacity < end then None else Some start))"

definition parse_discard_range :: "bytes \<Rightarrow> u64 \<Rightarrow> u8 + (u64 \<times> u64)" where
  "parse_discard_range bs capacity =
     (if length bs \<noteq> DISCARD_BYTES then Err STATUS_IOERR
      else let sector = from_le_u64 (take 8 bs);
               sectors = ucast (from_le_u32 (take 4 (drop 8 bs))) :: u64;
               flags = from_le_u32 (drop 12 bs) in
        if flags \<noteq> 0 then Err STATUS_UNSUPP
        else if MAX_DISCARD div SECTOR_BYTES < sectors then Err STATUS_IOERR
        else and_then (ok_or STATUS_IOERR (checked_mul sectors SECTOR_BYTES)) (\<lambda>len.
          and_then (ok_or STATUS_IOERR (sector_start sector len capacity)) (\<lambda>offset.
            Ok (offset, sectors * SECTOR_BYTES))))"

definition blk_is_current :: "u64 \<Rightarrow> ('b, 'd) blk \<Rightarrow> bool" where
  "blk_is_current epoch w \<longleftrightarrow> \<not> db_closed (blk_queues w) \<and> epoch = blk_epoch w"

definition blk_read :: "'b backing_ops \<Rightarrow> u64 \<Rightarrow> u64 \<Rightarrow> ('b, 'd) blk \<Rightarrow> memory_error + bytes" where
  "blk_read ops address len w = host_read ops (blk_memory w) address len"

definition read_guest_payload ::
  "'b backing_ops \<Rightarrow> (nat \<Rightarrow> bool) \<Rightarrow> blk_range list \<Rightarrow> ('b, 'd) blk \<Rightarrow> device_error + bytes" where
  "read_guest_payload ops alloc data w =
     read_guest_memory ops alloc (blk_memory w)
       (map (\<lambda>r. (br_addr r, br_len r)) (filter (\<lambda>r. br_len r \<noteq> 0) data))"

definition blk_write_status ::
  "'b backing_ops \<Rightarrow> u64 \<Rightarrow> u8 \<Rightarrow> u64 \<Rightarrow> ('b, 'd) blk \<Rightarrow> u8 option \<times> ('b, 'd) blk" where
  "blk_write_status ops status_addr status epoch w =
     (if \<not> blk_is_current epoch w then (None, w)
      else case host_write ops status_addr [status] (blk_memory w) of
        (Inl _, m) \<Rightarrow> (None, w\<lparr>blk_memory := m\<rparr>)
      | (Inr _, m) \<Rightarrow> (Some status, w\<lparr>blk_memory := m\<rparr>))"

fun split_payload :: "blk_range list \<Rightarrow> bytes \<Rightarrow> device_error + (u64 \<times> bytes) list" where
  "split_payload [] bs = Ok []"
| "split_payload (r # rs) bs =
     (if br_len r = 0 then split_payload rs bs
      else if usize_max_wasm32 < unat (br_len r) then Err Dev_TooLarge
      else if length bs < unat (br_len r) then Err Dev_BadLen
      else and_then (split_payload rs (drop (unat (br_len r)) bs)) (\<lambda>writes.
        Ok ((br_addr r, take (unat (br_len r)) bs) # writes)))"

definition blk_write_guest_ranges ::
  "'b backing_ops \<Rightarrow> blk_range list \<Rightarrow> bytes \<Rightarrow> u64 \<Rightarrow> ('b, 'd) blk \<Rightarrow> (device_error + unit) \<times> ('b, 'd) blk" where
  "blk_write_guest_ranges ops ranges bs epoch w =
     (case split_payload ranges bs of
        Inl e \<Rightarrow> (Err e, w)
      | Inr writes \<Rightarrow>
          if \<not> blk_is_current epoch w then (Err Dev_NotReady, w)
          else case write_guest_memory ops writes (blk_memory w) of (r, m) \<Rightarrow> (r, w\<lparr>blk_memory := m\<rparr>))"

definition request_type :: "'b backing_ops \<Rightarrow> split_ring_descriptor \<Rightarrow> ('b, 'd) blk \<Rightarrow> device_error + (u32 \<times> u64)" where
  "request_type ops header w =
     (if d_len header < 16 \<or> d_flags header AND SPLIT_RING_DESC_F_WRITE \<noteq> 0 then Err Dev_BadLen
      else and_then (map_err (\<lambda>_. Dev_BadLen) (blk_read ops (d_addr header) 16 w)) (\<lambda>bs.
        Ok (from_le_u32 (take 4 bs), from_le_u64 (take 8 (drop 8 bs)))))"

definition ioerr_completion ::
  "'b backing_ops \<Rightarrow> u64 \<Rightarrow> u64 \<Rightarrow> ('b, 'd) blk \<Rightarrow> (device_error + u32) \<times> ('b, 'd) blk" where
  "ioerr_completion ops status_addr epoch w =
     (case blk_write_status ops status_addr STATUS_IOERR epoch w of
        (None, w') \<Rightarrow> (Err Dev_NotReady, w')
      | (Some _, w') \<Rightarrow> (Ok 1, w'))"

definition status_tail :: "split_ring_descriptor list \<Rightarrow> u64 option" where
  "status_tail chain =
     (if 2 \<le> length chain \<and> d_len (last chain) = 1 \<and> d_flags (last chain) AND SPLIT_RING_DESC_F_WRITE \<noteq> 0
      then Some (d_addr (last chain)) else None)"

text \<open>An awaited disk import: the disk changes, then the others take their turn.\<close>

definition await_disk ::
  "(('b, 'd) blk \<Rightarrow> ('b, 'd) blk) \<Rightarrow> ('d \<Rightarrow> (disk_error + 'a) \<times> 'd) \<Rightarrow> ('b, 'd) blk \<Rightarrow> (disk_error + 'a) \<times> ('b, 'd) blk" where
  "await_disk during call w = (case call (blk_disk w) of (r, d) \<Rightarrow> (r, during (w\<lparr>blk_disk := d\<rparr>)))"

definition execute_discard ::
  "'b backing_ops \<Rightarrow> 'd disk_imports \<Rightarrow> (('b, 'd) blk \<Rightarrow> ('b, 'd) blk) \<Rightarrow> blk_range list \<Rightarrow> u64 \<Rightarrow> ('b, 'd) blk
   \<Rightarrow> (u8 + unit) \<times> ('b, 'd) blk" where
  "execute_discard ops di during data capacity w =
     (case data of
        [r] \<Rightarrow>
          if br_len r \<noteq> word_of_nat DISCARD_BYTES then (Err STATUS_IOERR, w)
          else (case blk_read ops (br_addr r) (word_of_nat DISCARD_BYTES) w of
              Inl _ \<Rightarrow> (Err STATUS_IOERR, w)
            | Inr bs \<Rightarrow>
                (case parse_discard_range bs capacity of
                   Inl e \<Rightarrow> (Err e, w)
                 | Inr (offset, len) \<Rightarrow>
                     (case await_disk during (\<lambda>d. di_discard di d offset len) w of
                        (q, w') \<Rightarrow> (map_err (\<lambda>_. STATUS_IOERR) q, w'))))
      | _ \<Rightarrow> (Err STATUS_IOERR, w))"

definition final_status :: "'b backing_ops \<Rightarrow> u64 \<Rightarrow> u8 \<Rightarrow> u64 \<Rightarrow> ('b, 'd) blk \<Rightarrow> u8 \<times> ('b, 'd) blk" where
  "final_status ops status_addr status epoch w =
     (case blk_write_status ops status_addr status epoch w of
        (None, w') \<Rightarrow> (STATUS_IOERR, w') | (Some s, w') \<Rightarrow> (s, w'))"

definition execute ::
  "'b backing_ops \<Rightarrow> (nat \<Rightarrow> bool) \<Rightarrow> 'd disk_imports \<Rightarrow> (('b, 'd) blk \<Rightarrow> ('b, 'd) blk)
   \<Rightarrow> u32 \<Rightarrow> u64 \<Rightarrow> blk_range list \<Rightarrow> u64 \<Rightarrow> u64 \<Rightarrow> u64 \<Rightarrow> ('b, 'd) blk \<Rightarrow> u8 \<times> ('b, 'd) blk" where
  "execute ops alloc di during req_type sector data tot status_addr epoch w =
     (if \<not> blk_is_current epoch w then (STATUS_IOERR, w)
      else let capacity = di_capacity di (blk_disk w);
               fail = final_status ops status_addr STATUS_IOERR epoch in
        if req_type = T_IN then
          (case sector_start sector tot capacity of
             None \<Rightarrow> fail w
           | Some disk_offset \<Rightarrow>
               (case await_disk during (\<lambda>d. di_read_at di d disk_offset tot) w of
                  (Inl _, w1) \<Rightarrow> fail w1
                | (Inr bs, w1) \<Rightarrow>
                    if word_of_nat (length bs) \<noteq> tot then fail w1
                    else (case blk_write_guest_ranges ops data bs epoch w1 of
                        (Inl _, w2) \<Rightarrow> fail w2
                      | (Inr _, w2) \<Rightarrow> final_status ops status_addr STATUS_OK epoch w2)))
        else if req_type = T_OUT then
          (case sector_start sector tot capacity of
             None \<Rightarrow> fail w
           | Some disk_offset \<Rightarrow>
               (case read_guest_payload ops alloc data w of
                  Inl _ \<Rightarrow> fail w
                | Inr bs \<Rightarrow>
                    if \<not> blk_is_current epoch w then (STATUS_IOERR, w)
                    else (case await_disk during (\<lambda>d. di_write_at di d disk_offset bs) w of
                        (Inl _, w1) \<Rightarrow> fail w1
                      | (Inr _, w1) \<Rightarrow> final_status ops status_addr STATUS_OK epoch w1)))
        else if req_type = T_FLUSH then
          (if sector \<noteq> 0 \<or> tot \<noteq> 0 then fail w
           else (case await_disk during (di_sync di) w of
               (Inl _, w1) \<Rightarrow> final_status ops status_addr STATUS_IOERR epoch w1
             | (Inr _, w1) \<Rightarrow> final_status ops status_addr STATUS_OK epoch w1))
        else if req_type = T_DISCARD then
          (case execute_discard ops di during data capacity w of
             (Inl e, w1) \<Rightarrow> final_status ops status_addr e epoch w1
           | (Inr _, w1) \<Rightarrow> final_status ops status_addr STATUS_OK epoch w1)
        else final_status ops status_addr STATUS_UNSUPP epoch w)"

text \<open>The loop over the data descriptors; \<open>None\<close> is its early return.\<close>

fun data_ranges :: "bool \<Rightarrow> split_ring_descriptor list \<Rightarrow> blk_range list \<Rightarrow> u64 \<Rightarrow> (blk_range list \<times> u64) option" where
  "data_ranges writable_data [] data tot = Some (data, tot)"
| "data_ranges writable_data (desc # descs) data tot =
     (if (d_flags desc AND SPLIT_RING_DESC_F_WRITE \<noteq> 0) \<noteq> writable_data \<or> MAX_SINGLE < ucast (d_len desc) then None
      else case checked_add tot (ucast (d_len desc)) of
        None \<Rightarrow> None
      | Some tot' \<Rightarrow>
          if tot' \<le> MAX_TOTAL
          then data_ranges writable_data descs (data @ [\<lparr>br_addr = d_addr desc, br_len = ucast (d_len desc)\<rparr>]) tot'
          else None)"

text \<open>
  The part of \<open>execute_chain\<close> before the request runs: its early return, or the request's type, sector,
  data ranges, their total and the address of its status byte.
\<close>

definition chain_request ::
  "'b backing_ops \<Rightarrow> u16 \<Rightarrow> u64 \<Rightarrow> u16 \<Rightarrow> u64 \<Rightarrow> ('b, 'd) blk
   \<Rightarrow> ((device_error + u32) \<times> ('b, 'd) blk) + (u32 \<times> u64 \<times> blk_range list \<times> u64 \<times> u64)" where
  "chain_request ops head desc_table queue_size epoch w =
     (if \<not> blk_is_current epoch w then Inl (Err Dev_NotReady, w)
      else if queue_size = 0 \<or> 256 < queue_size \<or> \<not> is_power_of_two queue_size \<or> queue_size \<le> head
      then Inl (Err Dev_BadQueue, w)
      else case blk_read ops desc_table (ucast queue_size * word_of_nat SPLIT_RING_DESCRIPTOR_BYTES) w of
        Inl _ \<Rightarrow> Inl (Err Dev_BadLen, w)
      | Inr table \<Rightarrow>
        (case map_err ring_device_error (split_ring_chain table head queue_size (MAX_RANGES + 2)
            (SPLIT_RING_DESC_F_NEXT OR SPLIT_RING_DESC_F_WRITE)) of
           Inl e \<Rightarrow> Inl (Err e, w)
         | Inr chain \<Rightarrow>
           (case status_tail chain of
              None \<Rightarrow> Inl (Err Dev_BadLen, w)
            | Some status_addr \<Rightarrow>
              (case blk_read ops status_addr 1 w of
                 Inl _ \<Rightarrow> Inl (Err Dev_BadLen, w)
               | Inr _ \<Rightarrow>
                 (case request_type ops (chain ! 0) w of
                    Inl _ \<Rightarrow> Inl (ioerr_completion ops status_addr epoch w)
                  | Inr (req_type, sector) \<Rightarrow>
                    (case data_ranges (req_type \<noteq> T_OUT \<and> req_type \<noteq> T_DISCARD) (butlast (tl chain)) [] 0 of
                       None \<Rightarrow> Inl (ioerr_completion ops status_addr epoch w)
                     | Some (data, tot) \<Rightarrow> Inr (req_type, sector, data, tot, status_addr)))))))"

definition execute_chain ::
  "'b backing_ops \<Rightarrow> (nat \<Rightarrow> bool) \<Rightarrow> 'd disk_imports \<Rightarrow> (('b, 'd) blk \<Rightarrow> ('b, 'd) blk)
   \<Rightarrow> u16 \<Rightarrow> u64 \<Rightarrow> u16 \<Rightarrow> u64 \<Rightarrow> ('b, 'd) blk \<Rightarrow> (device_error + u32) \<times> ('b, 'd) blk" where
  "execute_chain ops alloc di during head desc_table queue_size epoch w =
     (case chain_request ops head desc_table queue_size epoch w of
        Inl early \<Rightarrow> early
      | Inr (req_type, sector, data, tot, status_addr) \<Rightarrow>
          (case execute ops alloc di during req_type sector data tot status_addr epoch w of
             (status, w') \<Rightarrow>
               if \<not> blk_is_current epoch w' then (Err Dev_NotReady, w')
               else let payload = if req_type = T_IN \<and> status = STATUS_OK then tot else 0 in
                 (and_then (ok_or Dev_TooLarge (checked_add payload 1)) try_u32, w')))"

section \<open>The device\<close>

definition with_transport ::
  "(blk_transport_state \<Rightarrow> (device_error + 'a) \<times> blk_transport_state) \<Rightarrow> ('b, 'd) blk \<Rightarrow> (device_error + 'a) \<times> ('b, 'd) blk" where
  "with_transport f w =
     (case blk_transport w of
        None \<Rightarrow> (Err Dev_NotReady, w)
      | Some st \<Rightarrow>
          (case f st of
             (r, st') \<Rightarrow>
               (case take_irq (ts_transport st') of
                  (None, t) \<Rightarrow> (r, w\<lparr>blk_transport := Some (st'\<lparr>ts_transport := t\<rparr>)\<rparr>)
                | (Some asserted, t) \<Rightarrow>
                    (r, w\<lparr>blk_transport := Some (st'\<lparr>ts_transport := t\<rparr>), blk_irq := asserted\<rparr>))))"

definition blk_configure :: "'d disk_imports \<Rightarrow> bool \<Rightarrow> ('b, 'd) blk \<Rightarrow> (device_error + unit) \<times> ('b, 'd) blk" where
  "blk_configure di readonly w =
     (if db_closed (blk_queues w) then (Err Dev_NotReady, w)
      else let w1 = w\<lparr>blk_epoch := blk_epoch w + 1, blk_queues := db_clear (blk_queues w)\<rparr> in
        case build_block_configuration (di_capacity di (blk_disk w)) readonly of
          Inl e \<Rightarrow> (Err e, w1)
        | Inr (features, config) \<Rightarrow>
            (Ok (), w1\<lparr>blk_irq := False, blk_transport :=
               Some \<lparr>ts_transport = transport_new (gm_limit (blk_memory w)) 2 features 256 config, ts_avail = 0\<rparr>\<rparr>))"

definition blk_mmio_read :: "u64 \<Rightarrow> u8 \<Rightarrow> ('b, 'd) blk \<Rightarrow> (device_error + u64) \<times> ('b, 'd) blk" where
  "blk_mmio_read addr width =
     with_transport (\<lambda>st. (map_err mmio_device_error (mmio_read (ts_transport st) addr width), st))"

definition blk_mmio_write :: "u64 \<Rightarrow> u8 \<Rightarrow> u64 \<Rightarrow> ('b, 'd) blk \<Rightarrow> (device_error + unit) \<times> ('b, 'd) blk" where
  "blk_mmio_write addr width v w =
     (case with_transport (\<lambda>st.
          (case mmio_write (ts_transport st) addr width v of
             (Inl e, t) \<Rightarrow> (Err (mmio_device_error e), st\<lparr>ts_transport := t\<rparr>)
           | (Inr outcome, t) \<Rightarrow>
               (Ok outcome, st\<lparr>ts_transport := t, ts_avail := (if outcome = Reset then 0 else ts_avail st)\<rparr>))) w of
        (Inl e, w') \<Rightarrow> (Err e, w')
      | (Inr outcome, w') \<Rightarrow>
          (Ok (), case outcome of
             Outcome_None \<Rightarrow> w'
           | QueueNotify _ \<Rightarrow> w'\<lparr>blk_queues := ring 1 (blk_queues w')\<rparr>
           | Reset \<Rightarrow> w'\<lparr>blk_epoch := blk_epoch w' + 1, blk_queues := db_clear (blk_queues w')\<rparr>))"

definition blk_reset :: "('b, 'd) blk \<Rightarrow> ('b, 'd) blk" where
  "blk_reset w =
     snd (with_transport (\<lambda>st.
       (case mmio_write (ts_transport st) 0x070 4 0 of
          (Inl e, t) \<Rightarrow> (Err (mmio_device_error e), st\<lparr>ts_transport := t\<rparr>)
        | (Inr _, t) \<Rightarrow> (Ok (), st\<lparr>ts_transport := t, ts_avail := 0\<rparr>)))
       (w\<lparr>blk_epoch := blk_epoch w + 1, blk_queues := db_clear (blk_queues w)\<rparr>))"

definition blk_close ::
  "'d disk_imports \<Rightarrow> (('b, 'd) blk \<Rightarrow> ('b, 'd) blk) \<Rightarrow> ('b, 'd) blk \<Rightarrow> (device_error + unit) \<times> ('b, 'd) blk" where
  "blk_close di during w =
     (case await_disk during (di_sync di) (blk_reset (w\<lparr>blk_queues := snd (db_close (blk_queues w))\<rparr>)) of
        (r, w') \<Rightarrow> (map_err (\<lambda>_. Dev_Io) r, w'))"

text \<open>The part of \<open>process_pending\<close> after the chain: publish the used entry and the interrupt.\<close>

definition finish_chain ::
  "'b backing_ops \<Rightarrow> u64 \<Rightarrow> u64 \<Rightarrow> u16 \<Rightarrow> u16 \<Rightarrow> u16 \<Rightarrow> u16 \<Rightarrow> (device_error + u32) \<times> ('b, 'd) blk
   \<Rightarrow> (device_error + bool) \<times> ('b, 'd) blk" where
  "finish_chain ops epoch used sz head available nxt = (\<lambda>(r, w).
     (case (case r of Inr n \<Rightarrow> Ok n
             | Inl e \<Rightarrow> if e \<in> {Dev_BadLen, Dev_BadQueue, Dev_TooLarge} then Ok 0 else Err e) of
        Inl e \<Rightarrow> (if e = Dev_NotReady then Ok False else Err e, w)
      | Inr used_len \<Rightarrow>
          if \<not> blk_is_current epoch w then (Ok False, w)
          else (case complete_split_ring_entry mmio_device_error (device_ring_read ops) (device_ring_write ops)
                used sz head used_len (blk_memory w) of
              (Inl _, m) \<Rightarrow> (Ok False, w\<lparr>blk_memory := m\<rparr>)
            | (Inr _, m) \<Rightarrow>
                let nxt' = nxt + 1; w' = w\<lparr>blk_memory := m\<rparr> in
                (case with_transport (\<lambda>st.
                      if \<not> blk_is_current epoch w' then (Err Dev_NotReady, st)
                      else (Ok (), st\<lparr>ts_avail := nxt', ts_transport := signal INT_USED_BUFFER (ts_transport st)\<rparr>)) w' of
                   (Inl e, w'') \<Rightarrow> (if e = Dev_NotReady then Ok False else Err e, w'')
                 | (Inr _, w'') \<Rightarrow> (Ok (nxt' \<noteq> available), w'')))))"

text \<open>Its closure that reads the queue's registers and position.\<close>

definition queue_state :: "blk_transport_state \<Rightarrow> (device_error + (u64 \<times> u64 \<times> u64 \<times> u16 \<times> u16)) \<times> blk_transport_state" where
  "queue_state st = (case queue_addrs_for (ts_transport st) 0 of
      None \<Rightarrow> (Err Dev_NotReady, st)
    | Some (desc, avail, used, sz) \<Rightarrow> (Ok (desc, avail, used, sz, ts_avail st), st))"

definition process_pending ::
  "'b backing_ops \<Rightarrow> (nat \<Rightarrow> bool) \<Rightarrow> 'd disk_imports \<Rightarrow> (('b, 'd) blk \<Rightarrow> ('b, 'd) blk) \<Rightarrow> ('b, 'd) blk
   \<Rightarrow> (device_error + bool) \<times> ('b, 'd) blk" where
  "process_pending ops alloc di during w =
     (if db_closed (blk_queues w) then (Ok False, w)
      else let epoch = blk_epoch w in
        case with_transport queue_state w of
          (Inl e, w1) \<Rightarrow> (if e = Dev_NotReady then Ok False else Err e, w1)
        | (Inr (desc, avail, used, sz, start), w1) \<Rightarrow>
          (case read_split_ring_available mmio_device_error (device_ring_read ops (blk_memory w1)) avail sz start of
             (Inl _, nxt) \<Rightarrow> (Ok False, w1)
           | (Inr (available, None), nxt) \<Rightarrow>
               if \<not> blk_is_current epoch w1 then (Ok False, w1)
               else (case with_transport (\<lambda>st. (Ok (), st\<lparr>ts_avail := nxt\<rparr>)) w1 of
                   (Inl e, w2) \<Rightarrow> (Err e, w2) | (Inr _, w2) \<Rightarrow> (Ok False, w2))
           | (Inr (available, Some head), nxt) \<Rightarrow>
               finish_chain ops epoch used sz head available nxt (execute_chain ops alloc di during head desc sz epoch w1)))"

section \<open>A request whose epoch has passed\<close>

text \<open>
  An operation that awaits at most once either does not depend on what happens meanwhile, or ends in
  a state that is exactly what the others left.
\<close>

definition settles ::
  "((('b, 'd) blk \<Rightarrow> ('b, 'd) blk) \<Rightarrow> 'r \<times> ('b, 'd) blk) \<Rightarrow> (('b, 'd) blk \<Rightarrow> ('b, 'd) blk) \<Rightarrow> ('b, 'd) blk \<Rightarrow> bool" where
  "settles f during w \<longleftrightarrow> (\<forall>during'. f during' = f during) \<or> (\<exists>d. snd (f during) = during (w\<lparr>blk_disk := d\<rparr>))"

lemma settles_const: "settles (\<lambda>_. x) during w"
  by (simp add: settles_def)

lemma await_disk_during: "\<exists>r d. await_disk during call w = (r, during (w\<lparr>blk_disk := d\<rparr>))"
  by (auto simp: await_disk_def split: prod.split)

lemma final_status_stale: "\<not> blk_is_current epoch w \<Longrightarrow> final_status ops status_addr status epoch w = (STATUS_IOERR, w)"
  by (simp add: final_status_def blk_write_status_def)

lemma write_ranges_stale: "\<not> blk_is_current epoch w \<Longrightarrow> \<exists>e. blk_write_guest_ranges ops ranges bs epoch w = (Inl e, w)"
  by (simp add: blk_write_guest_ranges_def split: sum.split)

lemma execute_discard_settles:
  "settles (\<lambda>during. execute_discard ops di during data capacity w) during w"
proof (cases "\<exists>r bs offset len. data = [r] \<and> br_len r = word_of_nat DISCARD_BYTES
    \<and> blk_read ops (br_addr r) (word_of_nat DISCARD_BYTES) w = Inr bs \<and> parse_discard_range bs capacity = Inr (offset, len)")
  case True
  then obtain r bs offset len where d: "data = [r]" "br_len r = word_of_nat DISCARD_BYTES"
    "blk_read ops (br_addr r) (word_of_nat DISCARD_BYTES) w = Inr bs" "parse_discard_range bs capacity = Inr (offset, len)" by blast
  obtain q d where "await_disk during (\<lambda>d. di_discard di d offset len) w = (q, during (w\<lparr>blk_disk := d\<rparr>))"
    using await_disk_during [of during _ w] by blast
  then show ?thesis using d by (auto simp: settles_def execute_discard_def)
next
  case False
  then have "execute_discard ops di j data capacity w = execute_discard ops di k data capacity w" for j k
    by (auto simp: execute_discard_def split: list.splits sum.splits)
  then show ?thesis by (simp add: settles_def)
qed

lemma execute_settles:
  assumes stale: "\<And>d. \<not> blk_is_current epoch (during (w\<lparr>blk_disk := d\<rparr>))"
  shows "settles (\<lambda>during. execute ops alloc di during req_type sector data tot status_addr epoch w) during w"
proof -
  consider (old) "\<not> blk_is_current epoch w" | (rd) "blk_is_current epoch w" "req_type = T_IN" | (wr) "blk_is_current epoch w" "req_type = T_OUT"
    | (fl) "blk_is_current epoch w" "req_type = T_FLUSH" | (di) "blk_is_current epoch w" "req_type = T_DISCARD"
    | (un) "blk_is_current epoch w" "req_type \<notin> {T_IN, T_OUT, T_FLUSH, T_DISCARD}" by blast
  then show ?thesis
  proof cases
    case old
    then show ?thesis by (simp add: execute_def settles_const)
  next
    case rd
    show ?thesis
    proof (cases "sector_start sector tot (di_capacity di (blk_disk w))")
      case None
      then show ?thesis using rd by (simp add: execute_def settles_const)
    next
      case (Some off)
      obtain q d where a: "await_disk during (\<lambda>d. di_read_at di d off tot) w = (q, during (w\<lparr>blk_disk := d\<rparr>))"
        using await_disk_during [of during _ w] by blast
      have "snd (execute ops alloc di during req_type sector data tot status_addr epoch w) = during (w\<lparr>blk_disk := d\<rparr>)"
      proof (cases q)
        case (Inl e)
        then show ?thesis using rd Some a stale by (simp add: execute_def final_status_stale)
      next
        case (Inr bs)
        obtain e where "blk_write_guest_ranges ops data bs epoch (during (w\<lparr>blk_disk := d\<rparr>)) = (Inl e, during (w\<lparr>blk_disk := d\<rparr>))"
          using write_ranges_stale [OF stale] by blast
        then show ?thesis using rd Some a stale Inr by (simp add: execute_def final_status_stale Let_def)
      qed
      then show ?thesis by (auto simp: settles_def)
    qed
  next
    case wr
    then have n: "T_OUT \<noteq> T_IN" by (simp add: T_IN_def T_OUT_def)
    show ?thesis
    proof (cases "\<exists>off bs. sector_start sector tot (di_capacity di (blk_disk w)) = Some off \<and> read_guest_payload ops alloc data w = Inr bs")
      case True
      then obtain off bs where s: "sector_start sector tot (di_capacity di (blk_disk w)) = Some off"
        "read_guest_payload ops alloc data w = Inr bs" by blast
      obtain q d where a: "await_disk during (\<lambda>d. di_write_at di d off bs) w = (q, during (w\<lparr>blk_disk := d\<rparr>))"
        using await_disk_during [of during _ w] by blast
      then have "snd (execute ops alloc di during req_type sector data tot status_addr epoch w) = during (w\<lparr>blk_disk := d\<rparr>)"
        using wr s stale n by (cases q) (simp_all add: execute_def final_status_stale)
      then show ?thesis by (auto simp: settles_def)
    next
      case False
      then have "execute ops alloc di j req_type sector data tot status_addr epoch w
          = execute ops alloc di k req_type sector data tot status_addr epoch w" for j k
        using wr n by (cases "sector_start sector tot (di_capacity di (blk_disk w))"; cases "read_guest_payload ops alloc data w")
          (simp_all add: execute_def)
      then show ?thesis by (simp add: settles_def)
    qed
  next
    case fl
    then have n: "T_FLUSH \<noteq> T_IN" "T_FLUSH \<noteq> T_OUT" by (simp_all add: T_IN_def T_OUT_def T_FLUSH_def)
    obtain q d where a: "await_disk during (di_sync di) w = (q, during (w\<lparr>blk_disk := d\<rparr>))" using await_disk_during [of during _ w] by blast
    then have "sector \<noteq> 0 \<or> tot \<noteq> 0 \<or> snd (execute ops alloc di during req_type sector data tot status_addr epoch w) = during (w\<lparr>blk_disk := d\<rparr>)"
      using fl stale n by (cases q) (simp_all add: execute_def final_status_stale)
    then show ?thesis using fl n by (auto simp: settles_def execute_def)
  next
    case di
    then have n: "T_DISCARD \<noteq> T_IN" "T_DISCARD \<noteq> T_OUT" "T_DISCARD \<noteq> T_FLUSH"
      by (simp_all add: T_IN_def T_OUT_def T_FLUSH_def T_DISCARD_def)
    have eq: "execute ops alloc di j req_type sector data tot status_addr epoch w
        = (case execute_discard ops di j data (di_capacity di (blk_disk w)) w of
             (Inl e, w1) \<Rightarrow> final_status ops status_addr e epoch w1
           | (Inr _, w1) \<Rightarrow> final_status ops status_addr STATUS_OK epoch w1)" for j
      using di n by (simp add: execute_def)
    from execute_discard_settles [of ops di data "di_capacity di (blk_disk w)" w during]
    consider (a) "\<forall>j. execute_discard ops di j data (di_capacity di (blk_disk w)) w
        = execute_discard ops di during data (di_capacity di (blk_disk w)) w"
      | (b) d q where "execute_discard ops di during data (di_capacity di (blk_disk w)) w = (q, during (w\<lparr>blk_disk := d\<rparr>))"
      unfolding settles_def by (metis prod.collapse)
    then show ?thesis
    proof cases
      case a
      have "execute ops alloc di j req_type sector data tot status_addr epoch w
          = execute ops alloc di during req_type sector data tot status_addr epoch w" for j
        unfolding eq using a [rule_format, of j] by simp
      then show ?thesis by (simp add: settles_def)
    next
      case b
      then have "snd (execute ops alloc di during req_type sector data tot status_addr epoch w) = during (w\<lparr>blk_disk := d\<rparr>)"
        using stale by (cases q) (simp_all add: eq final_status_stale)
      then show ?thesis by (auto simp: settles_def)
    qed
  next
    case un
    then show ?thesis by (simp add: execute_def settles_const)
  qed
qed


lemma execute_chain_settles:
  assumes stale: "\<And>d. \<not> blk_is_current epoch (during (w\<lparr>blk_disk := d\<rparr>))"
  shows "(\<forall>during'. execute_chain ops alloc di during' head desc_table queue_size epoch w
      = execute_chain ops alloc di during head desc_table queue_size epoch w)
    \<or> (\<exists>d. execute_chain ops alloc di during head desc_table queue_size epoch w = (Inl Dev_NotReady, during (w\<lparr>blk_disk := d\<rparr>)))"
proof (cases "chain_request ops head desc_table queue_size epoch w")
  case (Inl early)
  then show ?thesis by (simp add: execute_chain_def)
next
  case (Inr req)
  obtain req_type sector data tot status_addr where req: "req = (req_type, sector, data, tot, status_addr)"
    by (cases req) auto
  note eq = execute_chain_def [of ops alloc di _ head desc_table queue_size epoch w, unfolded Inr req, simplified]
  let ?run = "\<lambda>j. execute ops alloc di j req_type sector data tot status_addr epoch w"
  from execute_settles [of epoch during w ops alloc di req_type sector data tot status_addr, OF stale]
  consider (a) "\<forall>j. ?run j = ?run during" | (b) q d where "?run during = (q, during (w\<lparr>blk_disk := d\<rparr>))"
    unfolding settles_def by (metis prod.collapse)
  then show ?thesis
  proof cases
    case a
    have "execute_chain ops alloc di j head desc_table queue_size epoch w
        = execute_chain ops alloc di during head desc_table queue_size epoch w" for j
      unfolding eq using a [rule_format, of j] by simp
    then show ?thesis by blast
  next
    case b
    then show ?thesis unfolding eq using stale by auto
  qed
qed

lemma finish_chain_cancelled: "finish_chain ops epoch used sz head available nxt (Inl Dev_NotReady, w) = (Inr False, w)"
  by (simp add: finish_chain_def)

lemma with_transport_read:
  assumes "with_transport f w = (r, w')" "\<And>st. snd (f st) = st"
  shows "blk_memory w' = blk_memory w \<and> blk_disk w' = blk_disk w \<and> blk_epoch w' = blk_epoch w \<and> blk_queues w' = blk_queues w
    \<and> map_option ts_avail (blk_transport w') = map_option ts_avail (blk_transport w)"
proof (cases "blk_transport w")
  case None
  then show ?thesis using assms by (simp add: with_transport_def)
next
  case (Some st)
  obtain q where "f st = (q, st)" using assms(2) [of st] by (cases "f st") auto
  then show ?thesis using assms(1) Some by (auto simp: with_transport_def split: prod.splits option.splits)
qed

lemma process_pending_cases:
  "(\<exists>c. \<forall>during. process_pending ops alloc di during w = c \<and> blk_disk (snd c) = blk_disk w)
   \<or> (\<exists>head desc sz used available nxt r w1. with_transport queue_state w = (r, w1)
      \<and> (\<forall>during. process_pending ops alloc di during w = finish_chain ops (blk_epoch w) used sz head available nxt
            (execute_chain ops alloc di during head desc sz (blk_epoch w) w1)))"
proof -
  obtain r w1 where t: "with_transport queue_state w = (r, w1)" by fastforce
  have d: "blk_disk w1 = blk_disk w"
    using with_transport_read [OF t] by (simp add: queue_state_def split: option.split prod.split)
  show ?thesis
  proof (cases "db_closed (blk_queues w) \<or> (\<exists>e. r = Inl e)")
    case True
    then show ?thesis using t d by (cases "db_closed (blk_queues w)"; cases r) (auto simp: process_pending_def)
  next
    case False
    then obtain desc avail used sz start where r: "r = Inr (desc, avail, used, sz, start)" by (cases r) auto
    obtain q nxt where a: "read_split_ring_available mmio_device_error (device_ring_read ops (blk_memory w1)) avail sz start = (q, nxt)"
      by fastforce
    obtain q2 w2 where n: "with_transport (\<lambda>st. (Inr () :: device_error + unit, st\<lparr>ts_avail := nxt\<rparr>)) w1 = (q2, w2)" by fastforce
    have "blk_disk w2 = blk_disk w1"
      using n by (auto simp: with_transport_def split: option.splits prod.splits)
    note facts = this False t d r a n
    show ?thesis
    proof (cases q)
      case (Inl e)
      then show ?thesis using facts by (auto simp: process_pending_def)
    next
      case (Inr p)
      obtain available head where p: "p = (available, head)" by fastforce
      show ?thesis
      proof (cases head)
        case None
        then show ?thesis using facts Inr p by (cases q2) (auto simp: process_pending_def)
      next
        case (Some h)
        have "process_pending ops alloc di j w = finish_chain ops (blk_epoch w) used sz h available nxt
            (execute_chain ops alloc di j h desc sz (blk_epoch w) w1)" for j
          using facts Inr p Some by (simp add: process_pending_def Let_def)
        then show ?thesis using t by blast
      qed
    qed
  qed
qed

text \<open>C31: a device reset while a request is waiting for the disk cancels the request. Whatever the
  others do meanwhile, as long as it ends the current epoch (a reset) or closes the device, a turn
  of the queue loop either never waited, or the disk call was its last effect: guest memory, the queue
  position, the registers and the interrupt line are exactly as the others left them, starting from
  the memory and the queue position of before the turn, and the loop reports that nothing is
  pending.\<close>

theorem reset_cancels_request:
  assumes "\<And>v. blk_epoch v = blk_epoch w \<Longrightarrow> \<not> blk_is_current (blk_epoch w) (during v)"
  shows "(\<forall>during'. process_pending ops alloc di during' w = process_pending ops alloc di during w)
    \<or> (\<exists>v. process_pending ops alloc di during w = (Ok False, during v) \<and> blk_memory v = blk_memory w
        \<and> map_option ts_avail (blk_transport v) = map_option ts_avail (blk_transport w))"
proof -
  consider (a) c where "\<forall>j. process_pending ops alloc di j w = c"
    | (b) head desc sz used available nxt r w1 where "with_transport queue_state w = (r, w1)"
      "\<forall>j. process_pending ops alloc di j w = finish_chain ops (blk_epoch w) used sz head available nxt
          (execute_chain ops alloc di j head desc sz (blk_epoch w) w1)"
    using process_pending_cases [of ops alloc di w] by blast
  then show ?thesis
  proof cases
    case a
    then show ?thesis by simp
  next
    case b
    have w1: "blk_memory w1 = blk_memory w \<and> blk_epoch w1 = blk_epoch w
        \<and> map_option ts_avail (blk_transport w1) = map_option ts_avail (blk_transport w)"
      using with_transport_read [OF b(1)] by (simp add: queue_state_def split: option.split prod.split)
    then have v: "blk_memory (w1\<lparr>blk_disk := d\<rparr>) = blk_memory w
        \<and> map_option ts_avail (blk_transport (w1\<lparr>blk_disk := d\<rparr>)) = map_option ts_avail (blk_transport w)" for d by simp
    note eq = b(2) [rule_format]
    have "\<not> blk_is_current (blk_epoch w) (during (w1\<lparr>blk_disk := d\<rparr>))" for d using assms w1 by simp
    from execute_chain_settles [of "blk_epoch w" during w1 ops alloc di head desc sz, OF this] show ?thesis
      unfolding eq using finish_chain_cancelled v by metis
  qed
qed


section \<open>The device and its environment\<close>

text \<open>
  The steps of a running device: the guest writes memory and registers, the host resets, configures or
  closes it, and the queue loop takes a turn. What happens while the loop or the closing waits for the
  disk is any sequence of steps.
\<close>

inductive blk_step :: "'b backing_ops \<Rightarrow> (nat \<Rightarrow> bool) \<Rightarrow> 'd disk_imports \<Rightarrow> ('b, 'd) blk \<Rightarrow> ('b, 'd) blk \<Rightarrow> bool"
  and blk_steps :: "'b backing_ops \<Rightarrow> (nat \<Rightarrow> bool) \<Rightarrow> 'd disk_imports \<Rightarrow> ('b, 'd) blk \<Rightarrow> ('b, 'd) blk \<Rightarrow> bool"
  for ops alloc di where
  step_guest: "blk_step ops alloc di w (w\<lparr>blk_memory := m\<rparr>)"
| step_read: "blk_step ops alloc di w (snd (blk_mmio_read addr width w))"
| step_write: "blk_step ops alloc di w (snd (blk_mmio_write addr width v w))"
| step_reset: "blk_step ops alloc di w (blk_reset w)"
| step_configure: "blk_step ops alloc di w (snd (blk_configure di readonly w))"
| step_wait: "blk_step ops alloc di w (w\<lparr>blk_queues := snd (poll_wait (blk_queues w))\<rparr>)"
| step_close: "(\<And>v. blk_steps ops alloc di v (during v)) \<Longrightarrow> blk_step ops alloc di w (snd (blk_close di during w))"
| step_process: "(\<And>v. blk_steps ops alloc di v (during v)) \<Longrightarrow> blk_step ops alloc di w (snd (process_pending ops alloc di during w))"
| steps_done: "blk_steps ops alloc di w w"
| steps_more: "blk_steps ops alloc di w w1 \<Longrightarrow> blk_step ops alloc di w1 w2 \<Longrightarrow> blk_steps ops alloc di w w2"

text \<open>A relation on disks that every import keeps and that composes.\<close>

definition import_closed :: "'d disk_imports \<Rightarrow> ('d \<Rightarrow> 'd \<Rightarrow> bool) \<Rightarrow> bool" where
  "import_closed di R \<longleftrightarrow> (\<forall>d. R d d) \<and> (\<forall>a b c. R a b \<longrightarrow> R b c \<longrightarrow> R a c)
     \<and> (\<forall>d offset len. R d (snd (di_read_at di d offset len))) \<and> (\<forall>d offset bs. R d (snd (di_write_at di d offset bs)))
     \<and> (\<forall>d offset len. R d (snd (di_discard di d offset len))) \<and> (\<forall>d. R d (snd (di_sync di d)))"

lemma with_transport_disk [simp]: "blk_disk (snd (with_transport f w)) = blk_disk w"
  by (auto simp: with_transport_def split: option.splits prod.splits)

lemma with_transport_disk_eq: "with_transport f w = (r, w') \<Longrightarrow> blk_disk w' = blk_disk w"
  using with_transport_disk [of f w] by simp

lemma final_status_disk [simp]: "blk_disk (snd (final_status ops status_addr status epoch w)) = blk_disk w"
  by (auto simp: final_status_def blk_write_status_def split: option.splits prod.splits sum.splits)

lemma ioerr_completion_disk: "blk_disk (snd (ioerr_completion ops status_addr epoch w)) = blk_disk w"
  by (auto simp: ioerr_completion_def blk_write_status_def split: option.splits prod.splits sum.splits)

lemma write_ranges_disk: "blk_write_guest_ranges ops ranges bs epoch w = (r, w') \<Longrightarrow> blk_disk w' = blk_disk w"
  by (auto simp: blk_write_guest_ranges_def split: sum.splits if_splits prod.splits)

lemma finish_chain_disk: "blk_disk (snd (finish_chain ops epoch used sz head available nxt (r, w))) = blk_disk w"
  by (auto simp: finish_chain_def Let_def dest: with_transport_disk_eq split: sum.splits if_splits prod.splits)

definition disk_kept :: "('d \<Rightarrow> 'd \<Rightarrow> bool) \<Rightarrow> (('b, 'd) blk \<Rightarrow> ('b, 'd) blk) \<Rightarrow> bool" where
  "disk_kept R during \<longleftrightarrow> (\<forall>v. R (blk_disk v) (blk_disk (during v)))"

lemma import_closedD:
  assumes "import_closed di R"
  shows "R d d" "R a b \<Longrightarrow> R b c \<Longrightarrow> R a c" "R d (snd (di_read_at di d offset len))" "R d (snd (di_write_at di d offset bs))"
    "R d (snd (di_discard di d offset len))" "R d (snd (di_sync di d))"
  using assms unfolding import_closed_def by blast+

lemma await_disk_keeps:
  assumes "import_closed di R" "disk_kept R during" "R (blk_disk w) (snd (call (blk_disk w)))" "await_disk during call w = (r, w')"
  shows "R (blk_disk w) (blk_disk w')"
proof -
  obtain q d where c: "call (blk_disk w) = (q, d)" by fastforce
  then have w': "w' = during (w\<lparr>blk_disk := d\<rparr>)" using assms(4) by (simp add: await_disk_def)
  have "R d (blk_disk w')"
    using assms(2) unfolding disk_kept_def w' by (metis blk.select_convs(5) blk.surjective blk.update_convs(5))
  then show ?thesis using assms(3) c import_closedD(2) [OF assms(1)] by (metis snd_conv)
qed

lemma await_keeps:
  assumes "import_closed di R" "disk_kept R during"
  shows "await_disk during (\<lambda>d. di_read_at di d offset len) w = (q, w') \<Longrightarrow> R (blk_disk w) (blk_disk w')"
    "await_disk during (\<lambda>d. di_write_at di d offset bs) w = (r, w') \<Longrightarrow> R (blk_disk w) (blk_disk w')"
    "await_disk during (\<lambda>d. di_discard di d offset len) w = (r, w') \<Longrightarrow> R (blk_disk w) (blk_disk w')"
    "await_disk during (di_sync di) w = (r, w') \<Longrightarrow> R (blk_disk w) (blk_disk w')"
  by (erule await_disk_keeps [OF assms, rotated], rule import_closedD [OF assms(1)])+

lemma execute_discard_keeps:
  assumes "import_closed di R" "disk_kept R during" "execute_discard ops di during data capacity w = (r, w')"
  shows "R (blk_disk w) (blk_disk w')"
  using assms(3) import_closedD(1) [OF assms(1)] await_keeps(3) [OF assms(1,2)]
  by (auto simp: execute_discard_def split: list.splits if_splits sum.splits prod.splits)

lemma execute_keeps:
  assumes "import_closed di R" "disk_kept R during"
  shows "R (blk_disk w) (blk_disk (snd (execute ops alloc di during req_type sector data tot status_addr epoch w)))"
proof -
  note r = import_closedD(1) [OF assms(1)] and aw = await_keeps [OF assms]
  consider (in') "req_type = T_IN" | (out) "req_type = T_OUT" | (fl) "req_type = T_FLUSH" | (di) "req_type = T_DISCARD"
    | (un) "req_type \<notin> {T_IN, T_OUT, T_FLUSH, T_DISCARD}" by blast
  then show ?thesis
  proof cases
    case in'
    then show ?thesis using r
      by (auto simp: execute_def Let_def split: option.splits sum.splits prod.splits dest: aw(1) dest!: write_ranges_disk)
  next
    case out
    then show ?thesis using r
      by (auto simp: execute_def Let_def T_IN_def T_OUT_def split: option.splits sum.splits prod.splits dest: aw(2))
  next
    case fl
    then show ?thesis using r
      by (auto simp: execute_def Let_def T_IN_def T_OUT_def T_FLUSH_def split: option.splits sum.splits prod.splits dest: aw(4))
  next
    case di
    then show ?thesis using r execute_discard_keeps [OF assms]
      by (auto simp: execute_def Let_def T_IN_def T_OUT_def T_FLUSH_def T_DISCARD_def split: sum.splits prod.splits)
  next
    case un
    then show ?thesis using r by (simp add: execute_def)
  qed
qed

lemma chain_request_disk: "chain_request ops head desc_table queue_size epoch w = Inl c \<Longrightarrow> blk_disk (snd c) = blk_disk w"
  using ioerr_completion_disk
  by (auto simp: chain_request_def split: if_splits sum.splits option.splits prod.splits)

lemma execute_chain_keeps:
  assumes "import_closed di R" "disk_kept R during"
  shows "R (blk_disk w) (blk_disk (snd (execute_chain ops alloc di during head desc_table queue_size epoch w)))"
proof (cases "chain_request ops head desc_table queue_size epoch w")
  case (Inl c)
  then show ?thesis using chain_request_disk [OF Inl] import_closedD(1) [OF assms(1)] by (simp add: execute_chain_def)
next
  case (Inr req)
  obtain req_type sector data tot status_addr where "req = (req_type, sector, data, tot, status_addr)" by (cases req) auto
  moreover obtain q w' where "execute ops alloc di during req_type sector data tot status_addr epoch w = (q, w')" by fastforce
  ultimately show ?thesis using Inr execute_keeps [OF assms, of w ops alloc req_type sector data tot status_addr epoch]
    by (simp add: execute_chain_def Let_def)
qed

lemma process_pending_keeps:
  assumes "import_closed di R" "disk_kept R during"
  shows "R (blk_disk w) (blk_disk (snd (process_pending ops alloc di during w)))"
proof -
  consider (a) c where "process_pending ops alloc di during w = c" "blk_disk (snd c) = blk_disk w"
    | (b) head desc sz used available nxt r w1 where "with_transport queue_state w = (r, w1)"
      "process_pending ops alloc di during w = finish_chain ops (blk_epoch w) used sz head available nxt
          (execute_chain ops alloc di during head desc sz (blk_epoch w) w1)"
    using process_pending_cases [of ops alloc di w] by blast
  then show ?thesis
  proof cases
    case a
    then show ?thesis using import_closedD(1) [OF assms(1)] by simp
  next
    case b
    have "blk_disk w1 = blk_disk w" using with_transport_disk_eq [OF b(1)] .
    moreover obtain q w2 where "execute_chain ops alloc di during head desc sz (blk_epoch w) w1 = (q, w2)" by fastforce
    ultimately show ?thesis
      using execute_chain_keeps [OF assms, of w1 ops alloc head desc sz "blk_epoch w"] b(2) by (simp add: finish_chain_disk)
  qed
qed

lemma handler_disk:
  "blk_disk (snd (blk_mmio_read addr width w)) = blk_disk w"
  "blk_disk (snd (blk_mmio_write addr width v w)) = blk_disk w"
  "blk_disk (blk_reset w) = blk_disk w"
  "blk_disk (snd (blk_configure di readonly w)) = blk_disk w"
  by (auto simp: blk_mmio_read_def blk_mmio_write_def blk_reset_def blk_configure_def Let_def
      dest: with_transport_disk_eq split: prod.splits sum.splits write_outcome.splits)

lemma blk_close_keeps:
  assumes "import_closed di R" "disk_kept R during"
  shows "R (blk_disk w) (blk_disk (snd (blk_close di during w)))"
proof -
  define v where "v = blk_reset (w\<lparr>blk_queues := snd (db_close (blk_queues w))\<rparr>)"
  obtain r w' where a: "await_disk during (di_sync di) v = (r, w')" by fastforce
  have "R (blk_disk v) (blk_disk w')"
    using await_disk_keeps [OF assms import_closedD(6) [OF assms(1)] a] .
  then show ?thesis using a by (simp add: blk_close_def v_def handler_disk)
qed

lemma blk_steps_keep:
  assumes "import_closed di R"
  shows "blk_step ops alloc di w w' \<Longrightarrow> R (blk_disk w) (blk_disk w')"
    and "blk_steps ops alloc di v v' \<Longrightarrow> R (blk_disk v) (blk_disk v')"
proof (induction rule: blk_step_blk_steps.inducts)
  case (step_close during w)
  then show ?case by (intro blk_close_keeps [OF assms]) (simp add: disk_kept_def)
next
  case (step_process during w)
  then show ?case by (intro process_pending_keeps [OF assms]) (simp add: disk_kept_def)
next
  case (steps_more w w1 w2)
  then show ?case using import_closedD(2) [OF assms] by blast
qed (simp_all add: handler_disk import_closedD(1) [OF assms])

lemma import_closed_read_only:
  "import_closed (host_imports (grant_ops platform os decompress))
     (\<lambda>h h'. grant_access (bh_disk h) = ReadOnly \<longrightarrow> same_storage (bh_disk h) (bh_disk h'))"
proof -
  let ?ops = "grant_ops platform os decompress"
  have call: "same_storage (bh_disk h) (bh_disk (snd (disk_call_run ?ops call h)))" if "grant_access (bh_disk h) = ReadOnly" for h call
    using read_only_call [OF that, of platform os decompress call "fst (disk_call_run ?ops call h)"] by simp
  show ?thesis
    using call [of _ "Disk_Read _ _"] call [of _ "Disk_Write _ _"] call [of _ "Disk_Discard _ _"] call [of _ Disk_Sync]
      same_storage_trans
    by (auto simp: import_closed_def host_imports_def disk_call_run_def same_storage_refl dest: same_storage_access)
qed

text \<open>C23: no guest can write a read-only disk. Take a block device on a read-only grant and any run of
  it: the guest writes any memory and registers, the host resets, reconfigures or closes it at any
  time, also while a request waits for the disk, and the queue loop serves whatever it finds. The
  storage behind the grant stays exactly as it was.\<close>

theorem guest_cannot_write_read_only_disk:
  assumes "blk_steps ops alloc (host_imports (grant_ops platform os decompress)) w w'"
    and "grant_access (bh_disk (blk_disk w)) = ReadOnly"
  shows "same_storage (bh_disk (blk_disk w)) (bh_disk (blk_disk w'))"
  using blk_steps_keep(2) [OF import_closed_read_only assms(1)] assms(2) by blast

end
