(* ===== verification/Block_Requests.thy ===== *)
theory Block_Requests
  imports Block_Device
begin

text \<open>
  What the requests of the block device do from end to end, over any guest memory that keeps the
  contract \<open>ram_backing\<close> and any disk that keeps the contract \<open>block_backing\<close>: a read request copies the
  disk's bytes into the guest's ranges, a write request copies the guest's ranges to the disk.
\<close>

section \<open>Ranges\<close>

text \<open>The payload cut along the ranges, and the payload the ranges hold.\<close>

fun scatter :: "blk_range list \<Rightarrow> bytes \<Rightarrow> (u64 \<times> bytes) list" where
  "scatter [] bs = []"
| "scatter (r # rs) bs = (br_addr r, take (unat (br_len r)) bs) # scatter rs (drop (unat (br_len r)) bs)"

definition gather :: "byte_view \<Rightarrow> blk_range list \<Rightarrow> bytes" where
  "gather v data = concat (map (\<lambda>r. view_bytes v (br_addr r) (unat (br_len r))) data)"

definition ranges_len :: "blk_range list \<Rightarrow> nat" where
  "ranges_len data = sum_list (map (\<lambda>r. unat (br_len r)) data)"

definition range_ok :: "'b backing_ops \<Rightarrow> 'b guest_memory \<Rightarrow> blk_range \<Rightarrow> bool" where
  "range_ok ops m r \<longleftrightarrow> br_len r \<le> MAX_SINGLE \<and> contains_range ops m (br_addr r) (br_len r)"

lemma MAX_SINGLE_unat: "x \<le> MAX_SINGLE \<longleftrightarrow> unat x \<le> 16384"
  by (simp add: MAX_SINGLE_def MAX_SINGLE_GUEST_COPY_BYTES_def word_le_nat_alt)

lemma split_payload_scatter:
  "\<forall>r \<in> set data. br_len r \<le> MAX_SINGLE \<Longrightarrow> ranges_len data \<le> length bs
   \<Longrightarrow> split_payload data bs = Inr (scatter (filter (\<lambda>r. br_len r \<noteq> 0) data) bs)"
proof (induction data arbitrary: bs)
  case Nil
  then show ?case by simp
next
  case (Cons r data)
  then show ?case
    by (auto simp: ranges_len_def MAX_SINGLE_unat usize_max_wasm32_def)
qed

lemma fold_scatter_filter:
  "fold (\<lambda>p v. view_write v (fst p) (snd p)) (scatter (filter (\<lambda>r. br_len r \<noteq> 0) data) bs) v
   = fold (\<lambda>p v. view_write v (fst p) (snd p)) (scatter data bs) v"
  by (induction data arbitrary: bs v) auto

lemma gather_filter: "gather v (filter (\<lambda>r. br_len r \<noteq> 0) data) = gather v data"
  by (induction data) (auto simp: gather_def view_bytes_def)

lemma ranges_len_filter [simp]: "ranges_len (filter (\<lambda>r. br_len r \<noteq> 0) data) = ranges_len data"
  by (induction data) (auto simp: ranges_len_def)

lemma length_gather [simp]: "length (gather v data) = ranges_len data"
  by (induction data) (auto simp: gather_def ranges_len_def)

lemma scatter_range:
  "p \<in> set (scatter data bs) \<Longrightarrow> ranges_len data \<le> length bs
   \<Longrightarrow> \<exists>r \<in> set data. fst p = br_addr r \<and> length (snd p) = unat (br_len r)"
  by (induction data bs rule: scatter.induct) (fastforce simp: ranges_len_def)+

lemma write_pieces_short:
  "0 < length bs \<Longrightarrow> length bs \<le> 16384 \<Longrightarrow> write_pieces (a, bs) = [((a, bs), word_of_nat (length bs))]"
  by (simp add: write_pieces_def chunks_short)

lemma read_pieces_short:
  assumes "n \<noteq> 0" "unat n \<le> 16384"
  shows "read_pieces (a, n) = [((a, n), n)]"
proof -
  have "0 < unat n" using assms(1) by (simp add: unat_gt_0)
  then have "(unat n + 16383) div 16384 = 1" using assms(2) by linarith
  then show ?thesis using assms(2) by (simp add: read_pieces_eq)
qed

context ram_backing
begin

lemma scatter_written:
  assumes "wf (gm_backing m)" "\<forall>r \<in> set data. range_ok ops m r" "ranges_len data \<le> length bs"
    "write_guest_memory ops (scatter (filter (\<lambda>r. br_len r \<noteq> 0) data) bs) m = (r, m')"
  shows "r = Inr () \<and> wf (gm_backing m') \<and> contains_range ops m' = contains_range ops m
    \<and> gview m' = fold (\<lambda>p v. view_write v (fst p) (snd p)) (scatter data bs) (gview m)"
proof -
  define ws where "ws = scatter (filter (\<lambda>r. br_len r \<noteq> 0) data) bs"
  have flt: "ranges_len (filter (\<lambda>r. br_len r \<noteq> 0) data) \<le> length bs"
    using assms(3) by simp
  have each: "0 < length (snd p) \<and> length (snd p) \<le> 16384 \<and> contains_range ops m (fst p) (word_of_nat (length (snd p)))"
    if p: "p \<in> set ws" for p
  proof -
    obtain r where r: "r \<in> set data" "br_len r \<noteq> 0" "fst p = br_addr r" "length (snd p) = unat (br_len r)"
      using scatter_range [OF p [unfolded ws_def] flt] by auto
    then show ?thesis using assms(2) by (auto simp: range_ok_def MAX_SINGLE_unat unat_gt_0)
  qed
  have pieces: "map fst (concat (map write_pieces ws)) = ws"
    using each
  proof (induction ws)
    case (Cons p ws)
    then show ?case using write_pieces_short [of "snd p" "fst p"] by simp
  qed simp
  have fit: "\<forall>p \<in> set ws. unat (fst p) + length (snd p) < 2 ^ 64"
  proof
    fix p
    assume "p \<in> set ws"
    then have "contains_range ops m (fst p) (word_of_nat (length (snd p)))" "length (snd p) \<le> 16384" using each by auto
    then show "unat (fst p) + length (snd p) < 2 ^ 64" using contains_no_overflow by (fastforce simp: unat_of_nat_eq)
  qed
  note wr = write_guest_memory_writes [OF assms(1) fit]
  from wr(1) assms(4) pieces each show ?thesis
    by (auto simp: ws_def [symmetric] writes_def fold_scatter_filter [symmetric])
qed

lemma gather_read:
  assumes "wf (gm_backing (blk_memory w))" "\<forall>r \<in> set data. range_ok ops (blk_memory w) r" "ranges_len data \<le> 65536"
    "alloc (ranges_len data)"
  shows "read_guest_payload ops alloc data w = Inr (gather (gview (blk_memory w)) data)"
proof -
  define rs where "rs = map (\<lambda>r. (br_addr r, br_len r)) (filter (\<lambda>r. br_len r \<noteq> 0) data)"
  have sum: "sum_list (map (unat \<circ> snd) rs) = ranges_len data"
    by (simp add: rs_def comp_def ranges_len_filter [of data, symmetric] del: ranges_len_filter) (simp add: ranges_len_def)
  have each: "unat (snd p) \<le> 16384 \<and> snd p \<noteq> 0 \<and> contains_range ops (blk_memory w) (fst p) (snd p)" if "p \<in> set rs" for p
    using that assms(2) by (auto simp: rs_def range_ok_def MAX_SINGLE_unat)
  have fit: "\<forall>p \<in> set rs. unat (fst p) + unat (snd p) < 2 ^ 64" using each contains_no_overflow by blast
  have "fst ` set (concat (map read_pieces rs)) = set rs"
    using each
  proof (induction rs)
    case (Cons p rs)
    then show ?case using read_pieces_short [of "snd p" "fst p"] by simp
  qed simp
  then have "read_guest_memory ops alloc (blk_memory w) rs = Inr (concat (map (\<lambda>(a, n). view_bytes (gview (blk_memory w)) a (unat n)) rs))"
    using read_guest_memory_eq [OF assms(1) fit, of alloc] sum assms(3,4) each by (simp add: usize_max_wasm32_def)
  moreover have "concat (map (\<lambda>(a, n). view_bytes (gview (blk_memory w)) a (unat n)) rs) = gather (gview (blk_memory w)) data"
    unfolding gather_filter [of _ data, symmetric] by (simp add: rs_def gather_def comp_def)
  ultimately show ?thesis by (simp add: read_guest_payload_def rs_def)
qed

lemma final_status_written:
  assumes "wf (gm_backing (blk_memory w))" "blk_is_current epoch w" "contains_range ops (blk_memory w) status_addr 1"
  shows "\<exists>m'. final_status ops status_addr status epoch w = (status, w\<lparr>blk_memory := m'\<rparr>)
    \<and> gview m' = view_write (gview (blk_memory w)) status_addr [status] \<and> wf (gm_backing m')"
  using bounded_write_ok [of "blk_memory w" "[status]" status_addr] assms
  by (auto simp: final_status_def blk_write_status_def host_write_def)

end


section \<open>Properties\<close>

lemma sector_start_Some:
  assumes "sector_start sector tot capacity = Some off"
  shows "unat off = unat sector * 512 \<and> unat off + unat tot \<le> unat capacity"
proof -
  obtain e where m: "checked_mul sector SECTOR_BYTES = Some off" and a: "checked_add off tot = Some e" and "e \<le> capacity"
    using assms by (auto simp: sector_start_def split: option.splits if_splits)
  then show ?thesis using checked_mul_unat [OF m] checked_add_unat [OF a] by (simp add: SECTOR_BYTES_def word_le_nat_alt)
qed

text \<open>C14: a read request delivers the disk. When the request is current, its sectors lie on the disk,
  its ranges and its status byte are mapped, and the disk read succeeds, then the request succeeds:
  guest memory is the old one with exactly the disk's bytes at \<open>sector * 512\<close> laid out along the
  guest's ranges in order, then the status byte, and the disk is unchanged.\<close>

theorem read_request_delivers_disk:
  assumes "ram_backing ops good view" and "good (gm_backing (blk_memory w))"
    and "block_backing dops dgood dview" and "host_good dops dgood (blk_disk w)"
    and "blk_is_current epoch w"
    and "sector_start sector tot (bh_disk_capacity (blk_disk w)) = Some off"
    and "disk_read_at dops (blk_disk w) off tot = (Ok bs, d)"
    and "ranges_len data = unat tot" and "\<forall>r \<in> set data. range_ok ops (blk_memory w) r"
    and "contains_range ops (blk_memory w) status_addr 1"
  shows "\<exists>w'. execute ops alloc (host_imports dops) (\<lambda>v. v) T_IN sector data tot status_addr epoch w = (STATUS_OK, w')
    \<and> bs = take (unat tot) (drop (unat sector * 512) (dview (bh_disk (blk_disk w))))
    \<and> view (gm_backing (blk_memory w')) = view_write (fold (\<lambda>p v. view_write v (fst p) (snd p)) (scatter data bs)
          (view (gm_backing (blk_memory w)))) status_addr [STATUS_OK]
    \<and> dview (bh_disk (blk_disk w')) = dview (bh_disk (blk_disk w))"
proof -
  have call: "disk_call_run dops (Disk_Read off tot) (blk_disk w) = (Reply_Bytes (Inr bs), d)"
    using assms(7) by (simp add: disk_call_run_def)
  from block_backing.disk_call_spec [OF assms(3,4) _ call]
  have spec: "dview (bh_disk d) = dview (bh_disk (blk_disk w))"
    "bs = take (unat tot) (drop (unat off) (dview (bh_disk (blk_disk w))))"
    "unat off + unat tot \<le> length (dview (bh_disk (blk_disk w)))"
    by (auto simp: calls_fit_def read_effect_def)
  have off: "unat off = unat sector * 512" using sector_start_Some [OF assms(6)] by simp
  have len: "length bs = unat tot" using spec(2,3) by simp
  define w1 where "w1 = w\<lparr>blk_disk := d\<rparr>"
  have w1: "blk_memory w1 = blk_memory w" "blk_is_current epoch w1" using assms(5) by (simp_all add: w1_def blk_is_current_def)
  obtain r m where wr: "write_guest_memory ops (scatter (filter (\<lambda>r. br_len r \<noteq> 0) data) bs) (blk_memory w) = (r, m)" by fastforce
  have "ranges_len data \<le> length bs" using assms(8) len by simp
  note sw = ram_backing.scatter_written [OF assms(1,2,9) this wr]
  define w2 where "w2 = w1\<lparr>blk_memory := m\<rparr>"
  have sp: "split_payload data bs = Inr (scatter (filter (\<lambda>r. br_len r \<noteq> 0) data) bs)"
    using assms(8,9) len by (intro split_payload_scatter) (auto simp: range_ok_def)
  have rng: "blk_write_guest_ranges ops data bs epoch w1 = (Inr (), w2)"
    using sp wr sw w1 by (simp add: blk_write_guest_ranges_def w2_def)
  have w2: "good (gm_backing (blk_memory w2))" "blk_is_current epoch w2" "contains_range ops (blk_memory w2) status_addr 1"
    using sw w1(2) assms(10) by (auto simp: w2_def blk_is_current_def)
  obtain m' where fin: "final_status ops status_addr STATUS_OK epoch w2 = (STATUS_OK, w2\<lparr>blk_memory := m'\<rparr>)"
    "view (gm_backing m') = view_write (view (gm_backing (blk_memory w2))) status_addr [STATUS_OK]"
    using ram_backing.final_status_written [OF assms(1) w2] by blast
  have "execute ops alloc (host_imports dops) (\<lambda>v. v) T_IN sector data tot status_addr epoch w
      = (STATUS_OK, w2\<lparr>blk_memory := m'\<rparr>)"
    using assms(5,6,7) len rng fin(1)
    by (simp add: execute_def host_imports_def disk_capacity_import_def await_disk_def w1_def [symmetric])
  then show ?thesis using fin(2) sw spec off by (auto simp: w2_def w1_def)
qed

text \<open>C15: a write request stores the guest's bytes. When the request is current, its sectors lie on
  the disk, its ranges (of at most 64 KiB together) and its status byte are mapped, and the disk write
  succeeds, then the request succeeds: the disk is the old one with exactly the bytes of the guest's
  ranges, in order, at \<open>sector * 512\<close>, and guest memory changes only in the status byte.\<close>

theorem write_request_stores_guest_bytes:
  assumes "ram_backing ops good view" and "good (gm_backing (blk_memory w))"
    and "block_backing dops dgood dview" and "host_good dops dgood (blk_disk w)"
    and "blk_is_current epoch w"
    and "sector_start sector tot (bh_disk_capacity (blk_disk w)) = Some off"
    and "disk_write_at dops (blk_disk w) off (gather (view (gm_backing (blk_memory w))) data) = (Ok (), d)"
    and "ranges_len data = unat tot" and "tot \<le> MAX_TOTAL" and "alloc (unat tot)"
    and "\<forall>r \<in> set data. range_ok ops (blk_memory w) r"
    and "contains_range ops (blk_memory w) status_addr 1"
  shows "\<exists>w'. execute ops alloc (host_imports dops) (\<lambda>v. v) T_OUT sector data tot status_addr epoch w = (STATUS_OK, w')
    \<and> dview (bh_disk (blk_disk w')) = splice (dview (bh_disk (blk_disk w))) (unat sector * 512)
          (gather (view (gm_backing (blk_memory w))) data)
    \<and> view (gm_backing (blk_memory w')) = view_write (view (gm_backing (blk_memory w))) status_addr [STATUS_OK]"
proof -
  define bs where "bs = gather (view (gm_backing (blk_memory w))) data"
  have tot: "ranges_len data \<le> 65536"
    using assms(8,9) by (simp add: MAX_TOTAL_def MAX_BATCH_GUEST_COPY_BYTES_def MAX_COMPONENT_HOSTCALL_BYTES_def word_le_nat_alt)
  have rd: "read_guest_payload ops alloc data w = Inr bs"
    using ram_backing.gather_read [OF assms(1,2,11) tot] assms(8,10) by (simp add: bs_def)
  have call: "disk_call_run dops (Disk_Write off bs) (blk_disk w) = (Reply_Unit (Inr ()), d)"
    using assms(7) by (simp add: disk_call_run_def bs_def)
  have fit: "calls_fit [Disk_Write off bs]" using tot by (simp add: calls_fit_def bs_def)
  from block_backing.disk_call_spec [OF assms(3,4) fit call]
  have spec: "dview (bh_disk d) = splice (dview (bh_disk (blk_disk w))) (unat off) bs"
    by (auto simp: write_effect_def split: if_splits)
  define w1 where "w1 = w\<lparr>blk_disk := d\<rparr>"
  have w1: "good (gm_backing (blk_memory w1))" "blk_is_current epoch w1" "contains_range ops (blk_memory w1) status_addr 1"
    using assms(2,5,12) by (simp_all add: w1_def blk_is_current_def)
  obtain m' where fin: "final_status ops status_addr STATUS_OK epoch w1 = (STATUS_OK, w1\<lparr>blk_memory := m'\<rparr>)"
    "view (gm_backing m') = view_write (view (gm_backing (blk_memory w1))) status_addr [STATUS_OK]"
    using ram_backing.final_status_written [OF assms(1) w1] by blast
  have "execute ops alloc (host_imports dops) (\<lambda>v. v) T_OUT sector data tot status_addr epoch w
      = (STATUS_OK, w1\<lparr>blk_memory := m'\<rparr>)"
    using assms(5,6,7) rd fin(1)
    by (simp add: execute_def T_IN_def T_OUT_def host_imports_def disk_capacity_import_def await_disk_def w1_def [symmetric]
        bs_def [symmetric])
  then show ?thesis using fin(2) spec sector_start_Some [OF assms(6)] by (auto simp: w1_def bs_def)
qed


section \<open>Witnesses\<close>

definition request_memory :: "allocation list guest_memory" where
  "request_memory = \<lparr>gm_backing = [\<lparr>al_guest_base = 0, al_mem = replicate 1024 5\<rparr>], gm_limit = 1024\<rparr>"

definition request_world :: "(allocation list, bounded_disk block_host) blk" where
  "request_world = \<lparr>blk_epoch = 1, blk_queues = doorbell_new, blk_transport = None, blk_memory = request_memory,
     blk_disk = block_host_new bounded_ops \<lparr>bd_data = replicate 1024 7, bd_access = ReadWrite\<rparr>, blk_irq = False\<rparr>"

lemma request_memory_contains:
  "contains_range (win_backing valloc) request_memory a n \<longleftrightarrow> unat a + unat n \<le> 1024"
proof -
  have "unat a + unat n < 2 ^ 64 \<Longrightarrow> a + n \<le> 1024 \<longleftrightarrow> unat a + unat n \<le> 1024"
    by (simp add: word_le_nat_alt unat_add_no_wrap)
  then show ?thesis
    by (auto simp: request_memory_def contains_range_def win_backing_def win_contains_def allocation_index_def
        list_position_simps al_limit_def checked_add_def)
qed

lemma request_world_ok:
  "alloc_wf (gm_backing (blk_memory request_world))"
  "host_good bounded_ops (\<lambda>d. length (bd_data d) < 2 ^ 64) (blk_disk request_world)"
  "blk_is_current 1 request_world"
  "sector_start 1 512 (bh_disk_capacity (blk_disk request_world)) = Some 512"
  "\<forall>r \<in> set [\<lparr>br_addr = 0, br_len = 512\<rparr>]. range_ok (win_backing valloc) (blk_memory request_world) r"
  "contains_range (win_backing valloc) (blk_memory request_world) 600 1"
  "ranges_len [\<lparr>br_addr = 0, br_len = 512\<rparr>] = unat (512 :: u64)"
  by (simp_all add: request_world_def request_memory_contains range_ok_def ranges_len_def MAX_SINGLE_unat)
    (simp_all add: request_memory_def alloc_wf_def al_limit_def host_good_def block_host_new_def bounded_ops_def blk_is_current_def
      doorbell_new_def bounded_capacity_def sector_start_def checked_mul_def checked_add_def SECTOR_BYTES_def is_multiple_of_def)

theorem read_request_delivers_disk_witness:
  "\<exists>w'. execute (win_backing (\<lambda>_. True)) (\<lambda>_. True) (host_imports bounded_ops) (\<lambda>v. v) T_IN 1
      [\<lparr>br_addr = 0, br_len = 512\<rparr>] 512 600 1 request_world = (STATUS_OK, w')
    \<and> alloc_view (gm_backing (blk_memory w')) 100 = Some 7 \<and> alloc_view (gm_backing (blk_memory w')) 512 = Some 5"
proof -
  have rd: "disk_read_at bounded_ops (blk_disk request_world) 512 512 = (Inr (replicate 512 7), blk_disk request_world)"
    by (simp add: disk_read_at_def run_disk_job_eq request_world_def block_host_new_def bounded_ops_def bounded_capacity_def
        bounded_read_at_def bounded_range_def MAX_BATCH_GUEST_COPY_BYTES_def MAX_COMPONENT_HOSTCALL_BYTES_def)
  note ok = request_world_ok
  have old: "alloc_view (gm_backing (blk_memory request_world)) 512 = Some 5"
    by (simp add: request_world_def request_memory_def alloc_view_def alloc_at_def list_position_simps al_limit_def)
  obtain w' where ex: "execute (win_backing (\<lambda>_. True)) (\<lambda>_. True) (host_imports bounded_ops) (\<lambda>v. v) T_IN 1
      [\<lparr>br_addr = 0, br_len = 512\<rparr>] 512 600 1 request_world = (STATUS_OK, w')"
    and v: "alloc_view (gm_backing (blk_memory w')) = view_write (fold (\<lambda>p v. view_write v (fst p) (snd p))
        (scatter [\<lparr>br_addr = 0, br_len = 512\<rparr>] (replicate 512 7)) (alloc_view (gm_backing (blk_memory request_world)))) 600 [STATUS_OK]"
    using read_request_delivers_disk [OF win.ram_backing_axioms ok(1) bounded.block_backing_axioms ok(2-4) rd ok(7,5,6),
        of "\<lambda>_. True" "\<lambda>_. True"] by blast
  have "alloc_view (gm_backing (blk_memory w')) 100 = Some 7" "alloc_view (gm_backing (blk_memory w')) 512 = Some 5"
    using old by (simp_all add: v view_write_def)
  then show ?thesis using ex by blast
qed

theorem write_request_stores_guest_bytes_witness:
  "\<exists>w'. execute (win_backing (\<lambda>_. True)) (\<lambda>_. True) (host_imports bounded_ops) (\<lambda>v. v) T_OUT 1
      [\<lparr>br_addr = 0, br_len = 512\<rparr>] 512 600 1 request_world = (STATUS_OK, w')
    \<and> bd_data (bh_disk (blk_disk w')) = replicate 512 7 @ replicate 512 5"
proof -
  have g: "gather (alloc_view (gm_backing (blk_memory request_world))) [\<lparr>br_addr = 0, br_len = 512\<rparr>] = replicate 512 5"
    by (rule nth_equalityI) (auto simp: ranges_len_def gather_def request_world_def request_memory_def
        alloc_view_def alloc_at_def list_position_simps al_limit_def unat_of_nat_eq word_less_nat_alt)
  have wr: "\<exists>d. disk_write_at bounded_ops (blk_disk request_world) 512 (replicate 512 5) = (Inr (), d)"
    by (simp add: disk_write_at_def run_disk_job_eq request_world_def block_host_new_def bounded_ops_def bounded_capacity_def
        bounded_write_at_def is_read_only_def bounded_range_def MAX_BATCH_GUEST_COPY_BYTES_def MAX_COMPONENT_HOSTCALL_BYTES_def)
  then obtain d where wr: "disk_write_at bounded_ops (blk_disk request_world) 512
      (gather (alloc_view (gm_backing (blk_memory request_world))) [\<lparr>br_addr = 0, br_len = 512\<rparr>]) = (Inr (), d)"
    unfolding g by blast
  note ok = request_world_ok
  have lim: "(512 :: u64) \<le> MAX_TOTAL"
    by (simp add: MAX_TOTAL_def MAX_BATCH_GUEST_COPY_BYTES_def MAX_COMPONENT_HOSTCALL_BYTES_def)
  from write_request_stores_guest_bytes [OF win.ram_backing_axioms ok(1) bounded.block_backing_axioms ok(2-4) wr ok(7) lim _ ok(5,6), of "\<lambda>_. True"]
  show ?thesis unfolding g by (auto simp: request_world_def block_host_new_def splice_def)
qed

definition example_world :: "(allocation list, bytes disk_grant block_host) blk" where
  "example_world = \<lparr>blk_epoch = 1, blk_queues = doorbell_new, blk_transport = Some \<lparr>ts_transport = live_transport, ts_avail = 0\<rparr>,
     blk_memory = request_memory, blk_disk = block_host_new (grant_ops Linux mem_os stored) example_read_only, blk_irq = False\<rparr>"

theorem guest_cannot_write_read_only_disk_witness:
  "\<exists>w'. blk_steps (win_backing (\<lambda>_. True)) (\<lambda>_. True) (host_imports (grant_ops Linux mem_os stored)) example_world w'
    \<and> blk_epoch w' = 2 \<and> same_storage example_read_only (bh_disk (blk_disk w'))"
proof -
  define w' where "w' = blk_reset example_world"
  have st: "blk_steps (win_backing (\<lambda>_. True)) (\<lambda>_. True) (host_imports (grant_ops Linux mem_os stored)) example_world w'"
    unfolding w'_def by (rule steps_more [OF steps_done step_reset])
  have "blk_epoch w' = 2"
    by (auto simp: w'_def blk_reset_def example_world_def with_transport_def split: prod.splits option.splits)
  moreover have "same_storage example_read_only (bh_disk (blk_disk w'))"
    using guest_cannot_write_read_only_disk [OF st]
    by (simp add: example_world_def block_host_new_def example_read_only_def grant_access_def)
  ultimately show ?thesis using st by blast
qed


text \<open>A flush request in a ring of two descriptors.\<close>

definition flush_bytes :: bytes where
  "flush_bytes = [96, 0, 0, 0, 0, 0, 0, 0, 16, 0, 0, 0, 1, 0, 1, 0] @ [112, 0, 0, 0, 0, 0, 0, 0, 1, 0, 0, 0, 2, 0, 0, 0]
      @ [0, 0, 1, 0, 0, 0, 0, 0, 0, 0, 0, 0, 0, 0, 0, 0] @ replicate 48 0
      @ [4, 0, 0, 0, 0, 0, 0, 0, 0, 0, 0, 0, 0, 0, 0, 0] @ [255]"

definition flush_memory :: "allocation list guest_memory" where
  "flush_memory = \<lparr>gm_backing = [\<lparr>al_guest_base = 0, al_mem = flush_bytes\<rparr>], gm_limit = 113\<rparr>"

definition flush_world :: "(allocation list, bounded_disk block_host) blk" where
  "flush_world = \<lparr>blk_epoch = 1, blk_queues = doorbell_new,
     blk_transport = Some \<lparr>ts_transport = (transport_new 113 2 5 8 [])\<lparr>t_status := 15,
         t_queues := [\<lparr>q_num = 2, q_ready = True, q_desc = 0, q_avail = 32, q_used = 48\<rparr>]\<rparr>, ts_avail = 0\<rparr>,
     blk_memory = flush_memory,
     blk_disk = block_host_new bounded_ops \<lparr>bd_data = [], bd_access = ReadWrite\<rparr>, blk_irq = False\<rparr>"

lemma length_flush_bytes: "length flush_bytes = 113"
  by (simp add: flush_bytes_def)

lemma flush_contains: "contains_range (win_backing valloc) flush_memory a n \<longleftrightarrow> unat a + unat n \<le> 113"
proof -
  have "unat a + unat n < 2 ^ 64 \<Longrightarrow> a + n \<le> 113 \<longleftrightarrow> unat a + unat n \<le> 113"
    by (simp add: word_le_nat_alt unat_add_no_wrap)
  then show ?thesis
    by (auto simp: flush_memory_def contains_range_def win_backing_def win_contains_def allocation_index_def
        list_position_simps al_limit_def checked_add_def length_flush_bytes)
qed

lemma flush_read:
  assumes "unat a + unat n \<le> 113"
  shows "host_read (win_backing valloc) flush_memory a n = Inr (take (unat n) (drop (unat a) flush_bytes))"
proof -
  have wf: "alloc_wf (gm_backing flush_memory)"
    by (simp add: flush_memory_def alloc_wf_def al_limit_def length_flush_bytes)
  have "\<not> MAX_SINGLE_GUEST_COPY_BYTES < n" using assms by (simp add: word_less_nat_alt)
  then have "host_read (win_backing valloc) flush_memory a n = Inr (view_bytes (alloc_view (gm_backing flush_memory)) a (unat n))"
    using win.bounded_read_eq [OF wf] assms by (simp add: host_read_def flush_contains)
  also have "view_bytes (alloc_view (gm_backing flush_memory)) a (unat n) = take (unat n) (drop (unat a) flush_bytes)"
  proof (rule nth_equalityI)
    fix i
    assume "i < length (view_bytes (alloc_view (gm_backing flush_memory)) a (unat n))"
    then have i: "i < unat n" by simp
    then have "unat (word_of_nat i :: u64) = i" using unat_lt_pow [of n] by (intro unat_of_nat_eq) simp
    then have "unat (a + word_of_nat i) = unat a + i" using i assms by (subst unat_add_no_wrap) simp_all
    then show "view_bytes (alloc_view (gm_backing flush_memory)) a (unat n) ! i = take (unat n) (drop (unat a) flush_bytes) ! i"
      using i assms by (simp add: flush_memory_def alloc_view_def alloc_at_def list_position_simps al_limit_def
          length_flush_bytes word_less_nat_alt)
  qed (use assms in \<open>simp add: length_flush_bytes\<close>)
  finally show ?thesis .
qed

lemma flush_queue: "with_transport queue_state flush_world = (Inr (0, 32, 48, 2, 0), flush_world)"
  by (simp add: flush_world_def with_transport_def queue_state_def queue_addrs_for_def transport_new_def take_irq_def)

lemma flush_reads:
  "host_read (win_backing valloc) flush_memory 0 32 = Inr ([96, 0, 0, 0, 0, 0, 0, 0, 16, 0, 0, 0, 1, 0, 1, 0]
     @ [112, 0, 0, 0, 0, 0, 0, 0, 1, 0, 0, 0, 2, 0, 0, 0])"
  "host_read (win_backing valloc) flush_memory 34 2 = Inr [1, 0]"
  "host_read (win_backing valloc) flush_memory 36 2 = Inr [0, 0]"
  "host_read (win_backing valloc) flush_memory 96 16 = Inr [4, 0, 0, 0, 0, 0, 0, 0, 0, 0, 0, 0, 0, 0, 0, 0]"
  "host_read (win_backing valloc) flush_memory 112 1 = Inr [255]"
  by (simp_all add: flush_read) (simp_all add: flush_bytes_def)

lemma flush_available:
  "read_split_ring_available mmio_device_error (device_ring_read (win_backing valloc) flush_memory) 32 2 0 = (Inr (1, Some 0), 0)"
proof -
  have "ring_address 32 2 = Inr 34" "ring_address 32 4 = Inr 36" by (simp_all add: ring_address_def checked_add_def)
  moreover have "read_ring_index mmio_device_error (device_ring_read (win_backing valloc) flush_memory) 34 = Inr 1"
    "read_ring_index mmio_device_error (device_ring_read (win_backing valloc) flush_memory) 36 = Inr 0"
    by (simp_all add: read_ring_index_def device_ring_read_def flush_reads from_le_u16_def)
  ultimately show ?thesis by (simp add: read_split_ring_available_def resync_pending_queue_entries_def)
qed

lemma flush_chain:
  "split_ring_chain ([96, 0, 0, 0, 0, 0, 0, 0, 16, 0, 0, 0, 1, 0, 1, 0] @ [112, 0, 0, 0, 0, 0, 0, 0, 1, 0, 0, 0, 2, 0, 0, 0])
     0 2 18 3 = Inr [\<lparr>d_addr = 96, d_len = 16, d_flags = 1, d_next = 1\<rparr>, \<lparr>d_addr = 112, d_len = 1, d_flags = 2, d_next = 0\<rparr>]"
proof -
  have "split_ring_chain_loop ([96, 0, 0, 0, 0, 0, 0, 0, 16, 0, 0, 0, 1, 0, 1, 0] @ [112, 0, 0, 0, 0, 0, 0, 0, 1, 0, 0, 0, 2, 0, 0, 0])
      2 3 (Suc (Suc k)) 0 [False, False] []
      = Inr [\<lparr>d_addr = 96, d_len = 16, d_flags = 1, d_next = 1\<rparr>, \<lparr>d_addr = 112, d_len = 1, d_flags = 2, d_next = 0\<rparr>]" for k
    by (simp add: slice_def SPLIT_RING_DESCRIPTOR_BYTES_def SPLIT_RING_DESC_F_NEXT_def Let_def
        parse_descriptor_def from_le_u64_def from_le_u32_def from_le_u16_def word_le_nat_alt)
  note loop = this [of 16]
  have "replicate 2 False = [False, False]" by (simp add: numeral_2_eq_2)
  then show ?thesis using loop by (simp add: split_ring_chain_def)
qed

lemma flush_request:
  "chain_request (win_backing valloc) 0 0 2 1 flush_world = Inr (T_FLUSH, 0, [], 0, 112)"
proof -
  have w: "blk_is_current 1 flush_world" "blk_memory flush_world = flush_memory"
    by (simp_all add: flush_world_def blk_is_current_def doorbell_new_def)
  have p: "is_power_of_two (2 :: u16)" by code_simp
  have t: "request_type (win_backing valloc) \<lparr>d_addr = 96, d_len = 16, d_flags = 1, d_next = 1\<rparr> flush_world = Inr (T_FLUSH, 0)"
    by (simp add: request_type_def blk_read_def w flush_reads SPLIT_RING_DESC_F_WRITE_def from_le_u32_def from_le_u64_def T_FLUSH_def)
  have f: "SPLIT_RING_DESC_F_NEXT OR SPLIT_RING_DESC_F_WRITE = 3" by (simp add: SPLIT_RING_DESC_F_NEXT_def SPLIT_RING_DESC_F_WRITE_def)
  have st: "status_tail [\<lparr>d_addr = 96, d_len = 16, d_flags = 1, d_next = 1\<rparr>, \<lparr>d_addr = 112, d_len = 1, d_flags = 2, d_next = 0\<rparr>] = Some 112"
    by (simp add: status_tail_def SPLIT_RING_DESC_F_WRITE_def)
  show ?thesis
    using w p t flush_chain st
    by (simp add: chain_request_def blk_read_def flush_reads SPLIT_RING_DESCRIPTOR_BYTES_def MAX_RANGES_def f)
qed

lemma flush_processed:
  "process_pending (win_backing valloc) alloc (host_imports bounded_ops) during flush_world
   = finish_chain (win_backing valloc) 1 48 2 0 1 0 (execute_chain (win_backing valloc) alloc (host_imports bounded_ops) during 0 0 2 1 flush_world)"
proof -
  have w: "\<not> db_closed (blk_queues flush_world)" "blk_epoch flush_world = 1" "blk_memory flush_world = flush_memory"
    by (simp_all add: flush_world_def doorbell_new_def)
  show ?thesis by (simp add: process_pending_def w flush_queue flush_available)
qed


lemma flush_synced:
  "execute_chain (win_backing valloc) alloc (host_imports bounded_ops) during 0 0 2 1 flush_world
   = (case final_status (win_backing valloc) 112 STATUS_OK 1 (during flush_world) of
       (status, w') \<Rightarrow> if \<not> blk_is_current 1 w' then (Inl Dev_NotReady, w') else (Inr 1, w'))"
proof -
  have w: "blk_is_current 1 flush_world" by (simp add: flush_world_def blk_is_current_def doorbell_new_def)
  have d: "await_disk during (di_sync (host_imports bounded_ops)) flush_world = (Inr (), during flush_world)"
    by (simp add: await_disk_def host_imports_def disk_sync_def run_disk_job_eq flush_world_def block_host_new_def bounded_ops_def)
  show ?thesis
    by (simp add: execute_chain_def flush_request execute_def w d T_IN_def T_OUT_def T_FLUSH_def checked_add_def try_u32_def
        split: prod.split)
qed

text \<open>The flush is cancelled by a reset while it waits; without one it completes in its epoch.\<close>

theorem reset_cancels_request_witness:
  "\<exists>v. process_pending (win_backing (\<lambda>_. True)) (\<lambda>_. True) (host_imports bounded_ops) blk_reset flush_world = (Ok False, blk_reset v)
    \<and> blk_memory v = blk_memory flush_world"
proof -
  let ?run = "\<lambda>during. process_pending (win_backing (\<lambda>_. True)) (\<lambda>_. True) (host_imports bounded_ops) during flush_world"
  have ep: "blk_epoch (blk_reset v) = blk_epoch v + 1" for v :: "(allocation list, bounded_disk block_host) blk"
    by (auto simp: blk_reset_def with_transport_def split: prod.splits option.splits)
  have ep_fin: "blk_epoch (snd (finish_chain ops epoch used sz head available nxt (r, w))) = blk_epoch w"
    for ops epoch used sz head available nxt r and w :: "(allocation list, bounded_disk block_host) blk"
    by (auto simp: finish_chain_def Let_def with_transport_def split: sum.splits if_splits prod.splits option.splits)
  have ep_st: "blk_epoch (snd (final_status ops status_addr status epoch w)) = blk_epoch w"
    for ops status_addr status epoch and w :: "(allocation list, bounded_disk block_host) blk"
    by (auto simp: final_status_def blk_write_status_def split: option.splits prod.splits sum.splits)
  have one: "blk_epoch flush_world = 1" by (simp add: flush_world_def)
  have "blk_epoch (snd (?run during)) = blk_epoch (during flush_world)" for during
    using ep_st [of "win_backing (\<lambda>_. True)" 112 STATUS_OK 1 "during flush_world"]
    by (auto simp: flush_processed flush_synced ep_fin split: prod.split)
  then have "?run (\<lambda>v. v) \<noteq> ?run blk_reset" using ep [of flush_world] one by (metis add_cancel_right_right one_neq_zero)
  moreover have "\<not> blk_is_current (blk_epoch flush_world) (blk_reset v)" if "blk_epoch v = blk_epoch flush_world"
    for v :: "(allocation list, bounded_disk block_host) blk"
    using that ep [of v] by (simp add: blk_is_current_def)
  ultimately show ?thesis
    using reset_cancels_request [of flush_world blk_reset "win_backing (\<lambda>_. True)" "\<lambda>_. True" "host_imports bounded_ops"]
    by metis
qed

end
