(* ===== verification/Interrupt_Controller.thy ===== *)
theory Interrupt_Controller
  imports Limits "HOL-Library.Monad_Syntax"
begin

text \<open>
  The interrupt controller component (\<open>components/interrupt-controller/src/lib.rs\<close>): the wired-OR
  aggregation of device lines onto interrupt pins and the I/O APIC register window. Array accesses
  that Rust checks are options, \<open>None\<close> a panic, so that the type invariant shows the controller
  never panics. The cached pin levels are shown to refine a specification that recomputes every
  level from the device lines.
\<close>

section \<open>State\<close>

definition PINS :: nat where "PINS = X86_IOAPIC_PINS"
definition REGISTER_SELECT :: u8 where "REGISTER_SELECT = 0"
definition WINDOW :: u8 where "WINDOW = 0x10"
definition VERSION_REGISTER :: u8 where "VERSION_REGISTER = 1"
definition IOAPIC_VERSION :: u32 where "IOAPIC_VERSION = push_bit 16 (word_of_nat X86_IOAPIC_PINS - 1) OR 0x11"
definition REDIRECTION_BASE :: u8 where "REDIRECTION_BASE = 0x10"
definition MASKED :: u32 where "MASKED = push_bit 16 1"
definition LEVEL_TRIGGERED :: u32 where "LEVEL_TRIGGERED = push_bit 15 1"

datatype irq_mode = Ioapic | IrqLines
datatype irq_error = InvalidState | InvalidSlot

record irq_config =
  ic_mode :: irq_mode
  ic_routes :: "u32 list"

record x86_interrupt =
  x_vector :: u8
  x_destination :: u8
  x_level_triggered :: bool

record ioapic_reply =
  io_value :: u32
  io_interrupts :: "x86_interrupt list"

record irq_level =
  il_gsi :: u32
  il_asserted :: bool

record controller =
  c_mode :: irq_mode
  c_routes :: "u8 list"
  c_levels :: "bool list"
  c_register :: u8
  c_redirection :: "(u32 \<times> u32) list"
  c_asserted :: "bool list"

definition array_get :: "'a list \<Rightarrow> nat \<Rightarrow> 'a option" where
  "array_get xs i = (if i < length xs then Some (xs ! i) else None)"

definition array_set :: "'a list \<Rightarrow> nat \<Rightarrow> 'a \<Rightarrow> 'a list option" where
  "array_set xs i v = (if i < length xs then Some (xs[i := v]) else None)"

lemma array_get_Some [simp]: "i < length xs \<Longrightarrow> array_get xs i = Some (xs ! i)"
  by (simp add: array_get_def)

lemma array_set_Some [simp]: "i < length xs \<Longrightarrow> array_set xs i v = Some (xs[i := v])"
  by (simp add: array_set_def)


section \<open>Operations of the controller\<close>

definition route_pin :: "u32 \<Rightarrow> irq_error + u8" where
  "route_pin route =
     ok_or InvalidSlot (if unat route < 256 \<and> unat (ucast route :: u8) < PINS then Some (ucast route) else None)"

fun route_pins :: "u32 list \<Rightarrow> irq_error + u8 list" where
  "route_pins [] = Ok []"
| "route_pins (r # rs) = and_then (route_pin r) (\<lambda>p. and_then (route_pins rs) (\<lambda>ps. Ok (p # ps)))"

definition controller_new :: "irq_config \<Rightarrow> irq_error + controller" where
  "controller_new config =
     (if length (ic_routes config) > MAX_DEVICES then Err InvalidSlot
      else and_then (route_pins (ic_routes config)) (\<lambda>routes.
        Ok \<lparr>c_mode = ic_mode config, c_routes = routes, c_levels = replicate (length routes) False,
            c_register = 0, c_redirection = replicate PINS (MASKED, 0),
            c_asserted = replicate PINS False\<rparr>))"

definition entry_interrupt :: "u32 \<times> u32 \<Rightarrow> x86_interrupt option" where
  "entry_interrupt entry = (case entry of (low, high) \<Rightarrow>
     if low AND MASKED = 0
     then Some \<lparr>x_vector = to_le_u32 low ! 0, x_destination = to_le_u32 high ! 3,
                x_level_triggered = (low AND LEVEL_TRIGGERED \<noteq> 0)\<rparr>
     else None)"

definition deliver :: "controller \<Rightarrow> nat \<Rightarrow> x86_interrupt option option" where
  "deliver c pin = map_option entry_interrupt (array_get (c_redirection c) pin)"

text \<open>\<open>.filter(|pin| self.asserted[*pin]).and_then(|pin| self.deliver(pin))\<close>\<close>

definition deliver_if_asserted :: "controller \<Rightarrow> nat option \<Rightarrow> x86_interrupt option option" where
  "deliver_if_asserted c target =
     (case target of
        None \<Rightarrow> Some None
      | Some pin \<Rightarrow> do {
          asserted \<leftarrow> array_get (c_asserted c) pin;
          if asserted then deliver c pin else Some None
        })"

definition redirection_half :: "controller \<Rightarrow> (nat \<times> nat) option" where
  "redirection_half c = do {
     i \<leftarrow> checked_sub (c_register c) REDIRECTION_BASE;
     let index = unat i;
     if index div 2 < PINS then Some (index div 2, index mod 2) else None
   }"

definition half_of :: "u32 \<times> u32 \<Rightarrow> nat \<Rightarrow> u32" where
  "half_of entry half = (if half = 0 then fst entry else snd entry)"

definition set_half :: "u32 \<times> u32 \<Rightarrow> nat \<Rightarrow> u32 \<Rightarrow> u32 \<times> u32" where
  "set_half entry half v = (if half = 0 then (v, snd entry) else (fst entry, v))"

definition read_register :: "controller \<Rightarrow> u32 option" where
  "read_register c =
     (if c_register c = VERSION_REGISTER then Some IOAPIC_VERSION
      else case redirection_half c of
        None \<Rightarrow> Some 0
      | Some (pin, half) \<Rightarrow> map_option (\<lambda>entry. half_of entry half) (array_get (c_redirection c) pin))"

definition write_register :: "controller \<Rightarrow> u32 \<Rightarrow> (nat option \<times> controller) option" where
  "write_register c v =
     (case redirection_half c of
        None \<Rightarrow> Some (None, c)
      | Some (pin, half) \<Rightarrow> do {
          entry \<leftarrow> array_get (c_redirection c) pin;
          entries \<leftarrow> array_set (c_redirection c) pin (set_half entry half v);
          Some (Some pin, c\<lparr>c_redirection := entries\<rparr>)
        })"

definition controller_access :: "controller \<Rightarrow> u8 \<Rightarrow> u8 \<Rightarrow> bool \<Rightarrow> u32 \<Rightarrow> (ioapic_reply \<times> controller) option" where
  "controller_access c offset width write v =
     (if offset = REGISTER_SELECT \<and> width = 4 \<and> \<not> write
      then Some (\<lparr>io_value = ucast (c_register c), io_interrupts = []\<rparr>, c)
      else if offset = REGISTER_SELECT \<and> width = 4 \<and> write
      then Some (\<lparr>io_value = 0, io_interrupts = []\<rparr>, c\<lparr>c_register := to_le_u32 v ! 0\<rparr>)
      else if offset = WINDOW \<and> width = 4 \<and> \<not> write
      then map_option (\<lambda>r. (\<lparr>io_value = r, io_interrupts = []\<rparr>, c)) (read_register c)
      else if offset = WINDOW \<and> width = 4 \<and> write
      then do {
        (pin, c') \<leftarrow> write_register c v;
        interrupt \<leftarrow> deliver_if_asserted c' pin;
        Some (\<lparr>io_value = 0, io_interrupts = (case interrupt of None \<Rightarrow> [] | Some i \<Rightarrow> [i])\<rparr>, c')
      }
      else Some (\<lparr>io_value = 0, io_interrupts = []\<rparr>, c))"

definition controller_line :: "controller \<Rightarrow> u8 \<Rightarrow> bool \<Rightarrow> ((irq_error + u8 option) \<times> controller) option" where
  "controller_line c slot level =
     (case array_get (c_routes c) (unat slot) of
        None \<Rightarrow> Some (Err InvalidSlot, c)
      | Some gsi \<Rightarrow> do {
          levels \<leftarrow> array_set (c_levels c) (unat slot) level;
          let aggregated = list_ex (\<lambda>(route, level). route = gsi \<and> level) (zip (c_routes c) levels);
          asserted \<leftarrow> array_get (c_asserted c) (unat gsi);
          if asserted = aggregated then Some (Ok None, c\<lparr>c_levels := levels\<rparr>)
          else do {
            pins \<leftarrow> array_set (c_asserted c) (unat gsi) aggregated;
            Some (Ok (Some gsi), c\<lparr>c_levels := levels, c_asserted := pins\<rparr>)
          }
        })"

definition controller_ioapic_line ::
  "controller \<Rightarrow> u8 \<Rightarrow> bool \<Rightarrow> ((irq_error + x86_interrupt option) \<times> controller) option" where
  "controller_ioapic_line c slot level = do {
     (changed, c') \<leftarrow> controller_line c slot level;
     (case changed of
        Inl e \<Rightarrow> Some (Err e, c')
      | Inr gsi \<Rightarrow> do {
          interrupt \<leftarrow> deliver_if_asserted c' (map_option unat gsi);
          Some (Ok interrupt, c')
        })
   }"

fun eoi_pins :: "controller \<Rightarrow> u8 \<Rightarrow> nat list \<Rightarrow> x86_interrupt list option" where
  "eoi_pins c vector [] = Some []"
| "eoi_pins c vector (pin # pins) = do {
     interrupt \<leftarrow> deliver_if_asserted c (Some pin);
     rest \<leftarrow> eoi_pins c vector pins;
     Some (case interrupt of
             Some i \<Rightarrow> if x_level_triggered i \<and> x_vector i = vector then i # rest else rest
           | None \<Rightarrow> rest)
   }"

definition controller_eoi :: "controller \<Rightarrow> u8 \<Rightarrow> x86_interrupt list option" where
  "controller_eoi c vector = eoi_pins c vector [0..<PINS]"


section \<open>The component\<close>

text \<open>The component holds an optional controller; every export answers a result.\<close>

definition with_controller :: "irq_mode \<Rightarrow> (controller \<Rightarrow> ((irq_error + 'a) \<times> controller) option)
    \<Rightarrow> controller option \<Rightarrow> ((irq_error + 'a) \<times> controller option) option" where
  "with_controller mode operate state =
     (case state of
        None \<Rightarrow> Some (Err InvalidState, state)
      | Some c \<Rightarrow>
          if c_mode c = mode then map_option (map_prod (\<lambda>r. r) Some) (operate c)
          else Some (Err InvalidState, state))"

definition irq_configure :: "irq_config \<Rightarrow> controller option \<Rightarrow> (irq_error + unit) \<times> controller option" where
  "irq_configure config state =
     (if state \<noteq> None then (Err InvalidState, state)
      else case controller_new config of
        Inl e \<Rightarrow> (Err e, state)
      | Inr c \<Rightarrow> (Ok (), Some c))"

definition irq_line :: "u8 \<Rightarrow> bool \<Rightarrow> controller option
    \<Rightarrow> ((irq_error + irq_level option) \<times> controller option) option" where
  "irq_line slot asserted = with_controller IrqLines (\<lambda>c. do {
     (changed, c') \<leftarrow> controller_line c slot asserted;
     (case changed of
        Inl e \<Rightarrow> Some (Err e, c')
      | Inr None \<Rightarrow> Some (Ok None, c')
      | Inr (Some gsi) \<Rightarrow> do {
          level \<leftarrow> array_get (c_asserted c') (unat gsi);
          Some (Ok (Some \<lparr>il_gsi = ucast gsi, il_asserted = level\<rparr>), c')
        })
   })"

definition ioapic_line :: "u8 \<Rightarrow> bool \<Rightarrow> controller option
    \<Rightarrow> ((irq_error + x86_interrupt list) \<times> controller option) option" where
  "ioapic_line slot asserted = with_controller Ioapic (\<lambda>c. do {
     (interrupt, c') \<leftarrow> controller_ioapic_line c slot asserted;
     Some (and_then interrupt (\<lambda>i. Ok (case i of None \<Rightarrow> [] | Some x \<Rightarrow> [x])), c')
   })"

definition ioapic_access :: "u8 \<Rightarrow> u8 \<Rightarrow> bool \<Rightarrow> u32 \<Rightarrow> controller option
    \<Rightarrow> ((irq_error + ioapic_reply) \<times> controller option) option" where
  "ioapic_access offset width write v = with_controller Ioapic (\<lambda>c.
     map_option (map_prod Ok (\<lambda>c'. c')) (controller_access c offset width write v))"

definition ioapic_eoi :: "u8 \<Rightarrow> controller option
    \<Rightarrow> ((irq_error + x86_interrupt list) \<times> controller option) option" where
  "ioapic_eoi vector = with_controller Ioapic (\<lambda>c. map_option (\<lambda>xs. (Ok xs, c)) (controller_eoi c vector))"

datatype irq_request =
    Configure irq_config
  | Irq_line u8 bool
  | Ioapic_line u8 bool
  | Access u8 u8 bool u32
  | Eoi u8

datatype irq_answer =
    Configured "irq_error + unit"
  | Level "irq_error + irq_level option"
  | Interrupts "irq_error + x86_interrupt list"
  | Accessed "irq_error + ioapic_reply"

fun irq_call :: "irq_request \<Rightarrow> controller option \<Rightarrow> (irq_answer \<times> controller option) option" where
  "irq_call (Configure config) s = Some (map_prod Configured (\<lambda>s. s) (irq_configure config s))"
| "irq_call (Irq_line slot asserted) s = map_option (map_prod Level (\<lambda>s. s)) (irq_line slot asserted s)"
| "irq_call (Ioapic_line slot asserted) s = map_option (map_prod Interrupts (\<lambda>s. s)) (ioapic_line slot asserted s)"
| "irq_call (Access offset width write v) s =
     map_option (map_prod Accessed (\<lambda>s. s)) (ioapic_access offset width write v s)"
| "irq_call (Eoi vector) s = map_option (map_prod Interrupts (\<lambda>s. s)) (ioapic_eoi vector s)"

fun irq_run :: "irq_request list \<Rightarrow> controller option \<Rightarrow> (irq_answer list \<times> controller option) option" where
  "irq_run [] s = Some ([], s)"
| "irq_run (call # calls) s = do {
     (answer, s') \<leftarrow> irq_call call s;
     (answers, s'') \<leftarrow> irq_run calls s';
     Some (answer # answers, s'')
   }"


section \<open>Specification\<close>

text \<open>
  The specification keeps the device lines and the redirection entries as functions and no cached
  pin level: the level of a pin is the disjunction of the lines routed to it.
\<close>

record irq_spec =
  s_mode :: irq_mode
  s_routes :: "u8 list"
  s_level :: "nat \<Rightarrow> bool"
  s_register :: u8
  s_entry :: "nat \<Rightarrow> u32 \<times> u32"

definition wired_or :: "irq_spec \<Rightarrow> u8 \<Rightarrow> bool" where
  "wired_or s gsi = list_ex (\<lambda>slot. s_routes s ! slot = gsi \<and> s_level s slot) [0..<length (s_routes s)]"

definition pin_interrupts :: "irq_spec \<Rightarrow> nat \<Rightarrow> x86_interrupt list" where
  "pin_interrupts s pin =
     (if wired_or s (word_of_nat pin)
      then case entry_interrupt (s_entry s pin) of None \<Rightarrow> [] | Some i \<Rightarrow> [i] else [])"

definition spec_new :: "irq_config \<Rightarrow> irq_spec option" where
  "spec_new config =
     (if length (ic_routes config) \<le> MAX_DEVICES \<and> list_all (\<lambda>r. unat r < PINS) (ic_routes config)
      then Some \<lparr>s_mode = ic_mode config, s_routes = map ucast (ic_routes config),
                 s_level = (\<lambda>_. False), s_register = 0, s_entry = (\<lambda>_. (MASKED, 0))\<rparr>
      else None)"

definition spec_set_line :: "irq_spec \<Rightarrow> u8 \<Rightarrow> bool \<Rightarrow> irq_spec" where
  "spec_set_line s slot level = s\<lparr>s_level := (s_level s)(unat slot := level)\<rparr>"

definition spec_select :: "irq_spec \<Rightarrow> (nat \<times> nat) option" where
  "spec_select s =
     (if 16 \<le> unat (s_register s) \<and> unat (s_register s) < 16 + 2 * PINS
      then Some ((unat (s_register s) - 16) div 2, (unat (s_register s) - 16) mod 2) else None)"

definition spec_access :: "u8 \<Rightarrow> u8 \<Rightarrow> bool \<Rightarrow> u32 \<Rightarrow> irq_spec \<Rightarrow> ioapic_reply \<times> irq_spec" where
  "spec_access offset width write v s =
     (if width \<noteq> 4 then (\<lparr>io_value = 0, io_interrupts = []\<rparr>, s)
      else if offset = REGISTER_SELECT then
        (if write then (\<lparr>io_value = 0, io_interrupts = []\<rparr>, s\<lparr>s_register := ucast v\<rparr>)
         else (\<lparr>io_value = ucast (s_register s), io_interrupts = []\<rparr>, s))
      else if offset = WINDOW then
        (case spec_select s of
           None \<Rightarrow> (\<lparr>io_value = (if \<not> write \<and> s_register s = 1 then IOAPIC_VERSION else 0), io_interrupts = []\<rparr>, s)
         | Some (pin, half) \<Rightarrow>
             if write then
               (let s' = s\<lparr>s_entry := (s_entry s)(pin := set_half (s_entry s pin) half v)\<rparr>
                in (\<lparr>io_value = 0, io_interrupts = pin_interrupts s' pin\<rparr>, s'))
             else (\<lparr>io_value = half_of (s_entry s pin) half, io_interrupts = []\<rparr>, s))
      else (\<lparr>io_value = 0, io_interrupts = []\<rparr>, s))"

definition spec_irq_line :: "u8 \<Rightarrow> bool \<Rightarrow> irq_spec \<Rightarrow> (irq_error + irq_level option) \<times> irq_spec" where
  "spec_irq_line slot level s =
     (if unat slot < length (s_routes s) then
        (let s' = spec_set_line s slot level; gsi = s_routes s ! unat slot in
         (Ok (if wired_or s' gsi = wired_or s gsi then None
              else Some \<lparr>il_gsi = ucast gsi, il_asserted = wired_or s' gsi\<rparr>), s'))
      else (Err InvalidSlot, s))"

definition spec_ioapic_line :: "u8 \<Rightarrow> bool \<Rightarrow> irq_spec \<Rightarrow> (irq_error + x86_interrupt list) \<times> irq_spec" where
  "spec_ioapic_line slot level s =
     (if unat slot < length (s_routes s) then
        (let s' = spec_set_line s slot level; gsi = s_routes s ! unat slot in
         (Ok (if wired_or s gsi then [] else pin_interrupts s' (unat gsi)), s'))
      else (Err InvalidSlot, s))"

definition spec_eoi :: "u8 \<Rightarrow> irq_spec \<Rightarrow> x86_interrupt list" where
  "spec_eoi vector s =
     filter (\<lambda>i. x_level_triggered i \<and> x_vector i = vector) (concat (map (pin_interrupts s) [0..<PINS]))"

definition spec_with :: "irq_mode \<Rightarrow> (irq_spec \<Rightarrow> (irq_error + 'a) \<times> irq_spec) \<Rightarrow> irq_spec option
    \<Rightarrow> (irq_error + 'a) \<times> irq_spec option" where
  "spec_with mode operate state =
     (case state of
        None \<Rightarrow> (Err InvalidState, None)
      | Some s \<Rightarrow> if s_mode s = mode then map_prod (\<lambda>r. r) Some (operate s) else (Err InvalidState, state))"

fun spec_call :: "irq_request \<Rightarrow> irq_spec option \<Rightarrow> irq_answer \<times> irq_spec option" where
  "spec_call (Configure config) s =
     (if s \<noteq> None then (Configured (Err InvalidState), s)
      else case spec_new config of
        None \<Rightarrow> (Configured (Err InvalidSlot), None)
      | Some s' \<Rightarrow> (Configured (Ok ()), Some s'))"
| "spec_call (Irq_line slot level) s = map_prod Level (\<lambda>s. s) (spec_with IrqLines (spec_irq_line slot level) s)"
| "spec_call (Ioapic_line slot level) s =
     map_prod Interrupts (\<lambda>s. s) (spec_with Ioapic (spec_ioapic_line slot level) s)"
| "spec_call (Access offset width write v) s =
     map_prod Accessed (\<lambda>s. s) (spec_with Ioapic (\<lambda>s. map_prod Ok (\<lambda>s. s) (spec_access offset width write v s)) s)"
| "spec_call (Eoi vector) s = map_prod Interrupts (\<lambda>s. s) (spec_with Ioapic (\<lambda>s. (Ok (spec_eoi vector s), s)) s)"

fun spec_run :: "irq_request list \<Rightarrow> irq_spec option \<Rightarrow> irq_answer list" where
  "spec_run [] s = []"
| "spec_run (call # calls) s = (case spec_call call s of (answer, s') \<Rightarrow> answer # spec_run calls s')"


section \<open>Well-formed controllers\<close>

definition irq_abs :: "controller \<Rightarrow> irq_spec" where
  "irq_abs c = \<lparr>s_mode = c_mode c, s_routes = c_routes c,
     s_level = (\<lambda>slot. slot < length (c_levels c) \<and> c_levels c ! slot),
     s_register = c_register c,
     s_entry = (\<lambda>pin. if pin < length (c_redirection c) then c_redirection c ! pin else (MASKED, 0))\<rparr>"

definition irq_wf :: "controller \<Rightarrow> bool" where
  "irq_wf c \<longleftrightarrow> length (c_levels c) = length (c_routes c) \<and> length (c_routes c) \<le> MAX_DEVICES
     \<and> list_all (\<lambda>r. unat r < PINS) (c_routes c)
     \<and> length (c_redirection c) = PINS \<and> length (c_asserted c) = PINS
     \<and> list_all (\<lambda>pin. c_asserted c ! pin = wired_or (irq_abs c) (word_of_nat pin)) [0..<PINS]"

lemma PINS_24: "PINS = 24"
  by (simp add: PINS_def X86_IOAPIC_PINS_def)

lemma irq_abs_simps [simp]:
  "s_mode (irq_abs c) = c_mode c" "s_routes (irq_abs c) = c_routes c" "s_register (irq_abs c) = c_register c"
  "s_level (irq_abs c) slot \<longleftrightarrow> slot < length (c_levels c) \<and> c_levels c ! slot"
  "s_entry (irq_abs c) pin = (if pin < length (c_redirection c) then c_redirection c ! pin else (MASKED, 0))"
  by (simp_all add: irq_abs_def)

lemma irq_wfD:
  assumes "irq_wf c"
  shows "length (c_levels c) = length (c_routes c)" "length (c_redirection c) = PINS" "length (c_asserted c) = PINS"
    and "\<And>slot. slot < length (c_routes c) \<Longrightarrow> unat (c_routes c ! slot) < PINS"
    and "\<And>pin. pin < PINS \<Longrightarrow> c_asserted c ! pin = wired_or (irq_abs c) (word_of_nat pin)"
  using assms by (auto simp: irq_wf_def list_all_length)

lemma wired_or_iff:
  "wired_or s gsi \<longleftrightarrow> (\<exists>slot < length (s_routes s). s_routes s ! slot = gsi \<and> s_level s slot)"
  by (auto simp: wired_or_def list_ex_iff)

lemma wired_or_zip:
  assumes "length levels = length (c_routes c)"
  shows "list_ex (\<lambda>(route, level). route = gsi \<and> level) (zip (c_routes c) levels)
     = wired_or (irq_abs (c\<lparr>c_levels := levels\<rparr>)) gsi"
  using assms by (fastforce simp: wired_or_iff list_ex_iff in_set_zip)

lemma wired_or_other:
  assumes "s_routes s ! unat slot \<noteq> gsi"
  shows "wired_or (spec_set_line s slot level) gsi = wired_or s gsi"
  unfolding wired_or_iff using assms by (intro ex_cong1) (auto simp: spec_set_line_def)

lemma wired_or_cong:
  "s_routes s = s_routes t \<Longrightarrow> s_level s = s_level t \<Longrightarrow> wired_or s = wired_or t"
  by (simp add: wired_or_def fun_eq_iff)

lemma pin_eq_route: "pin < PINS \<Longrightarrow> (word_of_nat pin = (gsi :: u8)) = (pin = unat gsi)"
  by (auto simp: PINS_24 unat_of_nat_eq)

lemma controller_line_exact:
  assumes wfc: "irq_wf c" and slot: "unat slot < length (c_routes c)"
  defines "gsi \<equiv> c_routes c ! unat slot"
  obtains c' where
    "controller_line c slot level =
       Some (Ok (if wired_or (irq_abs c') gsi = wired_or (irq_abs c) gsi then None else Some gsi), c')"
    "irq_wf c'" "irq_abs c' = spec_set_line (irq_abs c) slot level" "c_mode c' = c_mode c"
proof -
  note W = irq_wfD [OF wfc]
  define l where "l = (c_levels c)[unat slot := level]"
  define c' where "c' = c\<lparr>c_levels := l, c_asserted := (c_asserted c)[unat gsi := wired_or (irq_abs (c\<lparr>c_levels := l\<rparr>)) gsi]\<rparr>"
  have g: "unat gsi < PINS" unfolding gsi_def using W(4) slot .
  have abs: "irq_abs c' = spec_set_line (irq_abs c) slot level"
    using slot W(1) by (auto simp: irq_abs_def spec_set_line_def c'_def l_def fun_eq_iff nth_list_update)
  have or: "wired_or (irq_abs (c\<lparr>c_levels := l\<rparr>)) = wired_or (irq_abs c')"
    by (rule wired_or_cong) (simp_all add: c'_def irq_abs_def)
  have keep: "c_asserted c' ! pin = wired_or (irq_abs c') (word_of_nat pin)" if "pin < PINS" for pin
  proof (cases "pin = unat gsi")
    case True
    have "c_asserted c' ! unat gsi = wired_or (irq_abs (c\<lparr>c_levels := l\<rparr>)) gsi"
      using W(3) g by (simp add: c'_def)
    then show ?thesis unfolding or using True by simp
  next
    case False
    then have "wired_or (irq_abs c') (word_of_nat pin) = wired_or (irq_abs c) (word_of_nat pin)"
      unfolding abs using that by (intro wired_or_other) (simp add: gsi_def [symmetric] pin_eq_route, metis pin_eq_route)
    then show ?thesis using False W(5) [OF that] by (simp add: c'_def)
  qed
  have wf': "irq_wf c'"
    using wfc keep by (auto simp: irq_wf_def list_all_iff) (simp_all add: c'_def l_def)
  have asg: "c_asserted c ! unat gsi = wired_or (irq_abs c) gsi"
    using W(5) [OF g] by simp
  have agg: "list_ex (\<lambda>(route, level). route = gsi \<and> level) (zip (c_routes c) l) = wired_or (irq_abs c') gsi"
    unfolding or [symmetric] by (rule wired_or_zip) (simp add: l_def W(1))
  have c': "c' = c\<lparr>c_levels := l, c_asserted := (c_asserted c)[unat gsi := wired_or (irq_abs c') gsi]\<rparr>"
    using c'_def unfolding or .
  have "controller_line c slot level = (if wired_or (irq_abs c) gsi = wired_or (irq_abs c') gsi
      then Some (Ok None, c\<lparr>c_levels := l\<rparr>)
      else Some (Ok (Some gsi), c\<lparr>c_levels := l, c_asserted := (c_asserted c)[unat gsi := wired_or (irq_abs c') gsi]\<rparr>))"
    using slot W(1) W(3) g by (simp add: controller_line_def gsi_def [symmetric] l_def [symmetric] agg asg)
  moreover have "c' = c\<lparr>c_levels := l\<rparr>" if "wired_or (irq_abs c) gsi = wired_or (irq_abs c') gsi"
    by (subst c') (simp add: that [symmetric] asg [symmetric])
  ultimately have "controller_line c slot level =
       Some (Ok (if wired_or (irq_abs c') gsi = wired_or (irq_abs c) gsi then None else Some gsi), c')"
    using c' by auto
  moreover have "c_mode c' = c_mode c" by (simp add: c'_def)
  ultimately show thesis using that wf' abs by blast
qed


lemma deliver_if_asserted_exact:
  assumes "irq_wf c" and "pin < PINS"
  shows "deliver_if_asserted c (Some pin) =
    Some (if wired_or (irq_abs c) (word_of_nat pin) then entry_interrupt (s_entry (irq_abs c) pin) else None)"
  using irq_wfD [OF assms(1)] assms(2) by (simp add: deliver_if_asserted_def deliver_def)

lemma pin_interrupts_option:
  "pin_interrupts s pin = (case (if wired_or s (word_of_nat pin) then entry_interrupt (s_entry s pin) else None) of
     None \<Rightarrow> [] | Some i \<Rightarrow> [i])"
  by (simp add: pin_interrupts_def)

lemma eoi_pins_exact:
  assumes "irq_wf c" and "\<forall>pin \<in> set pins. pin < PINS"
  shows "eoi_pins c vector pins = Some (filter (\<lambda>i. x_level_triggered i \<and> x_vector i = vector)
    (concat (map (pin_interrupts (irq_abs c)) pins)))"
  using assms(2)
  by (induction pins) (auto simp: deliver_if_asserted_exact [OF assms(1)] pin_interrupts_option split: option.split)

lemma redirection_half_select: "redirection_half c = spec_select (irq_abs c)"
  by (auto simp: redirection_half_def spec_select_def checked_sub_def REDIRECTION_BASE_def PINS_24
      word_le_nat_alt unat_sub Let_def)

lemma irq_wf_register [simp]: "irq_wf (c\<lparr>c_register := r\<rparr>) \<longleftrightarrow> irq_wf c"
proof -
  have "wired_or (irq_abs (c\<lparr>c_register := r\<rparr>)) = wired_or (irq_abs c)"
    by (rule wired_or_cong) (simp_all add: irq_abs_def)
  then show ?thesis by (simp add: irq_wf_def)
qed

lemma irq_wf_redirection:
  assumes "irq_wf c"
  shows "irq_wf (c\<lparr>c_redirection := (c_redirection c)[pin := entry]\<rparr>)"
proof -
  have "wired_or (irq_abs (c\<lparr>c_redirection := (c_redirection c)[pin := entry]\<rparr>)) = wired_or (irq_abs c)"
    by (rule wired_or_cong) (simp_all add: irq_abs_def)
  then show ?thesis using assms by (simp add: irq_wf_def)
qed

lemma unat_ucast_u8: "unat (ucast x :: u8) = unat x mod 256"
  by (simp add: unsigned_ucast_eq take_bit_eq_mod)

lemma to_le_u32_0: "to_le_u32 v ! 0 = ucast v"
proof -
  have "(4 :: nat) = Suc 3" by simp
  then have "to_le_u32 v ! 0 = word_of_nat (unat v mod 256)"
    unfolding to_le_u32_def by (simp only: le_bytes.simps nth_Cons_0)
  then show ?thesis
    by (simp add: word_unat_eq_iff unat_of_nat_eq unat_ucast_u8)
qed

lemma controller_access_exact:
  assumes wfc: "irq_wf c"
  obtains c' where "controller_access c offset width write v = Some (fst (spec_access offset width write v (irq_abs c)), c')"
    "irq_wf c'" "irq_abs c' = snd (spec_access offset width write v (irq_abs c))" "c_mode c' = c_mode c"
proof -
  note W = irq_wfD [OF wfc]
  consider (idle) "width \<noteq> 4 \<or> (offset \<noteq> REGISTER_SELECT \<and> offset \<noteq> WINDOW)"
    | (select) "width = 4" "offset = REGISTER_SELECT"
    | (off) "width = 4" "offset = WINDOW" "spec_select (irq_abs c) = None"
    | (window) pin half where "width = 4" "offset = WINDOW" "spec_select (irq_abs c) = Some (pin, half)"
    by fastforce
  then show thesis
  proof cases
    case idle
    then show ?thesis using wfc by (intro that [of c]) (auto simp: controller_access_def spec_access_def)
  next
    case select
    show ?thesis
    proof (cases "write")
      case True
      then show ?thesis using select wfc
        by (intro that [of "c\<lparr>c_register := to_le_u32 v ! 0\<rparr>"])
          (auto simp: controller_access_def spec_access_def to_le_u32_0 irq_abs_def)
    next
      case False
      then show ?thesis using select wfc by (intro that [of c]) (auto simp: controller_access_def spec_access_def)
    qed
  next
    case off
    have "WINDOW \<noteq> REGISTER_SELECT" by (simp add: WINDOW_def REGISTER_SELECT_def)
    then show ?thesis using off wfc
      by (intro that [of c]) (auto simp: controller_access_def spec_access_def read_register_def write_register_def
          redirection_half_select VERSION_REGISTER_def deliver_if_asserted_def)
  next
    case window
    have n: "WINDOW \<noteq> REGISTER_SELECT" by (simp add: WINDOW_def REGISTER_SELECT_def)
    from window(3) have p: "pin < PINS" "c_register c \<noteq> VERSION_REGISTER"
      by (auto simp: spec_select_def VERSION_REGISTER_def split: if_splits)
    define c' where "c' = c\<lparr>c_redirection := (c_redirection c)[pin := set_half (c_redirection c ! pin) half v]\<rparr>"
    define s' where "s' = (irq_abs c)\<lparr>s_entry := (s_entry (irq_abs c))(pin := set_half (s_entry (irq_abs c) pin) half v)\<rparr>"
    have wf': "irq_wf c'" unfolding c'_def by (rule irq_wf_redirection [OF wfc])
    have abs: "irq_abs c' = s'"
      using p W(2) by (auto simp: c'_def s'_def irq_abs_def fun_eq_iff nth_list_update)
    have wr: "write_register c v = Some (Some pin, c')"
      using p W(2) window(3) by (simp add: write_register_def redirection_half_select c'_def)
    show ?thesis
    proof (cases "write")
      case True
      have "spec_access offset width write v (irq_abs c) = (\<lparr>io_value = 0, io_interrupts = pin_interrupts s' pin\<rparr>, s')"
        using True window n by (simp add: spec_access_def Let_def s'_def)
      moreover have "controller_access c offset width write v = Some (\<lparr>io_value = 0, io_interrupts = pin_interrupts s' pin\<rparr>, c')"
        using True window n wr deliver_if_asserted_exact [OF wf' p(1)]
        by (simp add: controller_access_def pin_interrupts_option abs)
      moreover have "c_mode c' = c_mode c" by (simp add: c'_def)
      ultimately show ?thesis using that [of c'] wf' abs by simp
    next
      case False
      then show ?thesis using window n p wfc W(2)
        by (intro that [of c]) (simp_all add: controller_access_def spec_access_def read_register_def redirection_half_select)
    qed
  qed
qed

lemma route_pins_exact:
  "route_pins rs = (if list_all (\<lambda>r. unat r < PINS) rs then Ok (map ucast rs) else Err InvalidSlot)"
proof (induction rs)
  case (Cons r rs)
  have "route_pin r = (if unat r < PINS then Ok (ucast r) else Err InvalidSlot)"
    by (auto simp: route_pin_def PINS_24 unat_ucast_u8)
  with Cons show ?case by simp
qed simp

lemma controller_new_exact:
  "case spec_new config of
     None \<Rightarrow> controller_new config = Err InvalidSlot
   | Some s \<Rightarrow> \<exists>c. controller_new config = Ok c \<and> irq_wf c \<and> irq_abs c = s"
proof (cases "length (ic_routes config) \<le> MAX_DEVICES \<and> list_all (\<lambda>r. unat r < PINS) (ic_routes config)")
  case True
  then show ?thesis
    by (auto simp: spec_new_def controller_new_def route_pins_exact irq_wf_def irq_abs_def wired_or_iff
        list_all_iff PINS_24 unat_ucast_u8 fun_eq_iff)
next
  case False
  then show ?thesis by (auto simp: spec_new_def controller_new_def route_pins_exact)
qed


section \<open>Every run refines the specification\<close>

definition irq_wf_state :: "controller option \<Rightarrow> bool" where
  "irq_wf_state state = (case state of None \<Rightarrow> True | Some c \<Rightarrow> irq_wf c)"

definition simulates :: "('a \<times> controller option) option \<Rightarrow> 'a \<times> irq_spec option \<Rightarrow> bool" where
  "simulates r p \<longleftrightarrow> (\<exists>state'. r = Some (fst p, state') \<and> irq_wf_state state' \<and> map_option irq_abs state' = snd p)"

lemma simulates_map:
  "simulates r p \<Longrightarrow> simulates (map_option (map_prod f (\<lambda>s. s)) r) (map_prod f (\<lambda>s. s) p)"
  by (auto simp: simulates_def)

lemma with_controller_exact:
  assumes "irq_wf_state state"
    and "\<And>c. irq_wf c \<Longrightarrow> \<exists>c'. operate c = Some (fst (spec (irq_abs c)), c') \<and> irq_wf c' \<and> irq_abs c' = snd (spec (irq_abs c))"
  shows "simulates (with_controller mode operate state) (spec_with mode spec (map_option irq_abs state))"
proof (cases state)
  case None
  then show ?thesis by (simp add: simulates_def with_controller_def spec_with_def irq_wf_state_def)
next
  case (Some c)
  show ?thesis
  proof (cases "c_mode c = mode")
    case True
    obtain c' where "operate c = Some (fst (spec (irq_abs c)), c')" "irq_wf c'" "irq_abs c' = snd (spec (irq_abs c))"
      using assms Some by (auto simp: irq_wf_state_def)
    then show ?thesis using Some True unfolding simulates_def
      by (intro exI [of _ "Some c'"]) (simp add: with_controller_def spec_with_def irq_wf_state_def)
  next
    case False
    then show ?thesis using Some assms(1) unfolding simulates_def
      by (intro exI [of _ state]) (simp add: with_controller_def spec_with_def)
  qed
qed

lemma controller_line_invalid:
  "\<not> unat slot < length (c_routes c) \<Longrightarrow> controller_line c slot level = Some (Err InvalidSlot, c)"
  by (simp add: controller_line_def array_get_def)

lemma irq_line_exact:
  assumes "irq_wf c"
  shows "\<exists>c'. (do { (changed, c') \<leftarrow> controller_line c slot level;
       (case changed of Inl e \<Rightarrow> Some (Err e, c') | Inr None \<Rightarrow> Some (Ok None, c')
        | Inr (Some gsi) \<Rightarrow> do { l \<leftarrow> array_get (c_asserted c') (unat gsi);
            Some (Ok (Some \<lparr>il_gsi = ucast gsi, il_asserted = l\<rparr>), c') }) })
       = Some (fst (spec_irq_line slot level (irq_abs c)), c')
     \<and> irq_wf c' \<and> irq_abs c' = snd (spec_irq_line slot level (irq_abs c))"
proof (cases "unat slot < length (c_routes c)")
  case True
  let ?gsi = "c_routes c ! unat slot"
  obtain c' where c': "controller_line c slot level =
       Some (Ok (if wired_or (irq_abs c') ?gsi = wired_or (irq_abs c) ?gsi then None else Some ?gsi), c')"
    "irq_wf c'" "irq_abs c' = spec_set_line (irq_abs c) slot level"
    using controller_line_exact [OF assms True, of level] by blast
  have "c_asserted c' ! unat ?gsi = wired_or (irq_abs c') ?gsi" "unat ?gsi < length (c_asserted c')"
    using irq_wfD [OF c'(2)] irq_wfD(4) [OF assms True] by simp_all
  then show ?thesis using c' True
    by (intro exI [of _ c']) (simp add: spec_irq_line_def Let_def)
next
  case False
  then show ?thesis using assms by (simp add: controller_line_invalid spec_irq_line_def)
qed

lemma ioapic_line_exact:
  assumes "irq_wf c"
  shows "\<exists>c'. (do { (interrupt, c') \<leftarrow> controller_ioapic_line c slot level;
       Some (and_then interrupt (\<lambda>i. Ok (case i of None \<Rightarrow> [] | Some x \<Rightarrow> [x])), c') })
       = Some (fst (spec_ioapic_line slot level (irq_abs c)), c')
     \<and> irq_wf c' \<and> irq_abs c' = snd (spec_ioapic_line slot level (irq_abs c))"
proof (cases "unat slot < length (c_routes c)")
  case True
  let ?gsi = "c_routes c ! unat slot"
  obtain c' where c': "controller_line c slot level =
       Some (Ok (if wired_or (irq_abs c') ?gsi = wired_or (irq_abs c) ?gsi then None else Some ?gsi), c')"
    "irq_wf c'" "irq_abs c' = spec_set_line (irq_abs c) slot level"
    using controller_line_exact [OF assms True, of level] by blast
  have g: "unat ?gsi < PINS" using irq_wfD(4) [OF assms True] .
  have d: "deliver_if_asserted c' None = Some None" by (simp add: deliver_if_asserted_def)
  show ?thesis using c'(1,2) True d deliver_if_asserted_exact [OF c'(2) g]
    by (intro exI [of _ c']) (auto simp: controller_ioapic_line_def spec_ioapic_line_def Let_def c'(3) [symmetric]
        pin_interrupts_option)
next
  case False
  then show ?thesis using assms by (simp add: controller_ioapic_line_def controller_line_invalid spec_ioapic_line_def)
qed

lemma irq_call_exact:
  assumes "irq_wf_state state"
  shows "simulates (irq_call call state) (spec_call call (map_option irq_abs state))"
proof (cases call)
  case (Configure config)
  show ?thesis
  proof (cases state)
    case None
    then show ?thesis using Configure controller_new_exact [of config]
      by (cases "spec_new config") (auto simp: simulates_def irq_configure_def irq_wf_state_def)
  next
    case (Some c)
    then show ?thesis using Configure assms by (simp add: simulates_def irq_configure_def)
  qed
next
  case (Irq_line slot level)
  have "simulates (irq_line slot level state) (spec_with IrqLines (spec_irq_line slot level) (map_option irq_abs state))"
    unfolding irq_line_def using assms by (rule with_controller_exact) (rule irq_line_exact)
  then show ?thesis unfolding Irq_line irq_call.simps spec_call.simps by (rule simulates_map)
next
  case (Ioapic_line slot level)
  have "simulates (ioapic_line slot level state) (spec_with Ioapic (spec_ioapic_line slot level) (map_option irq_abs state))"
    unfolding ioapic_line_def using assms by (rule with_controller_exact) (rule ioapic_line_exact)
  then show ?thesis unfolding Ioapic_line irq_call.simps spec_call.simps by (rule simulates_map)
next
  case (Access offset width wr v)
  have "simulates (ioapic_access offset width wr v state)
      (spec_with Ioapic (\<lambda>s. map_prod Ok (\<lambda>s. s) (spec_access offset width wr v s)) (map_option irq_abs state))"
    unfolding ioapic_access_def using assms
    by (rule with_controller_exact) (erule controller_access_exact [of _ offset width wr v], auto)
  then show ?thesis unfolding Access irq_call.simps spec_call.simps by (rule simulates_map)
next
  case (Eoi vector)
  have "simulates (ioapic_eoi vector state) (spec_with Ioapic (\<lambda>s. (Ok (spec_eoi vector s), s)) (map_option irq_abs state))"
    unfolding ioapic_eoi_def using assms
    by (rule with_controller_exact) (simp add: controller_eoi_def eoi_pins_exact spec_eoi_def)
  then show ?thesis unfolding Eoi irq_call.simps spec_call.simps by (rule simulates_map)
qed

lemma irq_run_exact:
  assumes "irq_wf_state state"
  shows "\<exists>state'. irq_run calls state = Some (spec_run calls (map_option irq_abs state), state') \<and> irq_wf_state state'"
  using assms
proof (induction calls arbitrary: state)
  case (Cons call calls)
  obtain s1 where s1: "irq_call call state = Some (fst (spec_call call (map_option irq_abs state)), s1)" "irq_wf_state s1"
    "map_option irq_abs s1 = snd (spec_call call (map_option irq_abs state))"
    using irq_call_exact [OF Cons.prems] unfolding simulates_def by blast
  from Cons.IH [OF s1(2)] s1 show ?case
    by (auto simp: split_beta)
qed simp


section \<open>Properties\<close>

text \<open>C32: Every sequence of calls to the component is answered, with no panic, and leaves it unconfigured
  or with a well-formed controller. Such a controller has one level per route, at most the maximal
  number of devices, every route on one of the 24 pins, an entry and a level for every pin, and the level
  of a pin is high exactly when some line routed to it is.\<close>

theorem irq_component_well_typed:
  "\<exists>answers state. irq_run calls None = Some (answers, state)
     \<and> length answers = length calls
     \<and> (case state of None \<Rightarrow> True | Some c \<Rightarrow>
          length (c_levels c) = length (c_routes c) \<and> length (c_routes c) \<le> 37
          \<and> list_all (\<lambda>route. unat route < 24) (c_routes c)
          \<and> length (c_redirection c) = 24 \<and> length (c_asserted c) = 24
          \<and> list_all (\<lambda>pin. c_asserted c ! pin = list_ex (\<lambda>(route, level). unat route = pin \<and> level)
                (zip (c_routes c) (c_levels c))) [0..<24])"
proof -
  obtain state where run: "irq_run calls None = Some (spec_run calls None, state)" and good: "irq_wf_state state"
    using irq_run_exact [of None calls] by (auto simp: irq_wf_state_def)
  have len: "length (spec_run calls s) = length calls" for s
    by (induction calls arbitrary: s) (auto simp: split_beta)
  have lv: "c_asserted c ! pin = list_ex (\<lambda>(route, level). unat route = pin \<and> level) (zip (c_routes c) (c_levels c))"
    if w: "irq_wf c" and p: "pin < 24" for c pin
  proof -
    have "list_ex (\<lambda>(route, level). route = word_of_nat pin \<and> level) (zip (c_routes c) (c_levels c))
        = wired_or (irq_abs c) (word_of_nat pin)"
      using wired_or_zip [of "c_levels c" c "word_of_nat pin"] irq_wfD(1) [OF w] by simp
    moreover have "(route = word_of_nat pin) = (unat route = pin)" for route :: u8
      using p by (auto simp: unat_of_nat_eq)
    ultimately show ?thesis using irq_wfD(5) [OF w, of pin] p by (simp add: PINS_24)
  qed
  have pins: "list_all (\<lambda>pin. c_asserted c ! pin = list_ex (\<lambda>(route, level). unat route = pin \<and> level)
      (zip (c_routes c) (c_levels c))) [0..<24]" if "irq_wf c" for c
    unfolding list_all_iff set_upt using lv [OF that] by (intro ballI) (simp only: atLeastLessThan_iff)
  have rest: "length (c_levels c) = length (c_routes c) \<and> length (c_routes c) \<le> 37
      \<and> list_all (\<lambda>route. unat route < 24) (c_routes c) \<and> length (c_redirection c) = 24 \<and> length (c_asserted c) = 24"
    if "irq_wf c" for c
    using that unfolding irq_wf_def PINS_24 MAX_DEVICES_def X86_MAX_DEVICES_def ARM_MAX_DEVICES_def
    by (elim conjE) (intro conjI, assumption, simp, assumption+)
  show ?thesis
  proof (cases state)
    case None
    then show ?thesis using run len by simp
  next
    case (Some c)
    then have "irq_wf c" using good by (simp add: irq_wf_state_def)
    note facts = rest [OF this] pins [OF this]
    show ?thesis
      by (rule exI [of _ "spec_run calls None"], rule exI [of _ state])
        (simp only: run len Some option.case facts simp_thms)
  qed
qed

text \<open>C16: Every sequence of calls to the component is answered as the specification without cached levels
  answers it. A line change is reported exactly when the disjunction of the lines of its pin changes. An
  interrupt is delivered exactly when that disjunction rises on an unmasked pin, when the entry of a pin
  that is high is written and unmasked, and again, for level-triggered entries, at the end of interrupt
  while the pin is still high.\<close>

theorem irq_component_refines_wired_or:
  "\<exists>state. irq_run calls None = Some (spec_run calls None, state)"
  using irq_run_exact [of None calls] by (auto simp: irq_wf_state_def)

end
