(* ===== verification/Mem_Device.thy ===== *)
theory Mem_Device
  imports Split_Ring Doorbell
begin

unbundle bit_operations_syntax

text \<open>
  The memory device component (\<open>components/mem/src/transport.rs\<close>): a virtio balloon whose only active
  queue reports free guest pages, which the device asks the host to discard. The host's discard is a
  parameter on guest memory; the requests made of it are logged. Guest memory is arbitrary at every
  step, since the guest writes it at any time.
\<close>

section \<open>State\<close>

record queue_entry =
  qe_descriptor_table :: u64
  qe_available_ring :: u64
  qe_used_ring :: u64
  qe_size :: u16
  qe_head :: u16

definition REPORT :: nat where "REPORT = 2"
definition QUEUE_COUNT_U16 :: u16 where "QUEUE_COUNT_U16 = 3"
definition QUEUE_COUNT :: nat where "QUEUE_COUNT = unat QUEUE_COUNT_U16"
definition QUEUE_SIZE :: u16 where "QUEUE_SIZE = 256"
definition DESC_BYTES :: u64 where "DESC_BYTES = word_of_nat SPLIT_RING_DESCRIPTOR_BYTES"
definition MAX_CHAIN :: nat where "MAX_CHAIN = MAX_RECLAIM_REPORT_RANGES"
definition MAX_REPORT_BYTES :: u64 where "MAX_REPORT_BYTES = MAX_RECLAIM_REPORT_BYTES"
definition PAGE_SIZE :: u64 where "PAGE_SIZE = 4096"
definition VIRTIO_BALLOON_F_PAGE_POISON :: u64 where "VIRTIO_BALLOON_F_PAGE_POISON = push_bit 4 1"
definition VIRTIO_BALLOON_F_PAGE_REPORTING :: u64 where "VIRTIO_BALLOON_F_PAGE_REPORTING = push_bit 5 1"
definition BALLOON_FEATURES :: u64 where
  "BALLOON_FEATURES = VIRTIO_F_VERSION_1 OR VIRTIO_BALLOON_F_PAGE_POISON OR VIRTIO_BALLOON_F_PAGE_REPORTING"
definition BALLOON_CONFIG_BASE :: u64 where "BALLOON_CONFIG_BASE = 0x100"
definition BALLOON_CONFIG_BYTES :: nat where "BALLOON_CONFIG_BYTES = 16"
definition CONFIG_ACTUAL :: "nat \<times> nat" where "CONFIG_ACTUAL = (4, 8)"
definition CONFIG_POISON :: "nat \<times> nat" where "CONFIG_POISON = (12, 16)"

record mem_state =
  ms_mmio :: mmio_transport
  ms_next :: "u16 list"

text \<open>The component's statics, guest memory, the level of its interrupt line, and the discards requested.\<close>

record 'b mem_dev =
  md_state :: "mem_state option"
  md_queues :: doorbell
  md_memory :: "'b guest_memory"
  md_irq :: bool
  md_discards :: "memory_range list list"


section \<open>Reports\<close>

definition with_state ::
  "(mem_state \<Rightarrow> 'b mem_dev \<Rightarrow> (device_error + 'a) \<times> mem_state \<times> 'b mem_dev) \<Rightarrow> 'b mem_dev \<Rightarrow> (device_error + 'a) \<times> 'b mem_dev" where
  "with_state f w =
     (case md_state w of
        None \<Rightarrow> (Err Dev_NotReady, w)
      | Some st \<Rightarrow>
          (case f st w of
             (result, st', w') \<Rightarrow>
               (case take_irq (ms_mmio st') of
                  (None, t) \<Rightarrow> (result, w'\<lparr>md_state := Some (st'\<lparr>ms_mmio := t\<rparr>)\<rparr>)
                | (Some asserted, t) \<Rightarrow>
                    (result, w'\<lparr>md_state := Some (st'\<lparr>ms_mmio := t\<rparr>), md_irq := asserted\<rparr>))))"

definition mem_read :: "'b backing_ops \<Rightarrow> 'b guest_memory \<Rightarrow> u64 \<Rightarrow> u64 \<Rightarrow> device_error + bytes" where
  "mem_read ops m addr len = map_err (\<lambda>_. Dev_Unmapped) (host_read ops m addr len)"

definition mem_write ::
  "'b backing_ops \<Rightarrow> u64 \<Rightarrow> bytes \<Rightarrow> 'b guest_memory \<Rightarrow> (device_error + unit) \<times> 'b guest_memory" where
  "mem_write ops addr bs m = map_write_err (\<lambda>_. Dev_Unmapped) (host_write ops addr bs m)"

definition mem_chain :: "bytes \<Rightarrow> u16 \<Rightarrow> u16 \<Rightarrow> device_error + split_ring_descriptor list" where
  "mem_chain table index sz =
     map_err ring_device_error
       (split_ring_chain table index sz MAX_CHAIN (SPLIT_RING_DESC_F_NEXT OR SPLIT_RING_DESC_F_WRITE))"

text \<open>The position is written back even when the head cannot be read.\<close>

definition mem_available ::
  "'b backing_ops \<Rightarrow> 'b guest_memory \<Rightarrow> nat \<Rightarrow> mem_state \<Rightarrow> (device_error + queue_entry option) \<times> mem_state" where
  "mem_available ops m queue st =
     (if negotiated (ms_mmio st) AND VIRTIO_F_VERSION_1 = 0 then (Err Dev_NotReady, st)
      else case queue_addrs_for (ms_mmio st) queue of
        None \<Rightarrow> (Err Dev_NotReady, st)
      | Some (descriptor_table, available_ring, used_ring, sz) \<Rightarrow>
          (case read_split_ring_available mmio_device_error (mem_read ops m) available_ring sz (ms_next st ! queue) of
             (r, nxt) \<Rightarrow>
               (and_then r (\<lambda>(_, head). Ok (map_option (\<lambda>head.
                   \<lparr>qe_descriptor_table = descriptor_table, qe_available_ring = available_ring,
                    qe_used_ring = used_ring, qe_size = sz, qe_head = head\<rparr>) head)),
                st\<lparr>ms_next := (ms_next st)[queue := nxt]\<rparr>)))"

definition mem_complete ::
  "'b backing_ops \<Rightarrow> nat \<Rightarrow> queue_entry \<Rightarrow> mem_state \<Rightarrow> 'b mem_dev \<Rightarrow> (device_error + unit) \<times> mem_state \<times> 'b mem_dev" where
  "mem_complete ops queue entry st w =
     (case complete_split_ring_entry mmio_device_error (mem_read ops) (mem_write ops)
         (qe_used_ring entry) (qe_size entry) (qe_head entry) 0 (md_memory w) of
        (Inl e, m) \<Rightarrow> (Err e, st, w\<lparr>md_memory := m\<rparr>)
      | (Inr _, m) \<Rightarrow>
          (Ok (), st\<lparr>ms_next := (ms_next st)[queue := ms_next st ! queue + 1],
                     ms_mmio := signal INT_USED_BUFFER (ms_mmio st)\<rparr>, w\<lparr>md_memory := m\<rparr>))"

definition overlaps :: "memory_range \<Rightarrow> memory_range \<Rightarrow> bool" where
  "overlaps left right =
     (case checked_add (mr_addr left) (mr_len left) of
        None \<Rightarrow> True
      | Some left_end \<Rightarrow>
          (case checked_add (mr_addr right) (mr_len right) of
             None \<Rightarrow> True
           | Some right_end \<Rightarrow> mr_addr left < right_end \<and> mr_addr right < left_end))"

fun report_loop ::
  "memory_range \<Rightarrow> memory_range \<Rightarrow> memory_range \<Rightarrow> split_ring_descriptor list \<Rightarrow> u64 \<Rightarrow> memory_range list
   \<Rightarrow> device_error + memory_range list" where
  "report_loop table avail used [] bs ranges = Ok ranges"
| "report_loop table avail used (descriptor # descriptors) bs ranges =
     (if d_flags descriptor AND SPLIT_RING_DESC_F_WRITE = 0 \<or> d_len descriptor = 0 then Err Dev_BadLen
      else let range = \<lparr>mr_addr = d_addr descriptor, mr_len = ucast (d_len descriptor)\<rparr> in
        if \<not> is_multiple_of (mr_addr range) PAGE_SIZE \<or> \<not> is_multiple_of (mr_len range) PAGE_SIZE
          \<or> checked_add (mr_addr range) (mr_len range) = None
          \<or> overlaps range table \<or> overlaps range avail \<or> overlaps range used
        then Err Dev_BadLen
        else and_then (ok_or Dev_TooLarge (checked_add bs (mr_len range))) (\<lambda>bs'.
          if MAX_REPORT_BYTES < bs' then Err Dev_TooLarge
          else report_loop table avail used descriptors bs' (ranges @ [range])))"

definition report_ranges ::
  "split_ring_descriptor list \<Rightarrow> memory_range \<Rightarrow> memory_range \<Rightarrow> memory_range \<Rightarrow> device_error + memory_range list" where
  "report_ranges descriptors table avail used =
     (if descriptors = [] \<or> length descriptors > MAX_CHAIN then Err Dev_BadLen
      else report_loop table avail used descriptors 0 [])"

text \<open>The configuration space has 16 bytes, so a writable field is inside it.\<close>

definition config_write :: "bytes \<Rightarrow> u64 \<Rightarrow> bytes \<Rightarrow> device_error + bytes" where
  "config_write config offset data =
     (if usize_max_wasm32 < unat offset then Err Dev_BadLen
      else let start = unat offset; stop = start + length data in
        if usize_max_wasm32 < stop then Err Dev_BadLen
        else if \<not> list_ex (\<lambda>(first, limit). first \<le> start \<and> stop \<le> limit) [CONFIG_ACTUAL, CONFIG_POISON]
          \<or> length data \<notin> {1, 2, 4} then Err Dev_BadLen
        else Ok (splice config start data))"

definition poison_is_zero :: "bytes \<Rightarrow> bool" where
  "poison_is_zero config =
     (case slice config (fst CONFIG_POISON) (snd CONFIG_POISON) of
        None \<Rightarrow> False | Some poison \<Rightarrow> list_all (\<lambda>b. b = 0) poison)"

definition discard_report ::
  "'b backing_ops \<Rightarrow> (memory_range list \<Rightarrow> 'b guest_memory \<Rightarrow> 'b guest_memory) \<Rightarrow> mem_state \<Rightarrow> queue_entry \<Rightarrow> 'b mem_dev
   \<Rightarrow> (device_error + unit) \<times> 'b mem_dev" where
  "discard_report ops host_discard st entry w =
     (let table_bytes = ucast (qe_size entry) * DESC_BYTES in
      case and_then (mem_read ops (md_memory w) (qe_descriptor_table entry) table_bytes) (\<lambda>table.
        and_then (mem_chain table (qe_head entry) (qe_size entry)) (\<lambda>descriptors.
        report_ranges descriptors
          \<lparr>mr_addr = qe_descriptor_table entry, mr_len = table_bytes\<rparr>
          \<lparr>mr_addr = qe_available_ring entry, mr_len = 4 + ucast (qe_size entry) * 2\<rparr>
          \<lparr>mr_addr = qe_used_ring entry, mr_len = 4 + ucast (qe_size entry) * 8\<rparr>)) of
        Inl e \<Rightarrow> (Err e, w)
      | Inr ranges \<Rightarrow>
          (Ok (), if poison_is_zero (t_config (ms_mmio st))
                  then w\<lparr>md_memory := host_discard ranges (md_memory w), md_discards := md_discards w @ [ranges]\<rparr>
                  else w))"


section \<open>The device\<close>

definition mem_configure :: "'b mem_dev \<Rightarrow> (device_error + unit) \<times> 'b mem_dev" where
  "mem_configure w =
     (Ok (), w\<lparr>md_queues := db_reset (md_queues w), md_irq := False,
               md_state := Some \<lparr>ms_mmio = with_queue_count QUEUE_COUNT_U16
                   (transport_new (gm_limit (md_memory w)) 5 BALLOON_FEATURES QUEUE_SIZE (replicate BALLOON_CONFIG_BYTES 0)),
                 ms_next = replicate QUEUE_COUNT 0\<rparr>\<rparr>)"

definition mem_mmio_read :: "u64 \<Rightarrow> u8 \<Rightarrow> 'b mem_dev \<Rightarrow> (device_error + u64) \<times> 'b mem_dev" where
  "mem_mmio_read addr width =
     with_state (\<lambda>st w. (map_err mmio_device_error (mmio_read (ms_mmio st) addr width), st, w))"

definition mem_mmio_write :: "u64 \<Rightarrow> u8 \<Rightarrow> u64 \<Rightarrow> 'b mem_dev \<Rightarrow> (device_error + unit) \<times> 'b mem_dev" where
  "mem_mmio_write addr width v =
     with_state (\<lambda>st w.
       (case checked_sub addr BALLOON_CONFIG_BASE of
          Some offset \<Rightarrow>
            if 8 < unat width then (Err Dev_BadLen, st, w)
            else (case config_write (t_config (ms_mmio st)) offset (take (unat width) (to_le_u64 v)) of
                Inl e \<Rightarrow> (Err e, st, w)
              | Inr config \<Rightarrow> (Ok (), st\<lparr>ms_mmio := (ms_mmio st)\<lparr>t_config := config\<rparr>\<rparr>, w))
        | None \<Rightarrow>
            (case mmio_write (ms_mmio st) addr width v of
               (Inl e, t) \<Rightarrow> (Err (mmio_device_error e), st\<lparr>ms_mmio := t\<rparr>, w)
             | (Inr outcome, t) \<Rightarrow>
                 (Ok (), case outcome of
                    Outcome_None \<Rightarrow> (st\<lparr>ms_mmio := t\<rparr>, w)
                  | Reset \<Rightarrow> (\<lparr>ms_mmio = t, ms_next = replicate QUEUE_COUNT 0\<rparr>, w)
                  | QueueNotify queue \<Rightarrow>
                      (st\<lparr>ms_mmio := t\<rparr>, w\<lparr>md_queues := ring (push_bit (unat queue) 1) (md_queues w)\<rparr>)))))"

text \<open>The closure of the inner loop of \<open>run\<close>, and one iteration of that loop: whether an entry was processed.\<close>

definition process_entry ::
  "'b backing_ops \<Rightarrow> (memory_range list \<Rightarrow> 'b guest_memory \<Rightarrow> 'b guest_memory) \<Rightarrow> nat \<Rightarrow> mem_state \<Rightarrow> 'b mem_dev
   \<Rightarrow> (device_error + bool) \<times> mem_state \<times> 'b mem_dev" where
  "process_entry ops host_discard queue st w =
     (case mem_available ops (md_memory w) queue st of
        (Inl e, st') \<Rightarrow> (Err e, st', w)
      | (Inr None, st') \<Rightarrow> (Ok False, st', w)
      | (Inr (Some entry), st') \<Rightarrow>
          (case mem_complete ops queue entry st'
              (if queue = REPORT then snd (discard_report ops host_discard st' entry w) else w) of
             (Inl e, st'', w') \<Rightarrow> (Err e, st'', w')
           | (Inr _, st'', w') \<Rightarrow> (Ok True, st'', w')))"

definition mem_process ::
  "'b backing_ops \<Rightarrow> (memory_range list \<Rightarrow> 'b guest_memory \<Rightarrow> 'b guest_memory) \<Rightarrow> nat \<Rightarrow> 'b mem_dev \<Rightarrow> bool \<times> 'b mem_dev" where
  "mem_process ops host_discard queue w =
     (case with_state (process_entry ops host_discard queue) w of (r, w') \<Rightarrow> (r = Ok True, w'))"

definition mem_reset :: "'b mem_dev \<Rightarrow> 'b mem_dev" where
  "mem_reset w = (if db_closed (md_queues w) then w else snd (mem_configure w))"

definition mem_close :: "'b mem_dev \<Rightarrow> (device_error + unit) \<times> 'b mem_dev" where
  "mem_close w = (Ok (), w\<lparr>md_queues := snd (db_close (md_queues w)), md_state := None, md_irq := False\<rparr>)"

text \<open>
  Where the task of \<open>run\<close> is between its awaits: at the test of the outer loop, waiting for the
  doorbell, at a queue of the inner loops with the bits taken, or returned.
\<close>

datatype mem_worker = At_top | Waiting | Serving u32 nat | Returned

fun mem_run_step ::
  "'b backing_ops \<Rightarrow> (memory_range list \<Rightarrow> 'b guest_memory \<Rightarrow> 'b guest_memory) \<Rightarrow> mem_worker \<times> 'b mem_dev \<Rightarrow> mem_worker \<times> 'b mem_dev" where
  "mem_run_step ops host_discard (At_top, w) = (if db_closed (md_queues w) then Returned else Waiting, w)"
| "mem_run_step ops host_discard (Waiting, w) =
     (case poll_wait (md_queues w) of
        (None, d) \<Rightarrow> (Waiting, w\<lparr>md_queues := d\<rparr>)
      | (Some queues, d) \<Rightarrow> (Serving queues 0, w\<lparr>md_queues := d\<rparr>))"
| "mem_run_step ops host_discard (Serving queues queue, w) =
     (if queue \<ge> QUEUE_COUNT then (At_top, w)
      else if queues AND push_bit queue 1 = 0 then (Serving queues (queue + 1), w)
      else case mem_process ops host_discard queue w of
        (processed, w') \<Rightarrow> (Serving queues (if processed then queue else queue + 1), w'))"
| "mem_run_step ops host_discard (Returned, w) = (Returned, w)"

text \<open>The exports of the component and the steps of its task, in any order.\<close>

datatype mem_call = Mem_configure | Mem_mmio_read u64 u8 | Mem_mmio_write u64 u8 u64 | Mem_reset | Mem_close | Mem_run

fun mem_exec ::
  "'b backing_ops \<Rightarrow> (memory_range list \<Rightarrow> 'b guest_memory \<Rightarrow> 'b guest_memory) \<Rightarrow> mem_call \<Rightarrow> mem_worker \<times> 'b mem_dev
   \<Rightarrow> mem_worker \<times> 'b mem_dev" where
  "mem_exec ops host_discard Mem_configure (p, w) = (p, snd (mem_configure w))"
| "mem_exec ops host_discard (Mem_mmio_read addr width) (p, w) = (p, snd (mem_mmio_read addr width w))"
| "mem_exec ops host_discard (Mem_mmio_write addr width v) (p, w) = (p, snd (mem_mmio_write addr width v w))"
| "mem_exec ops host_discard Mem_reset (p, w) = (p, mem_reset w)"
| "mem_exec ops host_discard Mem_close (p, w) = (p, snd (mem_close w))"
| "mem_exec ops host_discard Mem_run (p, w) = mem_run_step ops host_discard (p, w)"


section \<open>Invariant\<close>

text \<open>
  The register file is well-formed and every indexed array has its length, so that no index of the
  source is out of range.
\<close>

definition mem_state_ok :: "mem_state \<Rightarrow> bool" where
  "mem_state_ok st \<longleftrightarrow> transport_inv (ms_mmio st) \<and> length (t_queues (ms_mmio st)) = 3
     \<and> length (t_config (ms_mmio st)) = 16 \<and> length (ms_next st) = 3"

definition mem_ok :: "'b mem_dev \<Rightarrow> bool" where
  "mem_ok w = (case md_state w of None \<Rightarrow> True | Some st \<Rightarrow> mem_state_ok st)"

lemma mem_state_ok_same:
  assumes "mem_state_ok st" and "transport_inv t \<and> same_device (ms_mmio st) t"
  shows "mem_state_ok (st\<lparr>ms_mmio := t\<rparr>)" "mem_state_ok \<lparr>ms_mmio = t, ms_next = replicate QUEUE_COUNT 0\<rparr>"
  using assms by (simp_all add: mem_state_ok_def same_device_def QUEUE_COUNT_def QUEUE_COUNT_U16_def)

lemma with_state_ok:
  assumes "mem_ok w" and "\<And>st. mem_state_ok st \<Longrightarrow> mem_state_ok (fst (snd (f st w)))"
  shows "mem_ok (snd (with_state f w))"
proof (cases "md_state w")
  case None
  then show ?thesis using assms(1) by (simp add: with_state_def)
next
  case (Some st)
  obtain r st' w' where f: "f st w = (r, st', w')" by (metis prod_cases3)
  have "mem_state_ok st'" using assms(2) [of st] assms(1) Some f by (simp add: mem_ok_def)
  moreover from this have "transport_inv (snd (take_irq (ms_mmio st'))) \<and> same_device (ms_mmio st') (snd (take_irq (ms_mmio st')))"
    by (intro take_irq_inv) (simp add: mem_state_ok_def)
  ultimately have "mem_state_ok (st'\<lparr>ms_mmio := snd (take_irq (ms_mmio st'))\<rparr>)"
    by (rule mem_state_ok_same)
  then show ?thesis using Some f by (auto simp: with_state_def mem_ok_def split: prod.split option.split)
qed

lemma mem_available_ok: "mem_state_ok st \<Longrightarrow> mem_state_ok (snd (mem_available ops m queue st))"
  by (auto simp: mem_available_def mem_state_ok_def split: option.split prod.split)

lemma mem_complete_ok: "mem_state_ok st \<Longrightarrow> mem_state_ok (fst (snd (mem_complete ops queue e st w)))"
  using signal_inv [of "ms_mmio st" INT_USED_BUFFER]
  by (auto simp: mem_complete_def mem_state_ok_def same_device_def INT_USED_BUFFER_def split: prod.split sum.split)

lemma process_entry_ok:
  assumes "mem_state_ok st"
  shows "mem_state_ok (fst (snd (process_entry ops host_discard queue st w)))"
proof -
  obtain r st' where av: "mem_available ops (md_memory w) queue st = (r, st')" by fastforce
  have st': "mem_state_ok st'" using mem_available_ok [OF assms, of ops "md_memory w" queue] av by simp
  from mem_complete_ok [OF this] have "mem_state_ok st''" if "mem_complete ops queue e st' v = (q, st'', w')" for e v q st'' w'
    using that by (metis fst_conv snd_conv)
  with st' av show ?thesis
    unfolding process_entry_def by (auto split: sum.split option.split prod.split)
qed

lemma config_write_length:
  "config_write config offset data = Ok config' \<Longrightarrow> length config = 16 \<Longrightarrow> length config' = 16"
  by (auto simp: config_write_def Let_def CONFIG_ACTUAL_def CONFIG_POISON_def split: if_splits)

lemma config_write_ok:
  assumes "mem_state_ok st" and "config_write (t_config (ms_mmio st)) offset data = Ok config"
  shows "mem_state_ok (st\<lparr>ms_mmio := (ms_mmio st)\<lparr>t_config := config\<rparr>\<rparr>)"
  using assms config_write_length [OF assms(2)] config_inv [of "ms_mmio st" config]
  by (intro mem_state_ok_same) (simp_all add: mem_state_ok_def)

lemma mmio_write_ok:
  assumes "mem_state_ok st" and "mmio_write (ms_mmio st) addr width v = (r, t)"
  shows "mem_state_ok (st\<lparr>ms_mmio := t\<rparr>)" "mem_state_ok \<lparr>ms_mmio = t, ms_next = replicate QUEUE_COUNT 0\<rparr>"
proof -
  have "transport_inv t \<and> same_device (ms_mmio st) t"
    using mmio_write_inv [of "ms_mmio st" addr width v] assms by (simp add: mem_state_ok_def)
  then show "mem_state_ok (st\<lparr>ms_mmio := t\<rparr>)" "mem_state_ok \<lparr>ms_mmio = t, ms_next = replicate QUEUE_COUNT 0\<rparr>"
    by (rule mem_state_ok_same [OF assms(1)])+
qed

lemma mem_exec_ok:
  assumes "mem_ok w"
  shows "mem_ok (snd (mem_exec ops host_discard call (p, w)))"
proof -
  have conf: "mem_ok (snd (mem_configure w))"
    by (simp add: mem_ok_def mem_state_ok_def mem_configure_def with_queue_count_def transport_new_def transport_inv_def
        QUEUE_COUNT_def QUEUE_COUNT_U16_def BALLOON_CONFIG_BYTES_def legal_status_def list_all_iff)
  have proc: "mem_ok (snd (mem_process ops host_discard queue w))" for queue
  proof -
    have "mem_ok (snd (with_state (process_entry ops host_discard queue) w))"
      using assms by (rule with_state_ok) (rule process_entry_ok)
    then show ?thesis by (simp add: mem_process_def split_beta)
  qed
  have wr: "mem_ok (snd (mem_mmio_write addr width v w))" for addr width v
    unfolding mem_mmio_write_def using assms
    by (rule with_state_ok)
      (auto simp: mmio_write_ok config_write_ok split: option.split sum.split prod.split write_outcome.split)
  have rd: "mem_ok (snd (mem_mmio_read addr width w))" for addr width
    unfolding mem_mmio_read_def using assms by (rule with_state_ok) simp
  show ?thesis
  proof (cases call)
    case Mem_run
    then show ?thesis using assms proc
      by (cases p) (auto simp: mem_ok_def split_beta split: option.split prod.split)
  qed (use assms conf wr rd in \<open>auto simp: mem_reset_def mem_close_def mem_ok_def\<close>)
qed

section \<open>What may be discarded\<close>

definition apart :: "u64 \<Rightarrow> nat \<Rightarrow> u64 \<Rightarrow> nat \<Rightarrow> bool" where
  "apart a n b k \<longleftrightarrow> unat b + k < 2 ^ 64 \<and> (unat a + n \<le> unat b \<or> unat b + k \<le> unat a)"

text \<open>A descriptor that names whole writable pages, none of them holding a byte of the queue's rings.\<close>

definition reportable_pages :: "queue_entry \<Rightarrow> split_ring_descriptor \<Rightarrow> bool" where
  "reportable_pages e d \<longleftrightarrow>
     d_flags d AND SPLIT_RING_DESC_F_WRITE \<noteq> 0 \<and> 0 < unat (d_len d)
     \<and> 4096 dvd unat (d_addr d) \<and> 4096 dvd unat (d_len d) \<and> unat (d_addr d) + unat (d_len d) < 2 ^ 64
     \<and> apart (d_addr d) (unat (d_len d)) (qe_descriptor_table e) (16 * unat (qe_size e))
     \<and> apart (d_addr d) (unat (d_len d)) (qe_available_ring e) (4 + 2 * unat (qe_size e))
     \<and> apart (d_addr d) (unat (d_len d)) (qe_used_ring e) (4 + 8 * unat (qe_size e))"

definition reportable :: "queue_entry \<Rightarrow> split_ring_descriptor list \<Rightarrow> bool" where
  "reportable e ds \<longleftrightarrow> 0 < length ds \<and> length ds \<le> 32 \<and> list_all (reportable_pages e) ds
     \<and> sum_list (map (\<lambda>d. unat (d_len d)) ds) \<le> 128 * 1024 * 1024"

definition descriptor_range :: "split_ring_descriptor \<Rightarrow> memory_range" where
  "descriptor_range d = \<lparr>mr_addr = d_addr d, mr_len = ucast (d_len d)\<rparr>"

definition zero_poison :: "bytes \<Rightarrow> bool" where
  "zero_poison config \<longleftrightarrow> 16 \<le> length config \<and> list_all (\<lambda>i. config ! i = 0) [12, 13, 14, 15]"

text \<open>The discards a report at the head of the queue gives rise to.\<close>

definition reported :: "'b backing_ops \<Rightarrow> 'b guest_memory \<Rightarrow> bytes \<Rightarrow> queue_entry \<Rightarrow> memory_range list list" where
  "reported ops m config e =
     (case host_read ops m (qe_descriptor_table e) (ucast (qe_size e) * 16) of
        Inl _ \<Rightarrow> []
      | Inr table \<Rightarrow>
          (case split_ring_chain table (qe_head e) (qe_size e) 32 (SPLIT_RING_DESC_F_NEXT OR SPLIT_RING_DESC_F_WRITE) of
             Inl _ \<Rightarrow> []
           | Inr ds \<Rightarrow> if reportable e ds \<and> zero_poison config then [map descriptor_range ds] else []))"

definition requested_discards ::
  "'b backing_ops \<Rightarrow> mem_call \<Rightarrow> mem_worker \<Rightarrow> 'b mem_dev \<Rightarrow> memory_range list list" where
  "requested_discards ops call p w =
     (case (call, p, md_state w) of
        (Mem_run, Serving queues queue, Some st) \<Rightarrow>
          if queue = 2 \<and> queues AND 4 \<noteq> 0
          then (case fst (mem_available ops (md_memory w) 2 st) of
                  Inr (Some e) \<Rightarrow> reported ops (md_memory w) (t_config (ms_mmio st)) e
                | _ \<Rightarrow> [])
          else []
      | _ \<Rightarrow> [])"

lemma overlaps_iff:
  "overlaps r q \<longleftrightarrow> 2 ^ 64 \<le> unat (mr_addr r) + unat (mr_len r)
     \<or> \<not> apart (mr_addr r) (unat (mr_len r)) (mr_addr q) (unat (mr_len q))"
  by (auto simp: overlaps_def apart_def checked_add_def word_less_nat_alt unat_add_no_wrap)

lemma unat_size_times:
  fixes sz :: u16
  shows "unat (ucast sz * DESC_BYTES) = 16 * unat sz" "unat (4 + ucast sz * 2 :: u64) = 4 + 2 * unat sz"
    "unat (4 + ucast sz * 8 :: u64) = 4 + 8 * unat sz"
proof -
  have b: "unat sz < 65536" using unat_lt_pow [of sz] by simp
  show "unat (ucast sz * DESC_BYTES) = 16 * unat sz"
    using b by (subst unat_mult_no_wrap) (simp_all add: DESC_BYTES_def SPLIT_RING_DESCRIPTOR_BYTES_def)
  have "unat (ucast sz * 2 :: u64) = 2 * unat sz" "unat (ucast sz * 8 :: u64) = 8 * unat sz"
    using b by (subst unat_mult_no_wrap, simp, simp)+
  then show "unat (4 + ucast sz * 2 :: u64) = 4 + 2 * unat sz" "unat (4 + ucast sz * 8 :: u64) = 4 + 8 * unat sz"
    using b by (subst unat_add_no_wrap, simp, simp)+
qed

abbreviation ring_ranges :: "queue_entry \<Rightarrow> split_ring_descriptor list \<Rightarrow> u64 \<Rightarrow> memory_range list \<Rightarrow> device_error + memory_range list" where
  "ring_ranges e \<equiv> report_loop \<lparr>mr_addr = qe_descriptor_table e, mr_len = ucast (qe_size e) * DESC_BYTES\<rparr>
     \<lparr>mr_addr = qe_available_ring e, mr_len = 4 + ucast (qe_size e) * 2\<rparr>
     \<lparr>mr_addr = qe_used_ring e, mr_len = 4 + ucast (qe_size e) * 8\<rparr>"

lemma ring_ranges_Cons:
  "ring_ranges e (d # ds) bs ranges =
     (if reportable_pages e d then
        and_then (ok_or Dev_TooLarge (checked_add bs (ucast (d_len d)))) (\<lambda>bs'.
          if MAX_REPORT_BYTES < bs' then Err Dev_TooLarge else ring_ranges e ds bs' (ranges @ [descriptor_range d]))
      else Err Dev_BadLen)"
proof -
  have p: "is_multiple_of a PAGE_SIZE \<longleftrightarrow> 4096 dvd unat a" for a
    by (subst is_multiple_of_unat) (simp_all add: PAGE_SIZE_def)
  have l: "unat (ucast (d_len d) :: u64) = unat (d_len d)" by simp
  have z: "d_len d \<noteq> 0 \<longleftrightarrow> 0 < unat (d_len d)" by (simp add: unat_gt_0)
  show ?thesis
    unfolding descriptor_range_def
    by (auto simp: Let_def reportable_pages_def p z overlaps_iff unat_size_times checked_add_None not_le)
qed

lemma ring_ranges_exact:
  assumes "unat bs \<le> 134217728"
  shows "ring_ranges e ds bs ranges = Ok out \<longleftrightarrow>
    list_all (reportable_pages e) ds \<and> unat bs + sum_list (map (\<lambda>d. unat (d_len d)) ds) \<le> 134217728
    \<and> out = ranges @ map descriptor_range ds"
  using assms
proof (induction ds arbitrary: bs ranges)
  case Nil
  then show ?case by auto
next
  case (Cons d ds)
  have len: "unat (ucast (d_len d) :: u64) = unat (d_len d)" "unat (d_len d) < 4294967296"
    using unat_lt_pow [of "d_len d"] by simp_all
  then have add: "checked_add bs (ucast (d_len d)) = Some (bs + ucast (d_len d))"
    "unat (bs + ucast (d_len d)) = unat bs + unat (d_len d)"
    using Cons.prems by (simp_all add: checked_add_def unat_add_no_wrap)
  have "MAX_REPORT_BYTES < bs + ucast (d_len d) \<longleftrightarrow> \<not> unat (bs + ucast (d_len d)) \<le> 134217728"
    by (simp add: MAX_REPORT_BYTES_def MAX_RECLAIM_REPORT_BYTES_def word_less_nat_alt not_le)
  then show ?case
    unfolding ring_ranges_Cons using Cons.IH [of "bs + ucast (d_len d)" "ranges @ [descriptor_range d]"]
    by (auto simp: add)
qed

lemma zero_poison_iff: "poison_is_zero config = zero_poison config"
proof (cases "16 \<le> length config")
  case True
  have "take 4 (drop 12 config) = map (\<lambda>i. config ! i) [12, 13, 14, 15]"
    using True by (intro nth_equalityI) (auto simp: less_Suc_eq nth_Cons' numeral_eq_Suc)
  with True show ?thesis by (simp add: poison_is_zero_def zero_poison_def CONFIG_POISON_def slice_def)
next
  case False
  then show ?thesis by (simp add: poison_is_zero_def zero_poison_def CONFIG_POISON_def slice_def)
qed

lemma discard_report_exact:
  "md_discards (snd (discard_report ops host_discard st e w)) =
     md_discards w @ reported ops (md_memory w) (t_config (ms_mmio st)) e"
proof (cases "host_read ops (md_memory w) (qe_descriptor_table e) (ucast (qe_size e) * 16)")
  case (Inl err)
  then show ?thesis
    by (simp add: discard_report_def reported_def mem_read_def DESC_BYTES_def SPLIT_RING_DESCRIPTOR_BYTES_def)
next
  case (Inr table)
  note rd = this
  let ?c = "split_ring_chain table (qe_head e) (qe_size e) 32 (SPLIT_RING_DESC_F_NEXT OR SPLIT_RING_DESC_F_WRITE)"
  have size16: "ucast (qe_size e) * DESC_BYTES = ucast (qe_size e) * 16"
    by (simp add: DESC_BYTES_def SPLIT_RING_DESCRIPTOR_BYTES_def)
  show ?thesis
  proof (cases ?c)
    case (Inl err)
    then show ?thesis using rd
      by (simp add: discard_report_def reported_def mem_read_def mem_chain_def size16 MAX_CHAIN_def MAX_RECLAIM_REPORT_RANGES_def)
  next
    case (Inr ds)
    let ?r = "report_ranges ds \<lparr>mr_addr = qe_descriptor_table e, mr_len = ucast (qe_size e) * DESC_BYTES\<rparr>
        \<lparr>mr_addr = qe_available_ring e, mr_len = 4 + ucast (qe_size e) * 2\<rparr>
        \<lparr>mr_addr = qe_used_ring e, mr_len = 4 + ucast (qe_size e) * 8\<rparr>"
    have ex: "?r = Ok out \<longleftrightarrow> reportable e ds \<and> out = map descriptor_range ds" for out
      using ring_ranges_exact [of 0 e ds "[]" out]
      by (auto simp: report_ranges_def reportable_def MAX_CHAIN_def MAX_RECLAIM_REPORT_RANGES_def)
    have "snd (discard_report ops host_discard st e w) = (case ?r of Inl _ \<Rightarrow> w | Inr ranges \<Rightarrow>
        if zero_poison (t_config (ms_mmio st))
        then w\<lparr>md_memory := host_discard ranges (md_memory w), md_discards := md_discards w @ [ranges]\<rparr> else w)"
      using rd Inr by (simp add: discard_report_def mem_read_def mem_chain_def size16 MAX_CHAIN_def
          MAX_RECLAIM_REPORT_RANGES_def zero_poison_iff Let_def split: sum.split)
    then show ?thesis using rd Inr ex
      by (cases ?r) (auto simp: reported_def)
  qed
qed


lemma mem_complete_discards: "mem_complete ops queue e st w = (r, st', w') \<Longrightarrow> md_discards w' = md_discards w"
  by (auto simp: mem_complete_def split: prod.splits sum.splits)

lemma with_state_discards:
  "md_discards (snd (with_state f w)) = (case md_state w of None \<Rightarrow> md_discards w | Some st \<Rightarrow> md_discards (snd (snd (f st w))))"
  by (auto simp: with_state_def split: option.split prod.split)

lemma mem_available_config: "mem_available ops m queue st = (r, st') \<Longrightarrow> t_config (ms_mmio st') = t_config (ms_mmio st)"
  by (auto simp: mem_available_def split: if_splits option.splits prod.splits)

lemma process_entry_discards:
  "md_discards (snd (snd (process_entry ops host_discard queue st w))) = md_discards w @
     (if queue = 2 then
        (case fst (mem_available ops (md_memory w) 2 st) of
           Inr (Some e) \<Rightarrow> reported ops (md_memory w) (t_config (ms_mmio st)) e | _ \<Rightarrow> [])
      else [])"
proof -
  obtain r st' where av: "mem_available ops (md_memory w) queue st = (r, st')" by fastforce
  note cfg = mem_available_config [OF av]
  show ?thesis
  proof (cases "\<exists>e. r = Inr (Some e)")
    case True
    then obtain e where r: "r = Inr (Some e)" ..
    define v where "v = (if queue = REPORT then snd (discard_report ops host_discard st' e w) else w)"
    obtain q st'' w'' where c: "mem_complete ops queue e st' v = (q, st'', w'')" by (metis prod_cases3)
    have "process_entry ops host_discard queue st w
        = (case q of Inl e \<Rightarrow> (Err e, st'', w'') | Inr _ \<Rightarrow> (Ok True, st'', w''))"
      unfolding process_entry_def av r v_def [symmetric] by (simp add: c v_def [symmetric] split: sum.split)
    then have "md_discards (snd (snd (process_entry ops host_discard queue st w))) = md_discards v"
      using mem_complete_discards [OF c] by (cases q) simp_all
    then show ?thesis using av r by (auto simp: v_def discard_report_exact cfg REPORT_def)
  next
    case False
    then show ?thesis using av
      by (cases r) (auto simp: process_entry_def split: option.split)
  qed
qed

lemma mem_process_discards:
  "md_discards (snd (mem_process ops host_discard queue w)) = md_discards w @
     (case md_state w of
        None \<Rightarrow> []
      | Some st \<Rightarrow>
          if queue = 2 then
            (case fst (mem_available ops (md_memory w) 2 st) of
               Inr (Some e) \<Rightarrow> reported ops (md_memory w) (t_config (ms_mmio st)) e | _ \<Rightarrow> [])
          else [])"
proof -
  have "snd (mem_process ops host_discard queue w) = snd (with_state (process_entry ops host_discard queue) w)"
    by (simp add: mem_process_def split_beta)
  then show ?thesis
    by (simp add: with_state_discards process_entry_discards split: option.split)
qed

text \<open>The number of pages field is not among the fields that the driver may write.\<close>

lemma num_pages_not_writable: "unat offset < 4 \<Longrightarrow> config_write config offset data = Err Dev_BadLen"
  by (simp add: config_write_def CONFIG_ACTUAL_def CONFIG_POISON_def Let_def)

text \<open>C8: The device asks the host to discard guest pages exactly when its task serves the report queue, the
  poison value is zero, and the chain at the head of the available ring is a valid report. A valid
  report has between 1 and 32 writable descriptors of whole 4 KiB pages, at most 128 MiB together, none
  reaching into the descriptor table, the available ring or the used ring of the queue. The request
  then names exactly those pages. No other call or step discards anything, whatever guest memory holds.\<close>

theorem discards_exactly_valid_reports:
  "md_discards (snd (mem_exec ops host_discard call (p, w))) = md_discards w @ requested_discards ops call p w"
proof (cases call)
  case Mem_run
  have "(queues AND push_bit 2 1 = 0) = (queues AND 4 = 0)" for queues :: u32
    by (simp add: push_bit_eq_mult)
  then show ?thesis using Mem_run mem_process_discards [of ops host_discard _ w]
    by (cases p) (auto simp: requested_discards_def QUEUE_COUNT_def QUEUE_COUNT_U16_def split_beta split: option.split prod.split)
qed (auto simp: requested_discards_def mem_configure_def mem_mmio_read_def mem_mmio_write_def mem_reset_def mem_close_def
    with_state_discards split: option.split sum.split prod.split write_outcome.split)

end
