(* ===== verification/Net_Address.thy ===== *)
theory Net_Address
  imports Prelude
begin

unbundle bit_operations_syntax

text \<open>
  IP ranges and the default egress floor (\<open>crates/terra-policy/src/address.rs\<close>), with the parts of
  \<open>std::net\<close> they use. The floor, which the source writes as tests on octets and segments, is shown
  equal to a table of the special-purpose address registries.
\<close>

section \<open>Addresses\<close>

datatype ip_addr = V4 u32 | V6 u128

definition v4_octets :: "u32 \<Rightarrow> u8 list" where
  "v4_octets ip = map (\<lambda>i. ucast (drop_bit (24 - 8 * i) ip)) [0, 1, 2, 3]"

definition v6_segments :: "u128 \<Rightarrow> u16 list" where
  "v6_segments ip = map (\<lambda>i. ucast (drop_bit (112 - 16 * i) ip)) [0, 1, 2, 3, 4, 5, 6, 7]"

text \<open>The last four octets of an IPv6 address as an IPv4 address.\<close>

definition v6_tail :: "u128 \<Rightarrow> u32" where
  "v6_tail ip = ucast ip"

definition to_ipv4_mapped :: "u128 \<Rightarrow> u32 option" where
  "to_ipv4_mapped ip = (if take 6 (v6_segments ip) = [0, 0, 0, 0, 0, 0xffff] then Some (v6_tail ip) else None)"

definition to_ipv4 :: "u128 \<Rightarrow> u32 option" where
  "to_ipv4 ip =
     (if take 5 (v6_segments ip) = [0, 0, 0, 0, 0] \<and> v6_segments ip ! 5 \<in> {0, 0xffff} then Some (v6_tail ip) else None)"

fun to_canonical :: "ip_addr \<Rightarrow> ip_addr" where
  "to_canonical (V4 ip) = V4 ip"
| "to_canonical (V6 ip) = (case to_ipv4_mapped ip of Some ip4 \<Rightarrow> V4 ip4 | None \<Rightarrow> V6 ip)"

section \<open>Ranges\<close>

datatype cidr = Cidr4 u32 u32 | Cidr6 u128 u128

definition cidr_of_ip :: "ip_addr \<Rightarrow> cidr" where
  "cidr_of_ip ip = (case to_canonical ip of V4 a \<Rightarrow> Cidr4 a (- 1) | V6 a \<Rightarrow> Cidr6 a (- 1))"

fun cidr_contains :: "cidr \<Rightarrow> ip_addr \<Rightarrow> bool" where
  "cidr_contains (Cidr4 network m) (V4 ip) = (ip AND m = network)"
| "cidr_contains (Cidr6 network m) (V6 ip) = (ip AND m = network)"
| "cidr_contains _ _ = False"

text \<open>\<open>MAX.checked_shl(bits).unwrap_or(0)\<close>\<close>

definition max_shl :: "nat \<Rightarrow> 'a::len word" where
  "max_shl n = (if n < LENGTH('a) then push_bit n (- 1) else 0)"

text \<open>The part of \<open>Cidr::parse\<close> after the address and the prefix length have been read.\<close>

definition cidr_new :: "ip_addr \<Rightarrow> nat option \<Rightarrow> cidr option" where
  "cidr_new address prefix =
     (case (case (address, prefix) of
              (V6 ip, Some p) \<Rightarrow>
                if to_ipv4_mapped ip \<noteq> None then (if 96 \<le> p then Some (Some (p - 96)) else None) else Some prefix
            | _ \<Rightarrow> Some prefix) of
        None \<Rightarrow> None
      | Some prefix \<Rightarrow>
          (case to_canonical address of
             V4 ip \<Rightarrow>
               (let p = (case prefix of None \<Rightarrow> 32 | Some p \<Rightarrow> p) in
                if 32 < p then None else Some (Cidr4 (ip AND max_shl (32 - p)) (max_shl (32 - p))))
           | V6 ip \<Rightarrow>
               (let p = (case prefix of None \<Rightarrow> 128 | Some p \<Rightarrow> p) in
                if 128 < p then None else Some (Cidr6 (ip AND max_shl (128 - p)) (max_shl (128 - p))))))"

section \<open>The floor\<close>

definition is_private :: "u8 list \<Rightarrow> bool" where
  "is_private os \<longleftrightarrow> os ! 0 = 10 \<or> os ! 0 = 172 \<and> os ! 1 \<ge> 16 \<and> os ! 1 \<le> 31 \<or> os ! 0 = 192 \<and> os ! 1 = 168"

definition is_global_v4 :: "u32 \<Rightarrow> bool" where
  "is_global_v4 ip =
     (let os = v4_octets ip; a = os ! 0; b = os ! 1; c = os ! 2; d = os ! 3 in
      \<not> (a = 0
        \<or> is_private os
        \<or> (a = 100 \<and> 64 \<le> b \<and> b < 128)
        \<or> a = 127
        \<or> (a = 169 \<and> b = 254)
        \<or> (224 \<le> a \<and> a \<le> 239)
        \<or> (a = 192 \<and> b = 0 \<and> c = 0 \<and> d \<noteq> 9 \<and> d \<noteq> 10)
        \<or> [a, b, c] \<in> {[192, 0, 2], [198, 51, 100], [203, 0, 113]}
        \<or> (a = 192 \<and> b = 88 \<and> c = 99)
        \<or> (a = 198 \<and> 18 \<le> b \<and> b < 20)
        \<or> 240 \<le> a
        \<or> os = [255, 255, 255, 255]))"

definition nat64_well_known_v4 :: "u128 \<Rightarrow> u32 option" where
  "nat64_well_known_v4 ip =
     (if take 6 (v6_segments ip) = [0x64, 0xff9b, 0, 0, 0, 0] then Some (v6_tail ip) else None)"

definition is_global_v6 :: "u128 \<Rightarrow> bool" where
  "is_global_v6 ip =
     (case nat64_well_known_v4 ip of
        Some ip4 \<Rightarrow> is_global_v4 ip4
      | None \<Rightarrow>
          (let s = v6_segments ip; a = s ! 0; b = s ! 1; c = s ! 2 in
           \<not> (a AND 0xe000 \<noteq> 0x2000
             \<or> (a = 0x2001 \<and> b < 0x200
                \<and> \<not> (take 7 s = [0x2001, 1, 0, 0, 0, 0, 0] \<and> 1 \<le> s ! 7 \<and> s ! 7 \<le> 3)
                \<and> \<not> (b = 3 \<or> b = 4 \<and> c = 0x112)
                \<and> \<not> (0x20 \<le> b \<and> b \<le> 0x3f))
             \<or> a = 0x2002
             \<or> (a = 0x2001 \<and> b = 0xdb8)
             \<or> (a = 0x3fff \<and> b < 0x1000))))"

definition embedded_ipv4 :: "u128 \<Rightarrow> u32 option" where
  "embedded_ipv4 ip =
     (case to_ipv4 ip of
        Some ip4 \<Rightarrow> Some ip4
      | None \<Rightarrow> if take 6 (v6_segments ip) = [0, 0, 0, 0, 0xffff, 0] then Some (v6_tail ip) else None)"

fun is_floored :: "ip_addr \<Rightarrow> bool" where
  "is_floored (V4 ip) = (\<not> is_global_v4 ip)"
| "is_floored (V6 ip) = (case embedded_ipv4 ip of None \<Rightarrow> \<not> is_global_v6 ip | Some ip4 \<Rightarrow> \<not> is_global_v4 ip4)"

section \<open>The registries\<close>

definition in_prefix :: "'a::len word \<Rightarrow> 'a word \<times> nat \<Rightarrow> bool" where
  "in_prefix ip = (\<lambda>(base, p). drop_bit (LENGTH('a) - p) ip = drop_bit (LENGTH('a) - p) base)"

text \<open>
  The special-purpose IPv4 blocks that are not globally reachable: this network, private, shared,
  loopback, link-local, protocol assignments, documentation, 6to4 relay, benchmarking, multicast and
  reserved. Two protocol anycast addresses are global.
\<close>

definition special_v4 :: "(u32 \<times> nat) list" where
  "special_v4 =
     [(0x00000000, 8), (0x0a000000, 8), (0x64400000, 10), (0x7f000000, 8), (0xa9fe0000, 16), (0xac100000, 12),
      (0xc0000000, 24), (0xc0000200, 24), (0xc0586300, 24), (0xc0a80000, 16), (0xc6120000, 15), (0xc6336400, 24),
      (0xcb007100, 24), (0xe0000000, 4), (0xf0000000, 4)]"

definition global_v4 :: "(u32 \<times> nat) list" where
  "global_v4 = [(0xc0000009, 32), (0xc000000a, 32)]"

definition registry_v4 :: "u32 \<Rightarrow> bool" where
  "registry_v4 ip \<longleftrightarrow> list_ex (in_prefix ip) special_v4 \<and> \<not> list_ex (in_prefix ip) global_v4"

text \<open>The IPv6 prefixes whose last four octets are an IPv4 address: compatible, mapped, translated, NAT64.\<close>

definition embedding_v6 :: "(u128 \<times> nat) list" where
  "embedding_v6 =
     [(0x0, 96), (0xffff00000000, 96), (0xffff000000000000, 96), (0x0064ff9b000000000000000000000000, 96)]"

text \<open>
  The IPv6 blocks that are not globally reachable: everything outside \<open>2000::/3\<close>, the protocol
  assignments, 6to4 and the two documentation blocks. Some protocol assignments are global.
\<close>

definition special_v6 :: "(u128 \<times> nat) list" where
  "special_v6 =
     [(0x00000000000000000000000000000000, 3), (0x40000000000000000000000000000000, 2),
      (0x80000000000000000000000000000000, 1), (0x20010000000000000000000000000000, 23),
      (0x20020000000000000000000000000000, 16), (0x20010db8000000000000000000000000, 32),
      (0x3fff0000000000000000000000000000, 20)]"

definition global_v6 :: "(u128 \<times> nat) list" where
  "global_v6 =
     [(0x20010001000000000000000000000001, 128), (0x20010001000000000000000000000002, 128),
      (0x20010001000000000000000000000003, 128), (0x20010003000000000000000000000000, 32),
      (0x20010004011200000000000000000000, 48), (0x20010020000000000000000000000000, 28),
      (0x20010030000000000000000000000000, 28)]"

definition registry_v6 :: "u128 \<Rightarrow> bool" where
  "registry_v6 ip \<longleftrightarrow>
     (if list_ex (in_prefix ip) embedding_v6 then registry_v4 (ucast ip)
      else list_ex (in_prefix ip) special_v6 \<and> \<not> list_ex (in_prefix ip) global_v6)"

section \<open>Octets and segments as digits\<close>

lemma unat_drop_bit_div: "unat (drop_bit k x) = unat x div 2 ^ k"
  for x :: "'a::len word"
proof -
  have "unat (drop_bit k x) = drop_bit k (take_bit LENGTH('a) (unat x))"
    by (rule unsigned_drop_bit_eq)
  also have "take_bit LENGTH('a) (unat x) = unat x"
    by (rule take_bit_nat_eq_self) simp
  finally show ?thesis by (simp only: drop_bit_eq_div)
qed

lemma in_prefix_unat:
  fixes ip base :: "'a::len word"
  shows "in_prefix ip (base, p) \<longleftrightarrow> unat ip div 2 ^ (LENGTH('a) - p) = unat base div 2 ^ (LENGTH('a) - p)"
  by (simp only: in_prefix_def prod.case word_unat_eq_iff unat_drop_bit_div)

lemma unat_piece:
  fixes x :: "'a::len word"
  shows "unat (ucast (drop_bit k x) :: 'b::len word) = unat x div 2 ^ k mod 2 ^ LENGTH('b)"
  by (simp only: unsigned_ucast_eq take_bit_eq_mod unat_drop_bit_div)

text \<open>The number an address is, from its octets.\<close>

lemma v4_digits:
  fixes ip :: u32
  obtains a b c d where "a < 256" "b < 256" "c < 256" "d < 256"
    "unat ip = ((a * 256 + b) * 256 + c) * 256 + d"
    "v4_octets ip = map word_of_nat [a, b, c, d]"
proof -
  define n where "n = unat ip"
  have b: "n < 4294967296" using unat_lt_pow [of ip] by (simp add: n_def)
  have q: "n div 65536 = n div 256 div 256" "n div 16777216 = n div 256 div 256 div 256"
    by (simp_all add: div_mult2_eq [symmetric])
  have o: "v4_octets ip = map word_of_nat [n div 16777216, n div 65536 mod 256, n div 256 mod 256, n mod 256]"
  proof -
    have "(ucast (drop_bit k ip) :: u8) = word_of_nat (n div 2 ^ k mod 256)" for k
      by (simp add: word_unat_eq_iff unat_piece unat_of_nat_eq n_def)
    from this [of 24] this [of 16] this [of 8] this [of 0] show ?thesis
      using b by (simp add: v4_octets_def)
  qed
  show thesis
  proof (rule that [OF _ _ _ _ _ o])
    show "n div 16777216 < 256" using b by simp
    show "unat ip = ((n div 16777216 * 256 + n div 65536 mod 256) * 256 + n div 256 mod 256) * 256 + n mod 256"
      unfolding n_def [symmetric] q by (simp only: div_mult_mod_eq)
  qed simp_all
qed


lemma v4_prefixes:
  fixes a b c d :: nat
  assumes "a < 256" "b < 256" "c < 256" "d < 256"
  defines "n \<equiv> ((a * 256 + b) * 256 + c) * 256 + d"
  shows "n div 268435456 = a div 16" "n div 16777216 = a" "n div 4194304 = 4 * a + b div 64"
    "n div 1048576 = 16 * a + b div 16" "n div 131072 = 128 * a + b div 2" "n div 65536 = 256 * a + b"
    "n div 256 = 65536 * a + 256 * b + c"
proof -
  have 1: "n div 256 = (a * 256 + b) * 256 + c" using assms by simp
  then have 2: "n div 256 div 256 = a * 256 + b" using assms by simp
  then have 3: "n div 256 div 256 div 256 = a" using assms by simp
  have k: "n div 268435456 = n div 256 div 256 div 256 div 16" "n div 16777216 = n div 256 div 256 div 256"
    "n div 4194304 = n div 256 div 256 div 64" "n div 1048576 = n div 256 div 256 div 16"
    "n div 131072 = n div 256 div 256 div 2" "n div 65536 = n div 256 div 256"
    by (simp_all add: div_mult2_eq [symmetric])
  show "n div 268435456 = a div 16" "n div 16777216 = a" unfolding k 3 by simp_all
  show "n div 4194304 = 4 * a + b div 64" unfolding k 2 by presburger
  show "n div 1048576 = 16 * a + b div 16" unfolding k 2 by presburger
  show "n div 131072 = 128 * a + b div 2" unfolding k 2 by presburger
  show "n div 65536 = 256 * a + b" unfolding k 2 by simp
  show "n div 256 = 65536 * a + 256 * b + c" unfolding 1 by simp
qed

lemma digit_split: "c < m \<Longrightarrow> m * q + c = y \<longleftrightarrow> q = y div m \<and> c = y mod m" for m q c y :: nat
  by auto

lemma two_digits:
  fixes a b c :: nat
  assumes "b < 256" "c < 256"
  shows "256 * a + b = x \<longleftrightarrow> a = x div 256 \<and> b = x mod 256"
    "65536 * a + 256 * b + c = y \<longleftrightarrow> a = y div 65536 \<and> b = y div 256 mod 256 \<and> c = y mod 256"
proof -
  show "256 * a + b = x \<longleftrightarrow> a = x div 256 \<and> b = x mod 256"
    using assms(1) by (rule digit_split)
  have "y div 65536 = y div 256 div 256" "65536 * a + 256 * b + c = 256 * (256 * a + b) + c"
    by (simp_all add: div_mult2_eq [symmetric])
  then show "65536 * a + 256 * b + c = y \<longleftrightarrow> a = y div 65536 \<and> b = y div 256 mod 256 \<and> c = y mod 256"
    by (simp only: digit_split [OF assms(1)] digit_split [OF assms(2)] conj_assoc)
qed

lemma is_global_v4_registry: "is_global_v4 ip \<longleftrightarrow> \<not> registry_v4 ip"
proof -
  obtain a b c d where B: "a < 256" "b < 256" "c < 256" "d < 256"
    and n: "unat ip = ((a * 256 + b) * 256 + c) * 256 + d" and o: "v4_octets ip = map word_of_nat [a, b, c, d]"
    by (rule v4_digits)
  note P = v4_prefixes [OF B, folded n]
  note D = two_digits [OF B(2,3), of a]
  have W: "x < 256 \<Longrightarrow> unat (word_of_nat x :: u8) = x" for x by (simp add: unat_of_nat_eq)
  have global: "is_global_v4 ip \<longleftrightarrow> \<not> (a = 0 \<or> (a = 10 \<or> a = 172 \<and> 16 \<le> b \<and> b \<le> 31 \<or> a = 192 \<and> b = 168)
      \<or> (a = 100 \<and> 64 \<le> b \<and> b < 128) \<or> a = 127 \<or> (a = 169 \<and> b = 254) \<or> (224 \<le> a \<and> a \<le> 239)
      \<or> (a = 192 \<and> b = 0 \<and> c = 0 \<and> d \<noteq> 9 \<and> d \<noteq> 10)
      \<or> (a = 192 \<and> b = 0 \<and> c = 2 \<or> a = 198 \<and> b = 51 \<and> c = 100 \<or> a = 203 \<and> b = 0 \<and> c = 113)
      \<or> (a = 192 \<and> b = 88 \<and> c = 99) \<or> (a = 198 \<and> 18 \<le> b \<and> b < 20) \<or> 240 \<le> a
      \<or> (a = 255 \<and> b = 255 \<and> c = 255 \<and> d = 255))"
    unfolding is_global_v4_def o Let_def is_private_def
    by (simp add: word_unat_eq_iff word_le_nat_alt word_less_nat_alt W B)
  have E: "4 * a + b div 64 = 401 \<longleftrightarrow> a = 100 \<and> 64 \<le> b \<and> b < 128"
    "16 * a + b div 16 = 2753 \<longleftrightarrow> a = 172 \<and> 16 \<le> b \<and> b \<le> 31"
    "128 * a + b div 2 = 25353 \<longleftrightarrow> a = 198 \<and> 18 \<le> b \<and> b < 20"
    "a div 16 = 14 \<longleftrightarrow> 224 \<le> a \<and> a \<le> 239" "a div 16 = 15 \<longleftrightarrow> 240 \<le> a"
  proof -
    have q: "b div 64 < 4" "b div 16 < 16" "b div 2 < 128" using B(2) by simp_all
    have "b div 64 = 1 \<longleftrightarrow> 64 \<le> b \<and> b < 128" "b div 16 = 1 \<longleftrightarrow> 16 \<le> b \<and> b \<le> 31" "b div 2 = 9 \<longleftrightarrow> 18 \<le> b \<and> b < 20"
      by linarith+
    then show "4 * a + b div 64 = 401 \<longleftrightarrow> a = 100 \<and> 64 \<le> b \<and> b < 128"
      "16 * a + b div 16 = 2753 \<longleftrightarrow> a = 172 \<and> 16 \<le> b \<and> b \<le> 31"
      "128 * a + b div 2 = 25353 \<longleftrightarrow> a = 198 \<and> 18 \<le> b \<and> b < 20"
      by (simp_all add: digit_split [OF q(1)] digit_split [OF q(2)] digit_split [OF q(3)])
    show "a div 16 = 14 \<longleftrightarrow> 224 \<le> a \<and> a \<le> 239" "a div 16 = 15 \<longleftrightarrow> 240 \<le> a"
      using B(1) by linarith+
  qed
  have special: "list_ex (in_prefix ip) special_v4 \<longleftrightarrow> a = 0 \<or> a = 10 \<or> (a = 100 \<and> 64 \<le> b \<and> b < 128) \<or> a = 127
      \<or> (a = 169 \<and> b = 254) \<or> (a = 172 \<and> 16 \<le> b \<and> b \<le> 31) \<or> (a = 192 \<and> b = 0 \<and> c = 0)
      \<or> (a = 192 \<and> b = 0 \<and> c = 2) \<or> (a = 192 \<and> b = 88 \<and> c = 99) \<or> (a = 192 \<and> b = 168)
      \<or> (a = 198 \<and> 18 \<le> b \<and> b < 20) \<or> (a = 198 \<and> b = 51 \<and> c = 100) \<or> (a = 203 \<and> b = 0 \<and> c = 113)
      \<or> (224 \<le> a \<and> a \<le> 239) \<or> 240 \<le> a"
    unfolding special_v4_def by (simp add: in_prefix_unat P D E)
  have "unat ip = 256 * (65536 * a + 256 * b + c) + d" using n by simp
  then have exc: "unat ip = x \<longleftrightarrow> 65536 * a + 256 * b + c = x div 256 \<and> d = x mod 256" for x
    by (simp only: digit_split [OF B(4)])
  have global': "list_ex (in_prefix ip) global_v4 \<longleftrightarrow> a = 192 \<and> b = 0 \<and> c = 0 \<and> (d = 9 \<or> d = 10)"
    unfolding global_v4_def by (auto simp: in_prefix_unat exc D)
  show ?thesis
  proof (cases "a = 192 \<and> b = 0 \<and> c = 0")
    case True
    then show ?thesis unfolding registry_v4_def global special global' by simp
  next
    case False
    moreover have "a = 255 \<longrightarrow> 240 \<le> a" by simp
    ultimately show ?thesis unfolding registry_v4_def global special global' by argo
  qed
qed


text \<open>The segments of an IPv6 address as numbers, and a prefix equation one segment at a time.\<close>

definition seg :: "u128 \<Rightarrow> nat \<Rightarrow> nat" where
  "seg ip i = unat ip div 2 ^ (112 - 16 * i) mod 65536"

lemma seg_less: "seg ip i < 65536"
  by (simp add: seg_def)

lemma v6_segments_seg: "v6_segments ip = map (\<lambda>i. word_of_nat (seg ip i)) [0, 1, 2, 3, 4, 5, 6, 7]"
proof -
  have "(ucast (drop_bit k ip) :: u16) = word_of_nat (unat ip div 2 ^ k mod 65536)" for k
    by (simp add: word_unat_eq_iff unat_piece unat_of_nat_eq)
  then show ?thesis by (simp add: v6_segments_def seg_def)
qed

lemma div_step: "n div m = y \<longleftrightarrow> n div (m * 65536) = y div 65536 \<and> n div m mod 65536 = y mod 65536" for n m y :: nat
  by (metis div_mult2_eq mod_div_decomp)

lemma top_segment: "unat ip div 2 ^ 112 = seg ip 0"
  using unat_lt_pow [of ip] by (simp add: seg_def div_less_iff_less_mult)

lemma prefix_segments:
  "unat ip div 2 ^ 112 = y \<longleftrightarrow> seg ip 0 = y"
  "unat ip div 2 ^ 96 = y \<longleftrightarrow> seg ip 0 = y div 65536 \<and> seg ip 1 = y mod 65536"
  "unat ip div 2 ^ 80 = y \<longleftrightarrow> unat ip div 2 ^ 96 = y div 65536 \<and> seg ip 2 = y mod 65536"
  "unat ip div 2 ^ 64 = y \<longleftrightarrow> unat ip div 2 ^ 80 = y div 65536 \<and> seg ip 3 = y mod 65536"
  "unat ip div 2 ^ 48 = y \<longleftrightarrow> unat ip div 2 ^ 64 = y div 65536 \<and> seg ip 4 = y mod 65536"
  "unat ip div 2 ^ 32 = y \<longleftrightarrow> unat ip div 2 ^ 48 = y div 65536 \<and> seg ip 5 = y mod 65536"
  "unat ip div 2 ^ 16 = y \<longleftrightarrow> unat ip div 2 ^ 32 = y div 65536 \<and> seg ip 6 = y mod 65536"
  "unat ip = y \<longleftrightarrow> unat ip div 2 ^ 16 = y div 65536 \<and> seg ip 7 = y mod 65536"
proof -
  have st: "unat ip div 2 ^ k = y \<longleftrightarrow> unat ip div 2 ^ (k + 16) = y div 65536 \<and> unat ip div 2 ^ k mod 65536 = y mod 65536" for k y
    using div_step [of "unat ip" "2 ^ k" y] by (simp add: power_add)
  show "unat ip div 2 ^ 112 = y \<longleftrightarrow> seg ip 0 = y" for y by (simp only: top_segment)
  show "unat ip div 2 ^ 96 = y \<longleftrightarrow> seg ip 0 = y div 65536 \<and> seg ip 1 = y mod 65536"
    using st [of 96 y] top_segment [of ip] by (simp add: seg_def)
  show "unat ip div 2 ^ 80 = y \<longleftrightarrow> unat ip div 2 ^ 96 = y div 65536 \<and> seg ip 2 = y mod 65536"
    using st [of 80 y] by (simp add: seg_def)
  show "unat ip div 2 ^ 64 = y \<longleftrightarrow> unat ip div 2 ^ 80 = y div 65536 \<and> seg ip 3 = y mod 65536"
    using st [of 64 y] by (simp add: seg_def)
  show "unat ip div 2 ^ 48 = y \<longleftrightarrow> unat ip div 2 ^ 64 = y div 65536 \<and> seg ip 4 = y mod 65536"
    using st [of 48 y] by (simp add: seg_def)
  show "unat ip div 2 ^ 32 = y \<longleftrightarrow> unat ip div 2 ^ 48 = y div 65536 \<and> seg ip 5 = y mod 65536"
    using st [of 32 y] by (simp add: seg_def)
  show "unat ip div 2 ^ 16 = y \<longleftrightarrow> unat ip div 2 ^ 32 = y div 65536 \<and> seg ip 6 = y mod 65536"
    using st [of 16 y] by (simp add: seg_def)
  show "unat ip = y \<longleftrightarrow> unat ip div 2 ^ 16 = y div 65536 \<and> seg ip 7 = y mod 65536"
    using st [of 0 y] by (simp add: seg_def)
qed

lemma short_prefix_segments:
  "unat ip div 2 ^ 127 = seg ip 0 div 32768" "unat ip div 2 ^ 126 = seg ip 0 div 16384" "unat ip div 2 ^ 125 = seg ip 0 div 8192"
  "unat ip div 2 ^ 108 = y \<longleftrightarrow> seg ip 0 = y div 16 \<and> seg ip 1 div 4096 = y mod 16"
  "unat ip div 2 ^ 105 = y \<longleftrightarrow> seg ip 0 = y div 128 \<and> seg ip 1 div 512 = y mod 128"
  "unat ip div 2 ^ 100 = y \<longleftrightarrow> seg ip 0 = y div 4096 \<and> seg ip 1 div 16 = y mod 4096"
proof -
  have d: "unat ip div 2 ^ (k + j) = unat ip div 2 ^ k div 2 ^ j" for k j
    by (simp add: power_add div_mult2_eq)
  show "unat ip div 2 ^ 127 = seg ip 0 div 32768" "unat ip div 2 ^ 126 = seg ip 0 div 16384" "unat ip div 2 ^ 125 = seg ip 0 div 8192"
    using d [of 112 15] d [of 112 14] d [of 112 13] unfolding top_segment by simp_all
  have t: "unat ip div 2 ^ 96 = 65536 * seg ip 0 + seg ip 1"
    using prefix_segments(2) [of ip "65536 * seg ip 0 + seg ip 1"] seg_less [of ip 1] by simp
  have q: "seg ip 1 div 4096 < 16" "seg ip 1 div 512 < 128" "seg ip 1 div 16 < 4096"
    using seg_less [of ip 1] by (simp_all add: div_less_iff_less_mult)
  have "unat ip div 2 ^ 108 = 16 * seg ip 0 + seg ip 1 div 4096" "unat ip div 2 ^ 105 = 128 * seg ip 0 + seg ip 1 div 512"
    "unat ip div 2 ^ 100 = 4096 * seg ip 0 + seg ip 1 div 16"
    using d [of 96 12] d [of 96 9] d [of 96 4] unfolding t by simp_all
  then show "unat ip div 2 ^ 108 = y \<longleftrightarrow> seg ip 0 = y div 16 \<and> seg ip 1 div 4096 = y mod 16"
    "unat ip div 2 ^ 105 = y \<longleftrightarrow> seg ip 0 = y div 128 \<and> seg ip 1 div 512 = y mod 128"
    "unat ip div 2 ^ 100 = y \<longleftrightarrow> seg ip 0 = y div 4096 \<and> seg ip 1 div 16 = y mod 4096"
    by (simp_all only: digit_split [OF q(1)] digit_split [OF q(2)] digit_split [OF q(3)])
qed


lemmas v6_prefix_simps = prefix_segments [simplified] short_prefix_segments [simplified]

lemma e000_iff: "a AND 0xe000 = 0x2000 \<longleftrightarrow> unat a div 8192 = 1" for a :: u16
proof -
  have "a AND 0xe000 = push_bit 13 (drop_bit 13 a)"
  proof (rule bit_word_eqI)
    fix i assume "i < LENGTH(16)"
    then have "i \<in> {0, 1, 2, 3, 4, 5, 6, 7, 8, 9, 10, 11, 12, 13, 14, 15}" by simp presburger
    then show "bit (a AND 0xe000) i \<longleftrightarrow> bit (push_bit 13 (drop_bit 13 a)) i"
      by (auto simp: bit_and_iff bit_push_bit_iff bit_drop_bit_eq)
  qed
  moreover have "(0x2000 :: u16) = push_bit 13 1" by (simp add: push_bit_eq_mult)
  ultimately have "a AND 0xe000 = 0x2000 \<longleftrightarrow> push_bit 13 (drop_bit 13 a) = push_bit 13 1" by simp
  also have "\<dots> \<longleftrightarrow> drop_bit 13 a = 1"
  proof
    assume "push_bit 13 (drop_bit 13 a) = push_bit 13 1"
    then have "drop_bit 13 (push_bit 13 (drop_bit 13 a)) = drop_bit 13 (push_bit 13 (1 :: u16))" by simp
    moreover have "drop_bit 13 (push_bit 13 (drop_bit 13 a)) = drop_bit 13 a"
      by (rule bit_word_eqI) (auto simp: bit_push_bit_iff bit_drop_bit_eq dest: bit_imp_le_length)
    moreover have "drop_bit 13 (push_bit 13 (1 :: u16)) = 1" by (simp add: push_bit_eq_mult drop_bit_eq_div)
    ultimately show "drop_bit 13 a = 1" by simp
  qed simp
  also have "\<dots> \<longleftrightarrow> unat a div 8192 = 1" by (simp add: word_unat_eq_iff unat_drop_bit_div)
  finally show ?thesis .
qed

lemma seg_word:
  "(word_of_nat (seg ip i) :: u16) = x \<longleftrightarrow> seg ip i = unat x"
  "(word_of_nat (seg ip i) :: u16) < x \<longleftrightarrow> seg ip i < unat x"
  "(word_of_nat (seg ip i) :: u16) \<le> x \<longleftrightarrow> seg ip i \<le> unat x"
  "x \<le> (word_of_nat (seg ip i) :: u16) \<longleftrightarrow> unat x \<le> seg ip i"
  using seg_less [of ip i] by (simp_all add: word_unat_eq_iff word_less_nat_alt word_le_nat_alt unat_of_nat_eq)

lemma embedding_segments:
  "list_ex (in_prefix ip) embedding_v6 \<longleftrightarrow>
     seg ip 0 = 0 \<and> seg ip 1 = 0 \<and> seg ip 2 = 0 \<and> seg ip 3 = 0 \<and> seg ip 4 = 0 \<and> (seg ip 5 = 0 \<or> seg ip 5 = 0xffff)
   \<or> seg ip 0 = 0 \<and> seg ip 1 = 0 \<and> seg ip 2 = 0 \<and> seg ip 3 = 0 \<and> seg ip 4 = 0xffff \<and> seg ip 5 = 0
   \<or> seg ip 0 = 0x64 \<and> seg ip 1 = 0xff9b \<and> seg ip 2 = 0 \<and> seg ip 3 = 0 \<and> seg ip 4 = 0 \<and> seg ip 5 = 0"
  by (auto simp: embedding_v6_def in_prefix_unat v6_prefix_simps)

lemma special_segments:
  "list_ex (in_prefix ip) special_v6 \<longleftrightarrow> seg ip 0 div 8192 \<noteq> 1 \<or> seg ip 0 = 0x2001 \<and> seg ip 1 < 0x200
     \<or> seg ip 0 = 0x2002 \<or> seg ip 0 = 0x2001 \<and> seg ip 1 = 0xdb8 \<or> seg ip 0 = 0x3fff \<and> seg ip 1 < 0x1000"
proof -
  have "seg ip 0 div 8192 \<noteq> 1 \<longleftrightarrow> seg ip 0 div 8192 = 0 \<or> seg ip 0 div 16384 = 1 \<or> seg ip 0 div 32768 = 1"
    using seg_less [of ip 0] by linarith
  moreover have "seg ip 1 div 512 = 0 \<longleftrightarrow> seg ip 1 < 0x200" "seg ip 1 div 4096 = 0 \<longleftrightarrow> seg ip 1 < 0x1000" by auto
  ultimately show ?thesis
    by (simp add: special_v6_def in_prefix_unat v6_prefix_simps)
qed

lemma global_segments:
  "list_ex (in_prefix ip) global_v6 \<longleftrightarrow> seg ip 0 = 0x2001 \<and>
     (seg ip 1 = 1 \<and> seg ip 2 = 0 \<and> seg ip 3 = 0 \<and> seg ip 4 = 0 \<and> seg ip 5 = 0 \<and> seg ip 6 = 0 \<and> 1 \<le> seg ip 7 \<and> seg ip 7 \<le> 3
      \<or> seg ip 1 = 3 \<or> seg ip 1 = 4 \<and> seg ip 2 = 0x112 \<or> 0x20 \<le> seg ip 1 \<and> seg ip 1 \<le> 0x3f)"
proof -
  have "1 \<le> seg ip 7 \<and> seg ip 7 \<le> 3 \<longleftrightarrow> seg ip 7 = 1 \<or> seg ip 7 = 2 \<or> seg ip 7 = 3" by linarith
  moreover have "0x20 \<le> seg ip 1 \<and> seg ip 1 \<le> 0x3f \<longleftrightarrow> seg ip 1 div 16 = 2 \<or> seg ip 1 div 16 = 3" by linarith
  ultimately show ?thesis
    by (auto simp: global_v6_def in_prefix_unat v6_prefix_simps)
qed

lemma is_global_v6_segments:
  assumes "nat64_well_known_v4 ip = None"
  shows "is_global_v6 ip \<longleftrightarrow> \<not> (seg ip 0 div 8192 \<noteq> 1 \<or> seg ip 0 = 0x2001 \<and> seg ip 1 < 0x200
       \<and> \<not> (seg ip 0 = 0x2001 \<and> seg ip 1 = 1 \<and> seg ip 2 = 0 \<and> seg ip 3 = 0 \<and> seg ip 4 = 0 \<and> seg ip 5 = 0 \<and> seg ip 6 = 0
            \<and> 1 \<le> seg ip 7 \<and> seg ip 7 \<le> 3)
       \<and> \<not> (seg ip 1 = 3 \<or> seg ip 1 = 4 \<and> seg ip 2 = 0x112) \<and> \<not> (0x20 \<le> seg ip 1 \<and> seg ip 1 \<le> 0x3f)
     \<or> seg ip 0 = 0x2002 \<or> seg ip 0 = 0x2001 \<and> seg ip 1 = 0xdb8 \<or> seg ip 0 = 0x3fff \<and> seg ip 1 < 0x1000)"
proof -
  have "unat (word_of_nat (seg ip 0) :: u16) = seg ip 0" using seg_less [of ip 0] by (simp add: unat_of_nat_eq)
  then show ?thesis
    using assms by (simp add: is_global_v6_def v6_segments_seg Let_def e000_iff seg_word)
qed

text \<open>C11: The egress floor is exactly the special-purpose address registries. An IPv4 address is held back
  exactly when it lies in a special-purpose block and is none of the two global protocol addresses. An
  IPv6 address that embeds an IPv4 address (compatible, mapped, translated or NAT64) is held back
  exactly when that IPv4 address is. Any other IPv6 address is held back exactly when it lies outside
  global unicast space or in a special-purpose block and in none of the global protocol assignments.\<close>

theorem floor_is_registry:
  "is_floored ip = (case ip of V4 ip4 \<Rightarrow> registry_v4 ip4 | V6 ip6 \<Rightarrow> registry_v6 ip6)"
proof (cases ip)
  case (V4 ip4)
  then show ?thesis by (simp add: is_global_v4_registry)
next
  case (V6 ip6)
  have to4: "to_ipv4 ip6 = (if seg ip6 0 = 0 \<and> seg ip6 1 = 0 \<and> seg ip6 2 = 0 \<and> seg ip6 3 = 0 \<and> seg ip6 4 = 0
      \<and> (seg ip6 5 = 0 \<or> seg ip6 5 = 0xffff) then Some (ucast ip6) else None)"
    by (simp add: to_ipv4_def v6_segments_seg seg_word v6_tail_def)
  have emb: "embedded_ipv4 ip6 = (case to_ipv4 ip6 of Some x \<Rightarrow> Some x | None \<Rightarrow>
      if seg ip6 0 = 0 \<and> seg ip6 1 = 0 \<and> seg ip6 2 = 0 \<and> seg ip6 3 = 0 \<and> seg ip6 4 = 0xffff \<and> seg ip6 5 = 0
      then Some (ucast ip6) else None)"
    by (auto simp: embedded_ipv4_def v6_segments_seg seg_word v6_tail_def split: option.split)
  have n64: "nat64_well_known_v4 ip6 = (if seg ip6 0 = 0x64 \<and> seg ip6 1 = 0xff9b \<and> seg ip6 2 = 0 \<and> seg ip6 3 = 0
      \<and> seg ip6 4 = 0 \<and> seg ip6 5 = 0 then Some (ucast ip6) else None)"
    by (simp add: nat64_well_known_v4_def v6_segments_seg seg_word v6_tail_def)
  show ?thesis
  proof (cases "list_ex (in_prefix ip6) embedding_v6")
    case True
    then consider "embedded_ipv4 ip6 = Some (ucast ip6)" | "embedded_ipv4 ip6 = None" "nat64_well_known_v4 ip6 = Some (ucast ip6)"
      unfolding embedding_segments by (auto simp: emb to4 n64)
    then show ?thesis using V6 True
      by cases (simp_all add: registry_v6_def is_global_v4_registry is_global_v6_def)
  next
    case False
    then have none: "embedded_ipv4 ip6 = None" "nat64_well_known_v4 ip6 = None"
      unfolding embedding_segments by (auto simp: emb to4 n64)
    have "\<not> is_global_v6 ip6 \<longleftrightarrow> list_ex (in_prefix ip6) special_v6 \<and> \<not> list_ex (in_prefix ip6) global_v6"
      unfolding is_global_v6_segments [OF none(2)] special_segments global_segments by auto
    then show ?thesis using V6 False none by (simp add: registry_v6_def)
  qed
qed

end
