(* ===== verification/Net_Rules.thy ===== *)
theory Net_Rules
  imports Net_Address "HOL-Library.Char_ord" "HOL-Library.List_Lexorder"
begin

text \<open>
  Recipe text (\<open>crates/terra-policy/src/hostname.rs\<close>, \<open>rules.rs\<close> and \<open>Cidr::parse\<close> of \<open>address.rs\<close>):
  host names, allow rules and static DNS records, with the string operations and number and address
  parsers of the standard library that they use. A \<open>str\<close> is its UTF-8 bytes.
\<close>

section \<open>Strings\<close>

definition strip_prefix_str :: "string \<Rightarrow> string \<Rightarrow> string option" where
  "strip_prefix_str p s = (if take (length p) s = p then Some (drop (length p) s) else None)"

definition strip_suffix_str :: "string \<Rightarrow> string \<Rightarrow> string option" where
  "strip_suffix_str p s = map_option rev (strip_prefix_str (rev p) (rev s))"

text \<open>\<open>split_once\<close> at the first occurrence of a pattern, \<open>rsplit_once\<close> at the last of a character.\<close>

fun split_once :: "string \<Rightarrow> string \<Rightarrow> (string \<times> string) option" where
  "split_once p [] = (if p = [] then Some ([], []) else None)"
| "split_once p (c # s) =
     (case strip_prefix_str p (c # s) of
        Some rest \<Rightarrow> Some ([], rest)
      | None \<Rightarrow> map_option (map_prod ((#) c) (\<lambda>r. r)) (split_once p s))"

definition rsplit_once :: "char \<Rightarrow> string \<Rightarrow> (string \<times> string) option" where
  "rsplit_once c s = map_option (\<lambda>(back, front). (rev front, rev back)) (split_once [c] (rev s))"

fun split_char :: "char \<Rightarrow> string \<Rightarrow> string list" where
  "split_char c [] = [[]]"
| "split_char c (x # s) =
     (if x = c then [] # split_char c s
      else (case split_char c s of [] \<Rightarrow> [[x]] | w # ws \<Rightarrow> (x # w) # ws))"

definition byte_of :: "char \<Rightarrow> nat" where
  "byte_of c = of_char c"

definition to_ascii_lowercase :: "string \<Rightarrow> string" where
  "to_ascii_lowercase = map (\<lambda>c. if 65 \<le> byte_of c \<and> byte_of c \<le> 90 then char_of (byte_of c + 32) else c)"

definition eq_ignore_ascii_case :: "string \<Rightarrow> string \<Rightarrow> bool" where
  "eq_ignore_ascii_case s t \<longleftrightarrow> to_ascii_lowercase s = to_ascii_lowercase t"

definition is_ascii_alphanumeric :: "char \<Rightarrow> bool" where
  "is_ascii_alphanumeric c \<longleftrightarrow>
     48 \<le> byte_of c \<and> byte_of c \<le> 57 \<or> 65 \<le> byte_of c \<and> byte_of c \<le> 90 \<or> 97 \<le> byte_of c \<and> byte_of c \<le> 122"

text \<open>The UTF-8 encodings of the characters with the Unicode property \<open>White_Space\<close>.\<close>

definition white_space :: "string list" where
  "white_space = map (map char_of)
     ([[9], [10], [11], [12], [13], [32], [0xc2, 0x85], [0xc2, 0xa0], [0xe1, 0x9a, 0x80]]
      @ map (\<lambda>b. [0xe2, 0x80, b]) [0x80 ..< 0x8b]
      @ [[0xe2, 0x80, 0xa8], [0xe2, 0x80, 0xa9], [0xe2, 0x80, 0xaf], [0xe2, 0x81, 0x9f], [0xe3, 0x80, 0x80 :: nat]])"

definition strip_any :: "string list \<Rightarrow> string \<Rightarrow> string option" where
  "strip_any ps s = (case filter (\<lambda>p. strip_prefix_str p s \<noteq> None) ps of [] \<Rightarrow> None | p # _ \<Rightarrow> strip_prefix_str p s)"

fun trim_with :: "nat \<Rightarrow> string list \<Rightarrow> string \<Rightarrow> string" where
  "trim_with 0 ps s = s"
| "trim_with (Suc n) ps s = (case strip_any ps s of None \<Rightarrow> s | Some rest \<Rightarrow> trim_with n ps rest)"

definition trim :: "string \<Rightarrow> string" where
  "trim s = (let t = trim_with (length s) white_space s
             in rev (trim_with (length t) (map rev white_space) (rev t)))"

text \<open>\<open>BTreeMap::insert\<close>: entries in the order of their keys; the result tells whether the key was there.\<close>

fun btree_insert :: "string \<Rightarrow> 'v \<Rightarrow> (string \<times> 'v) list \<Rightarrow> bool \<times> (string \<times> 'v) list" where
  "btree_insert k v [] = (False, [(k, v)])"
| "btree_insert k v ((k', v') # m) =
     (if k = k' then (True, (k, v) # m)
      else if k < k' then (False, (k, v) # (k', v') # m)
      else map_prod (\<lambda>b. b) ((#) (k', v')) (btree_insert k v m))"

lemma btree_insert_set: "set (snd (btree_insert k v m)) \<subseteq> insert (k, v) (set m) \<and> snd (btree_insert k v m) \<noteq> []"
  by (induction k v m rule: btree_insert.induct) auto

lemma btree_insert_map_of: "map_of (snd (btree_insert k v m)) k' = (if k' = k then Some v else map_of m k')"
  by (induction k v m rule: btree_insert.induct) auto

section \<open>Numbers and addresses\<close>

definition digit :: "nat \<Rightarrow> char \<Rightarrow> nat option" where
  "digit radix c =
     (let b = byte_of c;
          d = (if 48 \<le> b \<and> b \<le> 57 then b - 48 else if 97 \<le> b \<and> b \<le> 122 then b - 87
               else if 65 \<le> b \<and> b \<le> 90 then b - 55 else 36)
      in if d < radix then Some d else None)"

text \<open>\<open>u8::from_str\<close> and \<open>u16::from_str\<close>: an optional plus sign, digits, and no overflow.\<close>

definition parse_uint :: "nat \<Rightarrow> string \<Rightarrow> nat option" where
  "parse_uint limit s =
     (let digits = (case strip_prefix_str ''+'' s of Some rest \<Rightarrow> rest | None \<Rightarrow> s);
          n = foldl (\<lambda>n c. 10 * n + the (digit 10 c)) 0 digits
      in if digits \<noteq> [] \<and> list_all (\<lambda>c. digit 10 c \<noteq> None) digits \<and> n \<le> limit then Some n else None)"

text \<open>
  The parser of \<open>std::net\<close>: every reader returns what it read and the rest of the input, or fails
  without consuming. \<open>read_number\<close> fails on more than \<open>max_digits\<close> digits.
\<close>

definition read_number :: "nat \<Rightarrow> nat \<Rightarrow> bool \<Rightarrow> nat \<Rightarrow> string \<Rightarrow> (nat \<times> string) option" where
  "read_number radix max_digits allow_zero_prefix limit s =
     (let ds = takeWhile (\<lambda>c. digit radix c \<noteq> None) s;
          n = foldl (\<lambda>n c. radix * n + the (digit radix c)) 0 ds
      in if ds = [] \<or> length ds > max_digits \<or> (\<not> allow_zero_prefix \<and> hd ds = CHR ''0'' \<and> length ds > 1) \<or> n > limit
         then None else Some (n, drop (length ds) s))"

definition read_separator :: "char \<Rightarrow> nat \<Rightarrow> (string \<Rightarrow> ('a \<times> string) option) \<Rightarrow> string \<Rightarrow> ('a \<times> string) option" where
  "read_separator sep index inner s =
     (if index = 0 then inner s
      else case s of c # rest \<Rightarrow> if c = sep then inner rest else None | [] \<Rightarrow> None)"

fun read_octets :: "nat \<Rightarrow> nat \<Rightarrow> string \<Rightarrow> (nat list \<times> string) option" where
  "read_octets 0 i s = Some ([], s)"
| "read_octets (Suc k) i s =
     (case read_separator (CHR ''.'') i (read_number 10 3 False 255) s of
        None \<Rightarrow> None
      | Some (n, rest) \<Rightarrow> map_option (map_prod ((#) n) (\<lambda>r. r)) (read_octets k (Suc i) rest))"

definition of_digits :: "nat \<Rightarrow> nat list \<Rightarrow> nat" where
  "of_digits base = foldl (\<lambda>n d. base * n + d) 0"

definition read_ipv4_addr :: "string \<Rightarrow> (nat list \<times> string) option" where
  "read_ipv4_addr = read_octets 4 0"

text \<open>The groups read, whether the last two came from an embedded IPv4 address, and the rest.\<close>

fun read_groups :: "nat \<Rightarrow> nat \<Rightarrow> string \<Rightarrow> nat list \<times> bool \<times> string" where
  "read_groups 0 i s = ([], False, s)"
| "read_groups (Suc k) i s =
     (case (if 0 < k then read_separator (CHR '':'') i read_ipv4_addr s else None) of
        Some (os, rest) \<Rightarrow> ([256 * os ! 0 + os ! 1, 256 * os ! 2 + os ! 3], True, rest)
      | None \<Rightarrow>
          (case read_separator (CHR '':'') i (read_number 16 4 True 0xffff) s of
             None \<Rightarrow> ([], False, s)
           | Some (g, rest) \<Rightarrow>
               (case read_groups k (Suc i) rest of (gs, v4, rest') \<Rightarrow> (g # gs, v4, rest'))))"

definition read_ipv6_addr :: "string \<Rightarrow> (nat list \<times> string) option" where
  "read_ipv6_addr s =
     (case read_groups 8 0 s of
        (front, v4, rest) \<Rightarrow>
          if length front = 8 then Some (front, rest)
          else if v4 then None
          else case strip_prefix_str ''::'' rest of
            None \<Rightarrow> None
          | Some rest' \<Rightarrow>
              (case read_groups (7 - length front) 0 rest' of
                 (back, _, rest'') \<Rightarrow> Some (front @ replicate (8 - length front - length back) 0 @ back, rest'')))"

definition parse_ipv6 :: "string \<Rightarrow> u128 option" where
  "parse_ipv6 s = (case read_ipv6_addr s of Some (gs, []) \<Rightarrow> Some (word_of_nat (of_digits 65536 gs)) | _ \<Rightarrow> None)"

definition parse_ip :: "string \<Rightarrow> ip_addr option" where
  "parse_ip s =
     (case read_ipv4_addr s of
        Some (os, rest) \<Rightarrow> if rest = [] then Some (V4 (word_of_nat (of_digits 256 os))) else None
      | None \<Rightarrow> map_option V6 (parse_ipv6 s))"

definition cidr_parse :: "string \<Rightarrow> cidr option" where
  "cidr_parse spec =
     (case (case split_once ''/'' (trim spec) of
              Some (addr, prefix) \<Rightarrow> map_option (\<lambda>p. (addr, Some p)) (parse_uint 255 prefix)
            | None \<Rightarrow> Some (trim spec, None)) of
        None \<Rightarrow> None
      | Some (addr, prefix) \<Rightarrow>
          (case parse_ip addr of None \<Rightarrow> None | Some address \<Rightarrow> cidr_new address prefix))"

section \<open>Host names\<close>

definition MAX_NAME_BYTES :: nat where "MAX_NAME_BYTES = 256"

fun trim_end_matches :: "char \<Rightarrow> string \<Rightarrow> string" where
  "trim_end_matches c [] = []"
| "trim_end_matches c (x # s) = (case trim_end_matches c s of [] \<Rightarrow> if x = c then [] else [x] | t \<Rightarrow> x # t)"

definition is_label :: "string \<Rightarrow> bool" where
  "is_label label \<longleftrightarrow> 1 \<le> length label \<and> length label \<le> 63 \<and> hd label \<noteq> CHR ''-'' \<and> last label \<noteq> CHR ''-''
     \<and> list_all (\<lambda>b. is_ascii_alphanumeric b \<or> b = CHR ''-'') label"

definition normalize_hostname :: "string \<Rightarrow> string option" where
  "normalize_hostname hostname =
     (if length hostname > MAX_NAME_BYTES then None
      else let hostname = to_ascii_lowercase (trim_end_matches (CHR ''.'') hostname) in
        if 1 \<le> length hostname \<and> length hostname \<le> 253 \<and> list_all is_label (split_char (CHR ''.'') hostname)
        then Some hostname else None)"

section \<open>Rules\<close>

type_synonym port = "u16 option"

datatype rule = Rule_Host port | Rule_Addr cidr port | Rule_Name string port

datatype policy_error =
    Too_many_rules | Too_many_host_addresses | Entry_too_long | Config_too_large
  | Bad_wildcard | Bad_port | Unclosed_bracket | Ambiguous_ipv6 | Prefix_out_of_range | Wildcard_address | Not_a_name
  | Record_empty_name | Record_wildcard | Record_bad_name | Record_bad_addr | Duplicate_record
  | Rule_for_dns | Rule_for_gateway | Rule_opens_nothing | Too_many_grants

definition HOST_LOOPBACK_SYMBOL :: string where "HOST_LOOPBACK_SYMBOL = ''HOST_LOOPBACK''"

definition name_covers :: "string \<Rightarrow> string \<Rightarrow> bool" where
  "name_covers rule name =
     (case strip_prefix_str ''*.'' rule of
        None \<Rightarrow> rule = name
      | Some parent \<Rightarrow>
          (case strip_suffix_str parent name of
             None \<Rightarrow> False
           | Some sub \<Rightarrow> sub \<noteq> [] \<and> last sub = CHR ''.'' \<and> length sub > 1))"

definition parse_port :: "string \<Rightarrow> u16 option" where
  "parse_port text =
     (let text = trim text in
      case parse_uint 0xffff text of
        None \<Rightarrow> None
      | Some p \<Rightarrow> if p \<noteq> 0 \<and> strip_prefix_str ''+'' text = None then Some (word_of_nat p) else None)"

definition split_host_port :: "string \<Rightarrow> policy_error + (string \<times> port)" where
  "split_host_port entry =
     (let parse_rule_port = (\<lambda>text. ok_or Bad_port (parse_port text)) in
      case strip_prefix_str ''['' entry of
        Some rest \<Rightarrow>
          (case strip_suffix_str '']'' rest of
             Some host \<Rightarrow> Ok (host, None)
           | None \<Rightarrow> and_then (ok_or Unclosed_bracket (split_once '']:'' rest)) (\<lambda>(host, port_text).
               and_then (parse_rule_port port_text) (\<lambda>p. Ok (host, Some p))))
      | None \<Rightarrow>
          (case rsplit_once (CHR '':'') entry of
             None \<Rightarrow> Ok (entry, None)
           | Some (host, port_text) \<Rightarrow>
               if host \<noteq> [] \<and> CHR '':'' \<notin> set host
               then and_then (parse_rule_port port_text) (\<lambda>p. Ok (host, Some p))
               else if parse_ipv6 host \<noteq> None \<and> parse_port port_text \<noteq> None then Err Ambiguous_ipv6
               else Ok (entry, None)))"

definition classify_rule :: "string \<Rightarrow> port \<Rightarrow> policy_error + rule" where
  "classify_rule host p =
     (if eq_ignore_ascii_case host HOST_LOOPBACK_SYMBOL then Ok (Rule_Host p)
      else if parse_ip (case split_once ''/'' host of None \<Rightarrow> host | Some (addr, _) \<Rightarrow> addr) \<noteq> None
      then and_then (ok_or Prefix_out_of_range (cidr_parse host)) (\<lambda>cidr. Ok (Rule_Addr cidr p))
      else let (wildcard, name) = (case strip_prefix_str ''*.'' host of Some parent \<Rightarrow> (''*.'', parent) | None \<Rightarrow> ('''', host)) in
        if wildcard \<noteq> [] \<and> parse_ip name \<noteq> None then Err Wildcard_address
        else and_then (ok_or Not_a_name (normalize_hostname name)) (\<lambda>normalized. Ok (Rule_Name (wildcard @ normalized) p)))"

definition parse_allow :: "string \<Rightarrow> policy_error + rule" where
  "parse_allow entry =
     (let entry = trim entry;
          after_wildcard = (case strip_prefix_str ''*.'' entry of Some rest \<Rightarrow> rest | None \<Rightarrow> entry) in
      if CHR ''*'' \<in> set after_wildcard \<or> after_wildcard = [] then Err Bad_wildcard
      else and_then (split_host_port entry) (\<lambda>(host, p). classify_rule host p))"

record static_dns_record =
  dr_name :: string
  dr_addr :: string

definition parse_dns_record :: "static_dns_record \<Rightarrow> ip_addr list \<Rightarrow> policy_error + (string \<times> ip_addr list)" where
  "parse_dns_record rule gateway_addrs =
     (if trim (dr_name rule) = [] then Err Record_empty_name
      else if CHR ''*'' \<in> set (dr_name rule) then Err Record_wildcard
      else and_then (ok_or Record_bad_name (normalize_hostname (dr_name rule))) (\<lambda>key.
        let addr = trim (dr_addr rule) in
        if eq_ignore_ascii_case addr HOST_LOOPBACK_SYMBOL then Ok (key, gateway_addrs)
        else and_then (ok_or Record_bad_addr (parse_ip addr)) (\<lambda>ip. Ok (key, [to_canonical ip]))))"

definition is_host_loopback :: "ip_addr \<Rightarrow> bool" where
  "is_host_loopback address \<longleftrightarrow> address = V4 0x7f000001 \<or> address = V6 1"

text \<open>Reading a text that begins and ends with a printing character: there is nothing to trim, and a
  text that begins with no digit is no address.\<close>

lemma strip_any_None: "s \<noteq> [] \<Longrightarrow> list_all (\<lambda>p. p \<noteq> [] \<and> hd p \<noteq> hd s) ps \<Longrightarrow> strip_any ps s = None"
  by (induction ps) (auto simp: strip_any_def strip_prefix_str_def neq_Nil_conv)

lemma white_space_bytes:
  "p \<in> set white_space \<Longrightarrow> p \<noteq> [] \<and> (byte_of (hd p) < 33 \<or> 127 < byte_of (hd p)) \<and> (byte_of (last p) < 33 \<or> 127 < byte_of (last p))"
  by (auto simp: white_space_def byte_of_def)

lemma trim_plain:
  assumes "s \<noteq> []" "33 \<le> byte_of (hd s)" "byte_of (hd s) \<le> 127" "33 \<le> byte_of (last s)" "byte_of (last s) \<le> 127"
  shows "trim s = s"
proof -
  have "strip_any white_space s = None" "strip_any (map rev white_space) (rev s) = None"
    using assms by (auto intro!: strip_any_None simp: list_all_iff hd_rev dest!: white_space_bytes)
  then have "trim_with (length s) white_space s = s" "trim_with (length s) (map rev white_space) (rev s) = rev s"
    by (cases "length s"; simp)+
  then show ?thesis by (simp add: trim_def Let_def)
qed

lemma parse_ip_letter:
  assumes "digit 10 c = None" "digit 16 c = None" "c \<noteq> CHR '':''"
  shows "parse_ip (c # s) = None"
proof -
  have n: "read_number r m z l (c # s) = None" if "digit r c = None" for r m z l
    using that by (simp add: read_number_def)
  have "read_octets (Suc 3) 0 (c # s) = None" unfolding read_octets.simps read_separator_def using n assms(1) by simp
  then have v4: "read_ipv4_addr (c # s) = None" by (simp add: read_ipv4_addr_def)
  then have "read_groups (Suc 7) 0 (c # s) = ([], False, c # s)"
    unfolding read_groups.simps read_separator_def using n assms(2) by simp
  then have "read_groups 8 0 (c # s) = ([], False, c # s)" by simp
  then have "read_ipv6_addr (c # s) = None" using assms(3) by (simp add: read_ipv6_addr_def strip_prefix_str_def)
  then show ?thesis using v4 by (simp add: parse_ip_def parse_ipv6_def)
qed

end
