(* ===== verification/Box_Policy.thy ===== *)
theory Box_Policy
  imports Net_Rules
begin

text \<open>
  The egress policy of a box (\<open>crates/terra-policy/src/config.rs\<close> and \<open>runtime.rs\<close>): the grants a
  recipe gives, the names whose addresses are learned from DNS, and the decision on every peer. The
  cache of learned addresses is the \<open>LruCache\<close> of the \<open>lru\<close> crate, a parameter with the behaviour its
  documentation promises. The clock is an argument. The mutex is a critical section per operation.
\<close>

section \<open>Configuration\<close>

definition MAX_CONFIG_BYTES :: nat where "MAX_CONFIG_BYTES = 65536"
definition MAX_RULES :: nat where "MAX_RULES = 4096"
definition MAX_EXPANDED_RULES :: nat where "MAX_EXPANDED_RULES = 4096"
definition MAX_RULE_BYTES :: nat where "MAX_RULE_BYTES = 512"
definition MAX_HOST_ADDRESSES :: nat where "MAX_HOST_ADDRESSES = 1024"
definition MAX_RESOLVED_ADDRESSES :: nat where "MAX_RESOLVED_ADDRESSES = 32"
definition LEARNED_DNS_TTL_SECS :: u64 where "LEARNED_DNS_TTL_SECS = 60"

datatype network_mode = UnrestrictedPublic | Allowlist

record network =
  net_mode :: network_mode
  net_allow :: "string list"
  net_hosts :: "static_dns_record list"
  net_host_addresses :: "ip_addr list"

definition validate_limits :: "network \<Rightarrow> policy_error + unit" where
  "validate_limits net =
     (let strings = net_allow net @ concat (map (\<lambda>r. [dr_name r, dr_addr r]) (net_hosts net)) in
      if length (net_allow net) > MAX_RULES \<or> length (net_hosts net) > MAX_RULES then Err Too_many_rules
      else if length (net_host_addresses net) > MAX_HOST_ADDRESSES then Err Too_many_host_addresses
      else if list_ex (\<lambda>text. length text > MAX_RULE_BYTES) strings then Err Entry_too_long
      else if sum_list (map length strings) > MAX_CONFIG_BYTES then Err Config_too_large
      else Ok ())"

section \<open>The policy\<close>

type_synonym learned_key = "ip_addr \<times> port"

text \<open>
  The operations of the cache: \<open>get\<close> also marks the entry as used, \<open>lru_update\<close> is \<open>get_mut\<close> and the
  assignment through it.
\<close>

record 'c lru_ops =
  lru_new :: 'c
  lru_get :: "'c \<Rightarrow> learned_key \<Rightarrow> u64 option \<times> 'c"
  lru_update :: "'c \<Rightarrow> learned_key \<Rightarrow> (u64 \<Rightarrow> u64) \<Rightarrow> 'c option"
  lru_put :: "'c \<Rightarrow> learned_key \<Rightarrow> u64 \<Rightarrow> 'c"
  lru_pop :: "'c \<Rightarrow> learned_key \<Rightarrow> 'c"

record 'c box_policy =
  bp_mode :: network_mode
  bp_address_rules :: "(cidr \<times> port) list"
  bp_name_rules :: "(string \<times> port) list"
  bp_learned :: 'c
  bp_static_dns :: "(string \<times> ip_addr list) list"
  bp_host_grants :: "port list"
  bp_host_addresses :: "ip_addr list"
  bp_gateways :: "ip_addr list"

definition blocks_direct_dns :: "'c box_policy \<Rightarrow> bool" where
  "blocks_direct_dns p \<longleftrightarrow> bp_mode p = Allowlist \<or> bp_static_dns p \<noteq> []"

definition add_dns_record :: "static_dns_record \<Rightarrow> 'c box_policy \<Rightarrow> policy_error + 'c box_policy" where
  "add_dns_record record p =
     and_then (parse_dns_record record (bp_gateways p)) (\<lambda>(key, addrs).
       case btree_insert key addrs (bp_static_dns p) of
         (was, m) \<Rightarrow> if was then Err Duplicate_record else Ok (p\<lparr>bp_static_dns := m\<rparr>))"

definition rule_port :: "rule \<Rightarrow> port" where
  "rule_port r = (case r of Rule_Host p \<Rightarrow> p | Rule_Addr _ p \<Rightarrow> p | Rule_Name _ p \<Rightarrow> p)"

fun push_grants :: "port \<Rightarrow> ip_addr list \<Rightarrow> 'c box_policy \<Rightarrow> 'c box_policy" where
  "push_grants grant [] p = p"
| "push_grants grant (addr # addrs) p =
     push_grants grant addrs
       (if addr \<in> set (bp_gateways p) then p\<lparr>bp_host_grants := bp_host_grants p @ [grant]\<rparr>
        else p\<lparr>bp_address_rules := bp_address_rules p @ [(cidr_of_ip addr, grant)]\<rparr>)"

definition add_allow_rule :: "string \<Rightarrow> 'c box_policy \<Rightarrow> policy_error + 'c box_policy" where
  "add_allow_rule entry p =
     and_then (parse_allow entry) (\<lambda>rule.
       if rule_port rule = Some 53 \<and> blocks_direct_dns p then Err Rule_for_dns
       else case rule of
         Rule_Host grant \<Rightarrow> Ok (p\<lparr>bp_host_grants := bp_host_grants p @ [grant]\<rparr>)
       | Rule_Addr cidr grant \<Rightarrow>
           if list_ex (\<lambda>gateway. cidr_of_ip gateway = cidr) (bp_gateways p) then Err Rule_for_gateway
           else Ok (p\<lparr>bp_address_rules := bp_address_rules p @ [(cidr, grant)]\<rparr>)
       | Rule_Name name grant \<Rightarrow>
           (let resolved = concat (map snd (filter (\<lambda>(record, _). name_covers name record) (bp_static_dns p))) in
            if resolved = [] \<and> bp_mode p = UnrestrictedPublic then Err Rule_opens_nothing
            else let p' = push_grants grant resolved p in
              Ok (p'\<lparr>bp_name_rules := bp_name_rules p' @ [(name, grant)]\<rparr>)))"

fun add_dns_records :: "static_dns_record list \<Rightarrow> 'c box_policy \<Rightarrow> policy_error + 'c box_policy" where
  "add_dns_records [] p = Ok p"
| "add_dns_records (r # rs) p = and_then (add_dns_record r p) (add_dns_records rs)"

fun add_allow_rules :: "string list \<Rightarrow> 'c box_policy \<Rightarrow> policy_error + 'c box_policy" where
  "add_allow_rules [] p = Ok p"
| "add_allow_rules (entry # entries) p =
     and_then (add_allow_rule entry p) (\<lambda>p'.
       if length (bp_address_rules p') + length (bp_host_grants p') > MAX_EXPANDED_RULES then Err Too_many_grants
       else add_allow_rules entries p')"

definition with_clock :: "'c lru_ops \<Rightarrow> network \<Rightarrow> ip_addr list \<Rightarrow> policy_error + 'c box_policy" where
  "with_clock lru net gateway_addresses =
     and_then (validate_limits net) (\<lambda>_.
     and_then (add_dns_records (net_hosts net)
         \<lparr>bp_mode = net_mode net, bp_address_rules = [], bp_name_rules = [], bp_learned = lru_new lru,
          bp_static_dns = [], bp_host_grants = [], bp_host_addresses = map to_canonical (net_host_addresses net),
          bp_gateways = gateway_addresses\<rparr>)
       (add_allow_rules (net_allow net)))"

section \<open>Names\<close>

definition grants_for :: "'c box_policy \<Rightarrow> string \<Rightarrow> port list" where
  "grants_for p name = map snd (filter (\<lambda>(rule, _). name_covers rule name) (bp_name_rules p))"

definition static_answer :: "'c box_policy \<Rightarrow> string \<Rightarrow> ip_addr list option" where
  "static_answer p name = map_of (bp_static_dns p) name"

datatype name_lookup = Static "ip_addr list" | Resolve string | Denied

definition lookup_name :: "'c box_policy \<Rightarrow> string \<Rightarrow> name_lookup" where
  "lookup_name p name =
     (case normalize_hostname name of
        None \<Rightarrow> Denied
      | Some name \<Rightarrow>
          (case static_answer p name of
             Some ips \<Rightarrow> Static ips
           | None \<Rightarrow> if bp_mode p = Allowlist \<and> grants_for p name = [] then Denied else Resolve name))"

definition is_host_address :: "'c box_policy \<Rightarrow> ip_addr \<Rightarrow> bool" where
  "is_host_address p ip \<longleftrightarrow>
     (let nat64_target = (case ip of V6 ip \<Rightarrow> map_option V4 (nat64_well_known_v4 ip) | V4 _ \<Rightarrow> None) in
      ip \<in> set (bp_host_addresses p)
      \<or> (case nat64_target of None \<Rightarrow> False | Some target \<Rightarrow> target \<in> set (bp_host_addresses p)))"

fun accept_loop :: "'c box_policy \<Rightarrow> ip_addr list \<Rightarrow> ip_addr list \<Rightarrow> ip_addr list" where
  "accept_loop p [] accepted = accepted"
| "accept_loop p (ip # ips) accepted =
     accept_loop p ips
       (if \<not> is_floored ip \<and> ip \<notin> set (bp_gateways p) \<and> \<not> is_host_address p ip \<and> ip \<notin> set accepted
        then accepted @ [ip] else accepted)"

fun learn :: "'c lru_ops \<Rightarrow> u64 \<Rightarrow> learned_key list \<Rightarrow> 'c \<Rightarrow> 'c" where
  "learn lru expires_at [] learned = learned"
| "learn lru expires_at (key # keys) learned =
     learn lru expires_at keys
       (case lru_update lru learned key (\<lambda>previous. max previous expires_at) of
          Some learned' \<Rightarrow> learned'
        | None \<Rightarrow> lru_put lru learned key expires_at)"

definition accept_resolved ::
  "'c lru_ops \<Rightarrow> u64 \<Rightarrow> string \<Rightarrow> ip_addr list \<Rightarrow> 'c box_policy \<Rightarrow> ip_addr list \<times> 'c box_policy" where
  "accept_resolved lru now name addresses p =
     (case normalize_hostname name of
        None \<Rightarrow> ([], p)
      | Some name \<Rightarrow>
          (let grants = grants_for p name in
           if bp_mode p = Allowlist \<and> grants = [] then ([], p)
           else let accepted = accept_loop p (map to_canonical (take MAX_RESOLVED_ADDRESSES addresses)) [] in
             case bp_mode p of
               UnrestrictedPublic \<Rightarrow> (accepted, p)
             | Allowlist \<Rightarrow>
                 (let expires_at = saturating_add now (LEARNED_DNS_TTL_SECS * 1000000000);
                      keys = concat (map (\<lambda>ip. map (\<lambda>grant. (ip, grant)) grants) accepted)
                  in (accepted, p\<lparr>bp_learned := learn lru expires_at keys (bp_learned p)\<rparr>))))"

section \<open>Decisions\<close>

fun learned_until :: "'c lru_ops \<Rightarrow> u64 \<Rightarrow> learned_key list \<Rightarrow> 'c \<Rightarrow> u64 list \<times> 'c" where
  "learned_until lru now [] learned = ([], learned)"
| "learned_until lru now (key # keys) learned =
     (case lru_get lru learned key of
        (Some expires_at, learned') \<Rightarrow>
          if now < expires_at then map_prod ((#) expires_at) (\<lambda>c. c) (learned_until lru now keys learned')
          else learned_until lru now keys (lru_pop lru learned' key)
      | (None, learned') \<Rightarrow> learned_until lru now keys (lru_pop lru learned' key))"

definition max_of :: "u64 list \<Rightarrow> u64 option" where
  "max_of xs = (case xs of [] \<Rightarrow> None | x # xs \<Rightarrow> Some (foldl max x xs))"

definition allowed_until :: "'c lru_ops \<Rightarrow> u64 \<Rightarrow> ip_addr \<Rightarrow> port \<Rightarrow> 'c box_policy \<Rightarrow> u64 option \<times> 'c box_policy" where
  "allowed_until lru now ip port p =
     (let ip = to_canonical ip in
      if ip \<in> set (bp_gateways p) then (None, p)
      else if list_ex (\<lambda>(cidr, grant). cidr_contains cidr ip \<and> (grant = None \<or> grant = port)) (bp_address_rules p)
      then (Some (- 1), p)
      else if is_host_address p ip \<or> is_floored ip then (None, p)
      else case bp_mode p of
        UnrestrictedPublic \<Rightarrow> (Some (- 1), p)
      | Allowlist \<Rightarrow>
          (case learned_until lru now [(ip, None), (ip, port)] (bp_learned p) of
             (untils, learned) \<Rightarrow> (max_of untils, p\<lparr>bp_learned := learned\<rparr>)))"

definition authorized_until :: "'c lru_ops \<Rightarrow> u64 \<Rightarrow> ip_addr \<Rightarrow> u16 \<Rightarrow> 'c box_policy \<Rightarrow> u64 option \<times> 'c box_policy" where
  "authorized_until lru now ip port p =
     (if port = 53 \<and> blocks_direct_dns p then (None, p)
      else if is_host_loopback ip
        \<and> list_ex (\<lambda>grant. case grant of None \<Rightarrow> True | Some g \<Rightarrow> g = port) (bp_host_grants p)
      then (Some (- 1), p)
      else allowed_until lru now ip (Some port) p)"

definition authorizes :: "'c lru_ops \<Rightarrow> u64 \<Rightarrow> ip_addr \<Rightarrow> u16 \<Rightarrow> 'c box_policy \<Rightarrow> bool \<times> 'c box_policy" where
  "authorizes lru now ip port p = map_prod (\<lambda>r. r \<noteq> None) (\<lambda>p. p) (authorized_until lru now ip port p)"

definition allows :: "'c lru_ops \<Rightarrow> u64 \<Rightarrow> ip_addr \<Rightarrow> port \<Rightarrow> 'c box_policy \<Rightarrow> bool \<times> 'c box_policy" where
  "allows lru now ip port p = map_prod (\<lambda>r. r \<noteq> None) (\<lambda>p. p) (allowed_until lru now ip port p)"


section \<open>The cache\<close>

text \<open>
  What the documentation of the cache promises, over the map of its current entries: looking up and
  updating see the current entries, storing makes the entry current and may evict others, and nothing
  else appears.
\<close>

lemma map_leD: "f \<subseteq>\<^sub>m g \<Longrightarrow> f k = Some v \<Longrightarrow> g k = Some v"
  by (metis map_le_def domI)

lemma map_leI: "(\<And>k v. f k = Some v \<Longrightarrow> g k = Some v) \<Longrightarrow> f \<subseteq>\<^sub>m g"
  by (auto simp: map_le_def)

locale learned_cache =
  fixes lru :: "'c lru_ops" and view :: "'c \<Rightarrow> learned_key \<Rightarrow> u64 option"
  assumes new_empty: "view (lru_new lru) = Map.empty"
    and get_value: "fst (lru_get lru c k) = view c k"
    and get_keeps: "view (snd (lru_get lru c k)) = view c"
    and update_missing: "lru_update lru c k f = None \<Longrightarrow> view c k = None"
    and update_present: "lru_update lru c k f = Some c' \<Longrightarrow> \<exists>v. view c k = Some v \<and> view c' = (view c)(k \<mapsto> f v)"
    and put_value: "view (lru_put lru c k v) k = Some v"
    and put_others: "view (lru_put lru c k v) \<subseteq>\<^sub>m (view c)(k \<mapsto> v)"
    and pop_removes: "view (lru_pop lru c k) = (view c)(k := None)"
begin

lemma learn_sound:
  "view (learn lru expires_at keys c) k = Some v \<Longrightarrow> view c k = Some v \<or> k \<in> set keys \<and> v = expires_at"
proof (induction keys arbitrary: c)
  case (Cons key keys)
  let ?c = "case lru_update lru c key (\<lambda>previous. max previous expires_at) of
    Some learned' \<Rightarrow> learned' | None \<Rightarrow> lru_put lru c key expires_at"
  have step: "view ?c k = Some v \<Longrightarrow> view c k = Some v \<or> k = key \<and> v = expires_at"
  proof (cases "lru_update lru c key (\<lambda>previous. max previous expires_at)")
    case None
    then show "view ?c k = Some v \<Longrightarrow> view c k = Some v \<or> k = key \<and> v = expires_at"
      using map_leD [OF put_others, of c key expires_at k v] by (auto split: if_splits)
  next
    case (Some c')
    then show "view ?c k = Some v \<Longrightarrow> view c k = Some v \<or> k = key \<and> v = expires_at"
      using update_present [OF Some] by (auto simp: max_def split: if_splits)
  qed
  from Cons.prems have "view (learn lru expires_at keys ?c) k = Some v" by simp
  from Cons.IH [OF this] step show ?case by auto
qed simp

lemma learned_until_sound:
  "learned_until lru now keys c = (ts, c') \<Longrightarrow>
     view c' \<subseteq>\<^sub>m view c \<and> (\<forall>t \<in> set ts. now < t \<and> (\<exists>k \<in> set keys. view c k = Some t))"
proof (induction keys arbitrary: c ts)
  case (Cons key keys)
  obtain r c1 where g: "lru_get lru c key = (r, c1)" by fastforce
  have v: "r = view c key" "view c1 = view c" using get_value [of c key] get_keeps [of c key] g by simp_all
  have pop: "view (lru_pop lru c1 key) \<subseteq>\<^sub>m view c" by (simp add: pop_removes v(2) map_le_def)
  show ?case
  proof (cases "\<exists>t. r = Some t \<and> now < t")
    case True
    then obtain t where t: "r = Some t" "now < t" by blast
    obtain ts' where ts': "learned_until lru now keys c1 = (ts', c')" "ts = t # ts'"
      using Cons.prems g t by (cases "learned_until lru now keys c1") auto
    from Cons.IH [OF ts'(1)] v t ts'(2) show ?thesis by auto
  next
    case False
    then have "learned_until lru now keys (lru_pop lru c1 key) = (ts, c')"
      using Cons.prems g by (auto split: option.splits if_splits)
    note ih = Cons.IH [OF this]
    have "view c' \<subseteq>\<^sub>m view c" using ih pop by (blast intro: map_le_trans)
    moreover have "\<exists>k \<in> set (key # keys). view c k = Some t" if "t \<in> set ts" for t
      using ih that map_leD [OF pop] by fastforce
    ultimately show ?thesis using ih by blast
  qed
qed simp

end

text \<open>The cache as a bounded list of entries, the most recently used first.\<close>

definition recent_list :: "nat \<Rightarrow> (learned_key \<times> u64) list lru_ops" where
  "recent_list capacity =
     (let touch = (\<lambda>c k v. (k, v) # filter (\<lambda>e. fst e \<noteq> k) c) in
      \<lparr>lru_new = [],
       lru_get = (\<lambda>c k. case map_of c k of None \<Rightarrow> (None, c) | Some v \<Rightarrow> (Some v, touch c k v)),
       lru_update = (\<lambda>c k f. map_option (\<lambda>v. touch c k (f v)) (map_of c k)),
       lru_put = (\<lambda>c k v. take (Suc capacity) (touch c k v)),
       lru_pop = (\<lambda>c k. filter (\<lambda>e. fst e \<noteq> k) c)\<rparr>)"

lemma map_of_filter_key: "map_of (filter (\<lambda>e. fst e \<noteq> k) c) = (map_of c)(k := None)"
  by (induction c) auto

lemma map_of_take_le: "map_of (take n c) \<subseteq>\<^sub>m map_of c"
proof (induction c arbitrary: n)
  case (Cons e c)
  then show ?case by (cases n) (auto simp: map_le_def dom_def)
qed simp

interpretation recent: learned_cache "recent_list capacity" map_of
proof
  show "map_of (lru_put (recent_list capacity) c k v) \<subseteq>\<^sub>m (map_of c)(k \<mapsto> v)" for c k v
  proof (rule map_leI)
    fix j w
    assume a: "map_of (lru_put (recent_list capacity) c k v) j = Some w"
    show "((map_of c)(k \<mapsto> v)) j = Some w"
    proof (cases "j = k")
      case False
      then have "map_of (take capacity (filter (\<lambda>e. fst e \<noteq> k) c)) j = Some w"
        using a by (simp add: recent_list_def)
      from map_leD [OF map_of_take_le this] show ?thesis using False by (simp add: map_of_filter_key)
    qed (use a in \<open>simp add: recent_list_def\<close>)
  qed
qed (auto simp: recent_list_def Let_def map_of_filter_key fun_eq_iff split: option.splits)



section \<open>What a recipe opens\<close>

definition grant_covers :: "port \<Rightarrow> u16 \<Rightarrow> bool" where
  "grant_covers grant p \<longleftrightarrow> grant = None \<or> grant = Some p"

text \<open>The addresses that the static records of the recipe publish under the names a rule covers.\<close>

definition published :: "network \<Rightarrow> ip_addr list \<Rightarrow> string \<Rightarrow> ip_addr \<Rightarrow> bool" where
  "published net gateways rule addr \<longleftrightarrow>
     (\<exists>record \<in> set (net_hosts net). \<exists>key addrs. parse_dns_record record gateways = Ok (key, addrs)
        \<and> name_covers rule key \<and> addr \<in> set addrs)"

text \<open>An entry of the recipe opens an address and port, the host's loopback, or a name.\<close>

definition opens_address :: "network \<Rightarrow> ip_addr list \<Rightarrow> ip_addr \<Rightarrow> u16 \<Rightarrow> bool" where
  "opens_address net gateways ip p \<longleftrightarrow>
     (\<exists>entry \<in> set (net_allow net). \<exists>grant. grant_covers grant p \<and>
        ((\<exists>cidr. parse_allow entry = Ok (Rule_Addr cidr grant) \<and> cidr_contains cidr ip)
         \<or> (\<exists>rule addr. parse_allow entry = Ok (Rule_Name rule grant) \<and> published net gateways rule addr
              \<and> cidr_contains (cidr_of_ip addr) ip)))"

definition opens_host :: "network \<Rightarrow> ip_addr list \<Rightarrow> u16 \<Rightarrow> bool" where
  "opens_host net gateways p \<longleftrightarrow>
     (\<exists>entry \<in> set (net_allow net). \<exists>grant. grant_covers grant p \<and>
        (parse_allow entry = Ok (Rule_Host grant)
         \<or> (\<exists>rule addr. parse_allow entry = Ok (Rule_Name rule grant) \<and> published net gateways rule addr \<and> addr \<in> set gateways)))"

definition opens_name :: "network \<Rightarrow> string \<Rightarrow> port \<Rightarrow> bool" where
  "opens_name net name grant \<longleftrightarrow>
     (\<exists>entry \<in> set (net_allow net). \<exists>rule. parse_allow entry = Ok (Rule_Name rule grant) \<and> name_covers rule name)"

section \<open>Built policies\<close>

text \<open>What every policy built from a prefix of the recipe's entries satisfies.\<close>

definition built_from :: "network \<Rightarrow> ip_addr list \<Rightarrow> static_dns_record list \<Rightarrow> string list \<Rightarrow> 'c box_policy \<Rightarrow> bool" where
  "built_from net gateways records entries p \<longleftrightarrow>
     bp_mode p = net_mode net \<and> bp_gateways p = gateways
     \<and> bp_host_addresses p = map to_canonical (net_host_addresses net)
     \<and> (records \<noteq> [] \<longrightarrow> bp_static_dns p \<noteq> [])
     \<and> (\<forall>(key, addrs) \<in> set (bp_static_dns p). \<exists>record \<in> set records. parse_dns_record record gateways = Ok (key, addrs))
     \<and> (\<forall>(cidr, grant) \<in> set (bp_address_rules p). \<exists>entry \<in> set entries.
          parse_allow entry = Ok (Rule_Addr cidr grant)
          \<or> (\<exists>rule addr. parse_allow entry = Ok (Rule_Name rule grant) \<and> published net gateways rule addr \<and> cidr = cidr_of_ip addr))
     \<and> (\<forall>grant \<in> set (bp_host_grants p). \<exists>entry \<in> set entries.
          parse_allow entry = Ok (Rule_Host grant)
          \<or> (\<exists>rule addr. parse_allow entry = Ok (Rule_Name rule grant) \<and> published net gateways rule addr \<and> addr \<in> set gateways))
     \<and> (\<forall>(rule, grant) \<in> set (bp_name_rules p). \<exists>entry \<in> set entries. parse_allow entry = Ok (Rule_Name rule grant))"

lemma add_dns_record_built:
  assumes "built_from net gateways records [] p" and "add_dns_record r p = Ok p'"
    and "bp_address_rules p = [] \<and> bp_host_grants p = [] \<and> bp_name_rules p = []"
  shows "built_from net gateways (records @ [r]) [] p' \<and> bp_learned p' = bp_learned p
    \<and> bp_address_rules p' = [] \<and> bp_host_grants p' = [] \<and> bp_name_rules p' = []"
proof -
  obtain key addrs where a: "parse_dns_record r (bp_gateways p) = Ok (key, addrs)"
    and b: "(case btree_insert key addrs (bp_static_dns p) of
       (was, m) \<Rightarrow> if was then Err Duplicate_record else Ok (p\<lparr>bp_static_dns := m\<rparr>)) = Ok p'"
    using assms(2) by (auto simp: add_dns_record_def result_simps)
  define m where "m = snd (btree_insert key addrs (bp_static_dns p))"
  have "p' = p\<lparr>bp_static_dns := m\<rparr>" using b by (auto simp: m_def split: prod.splits if_splits)
  with btree_insert_set [of key addrs "bp_static_dns p", folded m_def] a assms(1,3) show ?thesis
    unfolding built_from_def by fastforce
qed

lemma add_dns_records_built:
  "built_from net gateways records [] p \<Longrightarrow> add_dns_records rs p = Ok p' \<Longrightarrow>
   bp_address_rules p = [] \<and> bp_host_grants p = [] \<and> bp_name_rules p = [] \<Longrightarrow>
   built_from net gateways (records @ rs) [] p' \<and> bp_learned p' = bp_learned p"
proof (induction rs arbitrary: p records)
  case (Cons r rs)
  obtain p1 where p1: "add_dns_record r p = Ok p1" "add_dns_records rs p1 = Ok p'"
    using Cons.prems(2) by (auto simp: result_simps)
  from add_dns_record_built [OF Cons.prems(1) p1(1) Cons.prems(3)] Cons.IH [of "records @ [r]" p1] p1(2)
  show ?case by simp
qed simp

lemma push_grants_built:
  assumes "\<forall>addr \<in> set addrs. published net gateways rule addr"
    and "parse_allow entry = Ok (Rule_Name rule grant)" and "entry \<in> set entries" and "built_from net gateways records entries p"
  shows "built_from net gateways records entries (push_grants grant addrs p) \<and> bp_learned (push_grants grant addrs p) = bp_learned p"
  using assms(1,4)
proof (induction addrs arbitrary: p)
  case (Cons addr addrs)
  define p1 where "p1 = (if addr \<in> set (bp_gateways p) then p\<lparr>bp_host_grants := bp_host_grants p @ [grant]\<rparr>
        else p\<lparr>bp_address_rules := bp_address_rules p @ [(cidr_of_ip addr, grant)]\<rparr>)"
  have "built_from net gateways records entries p1" "bp_learned p1 = bp_learned p"
    using Cons.prems assms(2,3) unfolding built_from_def p1_def by (auto 0 4)
  then show ?case using Cons.IH [of p1] Cons.prems(1) by (simp add: p1_def)
qed simp


lemma add_allow_rule_built:
  assumes p: "built_from net gateways (net_hosts net) entries p" and a: "add_allow_rule entry p = Ok p'"
  shows "built_from net gateways (net_hosts net) (entries @ [entry]) p' \<and> bp_learned p' = bp_learned p"
proof -
  have p1: "built_from net gateways (net_hosts net) (entries @ [entry]) p"
    using p unfolding built_from_def by fastforce
  obtain rule where r: "parse_allow entry = Ok rule" using a by (auto simp: add_allow_rule_def result_simps)
  show ?thesis
  proof (cases rule)
    case (Rule_Host grant)
    then have "p' = p\<lparr>bp_host_grants := bp_host_grants p @ [grant]\<rparr>"
      using a r by (auto simp: add_allow_rule_def split: if_splits)
    then show ?thesis using p1 r Rule_Host unfolding built_from_def by (auto 0 4)
  next
    case (Rule_Addr cidr grant)
    then have "p' = p\<lparr>bp_address_rules := bp_address_rules p @ [(cidr, grant)]\<rparr>"
      using a r by (auto simp: add_allow_rule_def split: if_splits)
    then show ?thesis using p1 r Rule_Addr unfolding built_from_def by (auto 0 4)
  next
    case (Rule_Name name grant)
    define resolved where "resolved = concat (map snd (filter (\<lambda>(record, _). name_covers name record) (bp_static_dns p)))"
    let ?p = "push_grants grant resolved p"
    have p': "p' = ?p\<lparr>bp_name_rules := bp_name_rules ?p @ [(name, grant)]\<rparr>"
      using a r Rule_Name by (auto simp: add_allow_rule_def resolved_def Let_def split: if_splits)
    have "\<forall>addr \<in> set resolved. published net gateways name addr"
      using p unfolding built_from_def resolved_def published_def by fastforce
    from push_grants_built [OF this _ _ p1, of entry] r Rule_Name
    have "built_from net gateways (net_hosts net) (entries @ [entry]) ?p \<and> bp_learned ?p = bp_learned p" by simp
    then show ?thesis using r Rule_Name unfolding p' built_from_def by (auto 0 4)
  qed
qed

lemma add_allow_rules_built:
  "built_from net gateways (net_hosts net) entries p \<Longrightarrow> add_allow_rules es p = Ok p' \<Longrightarrow>
   built_from net gateways (net_hosts net) (entries @ es) p' \<and> bp_learned p' = bp_learned p"
proof (induction es arbitrary: p entries)
  case (Cons entry es)
  obtain p1 where p1: "add_allow_rule entry p = Ok p1" "add_allow_rules es p1 = Ok p'"
    using Cons.prems(2) by (auto simp: result_simps split: if_splits)
  from add_allow_rule_built [OF Cons.prems(1) p1(1)] Cons.IH [of "entries @ [entry]" p1] p1(2)
  show ?case by simp
qed simp

lemma with_clock_built:
  assumes "with_clock lru net gateways = Ok p"
  shows "built_from net gateways (net_hosts net) (net_allow net) p \<and> bp_learned p = lru_new lru"
proof -
  define p0 where "p0 = \<lparr>bp_mode = net_mode net, bp_address_rules = [], bp_name_rules = [], bp_learned = lru_new lru,
          bp_static_dns = [], bp_host_grants = [], bp_host_addresses = map to_canonical (net_host_addresses net),
          bp_gateways = gateways\<rparr>"
  obtain p1 where p1: "add_dns_records (net_hosts net) p0 = Ok p1" "add_allow_rules (net_allow net) p1 = Ok p"
    using assms by (auto simp: with_clock_def p0_def result_simps)
  have "built_from net gateways [] [] p0" by (simp add: built_from_def p0_def)
  from add_dns_records_built [OF this p1(1)] have "built_from net gateways (net_hosts net) [] p1 \<and> bp_learned p1 = lru_new lru"
    by (simp add: p0_def)
  with add_allow_rules_built [OF _ p1(2), of net gateways "[]"] show ?thesis by simp
qed

section \<open>Runs\<close>

text \<open>The uses the gateway makes of a policy, each at a time of the clock.\<close>

datatype policy_event = Resolved string "ip_addr list" | Asked ip_addr u16 | Checked ip_addr port

fun policy_step :: "'c lru_ops \<Rightarrow> u64 \<times> policy_event \<Rightarrow> 'c box_policy \<Rightarrow> 'c box_policy" where
  "policy_step lru (now, Resolved name addresses) p = snd (accept_resolved lru now name addresses p)"
| "policy_step lru (now, Asked ip port) p = snd (authorized_until lru now ip port p)"
| "policy_step lru (now, Checked ip port) p = snd (allows lru now ip port p)"

definition policy_run :: "'c lru_ops \<Rightarrow> (u64 \<times> policy_event) list \<Rightarrow> 'c box_policy \<Rightarrow> 'c box_policy" where
  "policy_run lru events p = fold (policy_step lru) events p"

text \<open>The resolution of a name that a rule covers lets an address be learned for the time to live.\<close>

definition taught :: "(string \<Rightarrow> port \<Rightarrow> bool) \<Rightarrow> ip_addr \<Rightarrow> port \<Rightarrow> u64 \<Rightarrow> u64 \<times> policy_event \<Rightarrow> bool" where
  "taught opened ip grant until = (\<lambda>(now, event).
     case event of
       Resolved name addresses \<Rightarrow>
         (\<exists>normalized. normalize_hostname name = Some normalized \<and> opened normalized grant)
         \<and> ip \<in> set (map to_canonical (take 32 addresses)) \<and> until = saturating_add now 60000000000
     | _ \<Rightarrow> False)"

definition same_rules :: "'c box_policy \<Rightarrow> 'c box_policy \<Rightarrow> bool" where
  "same_rules p q \<longleftrightarrow> q = p\<lparr>bp_learned := bp_learned q\<rparr>"

lemma same_rules_trans: "same_rules p q \<Longrightarrow> same_rules q r \<Longrightarrow> same_rules p r"
  unfolding same_rules_def by (cases p, cases q, cases r) simp

lemma accept_loop_from: "set (accept_loop p ips accepted) \<subseteq> set accepted \<union> set ips"
  by (induction p ips accepted rule: accept_loop.induct) auto

definition learned_ok ::
  "('c \<Rightarrow> learned_key \<Rightarrow> u64 option) \<Rightarrow> (u64 \<times> policy_event) list \<Rightarrow> 'c box_policy \<Rightarrow> bool" where
  "learned_ok view history p \<longleftrightarrow> (\<forall>ip grant v. view (bp_learned p) (ip, grant) = Some v \<longrightarrow>
     (\<exists>event \<in> set history. taught (\<lambda>n g. g \<in> set (grants_for p n)) ip grant v event))"

context learned_cache
begin

lemma accept_resolved_learned:
  assumes "learned_ok view history p"
  shows "learned_ok view (history @ [(now, Resolved name addresses)]) (snd (accept_resolved lru now name addresses p))
    \<and> same_rules p (snd (accept_resolved lru now name addresses p))"
proof (cases "\<exists>n. normalize_hostname name = Some n \<and> bp_mode p = Allowlist \<and> grants_for p n \<noteq> []")
  case True
  then obtain n where n: "normalize_hostname name = Some n" "bp_mode p = Allowlist" "grants_for p n \<noteq> []" by blast
  define accepted where "accepted = accept_loop p (map to_canonical (take MAX_RESOLVED_ADDRESSES addresses)) []"
  define keys where "keys = concat (map (\<lambda>ip. map (\<lambda>grant. (ip, grant)) (grants_for p n)) accepted)"
  define q where "q = p\<lparr>bp_learned := learn lru (saturating_add now 60000000000) keys (bp_learned p)\<rparr>"
  have res: "snd (accept_resolved lru now name addresses p) = q"
    using n by (simp add: accept_resolved_def q_def keys_def accepted_def LEARNED_DNS_TTL_SECS_def Let_def)
  have g: "grants_for q = grants_for p" by (simp add: q_def grants_for_def fun_eq_iff)
  have "\<exists>event \<in> set (history @ [(now, Resolved name addresses)]). taught (\<lambda>n g. g \<in> set (grants_for p n)) ip grant v event"
    if "view (bp_learned q) (ip, grant) = Some v" for ip grant v
  proof -
    from that have "view (bp_learned p) (ip, grant) = Some v \<or> (ip, grant) \<in> set keys \<and> v = saturating_add now 60000000000"
      by (intro learn_sound) (simp add: q_def)
    then show ?thesis
    proof
      assume "view (bp_learned p) (ip, grant) = Some v"
      then show ?thesis using assms unfolding learned_ok_def by auto
    next
      assume k: "(ip, grant) \<in> set keys \<and> v = saturating_add now 60000000000"
      then have "ip \<in> set (map to_canonical (take 32 addresses))" "grant \<in> set (grants_for p n)"
        using accept_loop_from [of p "map to_canonical (take MAX_RESOLVED_ADDRESSES addresses)" "[]"]
        by (auto simp: keys_def accepted_def MAX_RESOLVED_ADDRESSES_def)
      then show ?thesis using k n(1) by (auto simp: taught_def)
    qed
  qed
  then show ?thesis unfolding res learned_ok_def g by (simp add: same_rules_def q_def)
next
  case False
  then have "snd (accept_resolved lru now name addresses p) = p"
    by (auto simp: accept_resolved_def Let_def split: option.split network_mode.split)
  then show ?thesis using assms by (auto simp: learned_ok_def same_rules_def)
qed

lemma learned_ok_less:
  assumes "learned_ok view history p" and "view c \<subseteq>\<^sub>m view (bp_learned p)"
  shows "learned_ok view (history @ more_history) (p\<lparr>bp_learned := c\<rparr>)"
proof -
  have "grants_for (p\<lparr>bp_learned := c\<rparr>) = grants_for p" by (simp add: grants_for_def fun_eq_iff)
  then show ?thesis
    using assms(1) map_leD [OF assms(2)] unfolding learned_ok_def by fastforce
qed

lemma allowed_until_sound:
  assumes "learned_ok view history p" and "allowed_until lru now ip port p = (r, p')"
  shows "learned_ok view (history @ es) p' \<and> same_rules p p' \<and>
    (\<forall>t. r = Some t \<longrightarrow> to_canonical ip \<notin> set (bp_gateways p) \<and>
       ((\<exists>(cidr, grant) \<in> set (bp_address_rules p). cidr_contains cidr (to_canonical ip) \<and> (grant = None \<or> grant = port))
        \<or> \<not> is_host_address p (to_canonical ip) \<and> \<not> is_floored (to_canonical ip)
          \<and> (bp_mode p = UnrestrictedPublic
             \<or> now < t \<and> (\<exists>grant. (grant = None \<or> grant = port) \<and>
                 (\<exists>event \<in> set history. taught (\<lambda>n g. g \<in> set (grants_for p n)) (to_canonical ip) grant t event)))))"
proof -
  let ?ip = "to_canonical ip"
  have keep: "learned_ok view (history @ es) p" "same_rules p p"
    using learned_ok_less [OF assms(1), of "bp_learned p" es] by (simp_all add: same_rules_def)
  consider (gw) "?ip \<in> set (bp_gateways p)"
    | (addr) "?ip \<notin> set (bp_gateways p)"
        "list_ex (\<lambda>(cidr, grant). cidr_contains cidr ?ip \<and> (grant = None \<or> grant = port)) (bp_address_rules p)"
    | (floor) "?ip \<notin> set (bp_gateways p)"
        "\<not> list_ex (\<lambda>(cidr, grant). cidr_contains cidr ?ip \<and> (grant = None \<or> grant = port)) (bp_address_rules p)"
        "is_host_address p ?ip \<or> is_floored ?ip"
    | (public) "?ip \<notin> set (bp_gateways p)" "\<not> (is_host_address p ?ip \<or> is_floored ?ip)" "bp_mode p = UnrestrictedPublic"
        "\<not> list_ex (\<lambda>(cidr, grant). cidr_contains cidr ?ip \<and> (grant = None \<or> grant = port)) (bp_address_rules p)"
    | (learned) "?ip \<notin> set (bp_gateways p)" "\<not> (is_host_address p ?ip \<or> is_floored ?ip)" "bp_mode p = Allowlist"
        "\<not> list_ex (\<lambda>(cidr, grant). cidr_contains cidr ?ip \<and> (grant = None \<or> grant = port)) (bp_address_rules p)"
    by (cases "bp_mode p") blast+
  then show ?thesis
  proof cases
    case gw
    then show ?thesis using assms(2) keep by (simp add: allowed_until_def)
  next
    case addr
    then show ?thesis using assms(2) keep by (auto simp: allowed_until_def list_ex_iff)
  next
    case floor
    then show ?thesis using assms(2) keep by (auto simp: allowed_until_def)
  next
    case public
    then show ?thesis using assms(2) keep by (simp add: allowed_until_def)
  next
    case learned
    obtain ts c where l: "learned_until lru now [(?ip, None), (?ip, port)] (bp_learned p) = (ts, c)" by fastforce
    have rp: "r = max_of ts" "p' = p\<lparr>bp_learned := c\<rparr>" using assms(2) learned l by (simp_all add: allowed_until_def)
    note s = learned_until_sound [OF l]
    have "t \<in> set ts" if "max_of ts = Some t" for t
    proof -
      have "foldl max x xs \<in> insert x (set xs)" for x and xs :: "u64 list"
        by (induction xs arbitrary: x) (auto simp: max_def split: if_splits)
      then show ?thesis using that by (auto simp: max_of_def split: list.splits)
    qed
    then have entry: "now < t \<and> (\<exists>grant. (grant = None \<or> grant = port) \<and> view (bp_learned p) (?ip, grant) = Some t)"
      if "r = Some t" for t
    proof -
      have "t \<in> set ts" using \<open>\<And>t. max_of ts = Some t \<Longrightarrow> t \<in> set ts\<close> rp(1) that by simp
      then have "now < t" "view (bp_learned p) (?ip, None) = Some t \<or> view (bp_learned p) (?ip, port) = Some t"
        using s by simp_all
      then show ?thesis by blast
    qed
    have source: "\<exists>event \<in> set history. taught (\<lambda>n g. g \<in> set (grants_for p n)) ?ip grant t event"
      if "view (bp_learned p) (?ip, grant) = Some t" for grant t
      using assms(1) that unfolding learned_ok_def by blast
    have until: "now < t \<and> (\<exists>grant. (grant = None \<or> grant = port) \<and>
        (\<exists>event \<in> set history. taught (\<lambda>n g. g \<in> set (grants_for p n)) ?ip grant t event))" if "r = Some t" for t
    proof -
      from entry [OF that] obtain grant where g: "grant = None \<or> grant = port" "view (bp_learned p) (?ip, grant) = Some t"
        by (elim conjE exE)
      from entry [OF that] have "now < t" ..
      moreover note g(1) source [OF g(2)]
      ultimately show ?thesis by (intro conjI exI)
    qed
    have keep': "learned_ok view (history @ es) p'" "same_rules p p'"
      using learned_ok_less [OF assms(1), of c es] s rp(2) by (simp_all add: same_rules_def)
    show ?thesis
      by (intro conjI allI impI disjI2 keep' until learned(1) conjunct1 [OF learned(2) [unfolded de_Morgan_disj]]
          conjunct2 [OF learned(2) [unfolded de_Morgan_disj]])
  qed
qed

lemma policy_step_learned:
  assumes "learned_ok view history p"
  shows "learned_ok view (history @ [event]) (policy_step lru event p) \<and> same_rules p (policy_step lru event p)"
proof -
  obtain now ev where e: "event = (now, ev)" by (cases event)
  have keep: "learned_ok view (history @ [event]) p" "same_rules p p"
    using learned_ok_less [OF assms, of "bp_learned p" "[event]"] by (simp_all add: same_rules_def)
  have al: "learned_ok view (history @ [event]) (snd (allowed_until lru now ip port p))
      \<and> same_rules p (snd (allowed_until lru now ip port p))" for ip port
  proof -
    obtain r p' where a: "allowed_until lru now ip port p = (r, p')" by fastforce
    note sound = allowed_until_sound [OF assms a, of "[event]"]
    show ?thesis using conjunct1 [OF sound] conjunct1 [OF conjunct2 [OF sound]] a by simp
  qed
  show ?thesis
  proof (cases ev)
    case (Resolved name addresses)
    then show ?thesis using accept_resolved_learned [OF assms, of now name addresses] e by simp
  next
    case (Asked ip port)
    then show ?thesis using keep al [of ip "Some port"] e by (auto simp: authorized_until_def)
  next
    case (Checked ip port)
    then show ?thesis using al [of ip port] e by (simp add: allows_def)
  qed
qed

lemma policy_run_learned:
  assumes "learned_ok view history p"
  shows "learned_ok view (history @ events) (policy_run lru events p) \<and> same_rules p (policy_run lru events p)"
  using assms
proof (induction events arbitrary: history p)
  case Nil
  then show ?case by (simp add: policy_run_def same_rules_def)
next
  case (Cons event events)
  from policy_step_learned [OF Cons.prems, of event] Cons.IH [of "history @ [event]" "policy_step lru event p"]
  show ?case by (auto simp: policy_run_def elim: same_rules_trans)
qed

end


section \<open>Egress\<close>

lemma opens_address_built:
  assumes "built_from net gateways (net_hosts net) (net_allow net) p" and "(cidr, grant) \<in> set (bp_address_rules p)"
    and "cidr_contains cidr ip" and "grant = None \<or> grant = Some port"
  shows "opens_address net gateways ip port"
proof -
  obtain entry where "entry \<in> set (net_allow net)"
    "parse_allow entry = Ok (Rule_Addr cidr grant)
     \<or> (\<exists>rule addr. parse_allow entry = Ok (Rule_Name rule grant) \<and> published net gateways rule addr \<and> cidr = cidr_of_ip addr)"
    using assms(1,2) unfolding built_from_def by fast
  then show ?thesis using assms(3,4) unfolding opens_address_def grant_covers_def by blast
qed

lemma opens_host_built:
  assumes "built_from net gateways (net_hosts net) (net_allow net) p" and "grant \<in> set (bp_host_grants p)"
    and "grant = None \<or> grant = Some port"
  shows "opens_host net gateways port"
proof -
  obtain entry where "entry \<in> set (net_allow net)"
    "parse_allow entry = Ok (Rule_Host grant)
     \<or> (\<exists>rule addr. parse_allow entry = Ok (Rule_Name rule grant) \<and> published net gateways rule addr \<and> addr \<in> set gateways)"
    using assms(1,2) unfolding built_from_def by fast
  then show ?thesis using assms(3) unfolding opens_host_def grant_covers_def by blast
qed

lemma opens_name_built:
  assumes "built_from net gateways (net_hosts net) (net_allow net) p" and "grant \<in> set (grants_for p name)"
  shows "opens_name net name grant"
  using assms unfolding built_from_def opens_name_def grants_for_def by fastforce

lemma taught_mono:
  "taught opened ip grant t event \<Longrightarrow> (\<And>n g. opened n g \<Longrightarrow> opened' n g) \<Longrightarrow> taught opened' ip grant t event"
  by (auto simp: taught_def split: policy_event.splits)

lemma taught_opens:
  assumes "built_from net gateways (net_hosts net) (net_allow net) p"
    and "\<exists>grant. (grant = None \<or> grant = Some port) \<and>
       (\<exists>event \<in> set events. taught (\<lambda>n g. g \<in> set (grants_for p n)) ip grant t event)"
  shows "\<exists>grant. grant_covers grant port \<and> (\<exists>event \<in> set events. taught (opens_name net) ip grant t event)"
proof -
  obtain grant event where g: "grant = None \<or> grant = Some port" "event \<in> set events"
    and "taught (\<lambda>n g. g \<in> set (grants_for p n)) ip grant t event"
    using assms(2) by (elim exE conjE bexE)
  from this(3) have "taught (opens_name net) ip grant t event"
    by (rule taught_mono) (rule opens_name_built [OF assms(1)])
  with g show ?thesis by (intro exI conjI bexI) (simp_all add: grant_covers_def)
qed

lemma built_same_rules:
  "built_from net gateways records entries p \<Longrightarrow> same_rules p q \<Longrightarrow> built_from net gateways records entries q"
  unfolding same_rules_def by (erule ssubst) (simp add: built_from_def)

lemma allowed_only_as_granted:
  assumes "learned_cache lru view" and built: "built_from net gateways (net_hosts net) (net_allow net) p"
    and "learned_ok view events p" and "allowed_until lru now ip (Some port) p = (Some t, p')"
  shows "to_canonical ip \<notin> set gateways
    \<and> (opens_address net gateways (to_canonical ip) port
       \<or> \<not> is_floored (to_canonical ip) \<and> to_canonical ip \<notin> to_canonical ` set (net_host_addresses net)
         \<and> (net_mode net = UnrestrictedPublic
            \<or> now < t \<and> (\<exists>grant. grant_covers grant port
                \<and> (\<exists>event \<in> set events. taught (opens_name net) (to_canonical ip) grant t event))))"
proof -
  have facts: "bp_mode p = net_mode net" "bp_gateways p = gateways"
    "bp_host_addresses p = map to_canonical (net_host_addresses net)"
    using built by (simp_all add: built_from_def)
  from learned_cache.allowed_until_sound [OF assms(1,3,4), of "[]", unfolded facts]
  have gw: "to_canonical ip \<notin> set gateways"
    and why: "(\<exists>(cidr, grant) \<in> set (bp_address_rules p). cidr_contains cidr (to_canonical ip) \<and> (grant = None \<or> grant = Some port))
      \<or> \<not> is_host_address p (to_canonical ip) \<and> \<not> is_floored (to_canonical ip)
        \<and> (net_mode net = UnrestrictedPublic \<or> now < t \<and> (\<exists>grant. (grant = None \<or> grant = Some port)
            \<and> (\<exists>event \<in> set events. taught (\<lambda>n g. g \<in> set (grants_for p n)) (to_canonical ip) grant t event)))"
    by simp_all
  show ?thesis
  proof (cases "opens_address net gateways (to_canonical ip) port")
    case True
    with gw show ?thesis by simp
  next
    case False
    then have other: "\<not> is_host_address p (to_canonical ip)" "\<not> is_floored (to_canonical ip)"
      "net_mode net = UnrestrictedPublic \<or> now < t \<and> (\<exists>grant. (grant = None \<or> grant = Some port)
          \<and> (\<exists>event \<in> set events. taught (\<lambda>n g. g \<in> set (grants_for p n)) (to_canonical ip) grant t event))"
      using why opens_address_built [OF built] by (auto 4 0)
    have host: "to_canonical ip \<notin> to_canonical ` set (net_host_addresses net)"
      using other(1) by (simp add: is_host_address_def facts)
    from other(3) have "net_mode net = UnrestrictedPublic \<or> now < t \<and> (\<exists>grant. grant_covers grant port
        \<and> (\<exists>event \<in> set events. taught (opens_name net) (to_canonical ip) grant t event))"
      using taught_opens [OF built, of port events "to_canonical ip" t] by argo
    with other(2) host gw show ?thesis by simp
  qed
qed

text \<open>C1: A policy built from a recipe lets the guest reach a peer only as the recipe says, whatever names
  were resolved and peers asked before. DNS servers are reachable directly only in the public mode
  without static records. The peer is either on the loopback of the host and an entry opens the host for
  the port, or it is no gateway address and one of two things holds. An entry opens its address and port,
  by an address or network that covers it or by a published name; such an entry may also cover an address
  on the loopback of the host. Or it is a public address and none of the host's own; in the allowlist mode
  such an address also was in a resolution of a name that an entry opens for the port, at most the time
  to live ago, and the permission ends when that time is over.\<close>

theorem egress_only_as_granted:
  assumes "learned_cache lru view" and "with_clock lru net gateways = Ok p0"
    and "policy_run lru events p0 = p" and "authorized_until lru now ip port p = (Some t, p')"
  shows "(port = 53 \<longrightarrow> net_mode net = UnrestrictedPublic \<and> net_hosts net = [])
    \<and> (is_host_loopback ip \<and> opens_host net gateways port
       \<or> to_canonical ip \<notin> set gateways
         \<and> (opens_address net gateways (to_canonical ip) port
            \<or> \<not> is_floored (to_canonical ip) \<and> to_canonical ip \<notin> to_canonical ` set (net_host_addresses net)
              \<and> (net_mode net = UnrestrictedPublic
                 \<or> now < t \<and> (\<exists>grant. grant_covers grant port
                     \<and> (\<exists>event \<in> set events. taught (opens_name net) (to_canonical ip) grant t event)))))"
proof -
  note built0 = with_clock_built [OF assms(2)]
  have "learned_ok view [] p0"
    using built0 learned_cache.new_empty [OF assms(1)] by (simp add: learned_ok_def)
  from learned_cache.policy_run_learned [OF assms(1) this, of events] assms(3)
  have learned: "learned_ok view events p" and same: "same_rules p0 p" by simp_all
  have built: "built_from net gateways (net_hosts net) (net_allow net) p"
    using built_same_rules built0 same by blast
  then have facts: "bp_mode p = net_mode net" "net_hosts net \<noteq> [] \<Longrightarrow> bp_static_dns p \<noteq> []"
    by (simp_all add: built_from_def)
  have dns: "port = 53 \<longrightarrow> net_mode net = UnrestrictedPublic \<and> net_hosts net = []"
    using assms(4) facts by (cases "net_mode net") (auto simp: authorized_until_def blocks_direct_dns_def split: if_splits)
  show ?thesis
  proof (cases "is_host_loopback ip \<and> list_ex (\<lambda>grant. case grant of None \<Rightarrow> True | Some g \<Rightarrow> g = port) (bp_host_grants p)")
    case True
    then obtain grant where g: "grant \<in> set (bp_host_grants p)" "case grant of None \<Rightarrow> True | Some g \<Rightarrow> g = port"
      by (auto simp: list_ex_iff)
    from g(2) have "grant = None \<or> grant = Some port" by (auto split: option.splits)
    with g(1) show ?thesis using dns True opens_host_built [OF built] by blast
  next
    case False
    then have "allowed_until lru now ip (Some port) p = (Some t, p')"
      using assms(4) by (simp add: authorized_until_def split: if_splits)
    from allowed_only_as_granted [OF assms(1) built learned this] dns show ?thesis by simp
  qed
qed

text \<open>An example: a recipe that opens one name on one port.\<close>

lemma trim_example: "trim ''rust.org:443'' = ''rust.org:443''" by (rule trim_plain) (simp_all add: byte_of_def)
lemma trim_port: "trim ''443'' = ''443''" by (rule trim_plain) (simp_all add: byte_of_def)
lemma example_no_address: "parse_ip ''rust.org'' = None"
  by (rule parse_ip_letter) (simp_all add: digit_def byte_of_def)

lemma example_name: "normalize_hostname ''rust.org'' = Some ''rust.org''" by code_simp

lemma example_rule: "parse_allow ''rust.org:443'' = Ok (Rule_Name ''rust.org'' (Some 443))"
proof -
  have sp: "strip_prefix_str ''*.'' ''rust.org:443'' = None" "strip_prefix_str ''['' ''rust.org:443'' = None"
     "strip_prefix_str ''*.'' ''rust.org'' = None" "split_once ''/'' ''rust.org'' = None"
     "rsplit_once (CHR '':'') ''rust.org:443'' = Some (''rust.org'', ''443'')" 
     "eq_ignore_ascii_case ''rust.org'' HOST_LOOPBACK_SYMBOL = False"
    by code_simp+
  have "parse_uint 65535 ''443'' = Some 443" by (simp add: parse_uint_def strip_prefix_str_def digit_def byte_of_def)
  then have "parse_port ''443'' = Some 443" by (simp add: parse_port_def trim_port strip_prefix_str_def)
  then have h: "split_host_port ''rust.org:443'' = Ok (''rust.org'', Some 443)" by (simp add: split_host_port_def sp)
  have "classify_rule ''rust.org'' (Some 443) = Ok (Rule_Name ''rust.org'' (Some 443))"
    by (simp add: classify_rule_def sp example_no_address example_name del: split_once.simps)
  with h show ?thesis by (simp add: parse_allow_def trim_example sp)
qed

definition example_net :: network where
  "example_net = \<lparr>net_mode = Allowlist, net_allow = [''rust.org:443''], net_hosts = [], net_host_addresses = []\<rparr>"

definition example_policy :: "(learned_key \<times> u64) list \<Rightarrow> (learned_key \<times> u64) list box_policy" where
  "example_policy learned = \<lparr>bp_mode = Allowlist, bp_address_rules = [], bp_name_rules = [(''rust.org'', Some 443)],
     bp_learned = learned, bp_static_dns = [], bp_host_grants = [], bp_host_addresses = [], bp_gateways = [V4 0x64600001]\<rparr>"

lemma example_built: "with_clock (recent_list 4095) example_net [V4 0x64600001] = Ok (example_policy [])"
  by (simp add: with_clock_def example_net_def validate_limits_def MAX_RULES_def MAX_HOST_ADDRESSES_def MAX_RULE_BYTES_def
      MAX_CONFIG_BYTES_def MAX_EXPANDED_RULES_def add_allow_rule_def example_rule rule_port_def blocks_direct_dns_def
      example_policy_def recent_list_def)

lemma example_address: "\<not> is_floored (V4 0x01010101)" by code_simp

lemma example_grants: "grants_for (example_policy c) ''rust.org'' = [Some 443]"
  by (simp add: grants_for_def example_policy_def name_covers_def strip_prefix_str_def)

lemma example_learned:
  "policy_run (recent_list 4095) [(0, Resolved ''rust.org'' [V4 0x01010101])] (example_policy [])
   = example_policy [((V4 0x01010101, Some 443), 60000000000)]"
proof -
  have "accept_loop (example_policy []) [V4 0x01010101] [] = [V4 0x01010101]"
    using example_address by (simp add: example_policy_def is_host_address_def)
  moreover have "saturating_add 0 (LEARNED_DNS_TTL_SECS * 1000000000) = (60000000000 :: u64)"
    by (simp add: saturating_add_def LEARNED_DNS_TTL_SECS_def)
  ultimately show ?thesis
    by (simp add: policy_run_def accept_resolved_def example_name example_grants MAX_RESOLVED_ADDRESSES_def recent_list_def
        del: accept_loop.simps) (simp add: example_policy_def)
qed

theorem egress_only_as_granted_witness:
  "\<exists>p p0 p'. with_clock (recent_list 4095) example_net [V4 0x64600001] = Ok p0
     \<and> policy_run (recent_list 4095) [(0, Resolved ''rust.org'' [V4 0x01010101])] p0 = p
     \<and> authorized_until (recent_list 4095) 5 (V4 0x01010101) 443 p = (Some 60000000000, p')
     \<and> (opens_address example_net [V4 0x64600001] (V4 0x01010101) 443
        \<or> \<not> is_floored (V4 0x01010101)
          \<and> (\<exists>grant. grant_covers grant 443
              \<and> taught (opens_name example_net) (V4 0x01010101) grant 60000000000 (0, Resolved ''rust.org'' [V4 0x01010101])))"
proof -
  obtain p' where a: "authorized_until (recent_list 4095) 5 (V4 0x01010101) 443
      (example_policy [((V4 0x01010101, Some 443), 60000000000)]) = (Some 60000000000, p')"
    using example_address by (simp add: authorized_until_def allowed_until_def is_host_loopback_def is_host_address_def
        example_policy_def recent_list_def max_of_def)
  from egress_only_as_granted [OF recent.learned_cache_axioms example_built example_learned a] example_built example_learned a
  show ?thesis by (simp add: is_host_loopback_def example_net_def)
qed

end
