(* ===== verification/Net_Frames.thy ===== *)
theory Net_Frames
  imports Net_Address
begin

text \<open>
  The binary frames that the sockets of the guest kernel exchange with the network front end
  (\<open>crates/terra-protocol/src/application.rs\<close>, with the error codes of \<open>socket.rs\<close>): the field writers and
  readers, the frames of both directions, and the bounded reassembly of a stream whose reads split and
  combine frames at will. A writer takes the bytes written so far and returns them extended; a reader
  takes the bytes left and returns its value with the rest.
\<close>

section \<open>Limits\<close>

definition FRAME_HEADER_BYTES :: nat where "FRAME_HEADER_BYTES = 8"
definition ENDPOINT_BYTES :: nat where "ENDPOINT_BYTES = 20"
definition UDP_SEGMENT_FIELD_BYTES :: nat where "UDP_SEGMENT_FIELD_BYTES = 4"
definition ENDPOINT_IPV4 :: u8 where "ENDPOINT_IPV4 = 4"
definition ENDPOINT_IPV6 :: u8 where "ENDPOINT_IPV6 = 6"
definition UDP_FRAME_OVERHEAD_BYTES :: nat where
  "UDP_FRAME_OVERHEAD_BYTES = FRAME_HEADER_BYTES + ENDPOINT_BYTES + UDP_SEGMENT_FIELD_BYTES"
definition MAX_DATAGRAM_SEGMENTS :: nat where "MAX_DATAGRAM_SEGMENTS = 64"
definition MAX_NETWORK_DATAGRAM_BYTES :: nat where "MAX_NETWORK_DATAGRAM_BYTES = 4096"
definition MAX_FRAME_BYTES :: nat where "MAX_FRAME_BYTES = 65536"
definition MAX_UDP_RUN_BYTES :: nat where "MAX_UDP_RUN_BYTES = MAX_FRAME_BYTES - UDP_FRAME_OVERHEAD_BYTES"
definition MAX_KEEPALIVE_SECS :: u16 where "MAX_KEEPALIVE_SECS = 32767"
definition MAX_KEEPALIVE_PROBES :: u16 where "MAX_KEEPALIVE_PROBES = 127"
definition TCP_OPEN_INLINE_URGENT_FLAG :: u16 where "TCP_OPEN_INLINE_URGENT_FLAG = 1"
definition TCP_OPEN_KEEPALIVE_FLAG :: u16 where "TCP_OPEN_KEEPALIVE_FLAG = 2"

lemmas frame_limits = FRAME_HEADER_BYTES_def ENDPOINT_BYTES_def UDP_SEGMENT_FIELD_BYTES_def
  UDP_FRAME_OVERHEAD_BYTES_def MAX_DATAGRAM_SEGMENTS_def MAX_NETWORK_DATAGRAM_BYTES_def MAX_FRAME_BYTES_def
  MAX_UDP_RUN_BYTES_def

section \<open>Socket errors\<close>

datatype socket_error = Sock_AccessDenied | Sock_InvalidArgument | Sock_InvalidState | Sock_LimitExceeded
  | Sock_Cancelled | Sock_ConnectionRefused | Sock_ConnectionReset | Sock_TimedOut | Sock_NameUnresolvable
  | Sock_ResolverBusy | Sock_DatagramTooLarge | Sock_Closed | Sock_Io | Sock_NotReady | Sock_Protocol

primrec socket_error_code :: "socket_error \<Rightarrow> u16" where
  "socket_error_code Sock_AccessDenied = 1"
| "socket_error_code Sock_InvalidArgument = 2"
| "socket_error_code Sock_InvalidState = 3"
| "socket_error_code Sock_LimitExceeded = 4"
| "socket_error_code Sock_Cancelled = 5"
| "socket_error_code Sock_ConnectionRefused = 6"
| "socket_error_code Sock_ConnectionReset = 7"
| "socket_error_code Sock_TimedOut = 8"
| "socket_error_code Sock_NameUnresolvable = 9"
| "socket_error_code Sock_ResolverBusy = 10"
| "socket_error_code Sock_DatagramTooLarge = 11"
| "socket_error_code Sock_Closed = 12"
| "socket_error_code Sock_Io = 13"
| "socket_error_code Sock_NotReady = 14"
| "socket_error_code Sock_Protocol = 15"

text \<open>\<open>Error::decode\<close> reads the variant with \<open>postcard::from_bytes\<close>, a parameter.\<close>

definition socket_error_decode :: "(bytes \<Rightarrow> socket_error option) \<Rightarrow> u16 \<Rightarrow> socket_error option" where
  "socket_error_decode from_bytes v =
     (case checked_sub v 1 of
        None \<Rightarrow> None
      | Some i \<Rightarrow> if unat i < 256 then from_bytes [ucast i] else None)"

section \<open>Frames\<close>

datatype opcode = Op_TcpOpen | Op_UdpSend | Op_Opened | Op_UdpDatagram | Op_UdpError

datatype frame_error = FrameError

primrec opcode_code :: "opcode \<Rightarrow> u16" where
  "opcode_code Op_TcpOpen = 0x01"
| "opcode_code Op_UdpSend = 0x03"
| "opcode_code Op_Opened = 0x101"
| "opcode_code Op_UdpDatagram = 0x103"
| "opcode_code Op_UdpError = 0x104"

definition opcode_try_from :: "u16 \<Rightarrow> frame_error + opcode" where
  "opcode_try_from v =
     (if v = 0x01 then Ok Op_TcpOpen else if v = 0x03 then Ok Op_UdpSend
      else if v = 0x101 then Ok Op_Opened else if v = 0x103 then Ok Op_UdpDatagram
      else if v = 0x104 then Ok Op_UdpError else Err FrameError)"

record tcp_keepalive =
  ka_idle_secs :: u16
  ka_interval_secs :: u16
  ka_probe_count :: u16

definition tcp_keepalive_new :: "u16 \<Rightarrow> u16 \<Rightarrow> u16 \<Rightarrow> tcp_keepalive option" where
  "tcp_keepalive_new idle_secs interval_secs probe_count =
     (if 1 \<le> idle_secs \<and> idle_secs \<le> MAX_KEEPALIVE_SECS
         \<and> 1 \<le> interval_secs \<and> interval_secs \<le> MAX_KEEPALIVE_SECS
         \<and> 1 \<le> probe_count \<and> probe_count \<le> MAX_KEEPALIVE_PROBES
      then Some \<lparr>ka_idle_secs = idle_secs, ka_interval_secs = interval_secs, ka_probe_count = probe_count\<rparr>
      else None)"

record tcp_open_options =
  to_inline_urgent :: bool
  to_keepalive :: "tcp_keepalive option"

text \<open>\<open>std::net::SocketAddr\<close>: an IPv6 address also has its flow information and its scope.\<close>

datatype socket_addr = SockV4 u32 u16 | SockV6 u128 u16 u32 u32

record udp_run =
  ur_peer :: socket_addr
  ur_segment :: u16
  ur_bytes :: bytes

datatype guest_frame = TcpOpen socket_addr tcp_open_options | UdpSend udp_run

datatype host_frame = Opened "socket_error + unit" | UdpDatagram udp_run | UdpError socket_addr socket_error

primrec guest_opcode :: "guest_frame \<Rightarrow> opcode" where
  "guest_opcode (TcpOpen peer options) = Op_TcpOpen"
| "guest_opcode (UdpSend run) = Op_UdpSend"

primrec host_opcode :: "host_frame \<Rightarrow> opcode" where
  "host_opcode (Opened outcome) = Op_Opened"
| "host_opcode (UdpDatagram run) = Op_UdpDatagram"
| "host_opcode (UdpError peer error) = Op_UdpError"

definition is_valid_segmented_run :: "nat \<Rightarrow> nat \<Rightarrow> bool" where
  "is_valid_segmented_run len segment \<longleftrightarrow>
     1 \<le> segment \<and> segment \<le> MAX_NETWORK_DATAGRAM_BYTES \<and> segment < len \<and> len \<le> MAX_UDP_RUN_BYTES
     \<and> (len + segment - 1) div segment \<le> MAX_DATAGRAM_SEGMENTS"

definition is_valid_udp_run :: "nat \<Rightarrow> nat \<Rightarrow> bool" where
  "is_valid_udp_run len segment =
     (if segment = 0 then len \<le> MAX_NETWORK_DATAGRAM_BYTES else is_valid_segmented_run len segment)"

definition extends_udp_run :: "nat \<Rightarrow> nat \<Rightarrow> nat \<Rightarrow> bool" where
  "extends_udp_run run_bytes segment len \<longleftrightarrow>
     len \<noteq> 0 \<and> len \<le> segment \<and> run_bytes mod segment = 0 \<and> is_valid_segmented_run (run_bytes + len) segment"

definition check_udp_run :: "bytes \<Rightarrow> u16 \<Rightarrow> frame_error + unit" where
  "check_udp_run bs segment = (if is_valid_udp_run (length bs) (unat segment) then Ok () else Err FrameError)"

section \<open>Writers\<close>

definition v6_octets :: "u128 \<Rightarrow> bytes" where
  "v6_octets ip = be_bytes 16 (unat ip)"

definition put_u16 :: "u16 \<Rightarrow> bytes \<Rightarrow> bytes" where
  "put_u16 v out = out @ to_le_u16 v"

definition put_reserved :: "bytes \<Rightarrow> bytes" where
  "put_reserved out = put_u16 0 out"

definition put_peer :: "socket_addr \<Rightarrow> bytes \<Rightarrow> (frame_error + unit) \<times> bytes" where
  "put_peer peer out =
     (case (case peer of
              SockV4 ip port \<Rightarrow> Some (ENDPOINT_IPV4, port, v4_octets ip @ replicate 12 0)
            | SockV6 ip port flowinfo scope_id \<Rightarrow>
                if flowinfo = 0 \<and> scope_id = 0 then Some (ENDPOINT_IPV6, port, v6_octets ip) else None) of
        None \<Rightarrow> (Err FrameError, out)
      | Some (family, port, address) \<Rightarrow> (Ok (), put_u16 port (out @ [family, 0]) @ address))"

definition put_tcp_open :: "socket_addr \<Rightarrow> tcp_open_options \<Rightarrow> bytes \<Rightarrow> (frame_error + unit) \<times> bytes" where
  "put_tcp_open peer options out =
     (let flags = (if to_inline_urgent options then TCP_OPEN_INLINE_URGENT_FLAG else 0) in
      case (case to_keepalive options of
              Some keepalive \<Rightarrow> (flags OR TCP_OPEN_KEEPALIVE_FLAG,
                [ka_probe_count keepalive, ka_idle_secs keepalive, ka_interval_secs keepalive])
            | None \<Rightarrow> (flags, [0, 0, 0])) of
        (flags, values) \<Rightarrow> put_peer peer (fold put_u16 values (put_u16 flags out)))"

definition put_status :: "socket_error option \<Rightarrow> bytes \<Rightarrow> bytes" where
  "put_status error out = put_reserved (put_u16 (case error of None \<Rightarrow> 0 | Some e \<Rightarrow> socket_error_code e) out)"

definition put_udp_body :: "udp_run \<Rightarrow> bytes \<Rightarrow> (frame_error + unit) \<times> bytes" where
  "put_udp_body run out =
     (let bs = ur_bytes run;
          segment = (if length bs > unat (ur_segment run) then ur_segment run else 0) in
      case check_udp_run bs segment of
        Inl e \<Rightarrow> (Err e, out)
      | Inr _ \<Rightarrow>
          (case put_peer (ur_peer run) out of
             (Inl e, out) \<Rightarrow> (Err e, out)
           | (Inr _, out) \<Rightarrow> (Ok (), put_reserved (put_u16 segment out) @ bs)))"

definition append_frame ::
  "bytes \<Rightarrow> opcode \<Rightarrow> (bytes \<Rightarrow> (frame_error + unit) \<times> bytes) \<Rightarrow> (frame_error + unit) \<times> bytes" where
  "append_frame out op write_payload =
     (let start = length out in
      case write_payload (out @ replicate FRAME_HEADER_BYTES 0) of
        (written, out1) \<Rightarrow>
          (let written = (if is_ok written \<and> length out1 - start > MAX_FRAME_BYTES then Err FrameError else written) in
           case written of
             Inl e \<Rightarrow> (Err e, take start out1)
           | Inr _ \<Rightarrow>
               (let len = (word_of_nat (length out1 - start - FRAME_HEADER_BYTES) :: u32);
                    out2 = splice out1 start (to_le_u16 (opcode_code op))
                in (Ok (), splice out2 (start + 4) (to_le_u32 len)))))"

definition guest_append :: "guest_frame \<Rightarrow> bytes \<Rightarrow> (frame_error + unit) \<times> bytes" where
  "guest_append f out = append_frame out (guest_opcode f) (\<lambda>writer.
     case f of TcpOpen peer options \<Rightarrow> put_tcp_open peer options writer | UdpSend run \<Rightarrow> put_udp_body run writer)"

definition host_append :: "host_frame \<Rightarrow> bytes \<Rightarrow> (frame_error + unit) \<times> bytes" where
  "host_append f out = append_frame out (host_opcode f) (\<lambda>writer.
     case f of
       Opened outcome \<Rightarrow> (Ok (), put_status (case outcome of Inl e \<Rightarrow> Some e | Inr _ \<Rightarrow> None) writer)
     | UdpDatagram run \<Rightarrow> put_udp_body run writer
     | UdpError peer error \<Rightarrow> put_peer peer (put_status (Some error) writer))"

definition guest_encode :: "guest_frame \<Rightarrow> frame_error + bytes" where
  "guest_encode f = (case guest_append f [] of (Inl e, _) \<Rightarrow> Err e | (Inr _, frame) \<Rightarrow> Ok frame)"

definition host_encode :: "host_frame \<Rightarrow> frame_error + bytes" where
  "host_encode f = (case host_append f [] of (Inl e, _) \<Rightarrow> Err e | (Inr _, frame) \<Rightarrow> Ok frame)"

section \<open>Readers\<close>

definition v4_of_octets :: "bytes \<Rightarrow> u32" where
  "v4_of_octets bs = word_of_nat (of_be bs)"

definition v6_of_octets :: "bytes \<Rightarrow> u128" where
  "v6_of_octets bs = word_of_nat (of_be bs)"

definition take_array :: "nat \<Rightarrow> bytes \<Rightarrow> frame_error + (bytes \<times> bytes)" where
  "take_array n body = (if length body < n then Err FrameError else Ok (take n body, drop n body))"

definition body_u16 :: "bytes \<Rightarrow> frame_error + (u16 \<times> bytes)" where
  "body_u16 body = and_then (take_array 2 body) (\<lambda>(bs, rest). Ok (from_le_u16 bs, rest))"

definition body_u32 :: "bytes \<Rightarrow> frame_error + (u32 \<times> bytes)" where
  "body_u32 body = and_then (take_array 4 body) (\<lambda>(bs, rest). Ok (from_le_u32 bs, rest))"

definition body_reserved :: "bytes \<Rightarrow> frame_error + bytes" where
  "body_reserved body = and_then (body_u16 body) (\<lambda>(v, rest). if v = 0 then Ok rest else Err FrameError)"

definition body_peer :: "bytes \<Rightarrow> frame_error + (socket_addr \<times> bytes)" where
  "body_peer body =
     and_then (take_array 2 body) (\<lambda>(head, body).
     if head ! 1 \<noteq> 0 then Err FrameError
     else and_then (body_u16 body) (\<lambda>(port, body).
     and_then (take_array 16 body) (\<lambda>(address, body).
     if head ! 0 = ENDPOINT_IPV4 \<and> drop 4 address = replicate 12 0
     then Ok (SockV4 (v4_of_octets (take 4 address)) port, body)
     else if head ! 0 = ENDPOINT_IPV6 then Ok (SockV6 (v6_of_octets address) port 0 0, body)
     else Err FrameError)))"

definition body_tcp_open :: "bytes \<Rightarrow> frame_error + ((socket_addr \<times> tcp_open_options) \<times> bytes)" where
  "body_tcp_open body =
     and_then (body_u16 body) (\<lambda>(flags, body).
     and_then (body_u16 body) (\<lambda>(probe_count, body).
     and_then (body_u16 body) (\<lambda>(idle_secs, body).
     and_then (body_u16 body) (\<lambda>(interval_secs, body).
     if flags AND NOT (TCP_OPEN_INLINE_URGENT_FLAG OR TCP_OPEN_KEEPALIVE_FLAG) \<noteq> 0 then Err FrameError
     else and_then
       (if flags AND TCP_OPEN_KEEPALIVE_FLAG = 0
        then if [probe_count, idle_secs, interval_secs] \<noteq> [0, 0, 0] then Err FrameError else Ok None
        else and_then (ok_or FrameError (tcp_keepalive_new idle_secs interval_secs probe_count)) (\<lambda>k. Ok (Some k)))
       (\<lambda>keepalive.
       let options = \<lparr>to_inline_urgent = (flags AND TCP_OPEN_INLINE_URGENT_FLAG \<noteq> 0), to_keepalive = keepalive\<rparr> in
       and_then (body_peer body) (\<lambda>(peer, body). Ok ((peer, options), body)))))))"

definition body_status :: "(bytes \<Rightarrow> socket_error option) \<Rightarrow> bytes \<Rightarrow> frame_error + (socket_error option \<times> bytes)" where
  "body_status from_bytes body =
     and_then (body_u16 body) (\<lambda>(status, body).
     and_then (body_reserved body) (\<lambda>body.
     if status = 0 then Ok (None, body)
     else and_then (ok_or FrameError (socket_error_decode from_bytes status)) (\<lambda>e. Ok (Some e, body))))"

definition read_udp_body :: "bytes \<Rightarrow> frame_error + (udp_run \<times> bytes)" where
  "read_udp_body body =
     and_then (body_peer body) (\<lambda>(peer, body).
     and_then (body_u16 body) (\<lambda>(segment, body).
     and_then (body_reserved body) (\<lambda>body.
     and_then (check_udp_run body segment) (\<lambda>_.
     Ok (\<lparr>ur_peer = peer, ur_segment = segment, ur_bytes = body\<rparr>, [])))))"

definition read_header :: "bytes \<Rightarrow> frame_error + (opcode \<times> nat)" where
  "read_header bs =
     and_then (body_u16 bs) (\<lambda>(code, header).
     and_then (opcode_try_from code) (\<lambda>op.
     and_then (body_reserved header) (\<lambda>header.
     and_then (body_u32 header) (\<lambda>(len, header).
     if unat len > MAX_FRAME_BYTES - FRAME_HEADER_BYTES then Err FrameError else Ok (op, unat len)))))"

definition frame_len :: "bytes \<Rightarrow> frame_error + nat" where
  "frame_len header = and_then (read_header header) (\<lambda>(_, n). Ok (FRAME_HEADER_BYTES + n))"

definition decode_frame ::
  "bytes \<Rightarrow> (opcode \<Rightarrow> bytes \<Rightarrow> frame_error + ('f \<times> bytes)) \<Rightarrow> frame_error + ('f \<times> nat) option" where
  "decode_frame bs decode_payload =
     (if length bs < FRAME_HEADER_BYTES then Ok None
      else and_then (read_header (take FRAME_HEADER_BYTES bs)) (\<lambda>(op, len).
        case slice (drop FRAME_HEADER_BYTES bs) 0 len of
          None \<Rightarrow> Ok None
        | Some payload \<Rightarrow>
            and_then (decode_payload op payload) (\<lambda>(frame, body).
            if body = [] then Ok (Some (frame, FRAME_HEADER_BYTES + len)) else Err FrameError)))"

definition guest_decode_payload :: "opcode \<Rightarrow> bytes \<Rightarrow> frame_error + (guest_frame \<times> bytes)" where
  "guest_decode_payload op body =
     (case op of
        Op_UdpSend \<Rightarrow> and_then (read_udp_body body) (\<lambda>(run, body). Ok (UdpSend run, body))
      | Op_TcpOpen \<Rightarrow> and_then (body_tcp_open body) (\<lambda>((peer, options), body). Ok (TcpOpen peer options, body))
      | _ \<Rightarrow> Err FrameError)"

definition host_decode_payload ::
  "(bytes \<Rightarrow> socket_error option) \<Rightarrow> opcode \<Rightarrow> bytes \<Rightarrow> frame_error + (host_frame \<times> bytes)" where
  "host_decode_payload from_bytes op body =
     (case op of
        Op_UdpDatagram \<Rightarrow> and_then (read_udp_body body) (\<lambda>(run, body). Ok (UdpDatagram run, body))
      | Op_Opened \<Rightarrow> and_then (body_status from_bytes body) (\<lambda>(status, body).
          Ok (Opened (case status of None \<Rightarrow> Ok () | Some e \<Rightarrow> Err e), body))
      | Op_UdpError \<Rightarrow> and_then (body_status from_bytes body) (\<lambda>(status, body).
          and_then (ok_or FrameError status) (\<lambda>error.
          and_then (body_peer body) (\<lambda>(peer, body). Ok (UdpError peer error, body))))
      | _ \<Rightarrow> Err FrameError)"

definition guest_decode :: "bytes \<Rightarrow> frame_error + (guest_frame \<times> nat) option" where
  "guest_decode bs = decode_frame bs guest_decode_payload"

definition host_decode :: "(bytes \<Rightarrow> socket_error option) \<Rightarrow> bytes \<Rightarrow> frame_error + (host_frame \<times> nat) option" where
  "host_decode from_bytes bs = decode_frame bs (host_decode_payload from_bytes)"

section \<open>Reassembly\<close>

record stream_decoder =
  sd_bytes :: bytes
  sd_start :: nat
  sd_end :: nat

definition stream_decoder_default :: stream_decoder where
  "stream_decoder_default = \<lparr>sd_bytes = replicate MAX_FRAME_BYTES 0, sd_start = 0, sd_end = 0\<rparr>"

text \<open>
  \<open>read_buffer\<close> makes room and returns the free bytes with the decoder; the reader overwrites the first of
  them (\<open>fill_buffer\<close>) and commits their number. A range outside the buffer panics.
\<close>

definition read_buffer :: "stream_decoder \<Rightarrow> (bytes \<times> stream_decoder) option" where
  "read_buffer d =
     (case (if sd_end d = length (sd_bytes d) \<and> sd_start d > 0
            then map_option (\<lambda>piece. d\<lparr>sd_bytes := splice (sd_bytes d) 0 piece, sd_start := 0, sd_end := sd_end d - sd_start d\<rparr>)
                   (slice (sd_bytes d) (sd_start d) (sd_end d))
            else Some d) of
        None \<Rightarrow> None
      | Some d \<Rightarrow> map_option (\<lambda>free. (free, d)) (slice (sd_bytes d) (sd_end d) (length (sd_bytes d))))"

definition fill_buffer :: "bytes \<Rightarrow> stream_decoder \<Rightarrow> stream_decoder" where
  "fill_buffer data d = d\<lparr>sd_bytes := splice (sd_bytes d) (sd_end d) data\<rparr>"

definition commit :: "nat \<Rightarrow> stream_decoder \<Rightarrow> stream_decoder" where
  "commit count d = d\<lparr>sd_end := sd_end d + count\<rparr>"

definition next_frame ::
  "(bytes \<Rightarrow> frame_error + ('f \<times> nat) option) \<Rightarrow> stream_decoder \<Rightarrow> ((frame_error + 'f option) \<times> stream_decoder) option" where
  "next_frame decode d =
     (case slice (sd_bytes d) (sd_start d) (sd_end d) of
        None \<Rightarrow> None
      | Some bs \<Rightarrow>
          (case decode bs of
             Inl e \<Rightarrow> Some (Err e, d)
           | Inr None \<Rightarrow> Some (Ok None, d)
           | Inr (Some (frame, len)) \<Rightarrow>
               (let d = d\<lparr>sd_start := sd_start d + len\<rparr> in
                Some (Ok (Some frame), if sd_start d = sd_end d then d\<lparr>sd_start := 0, sd_end := 0\<rparr> else d))))"

definition decoder_is_empty :: "stream_decoder \<Rightarrow> bool" where
  "decoder_is_empty d \<longleftrightarrow> sd_start d = sd_end d"

section \<open>Fields are read back\<close>

lemma v4_octets_be: "v4_octets ip = be_bytes 4 (unat ip)"
proof -
  have "(ucast (drop_bit k ip) :: u8) = word_of_nat (unat ip div 2 ^ k mod 256)" for k
    by (simp add: word_unat_eq_iff unat_piece unat_of_nat_eq)
  from this [of 24] this [of 16] this [of 8] this [of 0]
  have "v4_octets ip = map word_of_nat [unat ip div 16777216 mod 256, unat ip div 65536 mod 256, unat ip div 256 mod 256, unat ip mod 256]"
    by (simp add: v4_octets_def)
  moreover have "le_bytes 4 n = map word_of_nat [n mod 256, n div 256 mod 256, n div 65536 mod 256, n div 16777216 mod 256]" for n
  proof -
    have four: "(4 :: nat) = Suc (Suc (Suc (Suc 0)))" by simp
    show ?thesis unfolding four by (simp add: div_mult2_eq [symmetric])
  qed
  ultimately show ?thesis by (simp add: be_bytes_def)
qed

lemma octets_read [simp]:
  "v4_of_octets (v4_octets a) = a" "v6_of_octets (v6_octets b) = b"
  "length (v4_octets a) = 4" "length (v6_octets b) = 16"
  using unat_lt_pow [of a] unat_lt_pow [of b]
  by (simp_all add: v4_octets_be v4_of_octets_def v6_octets_def v6_of_octets_def)

lemma octets_written:
  "length bs = 4 \<Longrightarrow> v4_octets (v4_of_octets bs) = bs" "length cs = 16 \<Longrightarrow> v6_octets (v6_of_octets cs) = cs"
  using of_be_bound [of bs] of_be_bound [of cs] be_bytes_of_be [of bs] be_bytes_of_be [of cs]
  by (simp_all add: v4_octets_be v4_of_octets_def v6_octets_def v6_of_octets_def unat_of_nat_eq)

lemma take_array_append [simp]: "length w = n \<Longrightarrow> take_array n (w @ rest) = Ok (w, rest)"
  by (simp add: take_array_def)

lemma take_array_Ok: "take_array n b = Ok (w, rest) \<longleftrightarrow> b = w @ rest \<and> length w = n"
  by (auto simp: take_array_def split: if_splits)

lemma body_u16_append [simp]: "body_u16 (to_le_u16 v @ rest) = Ok (v, rest)"
  by (simp add: body_u16_def)

lemma body_u16_Ok: "body_u16 b = Ok (v, rest) \<longleftrightarrow> b = to_le_u16 v @ rest"
  by (auto simp: body_u16_def take_array_Ok to_from_le_u16 result_simps)

lemma body_u32_append [simp]: "body_u32 (to_le_u32 v @ rest) = Ok (v, rest)"
  by (simp add: body_u32_def)

lemma body_u32_Ok: "body_u32 b = Ok (v, rest) \<longleftrightarrow> b = to_le_u32 v @ rest"
  by (auto simp: body_u32_def take_array_Ok to_from_le_u32 result_simps)

lemma body_reserved_append [simp]: "body_reserved (to_le_u16 0 @ rest) = Ok rest"
  by (simp add: body_reserved_def)

lemma body_reserved_Ok: "body_reserved b = Ok rest \<longleftrightarrow> b = to_le_u16 0 @ rest"
  by (auto simp: body_reserved_def body_u16_Ok result_simps split: if_splits)

text \<open>The bytes of an endpoint, where it has any.\<close>

definition peer_wire :: "socket_addr \<Rightarrow> bytes option" where
  "peer_wire peer = (case peer of
     SockV4 ip port \<Rightarrow> Some ([ENDPOINT_IPV4, 0] @ to_le_u16 port @ v4_octets ip @ replicate 12 0)
   | SockV6 ip port flowinfo scope_id \<Rightarrow>
       if flowinfo = 0 \<and> scope_id = 0 then Some ([ENDPOINT_IPV6, 0] @ to_le_u16 port @ v6_octets ip) else None)"

lemma put_peer_wire:
  "put_peer peer out = (case peer_wire peer of None \<Rightarrow> (Err FrameError, out) | Some w \<Rightarrow> (Ok (), out @ w))"
  by (simp add: put_peer_def peer_wire_def put_u16_def split: socket_addr.split)

lemma length_peer_wire: "peer_wire peer = Some w \<Longrightarrow> length w = 20"
  by (auto simp: peer_wire_def split: socket_addr.splits if_splits)

lemma body_peer_fields:
  assumes "length address = 16"
  shows "body_peer (family # 0 # to_le_u16 port @ address @ rest) =
    (if family = ENDPOINT_IPV4 \<and> drop 4 address = replicate 12 0
     then Ok (SockV4 (v4_of_octets (take 4 address)) port, rest)
     else if family = ENDPOINT_IPV6 then Ok (SockV6 (v6_of_octets address) port 0 0, rest)
     else Err FrameError)"
proof -
  have "take_array 2 (family # 0 # to_le_u16 port @ address @ rest) = Ok ([family, 0], to_le_u16 port @ address @ rest)"
    by (simp add: take_array_def)
  with assms show ?thesis by (simp add: body_peer_def)
qed

lemma body_peer_append:
  assumes "peer_wire peer = Some w"
  shows "body_peer (w @ rest) = Ok (peer, rest)"
proof (cases peer)
  case (SockV4 ip port)
  with assms have "w @ rest = ENDPOINT_IPV4 # 0 # to_le_u16 port @ (v4_octets ip @ replicate 12 0) @ rest"
    by (auto simp: peer_wire_def)
  then show ?thesis using SockV4 by (simp only: body_peer_fields octets_read length_append length_replicate) simp
next
  case (SockV6 ip port flowinfo scope_id)
  with assms have "w @ rest = ENDPOINT_IPV6 # 0 # to_le_u16 port @ v6_octets ip @ rest" "flowinfo = 0" "scope_id = 0"
    by (auto simp: peer_wire_def split: if_splits)
  then show ?thesis
    using SockV6 by (simp only: body_peer_fields octets_read) (simp add: ENDPOINT_IPV4_def ENDPOINT_IPV6_def)
qed

lemma body_peer_Ok:
  assumes "body_peer b = Ok (peer, rest)"
  obtains w where "peer_wire peer = Some w" "b = w @ rest"
proof -
  from assms obtain head port address where b: "b = head @ to_le_u16 port @ address @ rest"
    and len: "length head = 2" "length address = 16" and zero: "head ! 1 = 0"
    and p: "head ! 0 = ENDPOINT_IPV4 \<and> drop 4 address = replicate 12 0 \<and> peer = SockV4 (v4_of_octets (take 4 address)) port
      \<or> head ! 0 = ENDPOINT_IPV6 \<and> peer = SockV6 (v6_of_octets address) port 0 0"
    by (auto simp: body_peer_def take_array_Ok body_u16_Ok result_simps split: if_splits)
  from len(1) zero have head: "head = [head ! 0, 0]" by (auto simp: length_Suc_conv numeral_2_eq_2)
  have a4: "v4_octets (v4_of_octets (take 4 address)) @ drop 4 address = address"
    using len(2) by (simp add: octets_written)
  from p show thesis
  proof
    assume "head ! 0 = ENDPOINT_IPV4 \<and> drop 4 address = replicate 12 0 \<and> peer = SockV4 (v4_of_octets (take 4 address)) port"
    with b head a4 show thesis by (intro that) (auto simp: peer_wire_def)
  next
    assume "head ! 0 = ENDPOINT_IPV6 \<and> peer = SockV6 (v6_of_octets address) port 0 0"
    with b head len show thesis by (intro that) (auto simp: peer_wire_def octets_written)
  qed
qed

text \<open>The header and payload of a frame.\<close>

definition frame_wire :: "opcode \<Rightarrow> bytes \<Rightarrow> bytes" where
  "frame_wire op w = to_le_u16 (opcode_code op) @ to_le_u16 0 @ to_le_u32 (word_of_nat (length w)) @ w"

lemma length_frame_wire [simp]: "length (frame_wire op w) = 8 + length w"
  by (simp add: frame_wire_def)

lemma opcode_read [simp]: "opcode_try_from (opcode_code op) = Ok op"
  by (cases op) (simp_all add: opcode_try_from_def)

lemma opcode_try_from_Ok: "opcode_try_from v = Ok op \<Longrightarrow> v = opcode_code op"
  by (auto simp: opcode_try_from_def split: if_splits)

lemma to_le_replicate: "to_le_u16 0 = replicate 2 0"
  by (simp add: to_le_u16_def numeral_2_eq_2)

lemma append_frame_Ok:
  assumes "write_payload (out @ replicate 8 0) = (Ok (), (out @ replicate 8 0) @ w)" and "length w \<le> MAX_FRAME_BYTES - 8"
  shows "append_frame out op write_payload = (Ok (), out @ frame_wire op w)"
proof -
  let ?out = "out @ replicate 8 0 @ w"
  have "splice ?out (length out) (to_le_u16 c) = out @ to_le_u16 c @ replicate 6 0 @ w" for c
    by (simp add: splice_def)
  moreover have "splice (out @ to_le_u16 c @ replicate 6 0 @ w) (length out + 4) (to_le_u32 v) = out @ to_le_u16 c @ to_le_u16 0 @ to_le_u32 v @ w" for c v
    by (simp add: splice_def to_le_replicate)
  ultimately show ?thesis
    using assms unfolding append_frame_def frame_limits by (simp add: frame_wire_def)
qed

lemma append_frame_Err:
  assumes "write_payload (out @ replicate 8 0) = (Err e, (out @ replicate 8 0) @ w)"
  shows "append_frame out op write_payload = (Err e, out)"
  using assms by (simp add: append_frame_def frame_limits)

lemma decode_frame_wire:
  assumes "length w \<le> MAX_FRAME_BYTES - 8"
  shows "decode_frame (frame_wire op w @ rest) dp =
    and_then (dp op w) (\<lambda>(frame, body). if body = [] then Ok (Some (frame, 8 + length w)) else Err FrameError)"
proof -
  have "unat (word_of_nat (length w) :: u32) = length w"
    using assms by (simp add: unat_of_nat_eq frame_limits)
  moreover have "take 8 (frame_wire op w @ rest) = to_le_u16 (opcode_code op) @ to_le_u16 0 @ to_le_u32 (word_of_nat (length w))"
    by (simp add: frame_wire_def)
  moreover have "body_u32 (to_le_u32 v) = Ok (v, [])" for v using body_u32_append [of v "[]"] by simp
  moreover have "drop 8 (frame_wire op w @ rest) = w @ rest" by (simp add: frame_wire_def)
  ultimately show ?thesis
    using assms unfolding decode_frame_def read_header_def frame_limits by (simp add: slice_def)
qed

lemma decode_frame_Some:
  assumes "decode_frame bs dp = Ok (Some (f, n))"
  obtains op w rest where "bs = frame_wire op w @ rest" "n = 8 + length w" "length w \<le> MAX_FRAME_BYTES - 8"
    "dp op w = Ok (f, [])"
proof -
  from assms obtain op len payload where r: "read_header (take 8 bs) = Ok (op, len)" and l: "8 \<le> length bs"
    and s: "slice (drop 8 bs) 0 len = Some payload" and d: "dp op payload = Ok (f, [])" and n: "n = 8 + len"
    by (auto simp: decode_frame_def FRAME_HEADER_BYTES_def result_simps split: if_splits option.splits)
  from r obtain v tail where h: "take 8 bs = to_le_u16 (opcode_code op) @ to_le_u16 0 @ to_le_u32 v @ tail"
    and len: "len = unat v" "len \<le> MAX_FRAME_BYTES - 8"
    by (auto simp: read_header_def body_u16_Ok body_u32_Ok body_reserved_Ok FRAME_HEADER_BYTES_def result_simps
        dest!: opcode_try_from_Ok split: if_splits)
  have "length (take 8 bs) = 8" using l by simp
  then have "tail = []" using arg_cong [OF h, of length] by simp
  moreover have p: "payload = take len (drop 8 bs)" "length payload = len" using s by (auto simp: slice_Some)
  ultimately have "bs = frame_wire op payload @ drop len (drop 8 bs)"
    using h len append_take_drop_id [of 8 bs] append_take_drop_id [of len "drop 8 bs"]
    by (simp add: frame_wire_def)
  from that [OF this] n len d p show thesis by simp
qed

lemma decode_frame_waits:
  assumes "decode_frame bs dp = Ok None"
  shows "length bs < MAX_FRAME_BYTES"
  using assms
  by (auto simp: decode_frame_def read_header_def frame_limits slice_def result_simps split: if_splits option.splits)

section \<open>Payloads are read back\<close>

text \<open>A run in the form the wire has it: a segment that does not split the bytes is zero.\<close>

definition run_canon :: "udp_run \<Rightarrow> udp_run" where
  "run_canon run = run\<lparr>ur_segment := if length (ur_bytes run) > unat (ur_segment run) then ur_segment run else 0\<rparr>"

definition udp_wire :: "udp_run \<Rightarrow> bytes option" where
  "udp_wire run =
     (if is_valid_udp_run (length (ur_bytes run)) (unat (ur_segment (run_canon run)))
      then map_option (\<lambda>w. w @ to_le_u16 (ur_segment (run_canon run)) @ to_le_u16 0 @ ur_bytes run) (peer_wire (ur_peer run))
      else None)"

lemma put_udp_body_wire:
  "put_udp_body run out = (case udp_wire run of None \<Rightarrow> (Err FrameError, out) | Some w \<Rightarrow> (Ok (), out @ w))"
  by (simp add: put_udp_body_def udp_wire_def run_canon_def check_udp_run_def put_peer_wire put_u16_def put_reserved_def
      Let_def split: option.split)

lemma valid_run_bound: "is_valid_udp_run len segment \<Longrightarrow> len \<le> 65504"
  by (auto simp: is_valid_udp_run_def is_valid_segmented_run_def frame_limits split: if_splits)

lemma length_udp_wire: "udp_wire run = Some w \<Longrightarrow> length w \<le> MAX_FRAME_BYTES - 8"
  using valid_run_bound [of "length (ur_bytes run)" "unat (ur_segment (run_canon run))"]
  by (auto simp: udp_wire_def frame_limits dest!: length_peer_wire split: if_splits)

lemma read_udp_body_wire: "udp_wire run = Some w \<Longrightarrow> read_udp_body w = Ok (run_canon run, [])"
  by (auto simp: udp_wire_def read_udp_body_def body_peer_append check_udp_run_def split: if_splits)
    (simp_all add: run_canon_def)

lemma read_udp_body_Ok:
  assumes "read_udp_body b = Ok (run, rest)"
  shows "rest = []" "udp_wire run = Some b" "run_canon run = run"
proof -
  from assms obtain peer segment bs where p: "body_peer b = Ok (peer, to_le_u16 segment @ to_le_u16 0 @ bs)"
    and v: "is_valid_udp_run (length bs) (unat segment)"
    and run: "run = \<lparr>ur_peer = peer, ur_segment = segment, ur_bytes = bs\<rparr>" and rest: "rest = []"
    by (auto simp: read_udp_body_def check_udp_run_def body_u16_Ok body_reserved_Ok result_simps split: if_splits)
  from v have "segment = 0 \<or> unat segment < length bs"
    by (auto simp: is_valid_udp_run_def is_valid_segmented_run_def word_unat_eq_iff split: if_splits)
  then show canon: "run_canon run = run" by (auto simp: run_canon_def run)
  from p obtain w where "peer_wire peer = Some w" "b = w @ to_le_u16 segment @ to_le_u16 0 @ bs" by (rule body_peer_Ok)
  then show "udp_wire run = Some b" using v canon by (simp add: udp_wire_def run)
  from rest show "rest = []" .
qed

text \<open>The fields of the options; the constructor of a keepalive admits only some.\<close>

definition keepalive_ok :: "tcp_keepalive \<Rightarrow> bool" where
  "keepalive_ok k \<longleftrightarrow> tcp_keepalive_new (ka_idle_secs k) (ka_interval_secs k) (ka_probe_count k) = Some k"

definition options_ok :: "tcp_open_options \<Rightarrow> bool" where
  "options_ok options \<longleftrightarrow> (case to_keepalive options of None \<Rightarrow> True | Some k \<Rightarrow> keepalive_ok k)"

definition options_wire :: "tcp_open_options \<Rightarrow> bytes" where
  "options_wire options =
     to_le_u16 ((if to_inline_urgent options then 1 else 0) OR (if to_keepalive options = None then 0 else 2))
     @ (case to_keepalive options of
          None \<Rightarrow> to_le_u16 0 @ to_le_u16 0 @ to_le_u16 0
        | Some k \<Rightarrow> to_le_u16 (ka_probe_count k) @ to_le_u16 (ka_idle_secs k) @ to_le_u16 (ka_interval_secs k))"

lemma length_options_wire [simp]: "length (options_wire options) = 8"
  by (simp add: options_wire_def split: option.split)

lemma put_tcp_open_wire:
  "put_tcp_open peer options out = (case peer_wire peer of None \<Rightarrow> (Err FrameError, out @ options_wire options)
     | Some w \<Rightarrow> (Ok (), out @ options_wire options @ w))"
  by (simp add: put_tcp_open_def options_wire_def put_peer_wire put_u16_def TCP_OPEN_INLINE_URGENT_FLAG_def
      TCP_OPEN_KEEPALIVE_FLAG_def Let_def split: option.split)

lemma flags_cases:
  fixes flags :: u16
  assumes "flags AND NOT 3 = 0"
  shows "flags = 0 \<or> flags = 1 \<or> flags = 2 \<or> flags = 3"
proof -
  have "flags = flags AND mask 2 OR flags AND NOT (mask 2)"
    by (simp add: word_ao_dist2 [symmetric] flip: bit.conj_disj_distrib)
  also have "(mask 2 :: u16) = 3" by (simp add: mask_eq_exp_minus_1)
  finally have "flags = take_bit 2 flags" using assms by (simp add: take_bit_eq_mask mask_eq_exp_minus_1)
  then have "unat flags = take_bit 2 (unat flags)" by (metis unsigned_take_bit_eq)
  then have "unat flags < 4" by (metis take_bit_nat_less_exp numeral_Bit0 power2_eq_square mult_2_right)
  then have "unat flags = 0 \<or> unat flags = 1 \<or> unat flags = 2 \<or> unat flags = 3" by linarith
  then show ?thesis by (auto simp: word_unat_eq_iff)
qed

lemma body_tcp_open_wire:
  assumes "peer_wire peer = Some w" and "options_ok options"
  shows "body_tcp_open (options_wire options @ w) = Ok ((peer, options), [])"
proof -
  have p: "body_peer w = Ok (peer, [])" using body_peer_append [OF assms(1), of "[]"] by simp
  obtain u k where o: "options = \<lparr>to_inline_urgent = u, to_keepalive = k\<rparr>" by (cases options)
  from assms(2) have "k = Some ka \<Longrightarrow> tcp_keepalive_new (ka_idle_secs ka) (ka_interval_secs ka) (ka_probe_count ka) = Some ka" for ka
    by (simp add: options_ok_def keepalive_ok_def o)
  then show ?thesis
    by (cases u; cases k)
      (simp_all add: body_tcp_open_def options_wire_def o p TCP_OPEN_INLINE_URGENT_FLAG_def TCP_OPEN_KEEPALIVE_FLAG_def)
qed

lemma keepalive_new_ok: "tcp_keepalive_new i t p = Some k \<Longrightarrow> keepalive_ok k \<and> i = ka_idle_secs k \<and> t = ka_interval_secs k \<and> p = ka_probe_count k"
  by (auto simp: tcp_keepalive_new_def keepalive_ok_def split: if_splits)

lemma body_tcp_open_Ok:
  assumes "body_tcp_open b = Ok ((peer, options), rest)"
  obtains w where "peer_wire peer = Some w" "options_ok options" "b = options_wire options @ w @ rest"
proof -
  from assms obtain flags probe idle interval tail keepalive where
    b: "b = to_le_u16 flags @ to_le_u16 probe @ to_le_u16 idle @ to_le_u16 interval @ tail"
    and f: "flags AND NOT 3 = 0" and t: "body_peer tail = Ok (peer, rest)"
    and k: "if flags AND 2 = 0 then probe = 0 \<and> idle = 0 \<and> interval = 0 \<and> keepalive = None
      else \<exists>ka. tcp_keepalive_new idle interval probe = Some ka \<and> keepalive = Some ka"
    and o: "options = \<lparr>to_inline_urgent = (flags AND 1 \<noteq> 0), to_keepalive = keepalive\<rparr>"
    by (auto simp: body_tcp_open_def body_u16_Ok TCP_OPEN_INLINE_URGENT_FLAG_def TCP_OPEN_KEEPALIVE_FLAG_def
        result_simps Let_def split: if_splits)
  from t obtain w where w: "peer_wire peer = Some w" "tail = w @ rest" by (rule body_peer_Ok)
  have "options_ok options \<and> options_wire options = to_le_u16 flags @ to_le_u16 probe @ to_le_u16 idle @ to_le_u16 interval"
    using flags_cases [OF f] k
    by (auto simp: o options_ok_def options_wire_def dest!: keepalive_new_ok)
  with w b that show thesis by simp
qed

text \<open>
  What the documentation of the serialisation crate promises for the error codes: a variant without fields is
  its index in the declaration, one byte while the index is small, and no other byte is a variant.
\<close>

locale variant_codec =
  fixes from_bytes :: "bytes \<Rightarrow> socket_error option"
  assumes variants: "from_bytes [i] = Some e \<longleftrightarrow> Suc (unat i) = unat (socket_error_code e)"
begin

lemma socket_error_decode: "socket_error_decode from_bytes v = Some e \<longleftrightarrow> v = socket_error_code e"
proof (cases "v = 0")
  case True
  then show ?thesis by (cases e) (simp_all add: socket_error_decode_def checked_sub_def)
next
  case False
  then have pos: "0 < unat v" by (simp add: unat_gt_0)
  then have v: "1 \<le> v" "unat (v - 1) = unat v - 1" "0 < unat v"
    using False by (simp_all add: word_le_nat_alt unat_minus_one)
  have small: "unat (socket_error_code e) < 257" by (cases e) simp_all
  show ?thesis
  proof (cases "unat (v - 1) < 256")
    case True
    then have "unat (ucast (v - 1) :: u8) = unat v - 1"
      using v by (simp add: unsigned_ucast_eq take_bit_nat_eq_self)
    then have "from_bytes [ucast (v - 1)] = Some e \<longleftrightarrow> unat v = unat (socket_error_code e)"
      using v(3) by (simp add: variants)
    then show ?thesis using True v by (simp add: socket_error_decode_def checked_sub_def word_unat_eq_iff)
  next
    case False
    then show ?thesis using v small by (auto simp: socket_error_decode_def checked_sub_def)
  qed
qed

lemma body_status_append:
  "body_status from_bytes (put_status status [] @ rest) = Ok (status, rest)"
proof -
  have "socket_error_code e \<noteq> 0" for e by (cases e) simp_all
  then show ?thesis
    by (cases status)
      (simp_all add: body_status_def put_status_def put_u16_def put_reserved_def socket_error_decode [THEN iffD2])
qed

lemma body_status_Ok:
  assumes "body_status from_bytes b = Ok (status, rest)"
  shows "b = put_status status [] @ rest"
  using assms
  by (auto simp: body_status_def put_status_def put_u16_def put_reserved_def body_u16_Ok body_reserved_Ok
      socket_error_decode result_simps split: if_splits)

end

lemma put_status_append: "put_status status out = out @ put_status status []"
  by (simp add: put_status_def put_u16_def put_reserved_def)

lemma length_put_status [simp]: "length (put_status status []) = 4"
  by (simp add: put_status_def put_u16_def put_reserved_def)

section \<open>Frames are read back\<close>

primrec guest_wire :: "guest_frame \<Rightarrow> bytes option" where
  "guest_wire (TcpOpen peer options) = map_option (\<lambda>w. options_wire options @ w) (peer_wire peer)"
| "guest_wire (UdpSend run) = udp_wire run"

primrec host_wire :: "host_frame \<Rightarrow> bytes option" where
  "host_wire (Opened outcome) = Some (put_status (case outcome of Inl e \<Rightarrow> Some e | Inr _ \<Rightarrow> None) [])"
| "host_wire (UdpDatagram run) = udp_wire run"
| "host_wire (UdpError peer error) = map_option (\<lambda>w. put_status (Some error) [] @ w) (peer_wire peer)"

lemma guest_wire_length: "guest_wire f = Some w \<Longrightarrow> length w \<le> MAX_FRAME_BYTES - 8"
  by (cases f) (auto simp: frame_limits dest: length_udp_wire [unfolded frame_limits] length_peer_wire)

lemma host_wire_length: "host_wire f = Some w \<Longrightarrow> length w \<le> MAX_FRAME_BYTES - 8"
  by (cases f) (auto simp: frame_limits dest: length_udp_wire [unfolded frame_limits] length_peer_wire)

lemma append_frame_wire:
  assumes "put (out @ replicate 8 0) = (case wire of None \<Rightarrow> (Err FrameError, (out @ replicate 8 0) @ written)
      | Some w \<Rightarrow> (Ok (), (out @ replicate 8 0) @ w))"
    and "\<And>w. wire = Some w \<Longrightarrow> length w \<le> MAX_FRAME_BYTES - 8"
  shows "append_frame out op put = (case wire of None \<Rightarrow> (Err FrameError, out) | Some w \<Rightarrow> (Ok (), out @ frame_wire op w))"
proof (cases wire)
  case None
  with assms(1) have "put (out @ replicate 8 0) = (Err FrameError, (out @ replicate 8 0) @ written)" by simp
  then have "append_frame out op put = (Err FrameError, out)" by (rule append_frame_Err)
  with None show ?thesis by simp
next
  case (Some w)
  with assms(1) have "put (out @ replicate 8 0) = (Ok (), (out @ replicate 8 0) @ w)" by simp
  then have "append_frame out op put = (Ok (), out @ frame_wire op w)" by (rule append_frame_Ok) (rule assms(2) [OF Some])
  with Some show ?thesis by simp
qed

lemma guest_append_wire:
  "guest_append f out = (case guest_wire f of None \<Rightarrow> (Err FrameError, out)
     | Some w \<Rightarrow> (Ok (), out @ frame_wire (guest_opcode f) w))"
  unfolding guest_append_def
  by (rule append_frame_wire [where written = "case f of TcpOpen _ options \<Rightarrow> options_wire options | UdpSend _ \<Rightarrow> []"])
    (simp_all add: put_tcp_open_wire put_udp_body_wire guest_wire_length split: guest_frame.split option.split)

lemma host_append_wire:
  "host_append f out = (case host_wire f of None \<Rightarrow> (Err FrameError, out)
     | Some w \<Rightarrow> (Ok (), out @ frame_wire (host_opcode f) w))"
  unfolding host_append_def
  by (rule append_frame_wire [where written = "case f of UdpError _ e \<Rightarrow> put_status (Some e) [] | _ \<Rightarrow> []"])
    (simp_all add: put_peer_wire put_udp_body_wire put_status_append [of _ "_ @ _"] host_wire_length
      split: host_frame.split option.split)

lemma guest_encode_wire: "guest_encode f = ok_or FrameError (map_option (frame_wire (guest_opcode f)) (guest_wire f))"
  by (simp add: guest_encode_def guest_append_wire split: option.split)

lemma host_encode_wire: "host_encode f = ok_or FrameError (map_option (frame_wire (host_opcode f)) (host_wire f))"
  by (simp add: host_encode_def host_append_wire split: option.split)

text \<open>The frames a program can hold, and their form on the wire.\<close>

primrec guest_frame_ok :: "guest_frame \<Rightarrow> bool" where
  "guest_frame_ok (TcpOpen peer options) = options_ok options"
| "guest_frame_ok (UdpSend run) = True"

primrec guest_canon :: "guest_frame \<Rightarrow> guest_frame" where
  "guest_canon (TcpOpen peer options) = TcpOpen peer options"
| "guest_canon (UdpSend run) = UdpSend (run_canon run)"

primrec host_canon :: "host_frame \<Rightarrow> host_frame" where
  "host_canon (Opened outcome) = Opened outcome"
| "host_canon (UdpDatagram run) = UdpDatagram (run_canon run)"
| "host_canon (UdpError peer error) = UdpError peer error"

lemma guest_payload_read:
  assumes "guest_wire f = Some w" and "guest_frame_ok f"
  shows "guest_decode_payload (guest_opcode f) w = Ok (guest_canon f, [])"
  using assms by (cases f) (auto simp: guest_decode_payload_def read_udp_body_wire body_tcp_open_wire)

lemma guest_payload_Ok:
  assumes "guest_decode_payload op w = Ok (f, [])"
  shows "op = guest_opcode f" "guest_wire f = Some w" "guest_frame_ok f" "guest_canon f = f"
proof -
  from assms consider (udp) run where "op = Op_UdpSend" "read_udp_body w = Ok (run, [])" "f = UdpSend run"
    | (tcp) peer options where "op = Op_TcpOpen" "body_tcp_open w = Ok ((peer, options), [])" "f = TcpOpen peer options"
    by (cases op) (auto simp: guest_decode_payload_def result_simps)
  then have "op = guest_opcode f \<and> guest_wire f = Some w \<and> guest_frame_ok f \<and> guest_canon f = f"
  proof cases
    case udp
    with read_udp_body_Ok [OF udp(2)] show ?thesis by simp
  next
    case tcp
    from tcp(2) obtain u where "peer_wire peer = Some u" "options_ok options" "w = options_wire options @ u @ []"
      by (rule body_tcp_open_Ok)
    with tcp show ?thesis by simp
  qed
  then show "op = guest_opcode f" "guest_wire f = Some w" "guest_frame_ok f" "guest_canon f = f" by simp_all
qed

context variant_codec
begin

lemma host_payload_read:
  assumes "host_wire f = Some w"
  shows "host_decode_payload from_bytes (host_opcode f) w = Ok (host_canon f, [])"
proof (cases f)
  case (Opened outcome)
  with assms body_status_append [of "case outcome of Inl e \<Rightarrow> Some e | Inr _ \<Rightarrow> None" "[]"] show ?thesis
    by (auto simp: host_decode_payload_def split: sum.splits)
next
  case (UdpDatagram run)
  with assms show ?thesis by (simp add: host_decode_payload_def read_udp_body_wire)
next
  case (UdpError peer error)
  with assms obtain u where "peer_wire peer = Some u" "w = put_status (Some error) [] @ u" by auto
  with UdpError body_peer_append [of peer u "[]"] show ?thesis by (simp add: host_decode_payload_def body_status_append)
qed

lemma host_payload_Ok:
  assumes "host_decode_payload from_bytes op w = Ok (f, [])"
  shows "op = host_opcode f \<and> host_wire f = Some w \<and> host_canon f = f"
proof -
  from assms consider (udp) run where "op = Op_UdpDatagram" "read_udp_body w = Ok (run, [])" "f = UdpDatagram run"
    | (opened) status where "op = Op_Opened" "body_status from_bytes w = Ok (status, [])"
      "f = Opened (case status of None \<Rightarrow> Ok () | Some e \<Rightarrow> Err e)"
    | (failed) e b peer where "op = Op_UdpError" "body_status from_bytes w = Ok (Some e, b)"
      "body_peer b = Ok (peer, [])" "f = UdpError peer e"
    by (cases op) (auto simp: host_decode_payload_def result_simps)
  then show ?thesis
  proof cases
    case udp
    with read_udp_body_Ok [OF udp(2)] show ?thesis by simp
  next
    case opened
    with body_status_Ok [OF opened(2)] show ?thesis by (simp split: option.split)
  next
    case failed
    from failed(3) obtain u where "peer_wire peer = Some u" "b = u @ []" by (rule body_peer_Ok)
    with failed body_status_Ok [OF failed(2)] show ?thesis by simp
  qed
qed

end

text \<open>
  What the reassembly relies on, the promise of the trait \<open>Frame\<close>: encoded frames are read back whatever
  follows, what is read is what was there, and only an incomplete frame is waited for.
\<close>

locale frame_codec =
  fixes encode :: "'f \<Rightarrow> frame_error + bytes"
    and decode :: "bytes \<Rightarrow> frame_error + ('f \<times> nat) option"
    and canonical :: "'f \<Rightarrow> bool"
  assumes decode_encode: "canonical f \<Longrightarrow> encode f = Ok w \<Longrightarrow> decode (w @ rest) = Ok (Some (f, length w))"
    and encode_decode: "decode bs = Ok (Some (f, n)) \<Longrightarrow> n \<le> length bs \<and> 0 < n \<and> canonical f \<and> encode f = Ok (take n bs)"
    and decode_waits: "decode bs = Ok None \<Longrightarrow> length bs < MAX_FRAME_BYTES"

lemma guest_decode_encode:
  assumes "guest_encode f = Ok w" and "guest_frame_ok f"
  shows "guest_decode (w @ rest) = Ok (Some (guest_canon f, length w))"
proof -
  from assms(1) obtain u where u: "guest_wire f = Some u" "w = frame_wire (guest_opcode f) u"
    by (auto simp: guest_encode_wire result_simps)
  then show ?thesis
    by (simp add: guest_decode_def decode_frame_wire [OF guest_wire_length] guest_payload_read [OF u(1) assms(2)])
qed

lemma guest_encode_decode:
  assumes "guest_decode bs = Ok (Some (f, n))"
  shows "n \<le> length bs \<and> 0 < n \<and> (guest_frame_ok f \<and> guest_canon f = f) \<and> guest_encode f = Ok (take n bs)"
proof -
  from assms obtain op w rest where "bs = frame_wire op w @ rest" "n = 8 + length w" "guest_decode_payload op w = Ok (f, [])"
    unfolding guest_decode_def by (rule decode_frame_Some)
  then show ?thesis using guest_payload_Ok [of op w f] by (simp add: guest_encode_wire)
qed

interpretation guest: frame_codec guest_encode guest_decode "\<lambda>f. guest_frame_ok f \<and> guest_canon f = f"
proof
  show "guest_decode (w @ rest) = Ok (Some (f, length w))" if "guest_frame_ok f \<and> guest_canon f = f" "guest_encode f = Ok w" for f w rest
    using guest_decode_encode [of f w rest] that by simp
  show "length bs < MAX_FRAME_BYTES" if "guest_decode bs = Ok None" for bs
    using decode_frame_waits that by (simp add: guest_decode_def)
qed (rule guest_encode_decode)

context variant_codec
begin

lemma host_decode_encode:
  assumes "host_encode f = Ok w"
  shows "host_decode from_bytes (w @ rest) = Ok (Some (host_canon f, length w))"
proof -
  from assms obtain u where u: "host_wire f = Some u" "w = frame_wire (host_opcode f) u"
    by (auto simp: host_encode_wire result_simps)
  then show ?thesis
    by (simp add: host_decode_def decode_frame_wire [OF host_wire_length] host_payload_read [OF u(1)])
qed

lemma host_encode_decode:
  assumes "host_decode from_bytes bs = Ok (Some (f, n))"
  shows "n \<le> length bs \<and> 0 < n \<and> host_canon f = f \<and> host_encode f = Ok (take n bs)"
proof -
  from assms obtain op w rest where "bs = frame_wire op w @ rest" "n = 8 + length w" "host_decode_payload from_bytes op w = Ok (f, [])"
    unfolding host_decode_def by (rule decode_frame_Some)
  then show ?thesis using host_payload_Ok [of op w f] by (simp add: host_encode_wire)
qed

end

sublocale variant_codec \<subseteq> host: frame_codec host_encode "host_decode from_bytes" "\<lambda>f. host_canon f = f"
proof
  show "host_decode from_bytes (w @ rest) = Ok (Some (f, length w))" if "host_canon f = f" "host_encode f = Ok w" for f w rest
    using host_decode_encode [of f w rest] that by simp
  show "length bs < MAX_FRAME_BYTES" if "host_decode from_bytes bs = Ok None" for bs
    using decode_frame_waits that by (simp add: host_decode_def)
qed (rule host_encode_decode)

text \<open>The variants by their index, as the crate documents them.\<close>

definition declared_errors :: "socket_error list" where
  "declared_errors = [Sock_AccessDenied, Sock_InvalidArgument, Sock_InvalidState, Sock_LimitExceeded, Sock_Cancelled,
     Sock_ConnectionRefused, Sock_ConnectionReset, Sock_TimedOut, Sock_NameUnresolvable, Sock_ResolverBusy,
     Sock_DatagramTooLarge, Sock_Closed, Sock_Io, Sock_NotReady, Sock_Protocol]"

definition declared_variant :: "bytes \<Rightarrow> socket_error option" where
  "declared_variant bs = (case bs of [] \<Rightarrow> None | i # _ \<Rightarrow> if unat i < 15 then Some (declared_errors ! unat i) else None)"

interpretation declared: variant_codec declared_variant
proof
  fix i e
  have "declared_errors ! k = e \<longleftrightarrow> Suc k = unat (socket_error_code e)" if "k < 15" for k
  proof -
    from that have "k \<in> set [0, 1, 2, 3, 4, 5, 6, 7, 8, 9, 10, 11, 12, 13, 14]" by (simp only: list.set insert_iff empty_iff) presburger
    then show ?thesis by (cases e) (auto simp: declared_errors_def)
  qed
  moreover have "unat (socket_error_code e) \<le> 15" by (cases e) simp_all
  ultimately show "declared_variant [i] = Some e \<longleftrightarrow> Suc (unat i) = unat (socket_error_code e)"
    by (auto simp: declared_variant_def)
qed

section \<open>Streams of frames\<close>

text \<open>
  What can happen to a decoder: the reader fills some of the free bytes, or a whole frame is taken. The run
  records the bytes read and the frames taken. Taking no frame leaves the decoder alone.
\<close>

inductive decoder_run :: "(bytes \<Rightarrow> frame_error + ('f \<times> nat) option) \<Rightarrow> bytes \<Rightarrow> 'f list \<Rightarrow> stream_decoder \<Rightarrow> bool"
  for decode where
  run_start: "decoder_run decode [] [] stream_decoder_default"
| run_read: "decoder_run decode wire frames d \<Longrightarrow> read_buffer d = Some (free, d1) \<Longrightarrow> length data \<le> length free
    \<Longrightarrow> decoder_run decode (wire @ data) frames (commit (length data) (fill_buffer data d1))"
| run_frame: "decoder_run decode wire frames d \<Longrightarrow> next_frame decode d = Some (Ok (Some f), d')
    \<Longrightarrow> decoder_run decode wire (frames @ [f]) d'"

text \<open>The loop of a reader that takes frames until none is complete; \<open>None\<close> is a panic or a refused frame.\<close>

fun take_frames ::
  "(bytes \<Rightarrow> frame_error + ('f \<times> nat) option) \<Rightarrow> nat \<Rightarrow> stream_decoder \<Rightarrow> ('f list \<times> stream_decoder) option" where
  "take_frames decode 0 d = None"
| "take_frames decode (Suc k) d =
     (case next_frame decode d of
        Some (Inr None, d') \<Rightarrow> Some ([], d')
      | Some (Inr (Some f), d') \<Rightarrow> map_option (\<lambda>(fs, d''). (f # fs, d'')) (take_frames decode k d')
      | _ \<Rightarrow> None)"

definition decoder_ok :: "stream_decoder \<Rightarrow> bool" where
  "decoder_ok d \<longleftrightarrow> length (sd_bytes d) = MAX_FRAME_BYTES \<and> sd_start d \<le> sd_end d \<and> sd_end d \<le> MAX_FRAME_BYTES"

definition undecoded :: "stream_decoder \<Rightarrow> bytes" where
  "undecoded d = take (sd_end d - sd_start d) (drop (sd_start d) (sd_bytes d))"

lemma slice_undecoded: "decoder_ok d \<Longrightarrow> slice (sd_bytes d) (sd_start d) (sd_end d) = Some (undecoded d)"
  by (simp add: slice_def decoder_ok_def undecoded_def)

lemma length_undecoded: "decoder_ok d \<Longrightarrow> length (undecoded d) = sd_end d - sd_start d"
  by (auto simp: undecoded_def decoder_ok_def)

lemma default_ok: "decoder_ok stream_decoder_default" "undecoded stream_decoder_default = []"
  by (simp_all add: decoder_ok_def stream_decoder_default_def undecoded_def)

lemma read_buffer_ok:
  assumes "decoder_ok d"
  obtains free d1 where "read_buffer d = Some (free, d1)" "decoder_ok d1" "undecoded d1 = undecoded d"
    "length free = MAX_FRAME_BYTES - sd_end d1" "free = [] \<Longrightarrow> length (undecoded d) = MAX_FRAME_BYTES"
proof -
  define d1 where "d1 = (if sd_end d = length (sd_bytes d) \<and> sd_start d > 0
    then d\<lparr>sd_bytes := splice (sd_bytes d) 0 (undecoded d), sd_start := 0, sd_end := sd_end d - sd_start d\<rparr> else d)"
  have len: "length (undecoded d) = sd_end d - sd_start d" "length (sd_bytes d) = MAX_FRAME_BYTES"
    "sd_start d \<le> sd_end d" "sd_end d \<le> MAX_FRAME_BYTES"
    using assms length_undecoded [OF assms] by (simp_all add: decoder_ok_def)
  then have ok: "decoder_ok d1" by (auto simp: d1_def decoder_ok_def splice_def)
  then have free: "slice (sd_bytes d1) (sd_end d1) (length (sd_bytes d1)) = Some (drop (sd_end d1) (sd_bytes d1))"
    by (simp add: slice_def decoder_ok_def)
  have read: "read_buffer d = Some (drop (sd_end d1) (sd_bytes d1), d1)"
    using free unfolding read_buffer_def slice_undecoded [OF assms] d1_def by (auto split: if_splits)
  have same: "undecoded d1 = undecoded d"
    using len by (auto simp: d1_def undecoded_def splice_def)
  show thesis
  proof (rule that [OF read ok same])
    show "length (drop (sd_end d1) (sd_bytes d1)) = MAX_FRAME_BYTES - sd_end d1" using ok by (simp add: decoder_ok_def)
    show "length (undecoded d) = MAX_FRAME_BYTES" if "drop (sd_end d1) (sd_bytes d1) = []"
      using that ok len by (auto simp: d1_def decoder_ok_def split: if_splits)
  qed
qed

lemma fill_ok:
  assumes "decoder_ok d" and "length data \<le> MAX_FRAME_BYTES - sd_end d"
  shows "decoder_ok (commit (length data) (fill_buffer data d))"
    "undecoded (commit (length data) (fill_buffer data d)) = undecoded d @ data"
proof -
  from assms have len: "length (sd_bytes d) = MAX_FRAME_BYTES" "sd_start d \<le> sd_end d" "sd_end d + length data \<le> MAX_FRAME_BYTES"
    by (auto simp: decoder_ok_def)
  then show "decoder_ok (commit (length data) (fill_buffer data d))"
    by (simp add: decoder_ok_def commit_def fill_buffer_def)
  have "take (sd_end d + length data - sd_start d) (drop (sd_start d) (splice (sd_bytes d) (sd_end d) data))
      = take (sd_end d - sd_start d) (drop (sd_start d) (sd_bytes d)) @ data"
  proof -
    have "drop (sd_start d) (splice (sd_bytes d) (sd_end d) data)
        = drop (sd_start d) (take (sd_end d) (sd_bytes d)) @ data @ drop (sd_end d + length data) (sd_bytes d)"
      using len by (simp add: splice_def)
    moreover have "length (drop (sd_start d) (take (sd_end d) (sd_bytes d)) @ data) = sd_end d + length data - sd_start d"
      using len by simp
    ultimately show ?thesis using len by (simp add: drop_take)
  qed
  then show "undecoded (commit (length data) (fill_buffer data d)) = undecoded d @ data"
    by (simp add: undecoded_def commit_def fill_buffer_def)
qed

lemma take_frames_more:
  assumes "take_frames decode k d = Some (fs, e)" and "k \<le> l"
  shows "take_frames decode l d = Some (fs, e)"
  using assms
proof (induction k arbitrary: l d fs)
  case (Suc k)
  from Suc.prems(2) obtain m where m: "l = Suc m" "k \<le> m" by (cases l) auto
  obtain r d1 where r: "next_frame decode d = Some (Inr r, d1)"
    using Suc.prems(1) by (auto split: option.splits sum.splits)
  show ?case
  proof (cases r)
    case None
    with Suc.prems(1) r m(1) show ?thesis by simp
  next
    case (Some f)
    with Suc.prems(1) r obtain gs where gs: "take_frames decode k d1 = Some (gs, e)" "fs = f # gs" by auto
    from Suc.IH [OF gs(1) m(2)] gs(2) m(1) Some r show ?thesis by simp
  qed
qed simp

context frame_codec
begin

lemma next_frame_undecoded:
  assumes "decoder_ok d"
  shows "next_frame decode d = (case decode (undecoded d) of
      Inl e \<Rightarrow> Some (Err e, d)
    | Inr None \<Rightarrow> Some (Ok None, d)
    | Inr (Some (f, n)) \<Rightarrow> Some (Ok (Some f),
        if sd_start d + n = sd_end d then d\<lparr>sd_start := 0, sd_end := 0\<rparr> else d\<lparr>sd_start := sd_start d + n\<rparr>))"
  by (simp add: next_frame_def slice_undecoded [OF assms] Let_def split: sum.split option.split)

lemma next_frame_ok:
  assumes "decoder_ok d" and "next_frame decode d = Some (Ok (Some f), d')"
  obtains w where "decoder_ok d'" "canonical f" "encode f = Ok w" "w \<noteq> []" "undecoded d = w @ undecoded d'"
proof -
  from assms obtain n where dec: "decode (undecoded d) = Ok (Some (f, n))"
    and d': "d' = (if sd_start d + n = sd_end d then d\<lparr>sd_start := 0, sd_end := 0\<rparr> else d\<lparr>sd_start := sd_start d + n\<rparr>)"
    by (auto simp: next_frame_undecoded split: sum.splits option.splits)
  note facts = encode_decode [OF dec]
  then have n: "0 < n" "n \<le> sd_end d - sd_start d" using length_undecoded [OF assms(1)] by simp_all
  have rest: "undecoded d' = drop n (undecoded d)"
    using n assms(1) by (auto simp: d' undecoded_def decoder_ok_def drop_take add.commute)
  show thesis
  proof (rule that)
    show "decoder_ok d'" using n assms(1) by (auto simp: d' decoder_ok_def)
    show "encode f = Ok (take n (undecoded d))" "canonical f" using facts by simp_all
    show "take n (undecoded d) \<noteq> []" using n facts by auto
    show "undecoded d = take n (undecoded d) @ undecoded d'" using rest by simp
  qed
qed

lemma decoder_run_ok:
  assumes "decoder_run decode wire frames d"
  shows "decoder_ok d \<and> list_all canonical frames
    \<and> (\<exists>ws. list_all2 (\<lambda>f w. encode f = Ok w \<and> w \<noteq> []) frames ws \<and> wire = concat ws @ undecoded d)"
  using assms
proof induction
  case run_start
  then show ?case by (simp add: default_ok)
next
  case (run_read wire frames d free d1 data)
  from run_read.IH have "decoder_ok d" by simp
  then obtain free' d1' where "read_buffer d = Some (free', d1')" "decoder_ok d1'" "undecoded d1' = undecoded d"
    "length free' = MAX_FRAME_BYTES - sd_end d1'" by (rule read_buffer_ok)
  with run_read have d1: "decoder_ok d1" "undecoded d1 = undecoded d" "length data \<le> MAX_FRAME_BYTES - sd_end d1" by auto
  from fill_ok [OF d1(1,3)] d1(2) run_read.IH show ?case by auto
next
  case (run_frame wire frames d f d')
  then obtain ws where ws: "list_all2 (\<lambda>f w. encode f = Ok w \<and> w \<noteq> []) frames ws" "wire = concat ws @ undecoded d" by auto
  from run_frame have "decoder_ok d" by simp
  then obtain w where w: "decoder_ok d'" "canonical f" "encode f = Ok w" "w \<noteq> []" "undecoded d = w @ undecoded d'"
    using run_frame.hyps(2) by (rule next_frame_ok)
  from ws w have "list_all2 (\<lambda>f w. encode f = Ok w \<and> w \<noteq> []) (frames @ [f]) (ws @ [w])"
    "wire = concat (ws @ [w]) @ undecoded d'" by (auto intro: list_all2_appendI)
  with w run_frame.IH show ?case by auto
qed

text \<open>One stream of bytes is the encoding of one sequence of frames.\<close>

lemma frames_are_prefix:
  assumes "list_all2 (\<lambda>f w. encode f = Ok w \<and> w \<noteq> []) frames ws" and "list_all canonical frames"
    and "list_all2 (\<lambda>g u. encode g = Ok u) sent us" and "list_all canonical sent"
    and "concat ws @ rest = concat us @ tail" and "decode tail = Ok None"
  shows "frames = take (length frames) sent \<and> length frames \<le> length sent
    \<and> rest = concat (drop (length frames) us) @ tail"
  using assms
proof (induction frames ws arbitrary: sent us rule: list_all2_induct)
  case (Cons f frames w ws)
  have w: "decode (w @ concat ws @ rest) = Ok (Some (f, length w))"
    using Cons.hyps Cons.prems by (intro decode_encode) simp_all
  show ?case
  proof (cases sent)
    case Nil
    with Cons.prems w show ?thesis by simp
  next
    case sent: (Cons g gs)
    with Cons.prems obtain u vs where us: "us = u # vs" "encode g = Ok u" "canonical g"
      "list_all2 (\<lambda>g u. encode g = Ok u) gs vs" by (auto simp: list_all2_Cons1)
    have cat: "w @ concat ws @ rest = u @ concat vs @ tail" using Cons.prems us by simp
    have "decode (u @ concat vs @ tail) = Ok (Some (g, length u))" using us by (intro decode_encode) simp_all
    with w have fg: "f = g" "length w = length u" using cat by simp_all
    with cat have "concat ws @ rest = concat vs @ tail" by simp
    with Cons.IH [OF _ us(4)] Cons.prems sent fg us(1) show ?thesis by simp
  qed
qed simp

lemma take_frames_all:
  assumes "list_all2 (\<lambda>g u. encode g = Ok u) sent us" and "list_all canonical sent"
    and "decoder_ok d" and "undecoded d = concat us @ tail" and "decode tail = Ok None"
  shows "\<exists>d'. take_frames decode (Suc (length sent)) d = Some (sent, d') \<and> decoder_ok d' \<and> undecoded d' = tail"
  using assms
proof (induction sent us arbitrary: d rule: list_all2_induct)
  case Nil
  then show ?case by (simp add: next_frame_undecoded)
next
  case (Cons g sent u us)
  have "decode (undecoded d) = Ok (Some (g, length u))"
    using Cons.hyps Cons.prems decode_encode [of g u "concat us @ tail"] by simp
  then obtain d1 where d1: "next_frame decode d = Some (Ok (Some g), d1)"
    using Cons.prems(2) by (simp add: next_frame_undecoded)
  obtain w where w: "decoder_ok d1" "encode g = Ok w" "undecoded d = w @ undecoded d1"
    using next_frame_ok [OF Cons.prems(2) d1] by blast
  then have "undecoded d1 = concat us @ tail" using Cons.hyps Cons.prems(3) by simp
  with Cons.IH [OF _ w(1)] Cons.prems d1 show ?case by auto
qed

lemma decoder_reassembles:
  assumes run: "decoder_run decode wire frames d"
  shows "(\<exists>ws. list_all2 (\<lambda>f w. encode f = Ok w) frames ws \<and> wire = concat ws @ undecoded d)
    \<and> (\<exists>r d0 free d1. next_frame decode d = Some (r, d0) \<and> read_buffer d = Some (free, d1) \<and> (free = [] \<longrightarrow> r \<noteq> Ok None))
    \<and> (\<forall>sent us tail. list_all canonical sent \<and> list_all2 (\<lambda>g u. encode g = Ok u) sent us
        \<and> wire = concat us @ tail \<and> decode tail = Ok None \<longrightarrow>
        frames = take (length frames) sent
        \<and> (\<exists>d'. take_frames decode (Suc (length sent)) d = Some (drop (length frames) sent, d') \<and> undecoded d' = tail
              \<and> decoder_is_empty d' = (tail = [])))"
proof (intro conjI allI impI; (elim conjE)?)
  from decoder_run_ok [OF run] obtain ws where ok: "decoder_ok d" and can: "list_all canonical frames"
    and ws: "list_all2 (\<lambda>f w. encode f = Ok w \<and> w \<noteq> []) frames ws" "wire = concat ws @ undecoded d" by auto
  have "list_all2 (\<lambda>f w. encode f = Ok w) frames ws" using ws(1) by (rule list_all2_mono) simp
  with ws(2) show "\<exists>ws. list_all2 (\<lambda>f w. encode f = Ok w) frames ws \<and> wire = concat ws @ undecoded d" by blast
  obtain free d1 where free: "read_buffer d = Some (free, d1)" "free = [] \<Longrightarrow> length (undecoded d) = MAX_FRAME_BYTES"
    using read_buffer_ok [OF ok] by metis
  obtain r d0 where r: "next_frame decode d = Some (r, d0)" "r = Ok None \<Longrightarrow> decode (undecoded d) = Ok None"
  proof -
    have "\<exists>r d0. next_frame decode d = Some (r, d0) \<and> (r = Ok None \<longrightarrow> decode (undecoded d) = Ok None)"
      by (simp add: next_frame_undecoded [OF ok] split: sum.split option.split)
    then show thesis using that by blast
  qed
  with free decode_waits [of "undecoded d"]
  show "\<exists>r d0 free d1. next_frame decode d = Some (r, d0) \<and> read_buffer d = Some (free, d1) \<and> (free = [] \<longrightarrow> r \<noteq> Ok None)"
    by fastforce
  fix sent us tail
  assume sent: "list_all canonical sent" "list_all2 (\<lambda>g u. encode g = Ok u) sent us"
    and wire: "wire = concat us @ tail" and tail: "decode tail = Ok None"
  have p: "frames = take (length frames) sent" "length frames \<le> length sent"
    "undecoded d = concat (drop (length frames) us) @ tail"
    using frames_are_prefix [OF ws(1) can sent(2,1) _ tail] ws(2) wire by auto
  show "frames = take (length frames) sent" by (rule p(1))
  have "list_all canonical (drop (length frames) sent)" using sent(1) by (auto simp: list_all_iff dest: in_set_dropD)
  from take_frames_all [OF list_all2_dropI [OF sent(2)] this ok p(3) tail]
  obtain d' where d': "take_frames decode (Suc (length (drop (length frames) sent))) d = Some (drop (length frames) sent, d')"
    "decoder_ok d'" "undecoded d' = tail" by blast
  have "decoder_is_empty d' = (tail = [])"
    using d'(2,3) length_undecoded [OF d'(2)] by (auto simp: decoder_is_empty_def decoder_ok_def)
  with take_frames_more [OF d'(1), of "Suc (length sent)"] d'(3)
  show "\<exists>d'. take_frames decode (Suc (length sent)) d = Some (drop (length frames) sent, d') \<and> undecoded d' = tail
      \<and> decoder_is_empty d' = (tail = [])" by auto
qed

end

section \<open>Properties\<close>

text \<open>C13: Frames of both directions survive the wire, and a frame has one encoding. A frame that encodes fits
  the frame limit and is read back, whatever bytes follow, with the length it has; a run of datagrams
  comes back with the segment zero when the segment does not split it. Whatever decodes re-encodes to
  exactly the bytes it was read from. A frame that does not encode leaves the output buffer unchanged.\<close>

theorem frames_round_trip:
  assumes "variant_codec from_bytes" and "guest_frame_ok f"
  shows "(case guest_encode f of
      Inl e \<Rightarrow> guest_append f out = (Err e, out)
    | Inr w \<Rightarrow> guest_append f out = (Ok (), out @ w) \<and> length w \<le> MAX_FRAME_BYTES
        \<and> guest_decode (w @ rest) = Ok (Some (guest_canon f, length w)))
   \<and> (case host_encode g of
      Inl e \<Rightarrow> host_append g out = (Err e, out)
    | Inr w \<Rightarrow> host_append g out = (Ok (), out @ w) \<and> length w \<le> MAX_FRAME_BYTES
        \<and> host_decode from_bytes (w @ rest) = Ok (Some (host_canon g, length w)))
   \<and> (guest_decode bs = Ok (Some (f', n)) \<longrightarrow> n \<le> length bs \<and> guest_frame_ok f' \<and> guest_encode f' = Ok (take n bs))
   \<and> (host_decode from_bytes bs = Ok (Some (g', n)) \<longrightarrow> n \<le> length bs \<and> host_encode g' = Ok (take n bs))"
proof (intro conjI impI)
  show "case guest_encode f of
      Inl e \<Rightarrow> guest_append f out = (Err e, out)
    | Inr w \<Rightarrow> guest_append f out = (Ok (), out @ w) \<and> length w \<le> MAX_FRAME_BYTES
        \<and> guest_decode (w @ rest) = Ok (Some (guest_canon f, length w))"
    using guest_decode_encode [OF _ assms(2), of _ rest] guest_wire_length [of f]
    by (cases "guest_wire f") (auto simp: guest_encode_wire guest_append_wire frame_limits)
  show "case host_encode g of
      Inl e \<Rightarrow> host_append g out = (Err e, out)
    | Inr w \<Rightarrow> host_append g out = (Ok (), out @ w) \<and> length w \<le> MAX_FRAME_BYTES
        \<and> host_decode from_bytes (w @ rest) = Ok (Some (host_canon g, length w))"
    using variant_codec.host_decode_encode [OF assms(1), of g _ rest] host_wire_length [of g]
    by (cases "host_wire g") (auto simp: host_encode_wire host_append_wire frame_limits)
qed (use guest_encode_decode [of bs f' n] variant_codec.host_encode_decode [OF assms(1), of bs g' n] in auto)

text \<open>C12: A stream of guest frames is reassembled exactly, however the reads split and combine it. In every
  state the reads and the taking of frames lead to, the frames taken and the bytes still held are the
  bytes read, in order. Taking the next frame and asking for free space never panic, and when no space
  is free the decoder does not wait for more. When everything read so far is a sequence of encoded
  frames followed by the start of another one, the frames taken are the first of that sequence, and a
  reader that goes on until no frame is complete gets exactly the others and leaves exactly that start.\<close>

theorem stream_decoder_reassembles:
  assumes "decoder_run guest_decode wire frames d"
  shows "(\<exists>ws. list_all2 (\<lambda>f w. guest_encode f = Ok w) frames ws \<and> wire = concat ws @ undecoded d)
    \<and> (\<exists>r d0 free d1. next_frame guest_decode d = Some (r, d0) \<and> read_buffer d = Some (free, d1) \<and> (free = [] \<longrightarrow> r \<noteq> Ok None))
    \<and> (\<forall>sent us tail. list_all (\<lambda>f. guest_frame_ok f \<and> guest_canon f = f) sent
        \<and> list_all2 (\<lambda>g u. guest_encode g = Ok u) sent us \<and> wire = concat us @ tail \<and> guest_decode tail = Ok None \<longrightarrow>
        frames = take (length frames) sent
        \<and> (\<exists>d'. take_frames guest_decode (Suc (length sent)) d = Some (drop (length frames) sent, d') \<and> undecoded d' = tail
              \<and> decoder_is_empty d' = (tail = [])))"
  by (rule guest.decoder_reassembles [OF assms])

text \<open>An example: one datagram, read in two pieces.\<close>

definition example_frame :: guest_frame where
  "example_frame = UdpSend \<lparr>ur_peer = SockV4 0x01010101 53, ur_segment = 0, ur_bytes = [7, 8]\<rparr>"

lemma example_frame_encode:
  "guest_encode example_frame = Ok (frame_wire Op_UdpSend
     (ENDPOINT_IPV4 # 0 # to_le_u16 53 @ v4_octets 0x01010101 @ replicate 12 0 @ to_le_u16 0 @ to_le_u16 0 @ [7, 8]))"
  by (simp add: guest_encode_wire example_frame_def udp_wire_def peer_wire_def run_canon_def is_valid_udp_run_def frame_limits)

lemma example_frame_ok: "guest_frame_ok example_frame" "guest_canon example_frame = example_frame"
  by (simp_all add: example_frame_def run_canon_def)

theorem frames_round_trip_witness:
  "\<exists>w. guest_encode example_frame = Ok w \<and> guest_decode (w @ [1, 2]) = Ok (Some (example_frame, length w))"
  using frames_round_trip [OF declared.variant_codec_axioms example_frame_ok(1), where rest = "[1, 2]"]
  by (auto simp: example_frame_encode example_frame_ok split: sum.splits)

theorem stream_decoder_reassembles_witness:
  "\<exists>w d d'. guest_encode example_frame = Ok w \<and> decoder_run guest_decode w [] d \<and> undecoded d = w
     \<and> take_frames guest_decode 2 d = Some ([example_frame], d') \<and> decoder_is_empty d'"
proof -
  obtain w where w: "guest_encode example_frame = Ok w" using example_frame_encode by blast
  have len: "length w = 34" using w by (auto simp: example_frame_encode)
  obtain d1 where d1: "decoder_run guest_decode w [] d1" "decoder_ok d1" "undecoded d1 = w"
  proof -
    obtain free d0 where r: "read_buffer stream_decoder_default = Some (free, d0)" "decoder_ok d0" "undecoded d0 = []"
      "length free = MAX_FRAME_BYTES - sd_end d0"
      using read_buffer_ok [OF default_ok(1)] default_ok(2) by metis
    have "sd_end d0 = 0" using r(1) by (auto simp: read_buffer_def stream_decoder_default_def slice_def MAX_FRAME_BYTES_def)
    with r len have "length w \<le> length free" "length w \<le> MAX_FRAME_BYTES - sd_end d0" by (simp_all add: frame_limits)
    with run_read [OF run_start r(1), of w] fill_ok [OF r(2)] r(3) that show thesis by fastforce
  qed
  have "guest_decode [] = Ok None" by (simp add: guest_decode_def decode_frame_def FRAME_HEADER_BYTES_def)
  then have "\<exists>d'. take_frames guest_decode (Suc (length [example_frame])) d1 = Some (drop (length []) [example_frame], d')
      \<and> undecoded d' = [] \<and> decoder_is_empty d' = ([] = [])"
    using stream_decoder_reassembles [OF d1(1), THEN conjunct2, THEN conjunct2, THEN spec [of _ "[example_frame]"],
        THEN spec [of _ "[w]"], THEN spec [of _ "[]"]] w example_frame_ok by (simp del: take_frames.simps)
  then obtain d' where "take_frames guest_decode (Suc (Suc 0)) d1 = Some ([example_frame], d')" "decoder_is_empty d'"
    by (auto simp del: take_frames.simps)
  with w d1(1,3) show ?thesis by (auto simp: numeral_2_eq_2 simp del: take_frames.simps)
qed

end
