(* ===== verification/Datagram_Batch.thy ===== *)
theory Datagram_Batch
  imports Net_Frames Vsock_Packet
begin

text \<open>
  Datagram batches (\<open>DatagramBatch\<close> of \<open>crates/terra-protocol/src/network.rs\<close>): datagrams to and from the
  network broker packed into one buffer, equal ones of a peer merged into runs as UDP offload does. The
  batch implements a list of datagrams.
\<close>

section \<open>Operations\<close>

definition MAX_NETWORK_CHUNK_BYTES :: nat where "MAX_NETWORK_CHUNK_BYTES = unat MAX_PACKET_DATA_BYTES"
definition MAX_NETWORK_DATAGRAMS :: nat where "MAX_NETWORK_DATAGRAMS = 64"
definition MAX_NETWORK_DATAGRAM_BATCH_BYTES :: nat where
  "MAX_NETWORK_DATAGRAM_BATCH_BYTES = MAX_NETWORK_CHUNK_BYTES"

definition datagram_batch_bytes :: "nat \<Rightarrow> nat \<Rightarrow> nat" where
  "datagram_batch_bytes entries n = n + entries * UDP_FRAME_OVERHEAD_BYTES"

definition is_within_datagram_batch_limits :: "nat \<Rightarrow> nat \<Rightarrow> bool" where
  "is_within_datagram_batch_limits entries n \<longleftrightarrow>
     entries \<le> MAX_NETWORK_DATAGRAMS \<and> datagram_batch_bytes entries n \<le> MAX_NETWORK_DATAGRAM_BATCH_BYTES"

record datagram_header =
  dh_peer :: socket_addr
  dh_length :: u16
  dh_segment :: u16

definition header_is_valid :: "datagram_header \<Rightarrow> bool" where
  "header_is_valid h = is_valid_udp_run (unat (dh_length h)) (unat (dh_segment h))"

record datagram_batch =
  bt_headers :: "datagram_header list"
  bt_bytes :: bytes

definition batch_default :: datagram_batch where
  "batch_default = \<lparr>bt_headers = [], bt_bytes = []\<rparr>"

definition from_parts :: "datagram_header list \<Rightarrow> bytes \<Rightarrow> datagram_batch option" where
  "from_parts headers bs =
     (if \<not> list_all header_is_valid headers then None
      else if sum_list (map (\<lambda>h. unat (dh_length h)) headers) = length bs
        \<and> is_within_datagram_batch_limits (length headers) (length bs)
      then Some \<lparr>bt_headers = headers, bt_bytes = bs\<rparr> else None)"

definition batch_bytes :: "datagram_batch \<Rightarrow> nat" where
  "batch_bytes b = datagram_batch_bytes (length (bt_headers b)) (length (bt_bytes b))"

definition has_room_for_entry :: "nat \<Rightarrow> datagram_batch \<Rightarrow> bool" where
  "has_room_for_entry n b = is_within_datagram_batch_limits (length (bt_headers b) + 1) (length (bt_bytes b) + n)"

definition has_room_for_datagram :: "datagram_batch \<Rightarrow> bool" where
  "has_room_for_datagram b = has_room_for_entry MAX_NETWORK_DATAGRAM_BYTES b"

text \<open>The last entry of the batch with a datagram merged into it, where that is possible.\<close>

definition batch_merge :: "socket_addr \<Rightarrow> bytes \<Rightarrow> datagram_batch \<Rightarrow> datagram_batch option" where
  "batch_merge peer bs b =
     (if bt_headers b = [] then None
      else let l = last (bt_headers b);
               segment = (if dh_segment l = 0 then dh_length l else dh_segment l) in
        if dh_peer l = peer \<and> extends_udp_run (unat (dh_length l)) (unat segment) (length bs)
          \<and> batch_bytes b + length bs \<le> MAX_NETWORK_DATAGRAM_BATCH_BYTES
        then Some \<lparr>bt_headers = butlast (bt_headers b)
                     @ [l\<lparr>dh_segment := segment, dh_length := dh_length l + word_of_nat (length bs)\<rparr>],
                   bt_bytes = bt_bytes b @ bs\<rparr>
        else None)"

definition batch_push :: "socket_addr \<Rightarrow> bytes \<Rightarrow> datagram_batch \<Rightarrow> bool \<times> datagram_batch" where
  "batch_push peer bs b =
     (if length bs \<ge> 2 ^ 16 then (False, b)
      else case batch_merge peer bs b of
        Some b' \<Rightarrow> (True, b')
      | None \<Rightarrow>
          if length bs > MAX_NETWORK_DATAGRAM_BYTES \<or> \<not> has_room_for_entry (length bs) b then (False, b)
          else (True, \<lparr>bt_headers = bt_headers b @ [\<lparr>dh_peer = peer, dh_length = word_of_nat (length bs), dh_segment = 0\<rparr>],
                       bt_bytes = bt_bytes b @ bs\<rparr>))"

fun push_chunks :: "socket_addr \<Rightarrow> bytes list \<Rightarrow> nat \<Rightarrow> datagram_batch \<Rightarrow> nat \<times> datagram_batch" where
  "push_chunks peer [] taken b = (taken, b)"
| "push_chunks peer (datagram # ds) taken b =
     (case batch_push peer datagram b of
        (False, b) \<Rightarrow> (taken, b)
      | (True, b) \<Rightarrow> push_chunks peer ds (taken + length datagram) b)"

definition push_run :: "socket_addr \<Rightarrow> bytes \<Rightarrow> nat \<Rightarrow> datagram_batch \<Rightarrow> nat \<times> datagram_batch" where
  "push_run peer bs stride b =
     (if bs = [] then (0, snd (batch_push peer bs b))
      else push_chunks peer (chunks (max stride 1) bs) 0 b)"

text \<open>\<open>split_at\<close> panics past the end.\<close>

fun entries_from :: "datagram_header list \<Rightarrow> bytes \<Rightarrow> (socket_addr \<times> u16 \<times> bytes) list option" where
  "entries_from [] rest = Some []"
| "entries_from (h # hs) rest =
     (if unat (dh_length h) \<le> length rest
      then map_option ((#) (dh_peer h, dh_segment h, take (unat (dh_length h)) rest))
             (entries_from hs (drop (unat (dh_length h)) rest))
      else None)"

definition batch_entries :: "datagram_batch \<Rightarrow> (socket_addr \<times> u16 \<times> bytes) list option" where
  "batch_entries b = entries_from (bt_headers b) (bt_bytes b)"

definition entry_datagrams :: "socket_addr \<times> u16 \<times> bytes \<Rightarrow> (socket_addr \<times> bytes) list" where
  "entry_datagrams = (\<lambda>(peer, segment, run).
     let n = (if segment = 0 then max (length run) 1 else unat segment) in
     map (Pair peer) (chunks n run @ (if run = [] then [run] else [])))"

definition batch_datagrams :: "datagram_batch \<Rightarrow> (socket_addr \<times> bytes) list option" where
  "batch_datagrams b = map_option (\<lambda>es. concat (map entry_datagrams es)) (batch_entries b)"

section \<open>The batch is a list of datagrams\<close>

text \<open>The batches that \<open>from_parts\<close> admits, as the deserialiser and the constructors give them.\<close>

definition batch_ok :: "datagram_batch \<Rightarrow> bool" where
  "batch_ok b \<longleftrightarrow> from_parts (bt_headers b) (bt_bytes b) = Some b"

lemma batch_ok_iff:
  "batch_ok b \<longleftrightarrow> list_all header_is_valid (bt_headers b)
     \<and> sum_list (map (\<lambda>h. unat (dh_length h)) (bt_headers b)) = length (bt_bytes b)
     \<and> length (bt_headers b) \<le> MAX_NETWORK_DATAGRAMS \<and> batch_bytes b \<le> MAX_NETWORK_DATAGRAM_BATCH_BYTES"
  by (cases b) (auto simp: batch_ok_def from_parts_def is_within_datagram_batch_limits_def batch_bytes_def)

lemma entries_from_append:
  assumes "sum_list (map (\<lambda>h. unat (dh_length h)) hs) = length xs"
  shows "entries_from (hs @ gs) (xs @ ys) =
    (case entries_from hs xs of None \<Rightarrow> None | Some es \<Rightarrow> map_option ((@) es) (entries_from gs ys))"
  using assms
proof (induction hs arbitrary: xs)
  case (Cons h hs)
  then have "unat (dh_length h) \<le> length xs" by simp
  with Cons show ?case by (cases "entries_from gs ys") (simp_all split: option.split)
qed (cases "entries_from gs ys"; simp)

lemma entries_from_total:
  "sum_list (map (\<lambda>h. unat (dh_length h)) hs) = length xs \<Longrightarrow> \<exists>es. entries_from hs xs = Some es"
  by (induction hs arbitrary: xs) auto

lemma entries_single: "unat (dh_length h) = length xs \<Longrightarrow> entries_from [h] xs = Some [(dh_peer h, dh_segment h, xs)]"
  by simp

text \<open>The datagrams of one more header.\<close>

lemma datagrams_snoc:
  assumes "sum_list (map (\<lambda>h. unat (dh_length h)) hs) = length xs" and "unat (dh_length h) = length ys"
    and "entries_from hs xs = Some es"
  shows "batch_datagrams \<lparr>bt_headers = hs @ [h], bt_bytes = xs @ ys\<rparr>
    = Some (concat (map entry_datagrams es) @ entry_datagrams (dh_peer h, dh_segment h, ys))"
  unfolding batch_datagrams_def batch_entries_def
  using entries_from_append [OF assms(1), of "[h]" ys] entries_single [OF assms(2)] assms(3) by simp

lemma entry_datagrams_single: "entry_datagrams (peer, 0, bs) = [(peer, bs)]"
  by (cases "bs = []") (simp_all add: entry_datagrams_def chunks_short)

lemma entry_datagrams_merge:
  assumes "extends_udp_run (length run) (unat s) (length bs)" and "s = (if segment = 0 then word_of_nat (length run) else segment)"
    and "is_valid_udp_run (length run) (unat segment)"
  shows "entry_datagrams (peer, s, run @ bs) = entry_datagrams (peer, segment, run) @ [(peer, bs)]"
proof -
  from assms(1) have bs: "bs \<noteq> []" "length bs \<le> unat s" and m: "length run mod unat s = 0"
    by (auto simp: extends_udp_run_def)
  have pos: "0 < unat s" using bs by (cases "unat s") auto
  have cat: "chunks (unat s) (run @ bs) = chunks (unat s) run @ [bs]"
    using chunks_append [OF pos m] chunks_short [OF pos bs(1,2)] by simp
  have "s \<noteq> 0" using pos by (simp add: unat_gt_0)
  show ?thesis
  proof (cases "segment = 0")
    case True
    then have "length run = unat s" using assms(2) valid_run_bound [OF assms(3)] by (simp add: unat_of_nat_eq)
    moreover from this pos have "run \<noteq> []" "max (length run) 1 = unat s" by auto
    ultimately show ?thesis using cat \<open>s \<noteq> 0\<close> True by (simp add: entry_datagrams_def)
  next
    case False
    then have "run \<noteq> []" using assms(3) by (auto simp: is_valid_udp_run_def is_valid_segmented_run_def word_unat_eq_iff)
    then show ?thesis using False assms(2) cat by (simp add: entry_datagrams_def)
  qed
qed

lemma batch_merge_ok:
  assumes "batch_ok b" and "batch_merge peer bs b = Some b'"
  shows "batch_ok b' \<and> (\<exists>ds. batch_datagrams b = Some ds \<and> batch_datagrams b' = Some (ds @ [(peer, bs)]))"
proof -
  obtain hs l where hs: "bt_headers b = hs @ [l]"
    using assms(2) by (cases "bt_headers b" rule: rev_cases) (auto simp: batch_merge_def)
  define s where "s = (if dh_segment l = 0 then dh_length l else dh_segment l)"
  define l' where "l' = l\<lparr>dh_segment := s, dh_length := dh_length l + word_of_nat (length bs)\<rparr>"
  from assms(2) have ext: "extends_udp_run (unat (dh_length l)) (unat s) (length bs)" and peer: "dh_peer l = peer"
    and room: "batch_bytes b + length bs \<le> MAX_NETWORK_DATAGRAM_BATCH_BYTES"
    and b': "b' = \<lparr>bt_headers = hs @ [l'], bt_bytes = bt_bytes b @ bs\<rparr>"
    by (auto simp: batch_merge_def hs s_def l'_def Let_def split: if_splits)
  from assms(1) have valid: "list_all header_is_valid hs" "is_valid_udp_run (unat (dh_length l)) (unat (dh_segment l))"
    and sum: "sum_list (map (\<lambda>h. unat (dh_length h)) hs) + unat (dh_length l) = length (bt_bytes b)"
    by (auto simp: batch_ok_iff hs header_is_valid_def)
  define n where "n = sum_list (map (\<lambda>h. unat (dh_length h)) hs)"
  define xs where "xs = take n (bt_bytes b)"
  define run where "run = drop n (bt_bytes b)"
  have cut: "bt_bytes b = xs @ run" "n = length xs" "length run = unat (dh_length l)"
    using sum by (simp_all add: xs_def run_def n_def)
  then have eq: "unat (dh_length l) = length run" by simp
  from ext have seg: "is_valid_segmented_run (length run + length bs) (unat s)" by (simp add: extends_udp_run_def eq)
  then have bound: "length run + length bs \<le> 65504" by (simp add: is_valid_segmented_run_def frame_limits)
  then have "unat (word_of_nat (length bs) :: u16) = length bs" by (simp add: unat_of_nat_eq)
  then have l': "unat (dh_length l') = length (run @ bs)" "dh_segment l' = s" "dh_peer l' = peer"
    using bound eq peer by (simp_all add: l'_def unat_add_no_wrap)
  obtain es where es: "entries_from hs xs = Some es" using entries_from_total [of hs xs] cut by (auto simp: n_def)
  have "batch_ok b'"
    using assms(1) valid seg l' sum room cut
    by (simp add: batch_ok_iff b' hs header_is_valid_def is_valid_udp_run_def batch_bytes_def datagram_batch_bytes_def
        is_valid_segmented_run_def)
  moreover have "batch_datagrams b = Some (concat (map entry_datagrams es) @ entry_datagrams (peer, dh_segment l, run))"
    using datagrams_snoc [of hs xs l run es] cut es peer hs by (cases b) (simp add: n_def)
  moreover have "batch_datagrams b' = Some (concat (map entry_datagrams es) @ entry_datagrams (peer, s, run @ bs))"
    using datagrams_snoc [of hs xs l' "run @ bs" es] cut es l' by (simp add: n_def b')
  moreover have "s = (if dh_segment l = 0 then word_of_nat (length run) else dh_segment l)"
    by (simp add: s_def eq [symmetric])
  then have "entry_datagrams (peer, s, run @ bs) = entry_datagrams (peer, dh_segment l, run) @ [(peer, bs)]"
    using ext valid(2) by (intro entry_datagrams_merge) (simp_all add: eq)
  ultimately show ?thesis by simp
qed

lemma batch_push_ok:
  assumes "batch_ok b" and "batch_push peer bs b = (True, b')"
  shows "batch_ok b' \<and> (\<exists>ds. batch_datagrams b = Some ds \<and> batch_datagrams b' = Some (ds @ [(peer, bs)]))"
proof (cases "batch_merge peer bs b")
  case None
  let ?h = "\<lparr>dh_peer = peer, dh_length = word_of_nat (length bs), dh_segment = 0\<rparr>"
  from None assms(2) have len: "length bs < 65536" "length bs \<le> MAX_NETWORK_DATAGRAM_BYTES"
    and room: "has_room_for_entry (length bs) b"
    and b': "b' = \<lparr>bt_headers = bt_headers b @ [?h], bt_bytes = bt_bytes b @ bs\<rparr>"
    by (auto simp: batch_push_def split: if_splits)
  have h: "unat (dh_length ?h) = length bs" using len(1) by (simp add: unat_of_nat_eq)
  note ok = assms(1) [unfolded batch_ok_iff]
  then have sum: "sum_list (map (\<lambda>h. unat (dh_length h)) (bt_headers b)) = length (bt_bytes b)" by simp
  then obtain es where es: "entries_from (bt_headers b) (bt_bytes b) = Some es" using entries_from_total by blast
  have "batch_ok b'"
    using ok h len room
    by (simp add: batch_ok_iff b' header_is_valid_def is_valid_udp_run_def has_room_for_entry_def batch_bytes_def
        is_within_datagram_batch_limits_def)
  moreover have "batch_datagrams b' = Some (concat (map entry_datagrams es) @ [(peer, bs)])"
    using datagrams_snoc [OF sum h es] by (simp add: b' entry_datagrams_single)
  moreover have "batch_datagrams b = Some (concat (map entry_datagrams es))"
    using es by (simp add: batch_datagrams_def batch_entries_def)
  ultimately show ?thesis by simp
next
  case (Some b1)
  with assms batch_merge_ok [OF assms(1) Some] show ?thesis by (auto simp: batch_push_def split: if_splits)
qed

lemma batch_push_refused:
  assumes "batch_push peer bs b = (False, b')"
  shows "b' = b \<and> (length bs > MAX_NETWORK_DATAGRAM_BYTES \<or> \<not> has_room_for_entry (length bs) b)"
  using assms by (auto simp: batch_push_def frame_limits split: if_splits option.splits)

lemma push_chunks_ok:
  assumes "push_chunks peer cs taken b = (n, b')" and "batch_ok b" and "batch_datagrams b = Some ds"
  shows "\<exists>k \<le> length cs. n = taken + length (concat (take k cs)) \<and> batch_ok b'
    \<and> batch_datagrams b' = Some (ds @ map (Pair peer) (take k cs))
    \<and> (k < length cs \<longrightarrow> batch_push peer (cs ! k) b' = (False, b'))"
  using assms
proof (induction cs arbitrary: taken b ds)
  case Nil
  then show ?case by simp
next
  case (Cons c cs)
  obtain r b1 where push: "batch_push peer c b = (r, b1)" by fastforce
  show ?case
  proof (cases r)
    case True
    with batch_push_ok [OF Cons.prems(2)] push Cons.prems(3)
    have b1: "batch_ok b1" "batch_datagrams b1 = Some (ds @ [(peer, c)])" by auto
    from True push Cons.prems(1) have "push_chunks peer cs (taken + length c) b1 = (n, b')" by simp
    from Cons.IH [OF this b1] obtain k where "k \<le> length cs" "n = taken + length c + length (concat (take k cs))"
      "batch_ok b'" "batch_datagrams b' = Some ((ds @ [(peer, c)]) @ map (Pair peer) (take k cs))"
      "k < length cs \<longrightarrow> batch_push peer (cs ! k) b' = (False, b')" by blast
    then show ?thesis by (intro exI [of _ "Suc k"]) simp
  next
    case False
    with push Cons.prems batch_push_refused [of peer c b b1] show ?thesis by (intro exI [of _ 0]) simp
  qed
qed

text \<open>The datagrams of some bytes: no bytes are one empty datagram.\<close>

definition run_datagrams :: "nat \<Rightarrow> bytes \<Rightarrow> bytes list" where
  "run_datagrams stride bs = (if bs = [] then [[]] else chunks (max stride 1) bs)"

lemma push_run_chunks: "push_run peer bs stride b = push_chunks peer (run_datagrams stride bs) 0 b"
proof (cases "bs = []")
  case True
  obtain r b1 where "batch_push peer [] b = (r, b1)" by fastforce
  with True show ?thesis by (cases r) (simp_all add: push_run_def run_datagrams_def)
qed (simp add: push_run_def run_datagrams_def)

section \<open>Properties\<close>

text \<open>C18: A batch is the list of the datagrams pushed into it. Pushing bytes with a stride, an empty datagram
  included, appends the first of their datagrams, in order and from their peer, however they are merged
  into runs, and returns the number of bytes in them. It stops before the last one only at a datagram
  that is too long or has no room. The batch stays one that its reader accepts, so every entry is a
  valid run and all of them fit one message.\<close>

theorem push_run_refines_datagrams:
  assumes "batch_ok b" and "push_run peer bs stride b = (n, b')"
  shows "batch_ok b' \<and> (\<exists>ds k. batch_datagrams b = Some ds \<and> k \<le> length (run_datagrams stride bs)
    \<and> batch_datagrams b' = Some (ds @ map (Pair peer) (take k (run_datagrams stride bs)))
    \<and> n = length (concat (take k (run_datagrams stride bs)))
    \<and> (k < length (run_datagrams stride bs) \<longrightarrow>
        (let datagram = run_datagrams stride bs ! k in
         length datagram > MAX_NETWORK_DATAGRAM_BYTES \<or> \<not> has_room_for_entry (length datagram) b')))"
proof -
  let ?cs = "run_datagrams stride bs"
  obtain ds where ds: "batch_datagrams b = Some ds"
    using assms(1) entries_from_total by (fastforce simp: batch_ok_iff batch_datagrams_def batch_entries_def)
  have "push_chunks peer ?cs 0 b = (n, b')" using assms(2) by (simp add: push_run_chunks)
  from push_chunks_ok [OF this assms(1) ds] obtain k where k: "k \<le> length ?cs" "n = length (concat (take k ?cs))" "batch_ok b'"
    "batch_datagrams b' = Some (ds @ map (Pair peer) (take k ?cs))"
    "k < length ?cs \<longrightarrow> batch_push peer (?cs ! k) b' = (False, b')" by auto
  have "k < length ?cs \<longrightarrow> length (?cs ! k) > MAX_NETWORK_DATAGRAM_BYTES \<or> \<not> has_room_for_entry (length (?cs ! k)) b'"
    using k(5) batch_push_refused [of peer "?cs ! k" b' b'] by blast
  with ds k(1-4) show ?thesis unfolding Let_def by blast
qed

text \<open>An example: three bytes as datagrams of two.\<close>

lemma example_push:
  "push_run (SockV4 1 53) [1, 2, 3] 2 batch_default
   = (3, \<lparr>bt_headers = [\<lparr>dh_peer = SockV4 1 53, dh_length = 3, dh_segment = 2\<rparr>], bt_bytes = [1, 2, 3]\<rparr>)"
proof -
  have "chunks (Suc (Suc 0)) [1, 2, 3 :: u8] = [[1, 2], [3]]" by (simp add: chunks_take)
  then show ?thesis
    by (simp add: push_run_def batch_default_def batch_push_def batch_merge_def has_room_for_entry_def
        is_within_datagram_batch_limits_def datagram_batch_bytes_def batch_bytes_def MAX_NETWORK_DATAGRAMS_def
        MAX_NETWORK_DATAGRAM_BATCH_BYTES_def MAX_NETWORK_CHUNK_BYTES_def MAX_PACKET_DATA_BYTES_def extends_udp_run_def
        is_valid_segmented_run_def frame_limits)
qed

lemma batch_default_ok: "batch_ok batch_default"
  by (simp add: batch_ok_iff batch_default_def batch_bytes_def datagram_batch_bytes_def)

theorem push_run_refines_datagrams_witness:
  "(\<exists>b'. push_run (SockV4 1 53) [1, 2, 3] 2 batch_default = (3, b')
      \<and> batch_datagrams b' = Some [(SockV4 1 53, [1, 2]), (SockV4 1 53, [3])])
   \<and> (\<exists>b'. push_run (SockV4 1 53) [] 0 batch_default = (0, b') \<and> batch_datagrams b' = Some [(SockV4 1 53, [])])"
proof (rule conjI)
  have cs: "run_datagrams 2 [1, 2, 3] = [[1, 2], [3]]" by (simp add: run_datagrams_def chunks_take)
  have none: "batch_datagrams batch_default = Some []" by (simp add: batch_default_def batch_datagrams_def batch_entries_def)
  obtain b' where p: "push_run (SockV4 1 53) [1, 2, 3] 2 batch_default = (3, b')" using example_push by blast
  obtain k where "k \<le> length (run_datagrams 2 [1, 2, 3 :: u8])"
    "batch_datagrams b' = Some ([] @ map (Pair (SockV4 1 53)) (take k (run_datagrams 2 [1, 2, 3])))"
    "3 = length (concat (take k (run_datagrams 2 [1, 2, 3 :: u8])))"
    using push_run_refines_datagrams [OF batch_default_ok p] none by (metis option.inject)
  then have k: "k \<le> 2" "batch_datagrams b' = Some (map (Pair (SockV4 1 53)) (take k [[1, 2], [3]]))"
    "length (concat (take k [[1, 2], [3 :: u8]])) = 3" unfolding cs by simp_all
  then have "k = 2" by (cases "k = 0 \<or> k = 1") (auto simp: le_Suc_eq numeral_2_eq_2)
  with k(2) p show "\<exists>b'. push_run (SockV4 1 53) [1, 2, 3] 2 batch_default = (3, b')
      \<and> batch_datagrams b' = Some [(SockV4 1 53, [1, 2]), (SockV4 1 53, [3])]" by (simp add: numeral_2_eq_2)
  have room: "has_room_for_entry 0 b" if "b = batch_default" for b
    using that by (simp add: has_room_for_entry_def is_within_datagram_batch_limits_def batch_default_def datagram_batch_bytes_def
        MAX_NETWORK_DATAGRAMS_def MAX_NETWORK_DATAGRAM_BATCH_BYTES_def MAX_NETWORK_CHUNK_BYTES_def MAX_PACKET_DATA_BYTES_def frame_limits)
  obtain n b' where p: "push_run (SockV4 1 53) [] 0 batch_default = (n, b')" by fastforce
  have es: "run_datagrams 0 [] = [[]]" by (simp add: run_datagrams_def)
  obtain k where "k \<le> length (run_datagrams 0 [])" "n = length (concat (take k (run_datagrams 0 [])))"
    "batch_datagrams b' = Some ([] @ map (Pair (SockV4 1 53)) (take k (run_datagrams 0 [])))"
    "k < length (run_datagrams 0 []) \<longrightarrow> (let datagram = run_datagrams 0 [] ! k in
       length datagram > MAX_NETWORK_DATAGRAM_BYTES \<or> \<not> has_room_for_entry (length datagram) b')"
    using push_run_refines_datagrams [OF batch_default_ok p] none by (metis option.inject)
  then have k: "k \<le> 1" "n = 0" "batch_datagrams b' = Some (map (Pair (SockV4 1 53)) (take k [[]]))"
    "k = 0 \<longrightarrow> \<not> has_room_for_entry 0 b'" unfolding es by (auto simp: le_Suc_eq)
  have "k \<noteq> 0"
  proof
    assume "k = 0"
    with k(3,4) p room show False
      by (auto simp: push_run_def batch_push_def batch_merge_def batch_default_def batch_datagrams_def batch_entries_def entry_datagrams_def split: if_splits)
  qed
  with k p show "\<exists>b'. push_run (SockV4 1 53) [] 0 batch_default = (0, b') \<and> batch_datagrams b' = Some [(SockV4 1 53, [])]"
    by (cases k) auto
qed

end
