(* ===== verification/Dns_Messages.thy ===== *)
theory Dns_Messages
  imports Net_Frames
begin

text \<open>
  DNS queries and responses (\<open>crates/terra-protocol/src/dns.rs\<close>): parsing the question of a query and
  building the answer for the guest. Text is its UTF-8 bytes; the check of \<open>std::str::from_utf8\<close> is
  written out.
\<close>

section \<open>Limits\<close>

definition MAX_DNS_BYTES :: nat where "MAX_DNS_BYTES = 4096"

datatype dns_transport = Datagram | Stream

definition QUESTION_NAME_OFFSET :: u8 where "QUESTION_NAME_OFFSET = 12"
definition DNS_HEADER_BYTES :: nat where "DNS_HEADER_BYTES = unat QUESTION_NAME_OFFSET"
definition FLAGS_OFFSET :: nat where "FLAGS_OFFSET = 2"
definition QUESTION_COUNT_OFFSET :: nat where "QUESTION_COUNT_OFFSET = 4"
definition QUESTION_FIXED_BYTES :: nat where "QUESTION_FIXED_BYTES = 4"
definition POINTER_TAG :: u8 where "POINTER_TAG = 0xc0"
definition FLAG_RESPONSE :: u16 where "FLAG_RESPONSE = 0x8000"
definition FLAG_TRUNCATED :: u16 where "FLAG_TRUNCATED = 0x0200"
definition FLAG_RECURSION_DESIRED :: u16 where "FLAG_RECURSION_DESIRED = 0x0100"
definition FLAG_RECURSION_AVAILABLE :: u16 where "FLAG_RECURSION_AVAILABLE = 0x0080"
definition CLASS_IN :: u16 where "CLASS_IN = 1"
definition TYPE_A :: u16 where "TYPE_A = 1"
definition TYPE_AAAA :: u16 where "TYPE_AAAA = 28"
definition ANSWER_TTL_SECS :: u32 where "ANSWER_TTL_SECS = 60"
definition UDP_RESPONSE_BYTES :: nat where "UDP_RESPONSE_BYTES = 512"
definition MAX_LABEL_BYTES :: u8 where "MAX_LABEL_BYTES = 63"
definition MAX_DNS_NAME_BYTES :: nat where "MAX_DNS_NAME_BYTES = 253"

lemmas dns_limits = MAX_DNS_BYTES_def QUESTION_NAME_OFFSET_def DNS_HEADER_BYTES_def FLAGS_OFFSET_def
  QUESTION_COUNT_OFFSET_def QUESTION_FIXED_BYTES_def UDP_RESPONSE_BYTES_def MAX_LABEL_BYTES_def MAX_DNS_NAME_BYTES_def

datatype rcode = ServFail | NxDomain

primrec rcode_code :: "rcode \<Rightarrow> u16" where
  "rcode_code ServFail = 2"
| "rcode_code NxDomain = 3"

section \<open>Text\<close>

definition continuation :: "u8 \<Rightarrow> bool" where
  "continuation b \<longleftrightarrow> 0x80 \<le> b \<and> b \<le> 0xbf"

text \<open>The second byte of a sequence of three or four bytes, by the first.\<close>

definition second_of_three :: "u8 \<Rightarrow> u8 \<Rightarrow> bool" where
  "second_of_three a b \<longleftrightarrow>
     a = 0xe0 \<and> 0xa0 \<le> b \<and> b \<le> 0xbf \<or> 0xe1 \<le> a \<and> a \<le> 0xec \<and> continuation b
     \<or> a = 0xed \<and> 0x80 \<le> b \<and> b \<le> 0x9f \<or> 0xee \<le> a \<and> a \<le> 0xef \<and> continuation b"

definition second_of_four :: "u8 \<Rightarrow> u8 \<Rightarrow> bool" where
  "second_of_four a b \<longleftrightarrow>
     a = 0xf0 \<and> 0x90 \<le> b \<and> b \<le> 0xbf \<or> 0xf1 \<le> a \<and> a \<le> 0xf3 \<and> continuation b
     \<or> a = 0xf4 \<and> 0x80 \<le> b \<and> b \<le> 0x8f"

fun from_utf8 :: "bytes \<Rightarrow> bool" where
  "from_utf8 [] = True"
| "from_utf8 (a # bs) =
     (if a < 0x80 then from_utf8 bs
      else if 0xc2 \<le> a \<and> a \<le> 0xdf then (case bs of b # bs \<Rightarrow> continuation b \<and> from_utf8 bs | _ \<Rightarrow> False)
      else if 0xe0 \<le> a \<and> a \<le> 0xef
      then (case bs of b # c # bs \<Rightarrow> second_of_three a b \<and> continuation c \<and> from_utf8 bs | _ \<Rightarrow> False)
      else if 0xf0 \<le> a \<and> a \<le> 0xf4
      then (case bs of b # c # d # bs \<Rightarrow> second_of_four a b \<and> continuation c \<and> continuation d \<and> from_utf8 bs
                     | _ \<Rightarrow> False)
      else False)"

definition make_ascii_lowercase :: "bytes \<Rightarrow> bytes" where
  "make_ascii_lowercase = map (\<lambda>b. if 65 \<le> b \<and> b \<le> 90 then b + 32 else b)"

section \<open>Questions\<close>

definition to_be_u16 :: "u16 \<Rightarrow> bytes" where
  "to_be_u16 v = be_bytes 2 (unat v)"

definition to_be_u32 :: "u32 \<Rightarrow> bytes" where
  "to_be_u32 v = be_bytes 4 (unat v)"

definition from_be_u16 :: "bytes \<Rightarrow> u16" where
  "from_be_u16 bs = word_of_nat (of_be bs)"

definition read_u16 :: "bytes \<Rightarrow> nat \<Rightarrow> u16 option" where
  "read_u16 buf offset = (if offset + 2 \<le> length buf then Some (from_be_u16 (take 2 (drop offset buf))) else None)"

record question =
  dq_name :: bytes
  dq_query :: bytes
  dq_wire :: bytes
  dq_qtype :: u16

text \<open>The loop over the labels of the name.\<close>

function parse_labels :: "bytes \<Rightarrow> nat \<Rightarrow> bytes \<Rightarrow> (bytes \<times> nat) option" where
  "parse_labels query pos name =
     (if length query \<le> pos then None
      else let len = query ! pos; pos' = pos + 1 in
        if len = 0 then Some (name, pos')
        else if len > MAX_LABEL_BYTES then None
        else case slice query pos' (pos' + unat len) of
          None \<Rightarrow> None
        | Some label \<Rightarrow>
            if length name + length label + (if name \<noteq> [] then 1 else 0) > MAX_DNS_NAME_BYTES then None
            else if \<not> from_utf8 label then None
            else parse_labels query (pos' + length label) ((if name \<noteq> [] then name @ [46] else name) @ label))"
  by pat_completeness auto
termination by (relation "measure (\<lambda>(query, pos, name). length query - pos)") auto

declare parse_labels.simps [simp del]

definition question_parse :: "bytes \<Rightarrow> question option" where
  "question_parse query =
     (if read_u16 query QUESTION_COUNT_OFFSET \<noteq> Some 1 then None
      else case parse_labels query DNS_HEADER_BYTES [] of
        None \<Rightarrow> None
      | Some (name, pos) \<Rightarrow>
          (case read_u16 query pos of
             None \<Rightarrow> None
           | Some qtype \<Rightarrow>
               (case slice query DNS_HEADER_BYTES (pos + QUESTION_FIXED_BYTES) of
                  None \<Rightarrow> None
                | Some wire \<Rightarrow> Some \<lparr>dq_name = make_ascii_lowercase name, dq_query = query, dq_wire = wire, dq_qtype = qtype\<rparr>)))"

section \<open>Responses\<close>

definition start_response :: "bytes \<Rightarrow> u16 \<Rightarrow> u16 \<Rightarrow> u16 \<Rightarrow> bytes" where
  "start_response query flags question_count answer_count =
     (let id = (case read_u16 query 0 of None \<Rightarrow> 0 | Some v \<Rightarrow> v);
          recursion_desired = (case read_u16 query FLAGS_OFFSET of None \<Rightarrow> 0 | Some v \<Rightarrow> v) AND FLAG_RECURSION_DESIRED;
          flags = FLAG_RESPONSE OR recursion_desired OR FLAG_RECURSION_AVAILABLE OR flags
      in concat (map to_be_u16 [id, flags, question_count, answer_count, 0, 0]))"

definition header_only_response :: "bytes \<Rightarrow> question option \<Rightarrow> u16 \<Rightarrow> bytes" where
  "header_only_response query q flags =
     start_response query flags (if q \<noteq> None then 1 else 0) 0 @ (case q of None \<Rightarrow> [] | Some q \<Rightarrow> dq_wire q)"

definition is_answer :: "u16 \<Rightarrow> ip_addr \<Rightarrow> bool" where
  "is_answer qtype ip = (case ip of V4 _ \<Rightarrow> qtype = TYPE_A | V6 _ \<Rightarrow> qtype = TYPE_AAAA)"

definition rdata :: "ip_addr \<Rightarrow> bytes" where
  "rdata ip = (case ip of V4 a \<Rightarrow> v4_octets a | V6 a \<Rightarrow> v6_octets a)"

definition answer_record :: "u16 \<Rightarrow> ip_addr \<Rightarrow> bytes" where
  "answer_record qtype ip =
     [POINTER_TAG, QUESTION_NAME_OFFSET] @ to_be_u16 qtype @ to_be_u16 CLASS_IN @ to_be_u32 ANSWER_TTL_SECS
     @ to_be_u16 (word_of_nat (length (rdata ip))) @ rdata ip"

definition full_answer :: "question \<Rightarrow> ip_addr list \<Rightarrow> bytes option" where
  "full_answer q ips =
     (let answers = filter (is_answer (dq_qtype q)) ips in
      if length answers \<ge> 2 ^ 16 then None
      else Some (start_response (dq_query q) 0 1 (word_of_nat (length answers)) @ dq_wire q
        @ concat (map (answer_record (dq_qtype q)) answers)))"

definition answer :: "question \<Rightarrow> ip_addr list \<Rightarrow> dns_transport \<Rightarrow> bytes" where
  "answer q ips transport =
     (let max_response_bytes = (case transport of Datagram \<Rightarrow> UDP_RESPONSE_BYTES | Stream \<Rightarrow> MAX_DNS_BYTES);
          failed = (\<lambda>flags. header_only_response (dq_query q) (Some q) flags) in
      case full_answer q ips of
        Some response \<Rightarrow>
          if length response \<le> max_response_bytes then response
          else if transport = Datagram then failed FLAG_TRUNCATED
          else failed (rcode_code ServFail)
      | None \<Rightarrow> failed (rcode_code ServFail))"

definition question_error :: "question \<Rightarrow> rcode \<Rightarrow> bytes" where
  "question_error q code = header_only_response (dq_query q) (Some q) (rcode_code code)"

definition error_response :: "bytes \<Rightarrow> rcode \<Rightarrow> bytes" where
  "error_response query code = header_only_response query (question_parse query) (rcode_code code)"

section \<open>Names on the wire\<close>

lemma to_be_read [simp]: "from_be_u16 (to_be_u16 v) = v" "length (to_be_u16 v) = 2" "length (to_be_u32 w) = 4"
  using unat_lt_pow [of v] by (simp_all add: from_be_u16_def to_be_u16_def to_be_u32_def)

lemma to_be_written: "length bs = 2 \<Longrightarrow> to_be_u16 (from_be_u16 bs) = bs"
  using of_be_bound [of bs] be_bytes_of_be [of bs] by (simp add: from_be_u16_def to_be_u16_def unat_of_nat_eq)

definition label_ok :: "bytes \<Rightarrow> bool" where
  "label_ok l \<longleftrightarrow> l \<noteq> [] \<and> length l \<le> 63 \<and> from_utf8 l"

definition label_wire :: "bytes \<Rightarrow> bytes" where
  "label_wire l = word_of_nat (length l) # l"

definition name_wire :: "bytes list \<Rightarrow> bytes" where
  "name_wire ls = concat (map label_wire ls) @ [0]"

definition add_label :: "bytes \<Rightarrow> bytes \<Rightarrow> bytes" where
  "add_label name l = (if name \<noteq> [] then name @ [46] else name) @ l"

text \<open>The labels of a name joined by dots.\<close>

definition join_labels :: "bytes list \<Rightarrow> bytes" where
  "join_labels = foldl add_label []"

lemma length_add_labels: "length name \<le> length (foldl add_label name ls)"
proof (induction ls arbitrary: name)
  case (Cons l ls)
  have "length name \<le> length (add_label name l)" by (simp add: add_label_def)
  with Cons [of "add_label name l"] show ?case by simp
qed simp

lemma name_wire_simps [simp]: "name_wire [] = [0]" "name_wire (l # ls) = label_wire l @ name_wire ls"
  by (simp_all add: name_wire_def)

lemma length_label_wire [simp]: "length (label_wire l) = Suc (length l)"
  by (simp add: label_wire_def)

lemma length_more_labels:
  "name \<noteq> [] \<Longrightarrow> length (foldl add_label name ls) + 1 = length name + length (name_wire ls)"
proof (induction ls arbitrary: name)
  case (Cons l ls)
  then have "add_label name l \<noteq> []" "length (add_label name l) = length name + 1 + length l" by (simp_all add: add_label_def)
  with Cons.IH [of "add_label name l"] show ?case by simp
qed simp

lemma length_name_wire:
  assumes "list_all label_ok ls"
  shows "length (name_wire ls) \<le> length (join_labels ls) + 2"
proof (cases ls)
  case (Cons l ls')
  then have "l \<noteq> []" using assms by (simp add: label_ok_def)
  with length_more_labels [of l ls'] Cons show ?thesis by (simp add: join_labels_def add_label_def)
qed simp

lemma parse_labels_wire:
  assumes "list_all label_ok ls" and "length (foldl add_label name ls) \<le> 253"
  shows "parse_labels (pre @ name_wire ls @ post) (length pre) name
    = Some (foldl add_label name ls, length pre + length (name_wire ls))"
  using assms
proof (induction ls arbitrary: pre name)
  case Nil
  then show ?case by (subst parse_labels.simps) (simp add: nth_append)
next
  case (Cons l ls)
  define query where "query = pre @ name_wire (l # ls) @ post"
  have query: "query = (pre @ label_wire l) @ name_wire ls @ post" by (simp add: query_def)
  have l: "l \<noteq> []" "length l \<le> 63" "from_utf8 l" using Cons.prems by (simp_all add: label_ok_def)
  have at: "query ! length pre = word_of_nat (length l)" "length pre < length query"
    by (simp_all add: query_def nth_append label_wire_def)
  have u: "unat (query ! length pre) = length l" using l at by (simp add: unat_of_nat_eq)
  then have nz: "query ! length pre \<noteq> 0" "\<not> query ! length pre > MAX_LABEL_BYTES"
    using l by (auto simp: word_unat_eq_iff word_less_nat_alt MAX_LABEL_BYTES_def)
  have sl: "slice query (length pre + 1) (length pre + 1 + unat (query ! length pre)) = Some l"
    unfolding u by (simp add: slice_def query_def label_wire_def)
  have "length (add_label name l) \<le> 253" using length_add_labels [of "add_label name l" ls] Cons.prems(2) by simp
  then have room: "\<not> length name + length l + (if name \<noteq> [] then 1 else 0) > MAX_DNS_NAME_BYTES"
    by (simp add: add_label_def MAX_DNS_NAME_BYTES_def split: if_splits)
  have "parse_labels query (length pre) name = parse_labels query (length pre + 1 + length l) (add_label name l)"
    by (subst parse_labels.simps) (use at nz sl room l in \<open>simp add: Let_def add_label_def\<close>)
  also have "\<dots> = Some (foldl add_label (add_label name l) ls, length (pre @ label_wire l) + length (name_wire ls))"
    using Cons.IH [of "add_label name l" "pre @ label_wire l"] Cons.prems unfolding query by simp
  finally show ?case by (simp add: query_def)
qed

lemma parse_labels_Some:
  assumes "parse_labels query pos name = Some (n, p)" and "length name \<le> 253"
  shows "\<exists>ls. list_all label_ok ls \<and> n = foldl add_label name ls \<and> length n \<le> 253
    \<and> p = pos + length (name_wire ls) \<and> p \<le> length query \<and> take (length (name_wire ls)) (drop pos query) = name_wire ls"
  using assms
proof (induction query pos name rule: parse_labels.induct)
  case (1 query pos name)
  define len where "len = query ! pos"
  from "1.prems"(1) have pos: "pos < length query" by (subst (asm) parse_labels.simps) (auto split: if_splits)
  then have head: "drop pos query = len # drop (pos + 1) query" by (simp add: len_def Cons_nth_drop_Suc)
  show ?case
  proof (cases "len = 0")
    case True
    then have "parse_labels query pos name = Some (name, pos + 1)"
      using pos by (subst parse_labels.simps) (simp add: len_def)
    with "1.prems"(1) have "n = name" "p = pos + 1" by simp_all
    with True head pos "1.prems"(2) show ?thesis by (intro exI [of _ "[]"]) simp
  next
    case False
    with "1.prems"(1) pos obtain l where small: "\<not> len > MAX_LABEL_BYTES"
      and sl: "slice query (pos + 1) (pos + 1 + unat len) = Some l"
      and room: "\<not> length name + length l + (if name \<noteq> [] then 1 else 0) > MAX_DNS_NAME_BYTES" and utf: "from_utf8 l"
      and rest: "parse_labels query (pos + 1 + length l) (add_label name l) = Some (n, p)"
      by (subst (asm) parse_labels.simps) (auto simp: len_def Let_def add_label_def split: if_splits option.splits)
    have l: "length l = unat len" "pos + 1 + length l \<le> length query" "l = take (unat len) (drop (pos + 1) query)"
      using sl by (auto simp: slice_Some)
    then have ok: "label_ok l" and w: "label_wire l = len # l"
      using False small utf
      by (auto simp: label_ok_def label_wire_def word_less_nat_alt MAX_LABEL_BYTES_def word_unat_eq_iff)
    have "length (add_label name l) \<le> 253"
      using room by (auto simp: add_label_def MAX_DNS_NAME_BYTES_def split: if_splits)
    with rest have "\<exists>ls. list_all label_ok ls \<and> n = foldl add_label (add_label name l) ls \<and> length n \<le> 253
        \<and> p = pos + 1 + length l + length (name_wire ls) \<and> p \<le> length query
        \<and> take (length (name_wire ls)) (drop (pos + 1 + length l) query) = name_wire ls"
      by (intro "1.IH" [OF _ refl refl, folded add_label_def])
        (use pos False small sl room utf in \<open>simp_all add: len_def\<close>)
    then obtain ls where ls: "list_all label_ok ls" "n = foldl add_label (add_label name l) ls" "length n \<le> 253"
      "p = pos + 1 + length l + length (name_wire ls)" "p \<le> length query"
      "take (length (name_wire ls)) (drop (pos + 1 + length l) query) = name_wire ls" by blast
    have "drop pos query = label_wire l @ drop (pos + 1 + length l) query"
      using head w l append_take_drop_id [of "unat len" "drop (pos + 1) query"] by (simp add: add.commute add.left_commute)
    with ls ok show ?thesis by (intro exI [of _ "l # ls"]) simp
  qed
qed

section \<open>Questions are read back\<close>

lemma read_u16_Some: "read_u16 buf i = Some v \<longleftrightarrow> i + 2 \<le> length buf \<and> take 2 (drop i buf) = to_be_u16 v"
proof -
  have "take 2 (drop i buf) = to_be_u16 v \<longleftrightarrow> from_be_u16 (take 2 (drop i buf)) = v" if "i + 2 \<le> length buf"
    using that to_be_written [of "take 2 (drop i buf)"] by auto
  then show ?thesis by (auto simp: read_u16_def)
qed

lemma read_u16_append [simp]: "i = length pre \<Longrightarrow> read_u16 (pre @ to_be_u16 v @ post) i = Some v"
  by (simp add: read_u16_Some)

definition question_bytes :: "bytes list \<Rightarrow> u16 \<Rightarrow> bytes \<Rightarrow> bytes" where
  "question_bytes ls qtype cl = name_wire ls @ to_be_u16 qtype @ cl"

lemma question_parse_wire:
  assumes "length hdr = 12" and "read_u16 hdr 4 = Some 1" and "list_all label_ok ls" and "length (join_labels ls) \<le> 253"
    and "length cl = 2"
  shows "question_parse (hdr @ question_bytes ls qtype cl @ rest) =
    Some \<lparr>dq_name = make_ascii_lowercase (join_labels ls), dq_query = hdr @ question_bytes ls qtype cl @ rest,
      dq_wire = question_bytes ls qtype cl, dq_qtype = qtype\<rparr>"
proof -
  let ?query = "hdr @ question_bytes ls qtype cl @ rest"
  let ?p = "12 + length (name_wire ls)"
  have "read_u16 ?query 4 = Some 1" using assms(1,2) by (simp add: read_u16_Some)
  moreover have "parse_labels ?query 12 [] = Some (join_labels ls, ?p)"
    using parse_labels_wire [of ls "[]" hdr "to_be_u16 qtype @ cl @ rest"] assms
    by (simp add: question_bytes_def join_labels_def)
  moreover have "read_u16 ?query ?p = Some qtype"
    using assms(1) read_u16_append [of ?p "hdr @ name_wire ls" qtype "cl @ rest"] by (simp add: question_bytes_def)
  moreover have "slice ?query 12 (?p + 4) = Some (question_bytes ls qtype cl)"
    using assms by (simp add: slice_def question_bytes_def)
  ultimately show ?thesis by (simp add: question_parse_def dns_limits)
qed

lemma question_parse_Some:
  assumes "question_parse query = Some q"
  obtains hdr ls cl rest where "query = hdr @ dq_wire q @ rest" "length hdr = 12" "read_u16 hdr 4 = Some 1"
    "list_all label_ok ls" "length (join_labels ls) \<le> 253" "length cl = 2"
    "dq_wire q = question_bytes ls (dq_qtype q) cl" "dq_name q = make_ascii_lowercase (join_labels ls)" "dq_query q = query"
proof -
  from assms obtain name p where count: "read_u16 query 4 = Some 1"
    and labels: "parse_labels query 12 [] = Some (name, p)" and t: "read_u16 query p = Some (dq_qtype q)"
    and sl: "slice query 12 (p + 4) = Some (dq_wire q)"
    and q: "dq_name q = make_ascii_lowercase name" "dq_query q = query"
    by (auto simp: question_parse_def dns_limits split: if_splits option.splits)
  from parse_labels_Some [OF labels] obtain ls where ls: "list_all label_ok ls" "name = join_labels ls" "length name \<le> 253"
    "p = 12 + length (name_wire ls)" "p \<le> length query" "take (length (name_wire ls)) (drop 12 query) = name_wire ls"
    by (auto simp: join_labels_def)
  from sl have wire: "dq_wire q = take (length (name_wire ls) + 4) (drop 12 query)" and len: "p + 4 \<le> length query"
    by (auto simp: slice_Some ls(4) ac_simps)
  define cl where "cl = take 2 (drop (p + 2) query)"
  have "take 2 (drop p query) = to_be_u16 (dq_qtype q)" using t by (simp add: read_u16_Some)
  moreover have "take (length (name_wire ls) + 4) (drop 12 query)
      = take (length (name_wire ls)) (drop 12 query) @ take 2 (drop p query) @ take 2 (drop (p + 2) query)"
    by (simp add: take_add ls(4) add.commute) (simp add: take_add [of 2 2, simplified] add.commute add.left_commute)
  ultimately have w: "dq_wire q = question_bytes ls (dq_qtype q) cl"
    using ls(6) wire by (simp add: question_bytes_def cl_def)
  show thesis
  proof (rule that [OF _ _ _ ls(1) _ _ w])
    show "length (take 12 query) = 12" "length cl = 2" using len ls(4) by (simp_all add: cl_def)
    show "read_u16 (take 12 query) 4 = Some 1" using count len ls(4) by (simp add: read_u16_Some drop_take)
    show "query = take 12 query @ dq_wire q @ drop (p + 4) query"
      using wire len ls(4) append_take_drop_id [of 12 query]
        append_take_drop_id [of "length (name_wire ls) + 4" "drop 12 query"] by (simp add: add.commute add.left_commute)
  qed (use q ls in simp_all)
qed

section \<open>Responses are read back\<close>

text \<open>How a client reads the addresses of a response: records that point at the name of the question.\<close>

fun read_records :: "nat \<Rightarrow> bytes \<Rightarrow> ip_addr list option" where
  "read_records 0 bs = (if bs = [] then Some [] else None)"
| "read_records (Suc n) bs =
     (if take 2 bs \<noteq> [0xc0, 12] \<or> read_u16 bs 4 \<noteq> Some 1 then None
      else if read_u16 bs 2 = Some 1 \<and> read_u16 bs 10 = Some 4 \<and> 16 \<le> length bs
      then map_option ((#) (V4 (v4_of_octets (take 4 (drop 12 bs))))) (read_records n (drop 16 bs))
      else if read_u16 bs 2 = Some 28 \<and> read_u16 bs 10 = Some 16 \<and> 28 \<le> length bs
      then map_option ((#) (V6 (v6_of_octets (take 16 (drop 12 bs))))) (read_records n (drop 28 bs))
      else None)"

definition client_addresses :: "bytes \<Rightarrow> ip_addr list option" where
  "client_addresses response =
     (case (question_parse response, read_u16 response 6) of
        (Some q, Some n) \<Rightarrow> read_records (unat n) (drop (12 + length (dq_wire q)) response)
      | _ \<Rightarrow> None)"

lemma length_start_response [simp]: "length (start_response query flags qc ac) = 12"
  by (simp add: start_response_def Let_def)

lemma read_u16_fields [simp]:
  "read_u16 (to_be_u16 a @ rest) 0 = Some a" "read_u16 (to_be_u16 b @ to_be_u16 a @ rest) 2 = Some a"
  "read_u16 (to_be_u16 c @ to_be_u16 b @ to_be_u16 a @ rest) 4 = Some a"
  "read_u16 (to_be_u16 d @ to_be_u16 c @ to_be_u16 b @ to_be_u16 a @ rest) 6 = Some a"
  by (simp_all add: read_u16_Some)

lemma start_response_fields:
  "read_u16 (start_response query flags qc ac) 4 = Some qc"
  "read_u16 (start_response query flags qc ac @ rest) 6 = Some ac"
  "read_u16 query 0 = Some i \<Longrightarrow> read_u16 (start_response query flags qc ac @ rest) 0 = Some i"
  "read_u16 query 2 = Some f \<Longrightarrow> read_u16 (start_response query flags qc ac @ rest) 2
     = Some (FLAG_RESPONSE OR (f AND FLAG_RECURSION_DESIRED) OR FLAG_RECURSION_AVAILABLE OR flags)"
  using read_u16_fields by (simp_all add: start_response_def Let_def FLAGS_OFFSET_def)

lemma read_answer_record:
  assumes "is_answer qtype ip"
  shows "read_records (Suc n) (answer_record qtype ip @ rest) = map_option ((#) ip) (read_records n rest)"
proof -
  have r: "answer_record qtype ip @ rest = [0xc0, 12] @ to_be_u16 qtype @ to_be_u16 1 @ to_be_u32 60
      @ to_be_u16 (word_of_nat (length (rdata ip))) @ rdata ip @ rest"
    by (simp add: answer_record_def POINTER_TAG_def QUESTION_NAME_OFFSET_def CLASS_IN_def ANSWER_TTL_SECS_def)
  have at: "read_u16 (answer_record qtype ip @ rest) 2 = Some qtype" "read_u16 (answer_record qtype ip @ rest) 4 = Some 1"
    "read_u16 (answer_record qtype ip @ rest) 10 = Some (word_of_nat (length (rdata ip)))"
    unfolding r by (simp_all add: read_u16_Some)
  have d: "take 2 (answer_record qtype ip @ rest) = [0xc0, 12]" "drop 12 (answer_record qtype ip @ rest) = rdata ip @ rest"
    "length (answer_record qtype ip @ rest) = 12 + length (rdata ip) + length rest" unfolding r by simp_all
  have e: "drop (12 + k) (answer_record qtype ip @ rest) = drop k (rdata ip @ rest)" for k
  proof -
    have "drop (12 + k) (answer_record qtype ip @ rest) = drop k (drop 12 (answer_record qtype ip @ rest))"
      by (simp only: drop_drop add.commute)
    then show ?thesis by (simp only: d(2))
  qed
  show ?thesis
  proof (cases ip)
    case (V4 a)
    then have "qtype = 1" "rdata ip = v4_octets a" using assms by (simp_all add: is_answer_def TYPE_A_def rdata_def)
    then show ?thesis using V4 at d e [of 4] by simp
  next
    case (V6 a)
    then have "qtype = 28" "rdata ip = v6_octets a" using assms by (simp_all add: is_answer_def TYPE_AAAA_def rdata_def)
    then show ?thesis using V6 at d e [of 16] by simp
  qed
qed

lemma read_answers:
  "list_all (is_answer qtype) ips \<Longrightarrow> read_records (length ips) (concat (map (answer_record qtype) ips)) = Some ips"
  by (induction ips) (simp_all add: read_answer_record del: read_records.simps(2))

section \<open>Properties\<close>

text \<open>C38: The question parser accepts exactly the messages of the grammar: a header of twelve bytes that counts
  one question, labels of 1 to 63 bytes of text whose dotted name has at most 253 bytes, the root label,
  a type and a class, and anything after that. The name is the labels joined by dots in lower case, and
  the echoed bytes are exactly the question. In particular no compression pointer is followed.\<close>

theorem dns_question_grammar:
  "question_parse query = Some q \<longleftrightarrow>
    (\<exists>hdr ls cl rest. query = hdr @ question_bytes ls (dq_qtype q) cl @ rest
      \<and> length hdr = 12 \<and> read_u16 hdr 4 = Some 1 \<and> list_all label_ok ls \<and> length (join_labels ls) \<le> 253 \<and> length cl = 2
      \<and> dq_name q = make_ascii_lowercase (join_labels ls) \<and> dq_query q = query
      \<and> dq_wire q = question_bytes ls (dq_qtype q) cl)"
proof
  assume "question_parse query = Some q"
  then show "\<exists>hdr ls cl rest. query = hdr @ question_bytes ls (dq_qtype q) cl @ rest
      \<and> length hdr = 12 \<and> read_u16 hdr 4 = Some 1 \<and> list_all label_ok ls \<and> length (join_labels ls) \<le> 253 \<and> length cl = 2
      \<and> dq_name q = make_ascii_lowercase (join_labels ls) \<and> dq_query q = query
      \<and> dq_wire q = question_bytes ls (dq_qtype q) cl"
    by (rule question_parse_Some) metis
next
  assume "\<exists>hdr ls cl rest. query = hdr @ question_bytes ls (dq_qtype q) cl @ rest
      \<and> length hdr = 12 \<and> read_u16 hdr 4 = Some 1 \<and> list_all label_ok ls \<and> length (join_labels ls) \<le> 253 \<and> length cl = 2
      \<and> dq_name q = make_ascii_lowercase (join_labels ls) \<and> dq_query q = query
      \<and> dq_wire q = question_bytes ls (dq_qtype q) cl"
  then show "question_parse query = Some q"
    using question_parse_wire by (cases q) auto
qed

text \<open>A response that is a header, the question and some records.\<close>

lemma response_read:
  assumes "question_parse query = Some q"
    and r: "response = start_response query flags 1 (word_of_nat n) @ dq_wire q @ records" and "n < 65536"
  shows "read_u16 response 0 = read_u16 query 0" "question_parse response = Some (q\<lparr>dq_query := response\<rparr>)"
    "client_addresses response = read_records n records"
    "map_option (\<lambda>f. f AND 0x20f) (read_u16 response 2) = Some (flags AND 0x20f)" "length (dq_wire q) \<le> 259"
proof -
  from assms(1) obtain hdr ls cl rest where q: "query = hdr @ dq_wire q @ rest" "length hdr = 12" "list_all label_ok ls"
    "length (join_labels ls) \<le> 253" "length cl = 2" "dq_wire q = question_bytes ls (dq_qtype q) cl"
    "dq_name q = make_ascii_lowercase (join_labels ls)" "dq_query q = query" by (rule question_parse_Some)
  show "length (dq_wire q) \<le> 259" using length_name_wire [OF q(3)] q(4-6) by (simp add: question_bytes_def)
  obtain i f where f: "read_u16 query 0 = Some i" "read_u16 query 2 = Some f" using q(1,2) by (simp add: read_u16_def)
  then show "read_u16 response 0 = read_u16 query 0" by (simp add: r start_response_fields)
  show parse: "question_parse response = Some (q\<lparr>dq_query := response\<rparr>)"
    using question_parse_wire [of "start_response query flags 1 (word_of_nat n)" ls cl "dq_qtype q" records] q
    by (cases q) (simp add: r start_response_fields(1))
  show "client_addresses response = read_records n records"
    using assms(3) by (simp add: client_addresses_def parse) (simp add: r start_response_fields(2) unat_of_nat_eq)
  have "(FLAG_RESPONSE OR (f AND FLAG_RECURSION_DESIRED) OR FLAG_RECURSION_AVAILABLE OR flags) AND 0x20f = flags AND 0x20f"
    by (simp add: FLAG_RESPONSE_def FLAG_RECURSION_DESIRED_def FLAG_RECURSION_AVAILABLE_def bit.conj_disj_distrib2
        and.assoc)
  then show "map_option (\<lambda>f. f AND 0x20f) (read_u16 response 2) = Some (flags AND 0x20f)"
    by (simp add: r start_response_fields(4) [OF f(2)])
qed

text \<open>C17: The answer to a parsed query is what a client expects. It fits the transport, echoes the
  identifier and the question, and a client that reads it back gets exactly the addresses of the
  asked family, in order and without an error, when they fit. When they do not, it gets none, and the
  truncation bit of a datagram or the failure code of a stream tells why.\<close>

theorem dns_answer_exact:
  assumes "question_parse query = Some q" and "answer q ips transport = response"
    and "limit = (case transport of Datagram \<Rightarrow> 512 | Stream \<Rightarrow> 4096)"
    and "answers = filter (is_answer (dq_qtype q)) ips" and "length answers < 65536"
  shows "length response \<le> limit \<and> read_u16 response 0 = read_u16 query 0
    \<and> question_parse response = Some (q\<lparr>dq_query := response\<rparr>)
    \<and> (if 12 + length (dq_wire q) + length answers * (if dq_qtype q = TYPE_A then 16 else 28) \<le> limit
       then client_addresses response = Some answers
         \<and> map_option (\<lambda>f. f AND 0x20f) (read_u16 response 2) = Some 0
       else client_addresses response = Some []
         \<and> map_option (\<lambda>f. f AND 0x20f) (read_u16 response 2) = Some (case transport of Datagram \<Rightarrow> 0x200 | Stream \<Rightarrow> 2))"
proof -
  let ?records = "concat (map (answer_record (dq_qtype q)) answers)"
  let ?full = "start_response query 0 1 (word_of_nat (length answers)) @ dq_wire q @ ?records"
  let ?none = "\<lambda>flags. start_response query flags 1 (word_of_nat 0) @ dq_wire q @ []"
  have query: "dq_query q = query" using assms(1) by (rule question_parse_Some)
  have ok: "list_all (is_answer (dq_qtype q)) answers" by (simp add: assms(4) list_all_iff)
  have "length (answer_record (dq_qtype q) ip) = (if dq_qtype q = TYPE_A then 16 else 28)" if "ip \<in> set answers" for ip
    using that by (auto simp: assms(4) is_answer_def answer_record_def rdata_def TYPE_A_def TYPE_AAAA_def split: ip_addr.splits)
  then have "length ?records = length answers * (if dq_qtype q = TYPE_A then 16 else 28)"
    by (simp add: length_concat comp_def sum_list_triv cong: map_cong)
  then have size: "length ?full = 12 + length (dq_wire q) + length answers * (if dq_qtype q = TYPE_A then 16 else 28)" by simp
  have full: "full_answer q ips = Some ?full" using assms(4,5) by (simp add: full_answer_def query Let_def)
  have wire: "length (dq_wire q) \<le> 259" by (rule response_read(5) [OF assms(1) refl, where n = 0]) simp
  show ?thesis
  proof (cases "length ?full \<le> limit")
    case True
    then have r: "response = ?full"
      using assms(2) full by (auto simp: answer_def assms(3) dns_limits split: dns_transport.splits)
    from response_read [OF assms(1) r assms(5)] read_answers [OF ok] True size r show ?thesis by simp
  next
    case False
    define flags :: u16 where "flags = (case transport of Datagram \<Rightarrow> FLAG_TRUNCATED | Stream \<Rightarrow> rcode_code ServFail)"
    have r: "response = ?none flags"
      using assms(2) full False
      by (auto simp: answer_def assms(3) dns_limits header_only_response_def query flags_def split: dns_transport.splits)
    have "flags AND 0x20f = (case transport of Datagram \<Rightarrow> 0x200 | Stream \<Rightarrow> 2)"
      by (simp add: flags_def FLAG_TRUNCATED_def split: dns_transport.split)
    moreover have "length response \<le> limit" using wire by (simp add: r assms(3) split: dns_transport.split)
    ultimately show ?thesis using response_read [OF assms(1) r] False size by simp
  qed
qed

text \<open>An example: the addresses of a name of two labels.\<close>

definition example_query :: bytes where
  "example_query = to_be_u16 7 @ to_be_u16 0x100 @ to_be_u16 1 @ to_be_u16 0 @ to_be_u16 0 @ to_be_u16 0
     @ question_bytes [[97], [66]] TYPE_A (to_be_u16 1)"

lemma example_question:
  "\<exists>q. question_parse example_query = Some q \<and> dq_name q = [97, 46, 98] \<and> dq_qtype q = TYPE_A \<and> length (dq_wire q) = 9"
  using question_parse_wire [of "to_be_u16 7 @ to_be_u16 0x100 @ to_be_u16 1 @ to_be_u16 0 @ to_be_u16 0 @ to_be_u16 0"
      "[[97], [66]]" "to_be_u16 1" TYPE_A "[]"]
  by (simp add: example_query_def label_ok_def join_labels_def add_label_def make_ascii_lowercase_def question_bytes_def)

theorem dns_answer_exact_witness:
  "\<exists>q. question_parse example_query = Some q
     \<and> client_addresses (answer q [V4 0x01010101, V6 5] Datagram) = Some [V4 0x01010101]"
proof -
  obtain q where q: "question_parse example_query = Some q" "dq_qtype q = TYPE_A" "length (dq_wire q) = 9"
    using example_question by blast
  from dns_answer_exact [OF q(1) refl refl refl, of "[V4 0x01010101, V6 5]" Datagram] q show ?thesis
    by (simp add: is_answer_def TYPE_A_def TYPE_AAAA_def)
qed

end
