(* ===== verification/Message_Frames.thy ===== *)
theory Message_Frames
  imports Net_Frames
begin

text \<open>
  The length-prefixed messages of the channels between host and guest (\<open>crates/terra-protocol/src/frames.rs\<close>).
  The encoding of a message is that of the serialisation crate, a parameter with its documented round
  trip; the limit of a message type is another. A reader is the bytes that are still to come before the
  end of the stream.
\<close>

section \<open>Operations\<close>

datatype io_failure = InvalidData | Other | UnexpectedEof

definition payload_len_within_limit :: "nat \<Rightarrow> nat \<Rightarrow> io_failure + nat" where
  "payload_len_within_limit max_payload len = (if len > max_payload then Err InvalidData else Ok len)"

definition frame_payload_len :: "nat \<Rightarrow> bytes \<Rightarrow> io_failure + nat" where
  "frame_payload_len max_payload prefix = payload_len_within_limit max_payload (unat (from_le_u32 prefix))"

definition encode_frame :: "('m \<Rightarrow> bytes option) \<Rightarrow> nat \<Rightarrow> 'm \<Rightarrow> io_failure + bytes" where
  "encode_frame to_bytes max_payload v =
     and_then (ok_or Other (map_option (\<lambda>payload. replicate 4 0 @ payload) (to_bytes v))) (\<lambda>frame.
     and_then (payload_len_within_limit max_payload (length frame - 4)) (\<lambda>len.
     and_then (if len < 2 ^ 32 then Ok (word_of_nat len :: u32) else Err Other) (\<lambda>len.
     Ok (splice frame 0 (to_le_u32 len)))))"

definition decode_frame_payload :: "(bytes \<Rightarrow> ('m \<times> bytes) option) \<Rightarrow> nat \<Rightarrow> bytes \<Rightarrow> io_failure + 'm" where
  "decode_frame_payload take_from_bytes max_payload payload =
     and_then (payload_len_within_limit max_payload (length payload)) (\<lambda>_.
     and_then (ok_or InvalidData (take_from_bytes payload)) (\<lambda>(v, remaining).
     if remaining \<noteq> [] then Err InvalidData else Ok v))"

definition read_exact :: "nat \<Rightarrow> bytes \<Rightarrow> (io_failure + bytes) \<times> bytes" where
  "read_exact n reader = (if n \<le> length reader then (Ok (take n reader), drop n reader) else (Err UnexpectedEof, []))"

definition read_frame :: "(bytes \<Rightarrow> ('m \<times> bytes) option) \<Rightarrow> nat \<Rightarrow> bytes \<Rightarrow> (io_failure + 'm option) \<times> bytes" where
  "read_frame take_from_bytes max_payload reader =
     (case read_exact 1 reader of
        (Inl e, reader) \<Rightarrow> if e = UnexpectedEof then (Ok None, reader) else (Err e, reader)
      | (Inr first, reader) \<Rightarrow>
          (case read_exact 3 reader of
             (Inl e, reader) \<Rightarrow> (Err e, reader)
           | (Inr others, reader) \<Rightarrow>
               (case frame_payload_len max_payload (first @ others) of
                  Inl e \<Rightarrow> (Err e, reader)
                | Inr len \<Rightarrow>
                    (case read_exact len reader of
                       (Inl e, reader) \<Rightarrow> (Err e, reader)
                     | (Inr payload, reader) \<Rightarrow>
                         (and_then (decode_frame_payload take_from_bytes max_payload payload) (\<lambda>v. Ok (Some v)), reader)))))"

section \<open>The promise of the serialisation crate\<close>

locale message_codec =
  fixes to_bytes :: "'m \<Rightarrow> bytes option" and take_from_bytes :: "bytes \<Rightarrow> ('m \<times> bytes) option"
  assumes take_back: "to_bytes v = Some w \<Longrightarrow> take_from_bytes (w @ rest) = Some (v, rest)"
begin

lemma encode_frame_Ok:
  assumes "encode_frame to_bytes max_payload v = Ok frame"
  obtains payload where "to_bytes v = Some payload" "length payload \<le> max_payload" "length payload < 2 ^ 32"
    "frame = to_le_u32 (word_of_nat (length payload)) @ payload"
proof -
  from assms obtain payload where p: "to_bytes v = Some payload" "length payload \<le> max_payload" "length payload < 2 ^ 32"
    "frame = splice (replicate 4 0 @ payload) 0 (to_le_u32 (word_of_nat (length payload)))"
    by (auto simp: encode_frame_def payload_len_within_limit_def result_simps split: if_splits)
  have "splice (replicate 4 0 @ payload) 0 (to_le_u32 n) = to_le_u32 n @ payload" for n by (simp add: splice_def)
  with p that show thesis by simp
qed

lemma read_frame_short:
  assumes "encode_frame to_bytes max_payload v = Ok frame" and "n < length frame"
  shows "read_frame take_from_bytes max_payload (take n frame) = ((if n = 0 then Ok None else Err UnexpectedEof), [])"
proof -
  from assms(1) obtain payload where p: "length payload \<le> max_payload" "length payload < 2 ^ 32"
    "frame = to_le_u32 (word_of_nat (length payload)) @ payload" by (rule encode_frame_Ok)
  let ?prefix = "to_le_u32 (word_of_nat (length payload) :: u32)"
  consider "n = 0" | "0 < n" "n < 4" | "4 \<le> n" by linarith
  then show ?thesis
  proof cases
    case 1
    then show ?thesis by (simp add: read_frame_def read_exact_def)
  next
    case 2
    then have "\<not> 3 \<le> n - 1" by linarith
    with 2 show ?thesis using p assms(2) by (simp add: read_frame_def read_exact_def)
  next
    case 3
    then have t: "take n frame = ?prefix @ take (n - 4) payload" using p(3) by simp
    have one: "take 1 ?prefix @ take 3 (drop 1 ?prefix) = ?prefix" "drop 3 (drop 1 ?prefix) = []"
      using append_take_drop_id [of 1 ?prefix] by simp_all
    have "frame_payload_len max_payload ?prefix = Ok (length payload)"
      using p(1,2) by (simp add: frame_payload_len_def payload_len_within_limit_def unat_of_nat_eq)
    then show ?thesis
      using 3 assms(2) p(3) one by (simp add: t read_frame_def read_exact_def)
  qed
qed

lemma read_frame_encoded:
  assumes "encode_frame to_bytes max_payload v = Ok frame"
  shows "read_frame take_from_bytes max_payload (frame @ rest) = (Ok (Some v), rest)"
proof -
  from assms obtain payload where p: "to_bytes v = Some payload" "length payload \<le> max_payload" "length payload < 2 ^ 32"
    "frame = to_le_u32 (word_of_nat (length payload)) @ payload" by (rule encode_frame_Ok)
  let ?prefix = "to_le_u32 (word_of_nat (length payload) :: u32)"
  have one: "take 1 ?prefix @ take 3 (drop 1 ?prefix) = ?prefix" "drop 3 (drop 1 ?prefix) = []"
    using append_take_drop_id [of 1 ?prefix] by simp_all
  have "frame_payload_len max_payload ?prefix = Ok (length payload)"
    using p(2,3) by (simp add: frame_payload_len_def payload_len_within_limit_def unat_of_nat_eq)
  moreover have "decode_frame_payload take_from_bytes max_payload payload = Ok v"
    using take_back [OF p(1), of "[]"] p(2) by (simp add: decode_frame_payload_def payload_len_within_limit_def)
  ultimately show ?thesis using one by (simp add: p(4) read_frame_def read_exact_def)
qed

end

text \<open>The messages of a channel, read until none is left.\<close>

fun read_frames :: "(bytes \<Rightarrow> ('m \<times> bytes) option) \<Rightarrow> nat \<Rightarrow> nat \<Rightarrow> bytes \<Rightarrow> ('m list \<times> io_failure option) option" where
  "read_frames take_from_bytes max_payload 0 reader = None"
| "read_frames take_from_bytes max_payload (Suc fuel) reader =
     (case read_frame take_from_bytes max_payload reader of
        (Inl e, _) \<Rightarrow> Some ([], Some e)
      | (Inr None, _) \<Rightarrow> Some ([], None)
      | (Inr (Some v), rest) \<Rightarrow>
          map_option (map_prod ((#) v) (\<lambda>e. e)) (read_frames take_from_bytes max_payload fuel rest))"

context message_codec
begin

lemma read_frames_sent:
  assumes "list_all2 (\<lambda>v frame. encode_frame to_bytes max_payload v = Ok frame) vs frames" and "length vs < fuel"
    and "encode_frame to_bytes max_payload v = Ok frame" and "n < length frame"
  shows "read_frames take_from_bytes max_payload fuel (concat frames @ take n frame)
    = Some (vs, if n = 0 then None else Some UnexpectedEof)"
  using assms(1,2)
proof (induction vs frames arbitrary: fuel rule: list_all2_induct)
  case Nil
  then show ?case using read_frame_short [OF assms(3,4)] by (cases fuel) auto
next
  case (Cons u us f fs)
  then show ?case using read_frame_encoded [OF Cons.hyps(1)] by (cases fuel) auto
qed

end

section \<open>A message type\<close>

text \<open>
  The reply \<open>Result<(), Error>\<close> of the network broker, with the encoding the crate documents: the index
  of the variant, then its field. Its limit is two bytes (\<open>crates/terra-protocol/src/network.rs\<close>).
\<close>

definition reply_to_bytes :: "(socket_error + unit) \<Rightarrow> bytes option" where
  "reply_to_bytes r = Some (case r of Inr _ \<Rightarrow> [0] | Inl e \<Rightarrow> [1, ucast (socket_error_code e) - 1])"

definition reply_take :: "bytes \<Rightarrow> ((socket_error + unit) \<times> bytes) option" where
  "reply_take bs = (case bs of
     [] \<Rightarrow> None
   | i # rest \<Rightarrow>
       if i = 0 then Some (Ok (), rest)
       else if i = 1 then (case rest of [] \<Rightarrow> None | j # rest \<Rightarrow> map_option (\<lambda>e. (Err e, rest)) (declared_variant [j]))
       else None)"

interpretation reply: message_codec reply_to_bytes reply_take
proof
  fix v w rest
  have "declared_variant [ucast (socket_error_code e) - 1] = Some e" for e
    by (cases e) (simp_all add: declared_variant_def declared_errors_def)
  then show "reply_take (w @ rest) = Some (v, rest)" if "reply_to_bytes v = Some w"
    using that by (cases v) (auto simp: reply_to_bytes_def reply_take_def)
qed

section \<open>Properties\<close>

text \<open>C39: A channel delivers exactly the messages written to it. For any message type whose encoding reads
  back, the messages sent are read in order whatever their sizes; when the stream ends between two
  messages that is a clean end, and when it ends inside a message the reader reports the missing bytes
  and delivers nothing of it.\<close>

theorem message_channel_delimits:
  assumes "message_codec to_bytes take_from_bytes"
    and "list_all2 (\<lambda>v frame. encode_frame to_bytes max_payload v = Ok frame) vs frames"
    and "encode_frame to_bytes max_payload v = Ok frame" and "n < length frame"
  shows "read_frames take_from_bytes max_payload (Suc (length vs)) (concat frames @ take n frame)
    = Some (vs, if n = 0 then None else Some UnexpectedEof)"
  by (rule message_codec.read_frames_sent [OF assms(1,2) _ assms(3,4)]) simp

theorem message_channel_delimits_witness:
  "\<exists>frame. encode_frame reply_to_bytes 2 (Err Sock_TimedOut) = Ok frame
     \<and> read_frames reply_take 2 2 (frame @ take 3 frame) = Some ([Err Sock_TimedOut], Some UnexpectedEof)"
proof -
  obtain frame where f: "encode_frame reply_to_bytes 2 (Err Sock_TimedOut) = Ok frame" "length frame = 6"
    by (simp add: encode_frame_def reply_to_bytes_def payload_len_within_limit_def splice_def)
  from message_channel_delimits [OF reply.message_codec_axioms, where vs = "[Err Sock_TimedOut]" and frames = "[frame]"
      and frame = frame and n = 3 and max_payload = 2 and v = "Err Sock_TimedOut"] f
  show ?thesis by (simp add: numeral_2_eq_2)
qed

end
