(* ===== verification/Sync_Links.thy ===== *)
theory Sync_Links
  imports Net_Rules
begin

text \<open>
  What a download from a box may bring into the directories of the host (\<open>crates/terra/src/cmd/sync/security.rs\<close>,
  with the paths and entries of \<open>crates/terra-protocol/src/sync.rs\<close>): the manifest of the guest is a tree of
  clean relative paths, and no chain of symbolic links that a guest entry influences leaves the destination.
  The build for Unix is modelled; the name the host stores for a component (\<open>HostNames\<close>) is the argument it
  is in the source.
\<close>

section \<open>Entries and paths\<close>

definition MAX_SYNC_FILE_BYTES :: u64 where "MAX_SYNC_FILE_BYTES = push_bit 30 16"
definition MAX_SYNC_PATH_BYTES :: nat where "MAX_SYNC_PATH_BYTES = 4096"
definition MAX_SYNC_LINK_WORK_BYTES :: nat where "MAX_SYNC_LINK_WORK_BYTES = 64 * 1024 * 1024"
definition MAX_SYMLINK_FOLLOWS :: nat where "MAX_SYMLINK_FOLLOWS = 40"

datatype sync_entry_kind = Kind_File u64 | Kind_Directory | Kind_Symlink string

primrec link_target :: "sync_entry_kind \<Rightarrow> string option" where
  "link_target (Kind_File n) = None"
| "link_target Kind_Directory = None"
| "link_target (Kind_Symlink target) = Some target"

record sync_entry =
  se_relative_path :: string
  se_kind :: sync_entry_kind
  se_mode :: u32
  se_mtime_secs :: "64 word"
  se_mtime_nanos :: u32

datatype sync_error = Path_too_long | Path_has_nul | Path_empty_component | Path_dots | Manifest_mismatch
  | File_too_large | Manifest_parent | Link_work | Link_escapes | Link_too_deep | Target_empty | Target_too_long
  | Target_has_nul | Target_absolute | Target_escapes | Host_name

definition validate_wire_path :: "string \<Rightarrow> sync_error + unit" where
  "validate_wire_path path =
     (if length path > MAX_SYNC_PATH_BYTES then Err Path_too_long
      else if CHR 0x00 \<in> set path then Err Path_has_nul else Ok ())"

fun validate_components :: "string list \<Rightarrow> sync_error + unit" where
  "validate_components [] = Ok ()"
| "validate_components (c # cs) =
     (if c = [] then Err Path_empty_component
      else if c = ''.'' \<or> c = ''..'' then Err Path_dots
      else validate_components cs)"

definition validate_relative_path :: "string \<Rightarrow> sync_error + unit" where
  "validate_relative_path path =
     (if path = [] then Ok ()
      else and_then (validate_wire_path path) (\<lambda>_. validate_components (split_char CHR ''/'' path)))"

text \<open>The entries of a manifest are a \<open>BTreeMap\<close>: a list with distinct keys in their order.\<close>

type_synonym entries = "(string \<times> sync_entry) list"

definition parent_path :: "string \<Rightarrow> string" where
  "parent_path path = (case rsplit_once CHR ''/'' path of None \<Rightarrow> [] | Some (parent, _) \<Rightarrow> parent)"

definition validate_entry :: "entries \<Rightarrow> string \<times> sync_entry \<Rightarrow> sync_error + unit" where
  "validate_entry entries = (\<lambda>(path, entry).
     and_then (validate_relative_path path) (\<lambda>_.
     if se_relative_path entry \<noteq> path then Err Manifest_mismatch
     else if (case se_kind entry of Kind_File n \<Rightarrow> n > MAX_SYNC_FILE_BYTES | _ \<Rightarrow> False) then Err File_too_large
     else if path = [] then Ok ()
     else let parent = parent_path path in
       if (case map_of entries parent of None \<Rightarrow> parent = [] | Some e \<Rightarrow> se_kind e = Kind_Directory) then Ok ()
       else Err Manifest_parent))"

fun validate_each :: "('a \<Rightarrow> sync_error + unit) \<Rightarrow> 'a list \<Rightarrow> sync_error + unit" where
  "validate_each check [] = Ok ()"
| "validate_each check (x # xs) = and_then (check x) (\<lambda>_. validate_each check xs)"

definition validate_manifest :: "entries \<Rightarrow> sync_error + unit" where
  "validate_manifest entries = validate_each (validate_entry entries) entries"

section \<open>Links\<close>

datatype link_author = Guest | Host

record link_side =
  ls_target :: "string option"
  ls_author :: link_author

definition link_sides :: "sync_entry option \<Rightarrow> sync_entry option \<Rightarrow> link_side list" where
  "link_sides guest host =
     (let guest = map_option (\<lambda>entry. \<lparr>ls_target = link_target (se_kind entry), ls_author = Guest\<rparr>) guest;
          host = (case host of None \<Rightarrow> None | Some entry \<Rightarrow>
            (case link_target (se_kind entry) of
               None \<Rightarrow> None
             | Some target \<Rightarrow>
                 if (case guest of None \<Rightarrow> True | Some g \<Rightarrow> ls_target g \<noteq> Some target)
                 then Some \<lparr>ls_target = Some target, ls_author = Host\<rparr> else None))
      in (case guest of None \<Rightarrow> [] | Some g \<Rightarrow> [g]) @ (case host of None \<Rightarrow> [] | Some h \<Rightarrow> [h]))"

definition spend_link_work :: "nat \<Rightarrow> nat \<Rightarrow> sync_error + nat" where
  "spend_link_work remaining n = (if n \<le> remaining then Ok (remaining - n) else Err Link_work)"

record branch =
  br_resolved :: "string list"
  br_pending :: "string list"
  br_followed :: nat
  br_influenced :: bool

fun join_path :: "string list \<Rightarrow> string" where
  "join_path [] = []"
| "join_path [c] = c"
| "join_path (c # cs) = c @ ''/'' @ join_path cs"

text \<open>The depth after each component of a target, or nothing once it would leave the root.\<close>

fun target_depth :: "string list \<Rightarrow> nat \<Rightarrow> nat option" where
  "target_depth [] depth = Some depth"
| "target_depth (c # cs) depth =
     (if c = [] \<or> c = ''.'' then target_depth cs depth
      else if c = ''..'' then (if depth > 0 then target_depth cs (depth - 1) else None)
      else target_depth cs (depth + 1))"

definition validate_download_symlink_target :: "string \<Rightarrow> string \<Rightarrow> sync_error + unit" where
  "validate_download_symlink_target entry_rel_path target =
     (if target = [] then Err Target_empty
      else if length target > MAX_SYNC_PATH_BYTES then Err Target_too_long
      else if CHR 0x00 \<in> set target then Err Target_has_nul
      else if hd target = CHR ''/'' then Err Target_absolute
      else case target_depth (split_char CHR ''/'' target) (length (filter ((=) CHR ''/'') entry_rel_path)) of
        None \<Rightarrow> Err Target_escapes
      | Some _ \<Rightarrow> Ok ())"

definition is_rooted :: "string \<Rightarrow> bool" where
  "is_rooted link \<longleftrightarrow> link \<noteq> [] \<and> hd link = CHR ''/''"

definition follows_link :: "string \<Rightarrow> string \<Rightarrow> nat \<Rightarrow> bool \<Rightarrow> sync_error + bool" where
  "follows_link name link followed influenced =
     (if \<not> influenced then Ok (followed \<le> MAX_SYMLINK_FOLLOWS \<and> \<not> is_rooted link)
      else if followed > MAX_SYMLINK_FOLLOWS then Err Link_too_deep
      else and_then (validate_download_symlink_target name link) (\<lambda>_. Ok True))"

text \<open>One branch for each side of a link; the last one pushed is on top of the stack.\<close>

fun fork_sides :: "string \<Rightarrow> branch \<Rightarrow> link_side list \<Rightarrow> nat \<Rightarrow> branch list \<Rightarrow> sync_error + (branch list \<times> nat)" where
  "fork_sides name b [] remaining branches = Ok (branches, remaining)"
| "fork_sides name b (side # sides) remaining branches =
     and_then (spend_link_work remaining
         (length name + sum_list (map (\<lambda>part. length part + 1) (br_pending b))
          + (case ls_target side of None \<Rightarrow> 0 | Some link \<Rightarrow> length link) + 1)) (\<lambda>remaining.
     let nx = b\<lparr>br_influenced := br_influenced b \<or> ls_author side = Guest\<rparr> in
     case ls_target side of
       None \<Rightarrow> fork_sides name b sides remaining (nx # branches)
     | Some link \<Rightarrow>
         (let nx = nx\<lparr>br_followed := br_followed nx + 1\<rparr> in
          and_then (follows_link name link (br_followed nx) (br_influenced nx)) (\<lambda>follows.
          if \<not> follows then fork_sides name b sides remaining branches
          else fork_sides name b sides remaining
            (nx\<lparr>br_resolved := butlast (br_resolved nx), br_pending := split_char CHR ''/'' link @ br_pending nx\<rparr> # branches))))"

fun walk_pending ::
  "(string \<rightharpoonup> link_side list) \<Rightarrow> (string \<Rightarrow> string \<Rightarrow> sync_error + string)
   \<Rightarrow> string list \<Rightarrow> string list \<Rightarrow> nat \<Rightarrow> bool \<Rightarrow> nat \<Rightarrow> sync_error + (branch list \<times> nat)" where
  "walk_pending links resolve_component [] resolved followed influenced remaining = Ok ([], remaining)"
| "walk_pending links resolve_component (component # pending) resolved followed influenced remaining =
     and_then (spend_link_work remaining (length component + 1)) (\<lambda>remaining.
     if component = [] \<or> component = ''.''
     then walk_pending links resolve_component pending resolved followed influenced remaining
     else if component = ''..'' then
       (if resolved = [] then (if influenced then Err Link_escapes else Ok ([], remaining))
        else walk_pending links resolve_component pending (butlast resolved) followed influenced remaining)
     else
       (let parent = join_path resolved in
        and_then (spend_link_work remaining (length parent)) (\<lambda>remaining.
        and_then (resolve_component parent component) (\<lambda>stored.
        let resolved = resolved @ [stored]; name = join_path resolved in
        and_then (spend_link_work remaining (length name)) (\<lambda>remaining.
        case links name of
          None \<Rightarrow> walk_pending links resolve_component pending resolved followed influenced remaining
        | Some sides \<Rightarrow>
            fork_sides name \<lparr>br_resolved = resolved, br_pending = pending, br_followed = followed, br_influenced = influenced\<rparr>
              sides remaining [])))))"

definition walk_branch ::
  "(string \<rightharpoonup> link_side list) \<Rightarrow> (string \<Rightarrow> string \<Rightarrow> sync_error + string) \<Rightarrow> branch \<Rightarrow> nat
   \<Rightarrow> sync_error + (branch list \<times> nat)" where
  "walk_branch links resolve_component b remaining =
     walk_pending links resolve_component (br_pending b) (br_resolved b) (br_followed b) (br_influenced b) remaining"

text \<open>Every branch pushed is paid for, so the walk ends.\<close>

lemma spend_link_work_Ok: "spend_link_work r n = Ok r' \<longleftrightarrow> n \<le> r \<and> r' = r - n"
  by (auto simp: spend_link_work_def)

text \<open>The branch of a side.\<close>

definition side_branch :: "branch \<Rightarrow> link_side \<Rightarrow> branch" where
  "side_branch b side =
     (let nx = b\<lparr>br_influenced := br_influenced b \<or> ls_author side = Guest\<rparr> in
      case ls_target side of
        None \<Rightarrow> nx
      | Some link \<Rightarrow> nx\<lparr>br_followed := br_followed b + 1, br_resolved := butlast (br_resolved b),
          br_pending := split_char CHR ''/'' link @ br_pending b\<rparr>)"

lemma fork_sides_Ok:
  assumes "fork_sides name b (s # sides) r branches = Ok (branches', r')"
  shows "\<exists>r1 branches1. fork_sides name b sides r1 branches1 = Ok (branches', r') \<and> r1 < r
    \<and> (branches1 = branches \<and> (\<exists>link. ls_target s = Some link
          \<and> follows_link name link (br_followed b + 1) (br_influenced b \<or> ls_author s = Guest) = Ok False)
       \<or> branches1 = side_branch b s # branches \<and> (\<forall>link. ls_target s = Some link
          \<longrightarrow> follows_link name link (br_followed b + 1) (br_influenced b \<or> ls_author s = Guest) = Ok True))"
proof (cases "ls_target s")
  case None
  with assms show ?thesis by (auto simp: spend_link_work_Ok result_simps side_branch_def)
next
  case (Some link)
  let ?n = "length name + sum_list (map (\<lambda>part. length part + 1) (br_pending b)) + length link + 1"
  from assms Some obtain follows where n: "?n \<le> r"
    and f: "follows_link name link (br_followed b + 1) (br_influenced b \<or> ls_author s = Guest) = Ok follows"
    by (auto simp: spend_link_work_Ok result_simps Let_def)
  have "fork_sides name b sides (r - ?n) (if follows then side_branch b s # branches else branches) = Ok (branches', r')"
    using assms Some n f by (cases follows) (auto simp: spend_link_work_def result_simps side_branch_def Let_def)
  moreover have "r - ?n < r" using n by arith
  ultimately show ?thesis using Some f by (cases follows) auto
qed

lemma fork_sides_paid:
  "fork_sides name b sides remaining branches = Ok (branches', remaining')
   \<Longrightarrow> length branches' + remaining' \<le> length branches + remaining"
proof (induction sides arbitrary: remaining branches)
  case (Cons s sides)
  from fork_sides_Ok [OF Cons.prems] Cons.IH show ?case by fastforce
qed simp

lemma walk_pending_paid:
  "walk_pending links resolve_component pending resolved followed influenced remaining = Ok (branches, remaining')
   \<Longrightarrow> length branches + remaining' \<le> remaining"
proof (induction pending arbitrary: resolved remaining)
  case (Cons c pending)
  then show ?case
    by (fastforce simp: spend_link_work_Ok result_simps Let_def dest: fork_sides_paid split: option.splits if_splits)
qed simp

lemma walk_branch_paid:
  "walk_branch links resolve_component b remaining = Ok (branches, remaining') \<Longrightarrow> length branches + remaining' \<le> remaining"
  unfolding walk_branch_def by (rule walk_pending_paid)

function walk_branches ::
  "(string \<rightharpoonup> link_side list) \<Rightarrow> (string \<Rightarrow> string \<Rightarrow> sync_error + string) \<Rightarrow> branch list \<Rightarrow> nat \<Rightarrow> sync_error + nat" where
  "walk_branches links resolve_component [] remaining = Ok remaining"
| "walk_branches links resolve_component (b # branches) remaining =
     (case walk_branch links resolve_component b remaining of
        Inl e \<Rightarrow> Err e
      | Inr (pushed, remaining') \<Rightarrow> walk_branches links resolve_component (pushed @ branches) remaining')"
  by pat_completeness auto
termination by (relation "measure (\<lambda>(_, _, branches, remaining). length branches + remaining)") (auto dest!: walk_branch_paid)

definition start_branch :: "string \<Rightarrow> branch" where
  "start_branch path =
     (let components = split_char CHR ''/'' path in
      \<lparr>br_resolved = butlast components, br_pending = [last components], br_followed = 0, br_influenced = False\<rparr>)"

definition validate_link_resolutions ::
  "string \<Rightarrow> (string \<rightharpoonup> link_side list) \<Rightarrow> nat \<Rightarrow> (string \<Rightarrow> string \<Rightarrow> sync_error + string) \<Rightarrow> sync_error + nat" where
  "validate_link_resolutions path links remaining resolve_component =
     walk_branches links resolve_component [start_branch path] remaining"

definition collect_links :: "entries \<Rightarrow> entries \<Rightarrow> (string \<times> link_side list) list" where
  "collect_links source destination =
     foldl (\<lambda>links (path, _). snd (btree_insert path (link_sides (map_of source path) (map_of destination path)) links)) []
       (filter (\<lambda>(_, entry). link_target (se_kind entry) \<noteq> None) (source @ destination))"

fun validate_links ::
  "string list \<Rightarrow> (string \<rightharpoonup> link_side list) \<Rightarrow> nat \<Rightarrow> (string \<Rightarrow> string \<Rightarrow> sync_error + string) \<Rightarrow> sync_error + unit" where
  "validate_links [] links remaining resolve_component = Ok ()"
| "validate_links (path # paths) links remaining resolve_component =
     and_then (validate_link_resolutions path links remaining resolve_component) (\<lambda>remaining.
     validate_links paths links remaining resolve_component)"

definition validate_download_links ::
  "entries \<Rightarrow> entries \<Rightarrow> (string \<Rightarrow> string \<Rightarrow> sync_error + string) \<Rightarrow> sync_error + unit" where
  "validate_download_links source destination resolve_component =
     (let links = collect_links source destination in
      validate_links (map fst links) (map_of links) MAX_SYNC_LINK_WORK_BYTES resolve_component)"

section \<open>How the host follows links\<close>

text \<open>
  After a download every path that is a link on either side holds one of its sides: the entry of the guest, or a
  link of the host that was kept. The host then resolves a path component by component. It gives up
  after \<open>MAX_SYMLINK_FOLLOWS\<close> links, and a resolution that leaves the destination on links of the host
  alone is no longer followed.
\<close>

definition is_link_path :: "entries \<Rightarrow> entries \<Rightarrow> string \<Rightarrow> bool" where
  "is_link_path source destination name \<longleftrightarrow>
     (\<exists>entry. (name, entry) \<in> set (source @ destination) \<and> link_target (se_kind entry) \<noteq> None)"

definition link_map :: "entries \<Rightarrow> entries \<Rightarrow> string \<Rightarrow> link_side list option" where
  "link_map source destination name =
     (if is_link_path source destination name then Some (link_sides (map_of source name) (map_of destination name)) else None)"

definition ordinary :: "string \<Rightarrow> bool" where
  "ordinary c \<longleftrightarrow> c \<noteq> [] \<and> c \<noteq> ''.'' \<and> c \<noteq> ''..''"

inductive link_step ::
  "(string \<rightharpoonup> link_side list) \<Rightarrow> (string \<Rightarrow> string \<Rightarrow> sync_error + string) \<Rightarrow> (string \<Rightarrow> link_side) \<Rightarrow> branch \<Rightarrow> branch \<Rightarrow> bool"
  for links resolve_component installed where
  step_same: "br_pending b = c # rest \<Longrightarrow> c = [] \<or> c = ''.'' \<Longrightarrow> link_step links resolve_component installed b (b\<lparr>br_pending := rest\<rparr>)"
| step_up: "br_pending b = ''..'' # rest \<Longrightarrow> br_resolved b \<noteq> [] \<Longrightarrow>
    link_step links resolve_component installed b (b\<lparr>br_pending := rest, br_resolved := butlast (br_resolved b)\<rparr>)"
| step_into: "br_pending b = c # rest \<Longrightarrow> ordinary c \<Longrightarrow> resolve_component (join_path (br_resolved b)) c = Ok stored \<Longrightarrow>
    links (join_path (br_resolved b @ [stored])) = None \<Longrightarrow>
    link_step links resolve_component installed b (b\<lparr>br_pending := rest, br_resolved := br_resolved b @ [stored]\<rparr>)"
| step_entry: "br_pending b = c # rest \<Longrightarrow> ordinary c \<Longrightarrow> resolve_component (join_path (br_resolved b)) c = Ok stored \<Longrightarrow>
    name = join_path (br_resolved b @ [stored]) \<Longrightarrow> links name = Some sides \<Longrightarrow> ls_target (installed name) = None \<Longrightarrow>
    link_step links resolve_component installed b (b\<lparr>br_pending := rest, br_resolved := br_resolved b @ [stored],
      br_influenced := br_influenced b \<or> ls_author (installed name) = Guest\<rparr>)"
| step_link: "br_pending b = c # rest \<Longrightarrow> ordinary c \<Longrightarrow> resolve_component (join_path (br_resolved b)) c = Ok stored \<Longrightarrow>
    name = join_path (br_resolved b @ [stored]) \<Longrightarrow> links name = Some sides \<Longrightarrow> ls_target (installed name) = Some link \<Longrightarrow>
    br_followed b < MAX_SYMLINK_FOLLOWS \<Longrightarrow> \<not> is_rooted link \<Longrightarrow>
    link_step links resolve_component installed b (b\<lparr>br_pending := split_char CHR ''/'' link @ rest,
      br_followed := br_followed b + 1, br_influenced := br_influenced b \<or> ls_author (installed name) = Guest\<rparr>)"

text \<open>
  A resolution that a guest entry influences escapes when it goes above the root or follows an absolute
  link; it is cyclic when it needs too many links.
\<close>

definition guest_escapes ::
  "(string \<rightharpoonup> link_side list) \<Rightarrow> (string \<Rightarrow> string \<Rightarrow> sync_error + string) \<Rightarrow> (string \<Rightarrow> link_side) \<Rightarrow> branch \<Rightarrow> bool" where
  "guest_escapes links resolve_component installed b \<longleftrightarrow>
     (\<exists>c rest. br_pending b = c # rest
       \<and> (c = ''..'' \<and> br_resolved b = [] \<and> br_influenced b
          \<or> ordinary c \<and> (\<exists>stored sides link. resolve_component (join_path (br_resolved b)) c = Ok stored
              \<and> links (join_path (br_resolved b @ [stored])) = Some sides
              \<and> ls_target (installed (join_path (br_resolved b @ [stored]))) = Some link
              \<and> (br_influenced b \<or> ls_author (installed (join_path (br_resolved b @ [stored]))) = Guest)
              \<and> (is_rooted link \<or> br_followed b \<ge> MAX_SYMLINK_FOLLOWS))))"

section \<open>Accepted links stay inside\<close>

lemma walk_branches_append:
  "walk_branches links rc (xs @ ys) r = Ok r'' \<longleftrightarrow> (\<exists>r'. walk_branches links rc xs r = Ok r' \<and> walk_branches links rc ys r' = Ok r'')"
proof (induction links rc xs r rule: walk_branches.induct)
  case (2 links rc b branches r)
  then show ?case by (auto split: sum.splits)
qed simp

definition walk_ok :: "(string \<rightharpoonup> link_side list) \<Rightarrow> (string \<Rightarrow> string \<Rightarrow> sync_error + string) \<Rightarrow> branch \<Rightarrow> bool" where
  "walk_ok links rc b \<longleftrightarrow> (\<exists>r r'. walk_branches links rc [b] r = Ok r')"

lemma walk_ok_member: "walk_branches links rc bs r = Ok r' \<Longrightarrow> b \<in> set bs \<Longrightarrow> walk_ok links rc b"
proof -
  assume w: "walk_branches links rc bs r = Ok r'" and "b \<in> set bs"
  then obtain xs ys where "bs = xs @ [b] @ ys" by (auto dest: split_list)
  with w show ?thesis unfolding walk_ok_def by (simp only: walk_branches_append) blast
qed

lemma walk_ok_iff:
  "walk_ok links rc b \<longleftrightarrow> (\<exists>r pushed r1 r2. walk_branch links rc b r = Ok (pushed, r1) \<and> walk_branches links rc pushed r1 = Ok r2)"
proof -
  have "walk_branches links rc [b] r = Ok r2 \<longleftrightarrow>
      (\<exists>pushed r1. walk_branch links rc b r = Ok (pushed, r1) \<and> walk_branches links rc pushed r1 = Ok r2)" for r r2
    by (cases "walk_branch links rc b r") auto
  then show ?thesis unfolding walk_ok_def by blast
qed

lemma fork_sides_keep: "fork_sides name b sides r branches = Ok (branches', r') \<Longrightarrow> set branches \<subseteq> set branches'"
proof (induction sides arbitrary: r branches)
  case (Cons s sides)
  from fork_sides_Ok [OF Cons.prems] Cons.IH show ?case by (metis insert_subset list.simps(15))
qed simp

lemma fork_sides_each:
  assumes "fork_sides name b sides r branches = Ok (branches', r')" and "side \<in> set sides"
  shows "side_branch b side \<in> set branches' \<or> ls_target side \<noteq> None"
    "ls_target side = Some link \<Longrightarrow> \<exists>follows.
      follows_link name link (br_followed b + 1) (br_influenced b \<or> ls_author side = Guest) = Ok follows
      \<and> (follows \<longrightarrow> side_branch b side \<in> set branches')"
  using assms
proof (induction sides arbitrary: r branches)
  case (Cons s sides)
  {
    case 1
    from fork_sides_Ok [OF 1(1)] obtain r1 branches1 where f: "fork_sides name b sides r1 branches1 = Ok (branches', r')"
      and s: "branches1 = branches \<and> (\<exists>link. ls_target s = Some link) \<or> branches1 = side_branch b s # branches" by blast
    show ?case
    proof (cases "side = s")
      case True
      with s fork_sides_keep [OF f] show ?thesis by auto
    next
      case False
      with Cons.IH(1) [OF f] 1(2) show ?thesis by simp
    qed
  next
    case 2
    from fork_sides_Ok [OF 2(2)] obtain r1 branches1 where f: "fork_sides name b sides r1 branches1 = Ok (branches', r')"
      and s: "branches1 = branches \<and> (\<exists>link. ls_target s = Some link
          \<and> follows_link name link (br_followed b + 1) (br_influenced b \<or> ls_author s = Guest) = Ok False)
        \<or> branches1 = side_branch b s # branches \<and> (\<forall>link. ls_target s = Some link
          \<longrightarrow> follows_link name link (br_followed b + 1) (br_influenced b \<or> ls_author s = Guest) = Ok True)" by blast
    show ?case
    proof (cases "side = s")
      case True
      with s 2(1) fork_sides_keep [OF f] show ?thesis by auto
    next
      case False
      with Cons.IH(2) [OF 2(1) f] 2(3) show ?thesis by simp
    qed
  }
qed simp_all

lemma follows_link_inside:
  assumes "follows_link name link followed influenced = Ok follows"
  shows "influenced \<Longrightarrow> follows \<and> followed \<le> MAX_SYMLINK_FOLLOWS \<and> \<not> is_rooted link"
    "followed \<le> MAX_SYMLINK_FOLLOWS \<Longrightarrow> \<not> is_rooted link \<Longrightarrow> follows"
  using assms
  by (auto simp: follows_link_def validate_download_symlink_target_def is_rooted_def result_simps split: if_splits option.splits)

section \<open>Paths\<close>

lemma split_once_char_Some: "split_once [c] s = Some (p, l) \<Longrightarrow> s = p @ c # l \<and> c \<notin> set p"
proof (induction s arbitrary: p)
  case (Cons x s)
  then show ?case by (cases "x = c") (auto simp: strip_prefix_str_def)
qed simp

lemma split_once_char_None: "split_once [c] s = None \<Longrightarrow> c \<notin> set s"
proof (induction s)
  case (Cons x s)
  then show ?case by (cases "x = c") (auto simp: strip_prefix_str_def)
qed simp

lemma rsplit_once_Some: "rsplit_once c s = Some (p, l) \<Longrightarrow> s = p @ c # l \<and> c \<notin> set l"
proof -
  assume "rsplit_once c s = Some (p, l)"
  then have "split_once [c] (rev s) = Some (rev l, rev p)" by (auto simp: rsplit_once_def)
  from split_once_char_Some [OF this] show ?thesis by (metis append.assoc append_Cons append_Nil rev.simps(2) rev_append rev_rev_ident set_rev)
qed

lemma rsplit_once_None: "rsplit_once c s = None \<Longrightarrow> c \<notin> set s"
  by (auto simp: rsplit_once_def dest!: split_once_char_None)

lemma split_char_nonempty: "split_char c s \<noteq> []"
  by (induction s) (auto split: list.splits)

lemma split_char_plain: "c \<notin> set s \<Longrightarrow> split_char c s = [s]"
  by (induction s) auto

lemma split_char_snoc: "c \<notin> set l \<Longrightarrow> split_char c (p @ c # l) = split_char c p @ [l]"
proof (induction p)
  case (Cons x p)
  then show ?case using split_char_nonempty [of c p] by (cases "split_char c p") auto
qed (simp add: split_char_plain)

lemma join_path_Cons: "cs \<noteq> [] \<Longrightarrow> join_path (c # cs) = c @ ''/'' @ join_path cs"
  by (cases cs) simp_all

lemma join_split_path: "join_path (split_char CHR ''/'' path) = path"
proof (induction path)
  case (Cons x path)
  show ?case
  proof (cases "split_char CHR ''/'' path")
    case Nil
    then show ?thesis using split_char_nonempty by blast
  next
    case (Cons w ws)
    with Cons.IH show ?thesis by (cases ws) auto
  qed
qed simp

lemma split_parent_path:
  assumes "path \<noteq> []"
  shows "butlast (split_char CHR ''/'' path)
      = (if CHR ''/'' \<in> set path then split_char CHR ''/'' (parent_path path) else [])"
    and "join_path (butlast (split_char CHR ''/'' path)) = parent_path path"
    and "length (parent_path path) < length path"
proof -
  have "butlast (split_char CHR ''/'' path) = (if CHR ''/'' \<in> set path then split_char CHR ''/'' (parent_path path) else [])
    \<and> length (parent_path path) < length path \<and> (CHR ''/'' \<notin> set path \<longrightarrow> parent_path path = [])"
  proof (cases "rsplit_once CHR ''/'' path")
    case None
    then show ?thesis using rsplit_once_None [OF None] assms by (simp add: split_char_plain parent_path_def)
  next
    case (Some pl)
    then obtain p l where pl: "rsplit_once CHR ''/'' path = Some (p, l)" by (cases pl) auto
    from rsplit_once_Some [OF pl] have "split_char CHR ''/'' path = split_char CHR ''/'' p @ [l]" "CHR ''/'' \<in> set path"
      "length p < length path" by (simp_all add: split_char_snoc)
    then show ?thesis by (simp add: parent_path_def pl)
  qed
  then show "butlast (split_char CHR ''/'' path)
      = (if CHR ''/'' \<in> set path then split_char CHR ''/'' (parent_path path) else [])"
    "join_path (butlast (split_char CHR ''/'' path)) = parent_path path"
    "length (parent_path path) < length path"
    by (auto simp: join_split_path)
qed

lemma validate_each_Ok: "validate_each check xs = Ok () \<longleftrightarrow> (\<forall>x \<in> set xs. check x = Ok ())"
  by (induction xs) (auto simp: result_simps)

lemma validate_components_Ok: "validate_components cs = Ok () \<longleftrightarrow> (\<forall>c \<in> set cs. ordinary c)"
  by (induction cs) (auto simp: ordinary_def)

lemma validate_entry_Ok:
  assumes "validate_entry entries (path, entry) = Ok ()"
  shows "se_relative_path entry = path" and "path \<noteq> [] \<Longrightarrow> \<forall>c \<in> set (split_char CHR ''/'' path). ordinary c"
    and "path \<noteq> [] \<Longrightarrow> case map_of entries (parent_path path) of None \<Rightarrow> parent_path path = [] | Some e \<Rightarrow> se_kind e = Kind_Directory"
  using assms
  by (auto simp: validate_entry_def validate_relative_path_def validate_wire_path_def validate_components_Ok
      result_simps Let_def split: if_splits option.splits)

lemma manifest_ancestors:
  assumes "validate_manifest entries = Ok ()" and "(path, entry) \<in> set entries" and "path \<noteq> []"
    and "n < length (split_char CHR ''/'' path)"
  shows "case map_of entries (join_path (take n (split_char CHR ''/'' path))) of
    None \<Rightarrow> n = 0 | Some e \<Rightarrow> se_kind e = Kind_Directory"
  using assms(2-4)
proof (induction path arbitrary: entry n rule: length_induct)
  case (1 path)
  let ?cs = "split_char CHR ''/'' path"
  have entry: "validate_entry entries (path, entry) = Ok ()"
    using assms(1) 1(2) by (simp add: validate_manifest_def validate_each_Ok)
  note parent = validate_entry_Ok(3) [OF entry 1(3)] and split = split_parent_path [OF 1(3)]
  have root: "butlast ?cs = []" if "parent_path path = []"
  proof (rule ccontr)
    assume "butlast ?cs \<noteq> []"
    with split(1) that have "butlast ?cs = [[]]" by (auto split: if_splits)
    then have "[] \<in> set ?cs" by (metis in_set_butlastD list.set_intros(1))
    with validate_entry_Ok(2) [OF entry 1(3)] show False by (auto simp: ordinary_def)
  qed
  show ?case
  proof (cases "n = length ?cs - 1")
    case True
    then have "n = length (butlast ?cs)" and "take n ?cs = butlast ?cs" by (simp_all add: butlast_conv_take)
    then show ?thesis using parent split(2) root by (cases "map_of entries (parent_path path)") auto
  next
    case False
    with 1(4) have n: "n < length (butlast ?cs)" by simp
    then have p: "butlast ?cs = split_char CHR ''/'' (parent_path path)" using split(1) by (auto split: if_splits)
    have "parent_path path \<noteq> []" using root n by (metis list.size(3) not_less0)
    moreover from this parent obtain e where "(parent_path path, e) \<in> set entries"
      by (auto split: option.splits dest: map_of_SomeD)
    ultimately have "case map_of entries (join_path (take n (split_char CHR ''/'' (parent_path path)))) of
        None \<Rightarrow> n = 0 | Some e \<Rightarrow> se_kind e = Kind_Directory"
      using 1(1) split(3) n unfolding p by blast
    then show ?thesis using n unfolding p [symmetric] by (simp add: take_butlast)
  qed
qed

lemma walk_ok_step:
  assumes ok: "walk_ok links rc b" and step: "link_step links rc installed b b'"
    and sides: "\<And>name sides. links name = Some sides \<Longrightarrow> installed name \<in> set sides"
  shows "walk_ok links rc b'"
proof -
  from ok obtain r pushed r1 r2 where w: "walk_branch links rc b r = Ok (pushed, r1)" and ps: "walk_branches links rc pushed r1 = Ok r2"
    unfolding walk_ok_iff by blast
  have again: "walk_ok links rc b'" if "walk_branch links rc b' r' = Ok (pushed, r1)" for r'
    using that ps unfolding walk_ok_iff by blast
  have forked: "walk_ok links rc x" if "x \<in> set pushed" for x using walk_ok_member [OF ps that] .
  from step show ?thesis
  proof cases
    case (step_same c rest)
    with w obtain r' where "walk_branch links rc b' r' = Ok (pushed, r1)"
      by (auto simp: walk_branch_def result_simps)
    then show ?thesis by (rule again)
  next
    case (step_up rest)
    with w obtain r' where "walk_branch links rc b' r' = Ok (pushed, r1)"
      by (auto simp: walk_branch_def result_simps)
    then show ?thesis by (rule again)
  next
    case (step_into c rest stored)
    with w obtain r' where "walk_branch links rc b' r' = Ok (pushed, r1)"
      by (auto simp: walk_branch_def result_simps ordinary_def Let_def)
    then show ?thesis by (rule again)
  next
    case (step_entry c rest stored name sides)
    let ?b = "\<lparr>br_resolved = br_resolved b @ [stored], br_pending = rest, br_followed = br_followed b, br_influenced = br_influenced b\<rparr>"
    from step_entry w obtain r' where "fork_sides name ?b sides r' [] = Ok (pushed, r1)"
      by (auto simp: walk_branch_def result_simps ordinary_def Let_def)
    moreover have l: "links name = Some sides" using step_entry by simp
    ultimately have "side_branch ?b (installed name) \<in> set pushed \<or> ls_target (installed name) \<noteq> None"
      using fork_sides_each(1) [OF _ sides [OF l]] by blast
    with step_entry have "side_branch ?b (installed name) \<in> set pushed" by simp
    moreover have "side_branch ?b (installed name) = b'" using step_entry by (cases b) (simp add: side_branch_def)
    ultimately show ?thesis using forked by simp
  next
    case (step_link c rest stored name sides link)
    let ?b = "\<lparr>br_resolved = br_resolved b @ [stored], br_pending = rest, br_followed = br_followed b, br_influenced = br_influenced b\<rparr>"
    from step_link w obtain r' where "fork_sides name ?b sides r' [] = Ok (pushed, r1)"
      by (auto simp: walk_branch_def result_simps ordinary_def Let_def)
    moreover have l: "links name = Some sides" using step_link by simp
    ultimately obtain follows where
      f: "follows_link name link (br_followed b + 1) (br_influenced b \<or> ls_author (installed name) = Guest) = Ok follows"
      "follows \<longrightarrow> side_branch ?b (installed name) \<in> set pushed"
      using fork_sides_each(2) [OF _ sides [OF l], where link = link] step_link by fastforce
    from follows_link_inside(2) [OF f(1)] step_link f(2) have "side_branch ?b (installed name) \<in> set pushed" by simp
    moreover have "side_branch ?b (installed name) = b'" using step_link by (cases b) (simp add: side_branch_def)
    ultimately show ?thesis using forked by simp
  qed
qed

lemma walk_ok_inside:
  assumes ok: "walk_ok links rc b" and sides: "\<And>name sides. links name = Some sides \<Longrightarrow> installed name \<in> set sides"
  shows "\<not> guest_escapes links rc installed b"
proof
  assume "guest_escapes links rc installed b"
  then obtain c rest where p: "br_pending b = c # rest" and
    esc: "c = ''..'' \<and> br_resolved b = [] \<and> br_influenced b
      \<or> ordinary c \<and> (\<exists>stored sides link. rc (join_path (br_resolved b)) c = Ok stored
              \<and> links (join_path (br_resolved b @ [stored])) = Some sides
              \<and> ls_target (installed (join_path (br_resolved b @ [stored]))) = Some link
              \<and> (br_influenced b \<or> ls_author (installed (join_path (br_resolved b @ [stored]))) = Guest)
              \<and> (is_rooted link \<or> br_followed b \<ge> MAX_SYMLINK_FOLLOWS))"
    unfolding guest_escapes_def by blast
  from ok obtain r pushed r1 where w: "walk_branch links rc b r = Ok (pushed, r1)" unfolding walk_ok_iff by blast
  from esc show False
  proof
    assume "c = ''..'' \<and> br_resolved b = [] \<and> br_influenced b"
    with w p show False by (auto simp: walk_branch_def result_simps)
  next
    assume "ordinary c \<and> (\<exists>stored sides link. rc (join_path (br_resolved b)) c = Ok stored
              \<and> links (join_path (br_resolved b @ [stored])) = Some sides
              \<and> ls_target (installed (join_path (br_resolved b @ [stored]))) = Some link
              \<and> (br_influenced b \<or> ls_author (installed (join_path (br_resolved b @ [stored]))) = Guest)
              \<and> (is_rooted link \<or> br_followed b \<ge> MAX_SYMLINK_FOLLOWS))"
    then obtain stored sides link where c: "ordinary c" "rc (join_path (br_resolved b)) c = Ok stored"
      and l: "links (join_path (br_resolved b @ [stored])) = Some sides"
      and t: "ls_target (installed (join_path (br_resolved b @ [stored]))) = Some link"
      and g: "br_influenced b \<or> ls_author (installed (join_path (br_resolved b @ [stored]))) = Guest"
      and bad: "is_rooted link \<or> br_followed b \<ge> MAX_SYMLINK_FOLLOWS" by blast
    let ?b = "\<lparr>br_resolved = br_resolved b @ [stored], br_pending = rest, br_followed = br_followed b, br_influenced = br_influenced b\<rparr>"
    from c l w p obtain r' where "fork_sides (join_path (br_resolved b @ [stored])) ?b sides r' [] = Ok (pushed, r1)"
      by (auto simp: walk_branch_def result_simps ordinary_def Let_def)
    from fork_sides_each(2) [OF this sides [OF l] t] obtain follows where
      "follows_link (join_path (br_resolved b @ [stored])) link (br_followed b + 1)
        (br_influenced b \<or> ls_author (installed (join_path (br_resolved b @ [stored]))) = Guest) = Ok follows" by auto
    from follows_link_inside(1) [OF this g] bad show False by simp
  qed
qed

lemma map_of_collect_links: "map_of (collect_links source destination) = link_map source destination"
proof -
  let ?sides = "\<lambda>path. link_sides (map_of source path) (map_of destination path)"
  let ?add = "\<lambda>links (path, e :: sync_entry). snd (btree_insert path (?sides path) links)"
  have "map_of (foldl ?add links es) name = (if name \<in> fst ` set es then Some (?sides name) else map_of links name)" for links es name
    by (induction es arbitrary: links) (auto simp: btree_insert_map_of)
  then have "map_of (collect_links source destination) name = (if name \<in> fst ` set
      (filter (\<lambda>(_, entry). link_target (se_kind entry) \<noteq> None) (source @ destination)) then Some (?sides name) else None)" for name
    unfolding collect_links_def by (simp only: map_of.simps)
  moreover have "name \<in> fst ` set (filter (\<lambda>(_, entry). link_target (se_kind entry) \<noteq> None) (source @ destination))
      \<longleftrightarrow> is_link_path source destination name" for name
    by (auto simp: is_link_path_def image_iff Bex_def split_paired_Ex)
  ultimately show ?thesis by (auto simp: link_map_def fun_eq_iff)
qed

lemma validate_links_each:
  "validate_links paths links r rc = Ok () \<Longrightarrow> path \<in> set paths \<Longrightarrow> walk_ok links rc (start_branch path)"
  by (induction paths arbitrary: r) (auto simp: validate_link_resolutions_def walk_ok_def result_simps)

section \<open>Properties\<close>

text \<open>C9: A download that passes the link check cannot be led out of its destination by a link the guest
  controls. Take any path below the root that is a link on either side, and whichever of its two sides
  stays at each such path. Following the path from there component by component never reaches a state
  where a resolution that is the guest's goes above the root of the destination, follows an absolute link
  or needs more than \<open>MAX_SYMLINK_FOLLOWS\<close> links. A resolution is the guest's once it has passed a path that
  is a link on either side and holds the entry of the guest. One that has passed links of the host alone
  is the host's own and may leave, also where it crosses plain directories the guest sent. A root that is
  itself a link has an empty path and takes no step here; the planner checks it under its own name
  beside its siblings.\<close>

theorem download_links_stay_inside:
  assumes "validate_download_links source destination resolve_component = Ok ()"
    and "is_link_path source destination path"
    and "\<And>name. is_link_path source destination name \<Longrightarrow>
      installed name \<in> set (link_sides (map_of source name) (map_of destination name))"
    and "(link_step (link_map source destination) resolve_component installed)\<^sup>*\<^sup>* (start_branch path) b"
  shows "\<not> guest_escapes (link_map source destination) resolve_component installed b"
proof -
  let ?links = "link_map source destination"
  have sides: "installed name \<in> set sides" if "?links name = Some sides" for name sides
    using that assms(3) by (auto simp: link_map_def split: if_splits)
  have "path \<in> set (map fst (collect_links source destination))"
    using assms(2) map_of_eq_None_iff [of "collect_links source destination" path]
    by (simp add: map_of_collect_links link_map_def)
  with assms(1) have start: "walk_ok ?links resolve_component (start_branch path)"
    using validate_links_each by (fastforce simp: validate_download_links_def Let_def map_of_collect_links)
  from assms(4) have "walk_ok ?links resolve_component b"
    by induction (use start walk_ok_step sides in blast)+
  then show ?thesis using sides by (rule walk_ok_inside)
qed

text \<open>A link of the guest one directory down, with a target to try it on.\<close>

definition sample_link_entries :: "string \<Rightarrow> entries" where
  "sample_link_entries target = [(''a/l'', \<lparr>se_relative_path = ''a/l'', se_kind = Kind_Symlink target, se_mode = 0,
     se_mtime_secs = 0, se_mtime_nanos = 0\<rparr>)]"

definition sample_link_side :: "string \<Rightarrow> string \<Rightarrow> link_side" where
  "sample_link_side target name = \<lparr>ls_target = Some target, ls_author = Guest\<rparr>"

definition sample_link_map :: "string \<Rightarrow> string \<Rightarrow> link_side list option" where
  "sample_link_map target = link_map (sample_link_entries target) []"

definition sample_followed :: branch where
  "sample_followed = \<lparr>br_resolved = [''a''], br_pending = [''..'', ''b''], br_followed = 1, br_influenced = True\<rparr>"

lemma sample_link_path: "is_link_path (sample_link_entries target) [] name \<longleftrightarrow> name = ''a/l''"
  by (auto simp: is_link_path_def sample_link_entries_def)

lemma sample_link_sides: "link_sides (map_of (sample_link_entries target) ''a/l'') (map_of [] ''a/l'') = [sample_link_side target ''a/l'']"
  by (simp add: sample_link_entries_def sample_link_side_def link_sides_def)

lemma sample_link_map_at: "sample_link_map target ''a/l'' = Some [sample_link_side target ''a/l'']"
  using sample_link_sides by (simp add: sample_link_map_def link_map_def sample_link_path)

lemma sample_start: "start_branch ''a/l'' = \<lparr>br_resolved = [''a''], br_pending = [''l''], br_followed = 0, br_influenced = False\<rparr>"
  by (simp add: start_branch_def Let_def)

lemma sample_link_followed: "link_step (sample_link_map ''../b'') (\<lambda>_ c. Ok c) (sample_link_side ''../b'') (start_branch ''a/l'') sample_followed"
  using step_link [of "start_branch ''a/l''" "''l''" "[]" "\<lambda>_ c. Ok c" "''l''" "''a/l''" "sample_link_map ''../b''"
      "[sample_link_side ''../b'' ''a/l'']" "sample_link_side ''../b''" "''../b''"]
  by (simp add: sample_start ordinary_def sample_link_map_at sample_link_side_def MAX_SYMLINK_FOLLOWS_def is_rooted_def sample_followed_def)

text \<open>The check accepts the target \<open>../b\<close>, which stays inside before and after it is followed; the absolute
  target \<open>/etc\<close>, which the check refuses, escapes at the first of these states.\<close>

theorem download_links_stay_inside_witness:
  "validate_download_links (sample_link_entries ''../b'') [] (\<lambda>_ c. Ok c) = Ok ()
    \<and> \<not> guest_escapes (sample_link_map ''../b'') (\<lambda>_ c. Ok c) (sample_link_side ''../b'') (start_branch ''a/l'')
    \<and> link_step (sample_link_map ''../b'') (\<lambda>_ c. Ok c) (sample_link_side ''../b'') (start_branch ''a/l'') sample_followed
    \<and> \<not> guest_escapes (sample_link_map ''../b'') (\<lambda>_ c. Ok c) (sample_link_side ''../b'') sample_followed
    \<and> validate_download_links (sample_link_entries ''/etc'') [] (\<lambda>_ c. Ok c) = Err Target_absolute
    \<and> guest_escapes (sample_link_map ''/etc'') (\<lambda>_ c. Ok c) (sample_link_side ''/etc'') (start_branch ''a/l'')"
proof -
  note check_defs = validate_download_links_def collect_links_def link_sides_def validate_link_resolutions_def start_branch_def
    walk_branch_def spend_link_work_def MAX_SYNC_LINK_WORK_BYTES_def follows_link_def MAX_SYMLINK_FOLLOWS_def
    validate_download_symlink_target_def MAX_SYNC_PATH_BYTES_def Let_def result_simps sample_link_entries_def
  have ok: "validate_download_links (sample_link_entries ''../b'') [] (\<lambda>_ c. Ok c) = Ok ()" by (simp add: check_defs)
  have bad: "validate_download_links (sample_link_entries ''/etc'') [] (\<lambda>_ c. Ok c) = Err Target_absolute" by (simp add: check_defs)
  have side: "sample_link_side ''../b'' name \<in> set (link_sides (map_of (sample_link_entries ''../b'') name) (map_of [] name))"
    if "is_link_path (sample_link_entries ''../b'') [] name" for name
    using that sample_link_sides unfolding sample_link_path by simp
  have inside: "\<not> guest_escapes (sample_link_map ''../b'') (\<lambda>_ c. Ok c) (sample_link_side ''../b'') b"
    if "(link_step (sample_link_map ''../b'') (\<lambda>_ c. Ok c) (sample_link_side ''../b''))\<^sup>*\<^sup>* (start_branch ''a/l'') b" for b
    using download_links_stay_inside [OF ok _ side, of "''a/l''"] that by (simp add: sample_link_path sample_link_map_def)
  have "guest_escapes (sample_link_map ''/etc'') (\<lambda>_ c. Ok c) (sample_link_side ''/etc'') (start_branch ''a/l'')"
    by (simp add: guest_escapes_def sample_start ordinary_def sample_link_map_at) (simp add: sample_link_side_def is_rooted_def)
  with ok bad inside [OF rtranclp.rtrancl_refl] sample_link_followed inside [OF r_into_rtranclp, OF sample_link_followed]
  show ?thesis by simp
qed

text \<open>C40: A manifest that passes the check is a tree of clean paths. The components of every path listed are
  neither empty nor a dot or dot-dot, and every ancestor of an entry is listed and a directory, where the
  root alone may be left out.\<close>

theorem manifest_is_tree:
  assumes "validate_manifest entries = Ok ()" and "(path, entry) \<in> set entries" and "path \<noteq> []"
  shows "se_relative_path entry = path \<and> (\<forall>c \<in> set (split_char CHR ''/'' path). ordinary c)
    \<and> (\<forall>n < length (split_char CHR ''/'' path).
          case map_of entries (join_path (take n (split_char CHR ''/'' path))) of
            None \<Rightarrow> n = 0 | Some e \<Rightarrow> se_kind e = Kind_Directory)"
proof -
  have "validate_entry entries (path, entry) = Ok ()"
    using assms(1,2) by (simp add: validate_manifest_def validate_each_Ok)
  then show ?thesis using validate_entry_Ok assms(3) manifest_ancestors [OF assms] by simp
qed

definition sample_manifest :: entries where
  "sample_manifest =
     [(''a'', \<lparr>se_relative_path = ''a'', se_kind = Kind_Directory, se_mode = 0, se_mtime_secs = 0, se_mtime_nanos = 0\<rparr>),
      (''a/b'', \<lparr>se_relative_path = ''a/b'', se_kind = Kind_File 7, se_mode = 0, se_mtime_secs = 0, se_mtime_nanos = 0\<rparr>)]"

theorem manifest_is_tree_witness:
  "validate_manifest sample_manifest = Ok () \<and> (''a/b'', snd (sample_manifest ! 1)) \<in> set sample_manifest
    \<and> se_relative_path (snd (sample_manifest ! 1)) = ''a/b''
    \<and> list_all ordinary (split_char CHR ''/'' ''a/b'')
    \<and> (case map_of sample_manifest ''a'' of None \<Rightarrow> False | Some e \<Rightarrow> se_kind e = Kind_Directory)"
proof -
  have ok: "validate_manifest sample_manifest = Ok ()"
    by (simp add: sample_manifest_def validate_manifest_def validate_entry_def validate_relative_path_def validate_wire_path_def
        MAX_SYNC_PATH_BYTES_def MAX_SYNC_FILE_BYTES_def parent_path_def rsplit_once_def strip_prefix_str_def Let_def result_simps)
  have listed: "(''a/b'', snd (sample_manifest ! 1)) \<in> set sample_manifest" by (simp add: sample_manifest_def)
  have parent: "join_path (take 1 (split_char CHR ''/'' ''a/b'')) = ''a''" "1 < length (split_char CHR ''/'' ''a/b'')" by simp_all
  note tree = manifest_is_tree [OF ok listed, simplified list_all_iff [symmetric]]
  have "case map_of sample_manifest ''a'' of None \<Rightarrow> False | Some e \<Rightarrow> se_kind e = Kind_Directory"
    using tree [THEN conjunct2, THEN conjunct2, THEN spec [of _ 1]] parent by (simp split: option.splits)
  with ok listed tree show ?thesis by (simp add: list_all_iff)
qed

end
