(* ===== verification/Spec2Isabelle.thy ===== *)
theory Spec2Isabelle
  imports Guest_Discard Vsock_Replies Block_Requests Interrupt_Controller Mem_Device Box_Policy
    Datagram_Batch Dns_Messages Message_Frames Sync_Links
begin

text \<open>
  \<^bold>\<open>Terrarium\<close> runs agents in small virtual machines. A guest reaches the outside only through
  virtio-MMIO devices. Every device is a WebAssembly component that is not trusted with the host: it
  sees guest memory, disks and the network through bounded imports of the runtime. This development
  models the parts of the program that hold that boundary, from guest memory up to the egress policy,
  and proves what each of them promises. Paths below are relative to the source tree.

  \<^bold>\<open>How the parts meet.\<close> The hypervisor maps guest RAM (\<open>crates/terra-hypervisor\<close>); the runtime hands it
  out through bounded copies (\<open>crates/terra-runtime/src/memory.rs\<close>). A device component decodes its
  registers and rings with the shared transport (\<open>components/device-transport\<close>), is woken by its
  doorbell, and calls the imports: the block device calls disk imports over a memory, file or packed
  backing, the memory device asks for pages to be discarded, the vsock device multiplexes streams to the
  agent and to network flows. Network flows carry the frames of \<open>crates/terra-protocol\<close>, and every peer
  is decided by the policy of \<open>crates/terra-policy\<close>. The interrupt controller merges the lines of the
  devices into messages to the processors.

  \<^bold>\<open>Conventions.\<close> Rust integers are words of their width and their checked, saturating and wrapping
  operations are written out (theory \<open>Prelude\<close>). \<open>Result\<close> is a sum with \<open>Err\<close> and \<open>Ok\<close>; a panic, an abort
  or an index out of range is \<open>None\<close> of an option around the result, so that a theorem that a call
  returns is a theorem that it does not panic. State is passed explicitly and returned updated, also by
  calls that fail. Code outside the sources is an argument: the page allocator of the host, file system
  calls, the LZ4 codec, the LRU cache, the clock, the wire encoding of the serialisation crate. What is
  assumed of it is a hypothesis or a locale.

  \<^bold>\<open>Theories, in the order of their imports.\<close>

  \<^item> \<open>Prelude\<close>: types, arithmetic, slices, little-endian encodings, the collections of simplification rules.
  \<^item> \<open>Limits\<close> (\<open>crates/terra-limits\<close>): shared bounds and the RAM layouts of x86 and ARM.
  \<^item> \<open>Guest_Memory\<close> (\<open>terra-hypervisor/src/memory.rs\<close>, \<open>memory/windows.rs\<close>, \<open>terra-runtime/src/memory.rs\<close>):
    native mappings over a backing, and the bounded operations. The locale \<open>ram_backing\<close> is the contract
    of a backing as a partial map from addresses to bytes; the Windows backing is its interpretation
    \<open>win\<close>. Batches are shown to be all or nothing and exact.
  \<^item> \<open>Guest_Discard\<close> (\<open>GuestRam::discard\<close>): discarding zeroes whole pages of mapped RAM and nothing else.
  \<^item> \<open>Virtio_Mmio\<close> (\<open>device-transport/src/lib.rs\<close>, \<open>MmioTransport\<close>): the whole register file, its invariant
    over every sequence of accesses, and what follows: the rings of armed queues end below the address
    limit of the transport, features and status obey the negotiation, interrupt changes are reported, a correct driver is accepted.
  \<^item> \<open>Guest_Copy\<close>: the host imports of \<open>component/context.rs\<close> and the copy loops that split a range into
    batches the host accepts; reads and writes are exact.
  \<^item> \<open>Split_Ring\<close>: descriptor chains against a reference walk, the available ring as a queue, used entries.
  \<^item> \<open>Doorbell\<close>: rings, closes and polls as programs of atomic accesses that interleave; no bit and no
    wake-up is lost, under every schedule.
  \<^item> \<open>Packed_Image\<close> (\<open>terra-protocol/src/packed_image.rs\<close>, \<open>guest_image.rs\<close>): pack, parse and read back.
    Reading carries fuel for its chunk loop; a theorem shows that as many steps as the buffer has bytes
    suffice for every image that parses.
  \<^item> \<open>Disk_Backing\<close> (\<open>component/block/backing.rs\<close>, \<open>block/host.rs\<close>, \<open>terra-platform\<close> disk operations): memory,
    file and packed backings. The locale \<open>block_backing\<close> is the contract of an array of bytes; \<open>bounded\<close>
    and \<open>mem_grant\<close> interpret it. The imports refine an abstract disk.
  \<^item> \<open>Block_Device\<close>, \<open>Block_Requests\<close> (\<open>components/block\<close>): configuration, request parsing, execution, epochs
    and the device as a step relation; what read and write requests do from guest memory to disk.
  \<^item> \<open>Mem_Device\<close> (\<open>components/mem\<close>): page reporting; discards are exactly the valid reports.
  \<^item> \<open>Interrupt_Controller\<close> (\<open>components/interrupt-controller\<close>): the I/O APIC and wired-OR lines, refined to a
    specification of lines and messages, and typed over every run.
  \<^item> \<open>Vsock_Packet\<close>, \<open>Vsock_Stream\<close>, \<open>Vsock_Credit\<close>, \<open>Vsock_Switch\<close>, \<open>Vsock_Switch_Inv\<close>, \<open>Vsock_Replies\<close>
    (\<open>components/vsock-device\<close>): the packet header, one stream with its credit in both directions
    (what packets announce is what the stream accepts), the switch of endpoints, its invariant under every call, and the fair draining of replies.
  \<^item> \<open>Net_Address\<close>, \<open>Net_Rules\<close>, \<open>Box_Policy\<close> (\<open>crates/terra-policy\<close>): address ranges and the egress floor
    against the registries; the text of rules and records, with the parsers of the standard library;
    the policy with its learned addresses over the locale \<open>learned_cache\<close>, interpreted as \<open>recent\<close> on a
    list ordered by use. Every decision is traced to what the recipe opens.
  \<^item> \<open>Net_Frames\<close> (\<open>terra-protocol/src/application.rs\<close>, \<open>socket.rs\<close>): the frames of network flows in both
    directions and the bounded reassembly of a stream. The locale \<open>frame_codec\<close> is the promise of the
    trait \<open>Frame\<close>, interpreted for guest frames and, as a sublocale of \<open>variant_codec\<close> (the error codes
    of the serialisation crate), for host frames. Codecs are shown exact, streams to be reassembled.
  \<^item> \<open>Datagram_Batch\<close> (\<open>terra-protocol/src/network.rs\<close>): batches of datagrams refine lists of datagrams.
  \<^item> \<open>Dns_Messages\<close> (\<open>terra-protocol/src/dns.rs\<close>): the question parser against its grammar, and responses as
    a client reads them. The label loop ends by its measure.
  \<^item> \<open>Message_Frames\<close> (\<open>terra-protocol/src/frames.rs\<close>): length-prefixed messages over the locale
    \<open>message_codec\<close>, interpreted on a reply type of the broker. Reading a whole channel has fuel, one
    more than the number of messages.
  \<^item> \<open>Sync_Links\<close> (\<open>terra/src/cmd/sync/security.rs\<close>, paths of \<open>terra-protocol/src/sync.rs\<close>): the manifest of a
    sync and the walk over the symbolic links of a download. Every branch of the walk is paid for from
    its work budget, which is the measure that ends it. What the host does with links afterwards is the
    step relation \<open>link_step\<close>; no run of it leaves the destination once it has
    passed a link path that holds an entry of the guest.
  The root theory adds what spans the RAM layout and guest memory.

  \<^bold>\<open>Bounds and fuel.\<close> The constants are those of the source. Loops over data are structural recursions.
  The zeroing loop of the Windows disk discard ends by its measure. Fuel appears in the chunk loop of a
  packed read and in the trimming of text, always with the length of the data, which every step shortens,
  and in reading all complete frames of a decoder (\<open>take_frames\<close>), where one more than the number of frames
  sent is shown to be enough.

  \<^bold>\<open>Not modelled.\<close> The Unix backing of guest memory (the external \<open>vm_memory\<close> crate), raw host addresses
  and the macOS remapping. The hypervisor back ends, the process sandboxes, the platform layer beyond disk
  operations, the guest agent, the command line and the supervisor: nearly every step is a system call.
  The network broker and the vsock front end: asynchronous tasks whose order the runtime decides; the
  decisions they ask for and the switch and frames they use are modelled. The shared directory device: a
  FUSE server whose operations are resources of the WASI host. The boot component: tables whose meaning
  is fixed by the processor. Message types that only derive their encoding from a serialisation crate.
\<close>

section \<open>Guest RAM of a machine\<close>

text \<open>C25: The guest memory built from the x86 layout of a RAM size maps exactly that many zeroed
  bytes, and no mapped address lies in the MMIO hole from 0xd0000000 to 4 GiB.\<close>

theorem x86_memory_avoids_mmio:
  assumes "x86_ram_layout sz = Some l"
    and "from_layout (win_backing valloc) l = Some m"
  shows "mapped_bytes (win_backing valloc) m = sz
    \<and> (alloc_view (gm_backing m) x = Some 0 \<or> alloc_view (gm_backing m) x = None)
    \<and> (alloc_view (gm_backing m) x \<noteq> None \<longrightarrow> unat x < 0xd0000000 \<or> 0x100000000 \<le> unat x)"
proof -
  note lay = x86_ram_layout_spec [OF assms(1)]
  note build = assms(2) [unfolded from_layout_def]
  note win = from_ranges_win [OF build]
  have dom: "\<exists>r \<in> set (regions l). unat (region_base r) \<le> unat x
      \<and> unat x < unat (region_base r) + unat (region_size r)" if "alloc_view (gm_backing m) x \<noteq> None"
    using that unfolding alloc_view_domain [OF win(1)] by (auto simp: win(2))
  have val: "v = 0" if "alloc_view (gm_backing m) x = Some v" for v
    using alloc_view_Some [OF win(1) that] by (auto simp: win(2))
  have "mapped_bytes (win_backing valloc) m = sum_list (map region_size (regions l))"
    by (cases l)
      (auto simp: mapped_bytes_def win_backing_def win_ranges_def win(2) add.commute)
  also have "unat \<dots> = unat sz"
    using lay unat_lt_pow [of sz] by (cases l) (auto simp: unat_add_no_wrap)
  then have "sum_list (map region_size (regions l)) = sz" by (simp add: word_unat_eq_iff)
  finally have "mapped_bytes (win_backing valloc) m = sz" .
  with dom val lay show ?thesis
    by (cases "alloc_view (gm_backing m) x") (auto simp: list_all_iff)
qed

theorem x86_memory_avoids_mmio_witness:
  "\<exists>l m. x86_ram_layout 0x1000 = Some l \<and> from_layout (win_backing (\<lambda>_. True)) l = Some m
     \<and> mapped_bytes (win_backing (\<lambda>_. True)) m = 0x1000"
proof -
  obtain l where l: "x86_ram_layout 0x1000 = Some l" "l = One \<lparr>region_base = 0, region_size = 0x1000\<rparr>"
    by (simp add: x86_ram_layout_def is_multiple_of_def RAM_PAGE_SIZE_def X86_RAM_LOW_END_def
        X86_MMIO_BASE_def X86_RAM_BASE_def)
  then obtain m where "from_layout (win_backing (\<lambda>_. True)) l = Some m"
    by (simp add: from_layout_def from_ranges_def win_backing_def win_new_def range_end_def
        checked_add_def)
  with x86_memory_avoids_mmio [OF l(1)] l(1) show ?thesis by blast
qed

end
